(* ===== verification/Prelude.thy ===== *)
theory Prelude
  imports Main "HOL-Library.Char_ord" "HOL-Library.Sublist" "HOL-Library.Word"
begin

unbundle bit_operations_syntax

text \<open>
  Shared vocabulary of the development: the error taxonomy of
  \<^verbatim>\<open>include/prowsetk/error.hpp\<close>, results as sums, the pieces of
  \<^verbatim>\<open>std::string\<close> and \<^verbatim>\<open><cctype>\<close> the components use, and the list facts their
  proofs share.  A \<open>std::string_view\<close> together with a cursor that only moves forward is
  represented by the suffix of the input that is still unread; \<open>find\<close>, \<open>substr\<close> and the
  scanning loops of the source become \<open>takeWhile\<close>, \<open>dropWhile\<close> and \<open>find_str\<close> on that suffix.
\<close>

named_theorems parse_len \<open>a parsing step never lengthens the unread input\<close>
named_theorems char_class \<open>definitions of character classes\<close>

section \<open>Errors\<close>

datatype error_code =
    Ok | InvalidArgument | InvalidUrl | ParseError | NotFound | Unsupported | NetworkError
  | Timeout | TooManyRedirects | ResourceLimit | SecurityViolation | PluginError | WasmError
  | LuaError | JavaScriptError | StorageError | IoError | Internal

fun error_code_to_string :: "error_code \<Rightarrow> string" where
  "error_code_to_string Ok = ''ok''"
| "error_code_to_string InvalidArgument = ''invalid_argument''"
| "error_code_to_string InvalidUrl = ''invalid_url''"
| "error_code_to_string ParseError = ''parse_error''"
| "error_code_to_string NotFound = ''not_found''"
| "error_code_to_string Unsupported = ''unsupported''"
| "error_code_to_string NetworkError = ''network_error''"
| "error_code_to_string Timeout = ''timeout''"
| "error_code_to_string TooManyRedirects = ''too_many_redirects''"
| "error_code_to_string ResourceLimit = ''resource_limit''"
| "error_code_to_string SecurityViolation = ''security_violation''"
| "error_code_to_string PluginError = ''plugin_error''"
| "error_code_to_string WasmError = ''wasm_error''"
| "error_code_to_string LuaError = ''lua_error''"
| "error_code_to_string JavaScriptError = ''javascript_error''"
| "error_code_to_string StorageError = ''storage_error''"
| "error_code_to_string IoError = ''io_error''"
| "error_code_to_string Internal = ''internal''"

datatype error = Error (code: error_code) (message: string)

type_synonym 'a result = "error + 'a"

definition rbind :: "'e + 'a \<Rightarrow> ('a \<Rightarrow> 'e + 'b) \<Rightarrow> 'e + 'b" where
  "rbind r f = (case r of Inl e \<Rightarrow> Inl e | Inr x \<Rightarrow> f x)"

lemma rbind_simps [simp]: "rbind (Inl e) f = Inl e" "rbind (Inr x) f = f x"
  by (simp_all add: rbind_def)

lemma rbind_Inr_iff: "rbind r f = Inr y \<longleftrightarrow> (\<exists>x. r = Inr x \<and> f x = Inr y)"
  by (cases r) simp_all

lemma rbind_cong [fundef_cong]:
  "r = r' \<Longrightarrow> (\<And>x. r' = Inr x \<Longrightarrow> f x = f' x) \<Longrightarrow> rbind r f = rbind r' f'"
  by (cases r') simp_all

section \<open>Characters\<close>

text \<open>
  A \<open>char\<close> is one byte.  The comparisons of the source are all against ASCII bounds, where the
  signed and the unsigned reading of a byte agree.
\<close>

definition is_space :: "char \<Rightarrow> bool" where
  "is_space c \<longleftrightarrow> c = CHR '' '' \<or> c = CHR 0x09 \<or> c = CHR 0x0A \<or> c = CHR 0x0D \<or> c = CHR 0x0C"

text \<open>\<open>std::isspace\<close> in the C locale.\<close>

definition isspace :: "char \<Rightarrow> bool" where
  "isspace c \<longleftrightarrow> is_space c \<or> c = CHR 0x0B"

definition is_upper :: "char \<Rightarrow> bool" where
  "is_upper c \<longleftrightarrow> CHR ''A'' \<le> c \<and> c \<le> CHR ''Z''"

definition is_lower :: "char \<Rightarrow> bool" where
  "is_lower c \<longleftrightarrow> CHR ''a'' \<le> c \<and> c \<le> CHR ''z''"

definition is_digit :: "char \<Rightarrow> bool" where
  "is_digit c \<longleftrightarrow> CHR ''0'' \<le> c \<and> c \<le> CHR ''9''"

definition ascii_alpha :: "char \<Rightarrow> bool" where
  "ascii_alpha c \<longleftrightarrow> is_lower c \<or> is_upper c"

definition is_alnum :: "char \<Rightarrow> bool" where
  "is_alnum c \<longleftrightarrow> ascii_alpha c \<or> is_digit c"

declare is_space_def [char_class] is_upper_def [char_class] is_lower_def [char_class]
  is_digit_def [char_class] ascii_alpha_def [char_class] is_alnum_def [char_class]

definition byte :: "char \<Rightarrow> nat" where
  "byte c = of_char c"

definition lower_char :: "char \<Rightarrow> char" where
  "lower_char c = (if is_upper c then char_of (byte c + 32) else c)"

definition to_lower :: "string \<Rightarrow> string" where
  "to_lower s = map lower_char s"

lemma byte_less [simp]: "byte c < 256"
  by (simp add: byte_def)

lemma char_of_byte [simp]: "char_of (byte c) = c"
  by (simp add: byte_def)

lemma byte_char_of [simp]: "byte (char_of n) = n mod 256"
  by (simp add: byte_def)

lemma less_eq_byte: "c \<le> d \<longleftrightarrow> byte c \<le> byte d"
  by (simp add: byte_def less_eq_char_def)

lemma byte_inject [simp]: "byte c = byte d \<longleftrightarrow> c = d"
  by (metis char_of_byte)

lemma not_upper_lower_char [simp]: "\<not> is_upper (lower_char c)"
proof (cases "is_upper c")
  case True
  then have "65 \<le> byte c" and "byte c \<le> 90"
    by (simp_all add: is_upper_def less_eq_byte) (simp_all add: byte_def)
  then have "(byte c + 32) mod 256 = byte c + 32" by simp
  with True \<open>65 \<le> byte c\<close> show ?thesis
    by (simp add: lower_char_def is_upper_def less_eq_byte) (simp add: byte_def)
qed (simp add: lower_char_def)

lemma lower_char_id [simp]: "\<not> is_upper c \<Longrightarrow> lower_char c = c"
  by (simp add: lower_char_def)

lemma is_lower_lower_char: "is_upper c \<Longrightarrow> is_lower (lower_char c)"
proof -
  assume up: "is_upper c"
  then have "65 \<le> byte c" and "byte c \<le> 90"
    by (simp_all add: is_upper_def less_eq_byte) (simp_all add: byte_def)
  then have "(byte c + 32) mod 256 = byte c + 32" by simp
  with up \<open>65 \<le> byte c\<close> \<open>byte c \<le> 90\<close> show ?thesis
    by (simp add: lower_char_def is_lower_def less_eq_byte) (simp add: byte_def)
qed

lemma lower_char_eq_iff: "\<not> ascii_alpha d \<Longrightarrow> lower_char c = d \<longleftrightarrow> c = d"
  using is_lower_lower_char [of c] by (cases "is_upper c") (auto simp: ascii_alpha_def)

lemma ascii_alpha_lower_char [simp]: "ascii_alpha (lower_char c) = ascii_alpha c"
  using is_lower_lower_char [of c] by (cases "is_upper c") (auto simp: ascii_alpha_def)

lemma is_space_lower_char [simp]: "is_space (lower_char c) = is_space c"
  by (simp add: is_space_def lower_char_eq_iff ascii_alpha_def is_lower_def is_upper_def)

lemma lower_char_idem [simp]: "lower_char (lower_char c) = lower_char c"
  by simp

lemma to_lower_idem [simp]: "to_lower (to_lower s) = to_lower s"
  by (simp add: to_lower_def)

lemma to_lower_simps [simp]:
  "to_lower [] = []" "to_lower (c # s) = lower_char c # to_lower s"
  "to_lower (s @ t) = to_lower s @ to_lower t" "length (to_lower s) = length s"
  "to_lower s = [] \<longleftrightarrow> s = []"
  by (simp_all add: to_lower_def)

lemma to_lower_id_iff: "to_lower s = s \<longleftrightarrow> (\<forall>c\<in>set s. \<not> is_upper c)"
proof (induction s)
  case (Cons c s)
  have "lower_char c = c \<longleftrightarrow> \<not> is_upper c"
    by (metis lower_char_id not_upper_lower_char)
  with Cons show ?case by simp
qed simp

section \<open>Searching and slicing\<close>

text \<open>\<open>s.find(pattern)\<close>: the offset of the first occurrence, \<open>None\<close> for \<open>npos\<close>.\<close>

fun find_str :: "string \<Rightarrow> string \<Rightarrow> nat option" where
  "find_str p [] = (if p = [] then Some 0 else None)"
| "find_str p (c # s) = (if prefix p (c # s) then Some 0 else map_option Suc (find_str p s))"

definition find_char :: "char \<Rightarrow> string \<Rightarrow> nat option" where
  "find_char c s =
     (let n = length (takeWhile (\<lambda>d. d \<noteq> c) s) in if n < length s then Some n else None)"

text \<open>\<open>s.find_last_of(c)\<close>: the offset of the last occurrence of one character.\<close>

definition find_last_char :: "char \<Rightarrow> string \<Rightarrow> nat option" where
  "find_last_char c s =
     (let n = length (takeWhile (\<lambda>d. d \<noteq> c) (rev s))
      in if n < length s then Some (length s - Suc n) else None)"

lemma hd_to_lower [simp]: "s \<noteq> [] \<Longrightarrow> hd (to_lower s) = lower_char (hd s)"
  by (cases s) simp_all

lemma set_to_lower [simp]: "set (to_lower s) = lower_char ` set s"
  by (simp add: to_lower_def)

lemma find_str_Some:
  "find_str p s = Some n \<Longrightarrow> n + length p \<le> length s \<and> take (length p) (drop n s) = p"
proof (induction p s arbitrary: n rule: find_str.induct)
  case (2 p c s)
  show ?case
  proof (cases "prefix p (c # s)")
    case True
    with "2.prems" have "n = 0" by simp
    with True prefix_length_le [OF True] show ?thesis
      by (auto simp: prefix_def)
  next
    case False
    with "2.prems" obtain m where "find_str p s = Some m" "n = Suc m" by auto
    with "2.IH" [OF False] show ?thesis by auto
  qed
qed (auto split: if_splits)

lemma find_str_append: "find_str p s = Some n \<Longrightarrow> find_str p (s @ t) = Some n"
proof (induction p s arbitrary: n rule: find_str.induct)
  case (1 p)
  then have "p = []" "n = 0" by (auto split: if_splits)
  then show ?case by (cases t) auto
next
  case (2 p c s)
  show ?case
  proof (cases "prefix p (c # s)")
    case True
    then have "prefix p (c # s @ t)" by (metis append_Cons prefix_prefix)
    with True "2.prems" show ?thesis by simp
  next
    case False
    then obtain m where m: "find_str p s = Some m" "n = Suc m" using "2.prems" by auto
    have "length p \<le> length (c # s)" using find_str_Some [OF m(1)] by simp
    then have "\<not> prefix p (c # s @ t)"
      using False by (metis append_Cons prefix_append prefix_length_prefix prefix_order.refl)
    with False m "2.IH" [OF False m(1)] show ?thesis by simp
  qed
qed

text \<open>\<open>s.find(pattern, pos)\<close>.\<close>

definition find_from :: "string \<Rightarrow> string \<Rightarrow> nat \<Rightarrow> nat option" where
  "find_from p s pos = (if pos \<le> length s then map_option ((+) pos) (find_str p (drop pos s)) else None)"

lemma find_from_Some:
  "find_from p s pos = Some n \<Longrightarrow> pos \<le> n \<and> n + length p \<le> length s"
  by (auto simp: find_from_def dest!: find_str_Some split: if_splits)

lemma find_char_None_iff: "find_char c s = None \<longleftrightarrow> c \<notin> set s"
proof -
  have "length (takeWhile (\<lambda>d. d \<noteq> c) s) < length s \<longleftrightarrow> c \<in> set s"
    by (induction s) auto
  then show ?thesis by (simp add: find_char_def Let_def)
qed

lemma find_char_append [simp]:
  "c \<notin> set s \<Longrightarrow> find_char c (s @ c # t) = Some (length s)"
  by (simp add: find_char_def Let_def takeWhile_append)

lemma find_char_Some:
  assumes "find_char c s = Some n"
  shows "n < length s" "s = take n s @ c # drop (Suc n) s" "c \<notin> set (take n s)"
proof -
  have n: "n = length (takeWhile (\<lambda>d. d \<noteq> c) s)" and lt: "n < length s"
    using assms by (auto simp: find_char_def Let_def split: if_splits)
  show "n < length s" by (rule lt)
  have tk: "take n s = takeWhile (\<lambda>d. d \<noteq> c) s"
    by (metis n takeWhile_eq_take)
  have "s ! n = c"
    using nth_length_takeWhile [of "\<lambda>d. d \<noteq> c" s] n lt by auto
  then show "s = take n s @ c # drop (Suc n) s"
    using id_take_nth_drop [OF lt] by simp
  show "c \<notin> set (take n s)"
    by (simp add: tk) (auto dest: set_takeWhileD)
qed

lemma find_last_char_append: "c \<notin> set b \<Longrightarrow> find_last_char c (a @ c # b) = Some (length a)"
  by (simp add: find_last_char_def Let_def takeWhile_append)

lemma find_last_char_none: "c \<notin> set a \<Longrightarrow> find_last_char c a = None"
proof -
  assume "c \<notin> set a"
  then have "takeWhile (\<lambda>d. d \<noteq> c) (rev a) = rev a" by (intro takeWhile_eq_all_conv [THEN iffD2]) auto
  then show ?thesis by (simp add: find_last_char_def Let_def del: takeWhile_eq_all_conv)
qed

section \<open>Scanning loops\<close>

declare dropWhile_eq_Nil_conv [simp del] takeWhile_eq_Nil_iff [simp del]

lemma length_dropWhile_le_trans [parse_len]:
  "length s \<le> n \<Longrightarrow> length (dropWhile P s) \<le> n"
  using length_dropWhile_le [of P s] by simp

lemma length_dropWhile_less_trans [parse_len]:
  "length s < n \<Longrightarrow> length (dropWhile P s) < n"
  using length_dropWhile_le [of P s] by simp

lemma dropWhile_decreases:
  "takeWhile P s \<noteq> [] \<Longrightarrow> length (dropWhile P s) < length s"
  by (cases s) (auto simp: le_imp_less_Suc length_dropWhile_le split: if_splits)

lemma takeWhile_all_append: "(\<And>c. c \<in> set s \<Longrightarrow> P c) \<Longrightarrow> takeWhile P (s @ t) = s @ takeWhile P t"
  by simp

lemma dropWhile_all [simp]: "(\<And>c. c \<in> set s \<Longrightarrow> P c) \<Longrightarrow> dropWhile P s = []"
  by (simp add: dropWhile_eq_Nil_conv)

lemma takeWhile_stop [simp]: "(\<And>c. c \<in> set s \<Longrightarrow> P c) \<Longrightarrow> \<not> P x \<Longrightarrow> takeWhile P (s @ x # t) = s"
  by (simp add: takeWhile_append)

lemma dropWhile_stop [simp]: "(\<And>c. c \<in> set s \<Longrightarrow> P c) \<Longrightarrow> \<not> P x \<Longrightarrow> dropWhile P (s @ x # t) = x # t"
  by (simp add: dropWhile_append)

lemma dropWhile_head_false: "dropWhile P s = x # t \<Longrightarrow> \<not> P x"
  by (metis hd_dropWhile list.distinct(1) list.sel(1))

end
