(* ===== verification/Utf8.thy ===== *)
theory Utf8
  imports Prelude
begin

text \<open>
  UTF-8 encoding of code points.  The source has the same encoder three times (entity decoder,
  selector escapes, JSON strings), each as shifts and masks of a \<open>uint32_t\<close>.  This theory holds
  the arithmetic reading \<open>utf8\<close> they are all compared with and the lemmas that translate the
  bit operations on \<open>32 word\<close> into division and remainder.
\<close>

type_synonym u32 = "32 word"

text \<open>\<open>static_cast<char>\<close> of a \<open>uint32_t\<close> keeps the low byte.\<close>

definition to_char :: "u32 \<Rightarrow> char" where
  "to_char w = char_of (unat w)"

definition utf8 :: "nat \<Rightarrow> string" where
  "utf8 cp =
     (if cp < 0x80 then [char_of cp]
      else if cp < 0x800 then [char_of (0xc0 + cp div 64), char_of (0x80 + cp mod 64)]
      else if cp < 0x10000 then
        [char_of (0xe0 + cp div 4096), char_of (0x80 + cp div 64 mod 64), char_of (0x80 + cp mod 64)]
      else
        [char_of (0xf0 + cp div 262144), char_of (0x80 + cp div 4096 mod 64),
         char_of (0x80 + cp div 64 mod 64), char_of (0x80 + cp mod 64)])"

text \<open>A Unicode scalar value: a code point that is not a surrogate.\<close>

definition scalar :: "nat \<Rightarrow> bool" where
  "scalar cp \<longleftrightarrow> cp \<le> 0x10ffff \<and> \<not> (0xd800 \<le> cp \<and> cp \<le> 0xdfff)"

lemma utf8_nonempty [simp]: "utf8 cp \<noteq> []"
  by (simp add: utf8_def)

lemma or_disjoint_nat:
  assumes "(x::nat) < 2 ^ n"
  shows "(m * 2 ^ n) OR x = m * 2 ^ n + x"
proof -
  have "(m * 2 ^ n) AND x = 0"
  proof (rule bit_eqI)
    fix k
    show "bit ((m * 2 ^ n) AND x) k \<longleftrightarrow> bit 0 k"
    proof (cases "k < n")
      case True
      then have "\<not> bit (m * 2 ^ n) k"
        by (simp add: bit_push_bit_iff flip: push_bit_eq_mult)
      then show ?thesis by (simp add: bit_and_iff)
    next
      case False
      have "x = take_bit n x" using assms by (simp add: take_bit_nat_eq_self)
      then have "\<not> bit x k" using False by (metis bit_take_bit_iff)
      then show ?thesis by (simp add: bit_and_iff)
    qed
  qed
  then show ?thesis by (simp add: disjunctive_add_eq_or)
qed

lemma or_c0 [simp]: "(x::nat) < 64 \<Longrightarrow> 192 OR x = 192 + x"
  using or_disjoint_nat [of x 6 3] by simp

lemma or_80 [simp]: "(x::nat) < 64 \<Longrightarrow> 128 OR x = 128 + x"
  using or_disjoint_nat [of x 6 2] by simp

lemma or_e0 [simp]: "(x::nat) < 32 \<Longrightarrow> 224 OR x = 224 + x"
  using or_disjoint_nat [of x 5 7] by simp

lemma or_f0 [simp]: "(x::nat) < 16 \<Longrightarrow> 240 OR x = 240 + x"
  using or_disjoint_nat [of x 4 15] by simp

lemma and_63_nat [simp]: "(x::nat) AND 63 = x mod 64"
  using take_bit_eq_mask [of 6 x] by (simp add: take_bit_eq_mod mask_eq_exp_minus_1)

text \<open>A continuation byte.\<close>

lemma continuation_byte: "byte c AND 0xc0 = 0x80 \<longleftrightarrow> 128 \<le> byte c \<and> byte c < 192"
proof -
  let ?q = "byte c div 64"
  have mask: "x AND push_bit 6 m = push_bit 6 (drop_bit 6 x AND m)" for x m :: nat
    by (rule bit_eqI) (auto simp: bit_and_iff bit_push_bit_iff bit_drop_bit_eq)
  have "byte c AND 192 = push_bit 6 (drop_bit 6 (byte c) AND 3)" using mask [of "byte c" 3] by simp
  then have "byte c AND 192 = 64 * (?q AND 3)" by (simp add: push_bit_eq_mult drop_bit_eq_div)
  moreover have "?q < 4" using byte_less [of c] by (simp add: less_mult_imp_div_less)
  then have "?q \<in> {0, 1, 2, 3}" by auto
  then have "?q AND 3 = ?q" by (elim insertE) simp_all
  ultimately have "byte c AND 192 = 128 \<longleftrightarrow> ?q = 2" by simp
  then show ?thesis by auto
qed

lemma unat_or32 [simp]: "unat ((a::u32) OR b) = unat a OR unat b"
  by (simp add: unsigned_or_eq)

lemma unat_and32 [simp]: "unat ((a::u32) AND b) = unat a AND unat b"
  by (simp add: unsigned_and_eq)

lemma unat_drop_bit32 [simp]: "unat (drop_bit n (a::u32)) = unat a div 2 ^ n"
proof -
  have "take_bit 32 (unat a) = unat a"
    using unsigned_less [of a, where ?'a = nat] by (simp add: take_bit_nat_eq_self)
  then have "unat (drop_bit n a) = drop_bit n (unat a)"
    by (simp only: unsigned_drop_bit_eq) simp
  then show ?thesis by (simp only: drop_bit_eq_div)
qed

lemma unat32_numeral_less:
  "(a::u32) < numeral k \<longleftrightarrow> unat a < unat (numeral k :: u32)"
  by (simp add: word_less_nat_alt)

end
