(* ===== verification/Html_Syntax.thy ===== *)
theory Html_Syntax
  imports Utf8
begin

text \<open>
  The value-only syntax layer of Flatworm: \<^verbatim>\<open>html_model.hpp\<close> (attributes and tokens),
  \<^verbatim>\<open>html_syntax.cpp\<close> (element classes) and \<^verbatim>\<open>html_entities.cpp\<close> (character references).
\<close>

record attribute =
  attr_name :: string
  attr_value :: string

datatype token_kind = EndToken | TextToken | CommentToken | DoctypeToken | StartTag | EndTag

record html_token =
  tok_kind :: token_kind
  tok_data :: string
  tok_attributes :: "attribute list"

definition is_void_element :: "string \<Rightarrow> bool" where
  "is_void_element name \<longleftrightarrow>
     List.member [''area'', ''base'', ''br'', ''col'', ''embed'', ''hr'', ''img'', ''input'',
       ''link'', ''meta'', ''param'', ''source'', ''track'', ''wbr''] name"

definition is_raw_text_element :: "string \<Rightarrow> bool" where
  "is_raw_text_element name \<longleftrightarrow> name = ''script'' \<or> name = ''style''"

definition is_rcdata_element :: "string \<Rightarrow> bool" where
  "is_rcdata_element name \<longleftrightarrow> name = ''textarea'' \<or> name = ''title''"

section \<open>Character references\<close>

definition named_entities :: "(string \<times> string) list" where
  "named_entities =
     [(''amp'', ''&''), (''lt'', ''<''), (''gt'', ''>''),
      (''quot'', [CHR 0x22]), (''apos'', [CHR 0x27]), (''nbsp'', [CHR 0xC2, CHR 0xA0]),
      (''copy'', [CHR 0xC2, CHR 0xA9]), (''reg'', [CHR 0xC2, CHR 0xAE]),
      (''hellip'', [CHR 0xE2, CHR 0x80, CHR 0xA6]),
      (''mdash'', [CHR 0xE2, CHR 0x80, CHR 0x94]), (''ndash'', [CHR 0xE2, CHR 0x80, CHR 0x93]),
      (''laquo'', [CHR 0xC2, CHR 0xAB]), (''raquo'', [CHR 0xC2, CHR 0xBB]),
      (''trade'', [CHR 0xE2, CHR 0x84, CHR 0xA2]), (''deg'', [CHR 0xC2, CHR 0xB0])]"

definition append_utf8 :: "string \<Rightarrow> u32 \<Rightarrow> string" where
  "append_utf8 out cp =
     (if cp < 0x80 then out @ [to_char cp]
      else if cp < 0x800 then
        out @ [to_char (0xc0 OR drop_bit 6 cp)] @ [to_char (0x80 OR (cp AND 63))]
      else if cp < 0x10000 then
        out @ [to_char (0xe0 OR drop_bit 12 cp)] @ [to_char (0x80 OR (drop_bit 6 cp AND 63))]
          @ [to_char (0x80 OR (cp AND 63))]
      else
        out @ [to_char (0xf0 OR drop_bit 18 cp)] @ [to_char (0x80 OR (drop_bit 12 cp AND 63))]
          @ [to_char (0x80 OR (drop_bit 6 cp AND 63))] @ [to_char (0x80 OR (cp AND 63))])"

text \<open>The value of one digit of a numeric reference; 255 for a character that is no digit.\<close>

definition ref_digit :: "char \<Rightarrow> u32" where
  "ref_digit c =
     (if CHR ''0'' \<le> c \<and> c \<le> CHR ''9'' then of_nat (byte c - byte (CHR ''0''))
      else if CHR ''a'' \<le> c \<and> c \<le> CHR ''f'' then of_nat (byte c - byte (CHR ''a'') + 10)
      else if CHR ''A'' \<le> c \<and> c \<le> CHR ''F'' then of_nat (byte c - byte (CHR ''A'') + 10)
      else 255)"

text \<open>
  The digit loop: the accumulated code point, saturating above \<open>0x10ffff\<close>, and the unread rest.
\<close>

fun read_digits :: "u32 \<Rightarrow> u32 \<Rightarrow> string \<Rightarrow> u32 \<times> string" where
  "read_digits base cp [] = (cp, [])"
| "read_digits base cp (c # s) =
     (if ref_digit c \<ge> base then (cp, c # s)
      else read_digits base
             (if cp > 0x10ffff div base then 0x110000 else cp * base + ref_digit c) s)"

definition c1_table :: "u32 list" where
  "c1_table =
     [0x20ac, 0x81, 0x201a, 0x192, 0x201e, 0x2026, 0x2020, 0x2021,
      0x2c6, 0x2030, 0x160, 0x2039, 0x152, 0x8d, 0x17d, 0x8f,
      0x90, 0x2018, 0x2019, 0x201c, 0x201d, 0x2022, 0x2013, 0x2014,
      0x2dc, 0x2122, 0x161, 0x203a, 0x153, 0x9d, 0x17e, 0x178]"

definition fix_codepoint :: "u32 \<Rightarrow> u32" where
  "fix_codepoint cp =
     (if cp = 0 \<or> cp > 0x10ffff \<or> (cp \<ge> 0xd800 \<and> cp \<le> 0xdfff) then 0xfffd
      else if cp \<ge> 0x80 \<and> cp \<le> 0x9f then c1_table ! unat (cp - 0x80)
      else cp)"

text \<open>
  One step of the decoding loop at an ampersand; \<open>s\<close> is what follows the ampersand.  \<open>None\<close>
  when no reference is recognised, otherwise the decoded bytes and the rest of the input.
\<close>

definition ref_base :: "string \<Rightarrow> u32 \<times> string" where
  "ref_base s =
     (case s of
        c # t \<Rightarrow> if c = CHR ''x'' \<or> c = CHR ''X'' then (16, t) else (10, s)
      | [] \<Rightarrow> (10, s))"

definition numeric_reference :: "string \<Rightarrow> (string \<times> string) option" where
  "numeric_reference s =
     (let (base, s1) = ref_base s;
          (cp, s2) = read_digits base 0 s1
      in if length s2 = length s1 then None
         else let s3 = (case s2 of c # t \<Rightarrow> if c = CHR '';'' then t else s2 | [] \<Rightarrow> s2)
              in Some (append_utf8 [] (fix_codepoint cp), s3))"

definition named_reference :: "string \<Rightarrow> (string \<times> string) option" where
  "named_reference s =
     (let tail = take 12 s in
      case find_char (CHR '';'') tail of
        None \<Rightarrow> None
      | Some n \<Rightarrow> (case map_of named_entities (take n tail) of
                    None \<Rightarrow> None
                  | Some v \<Rightarrow> Some (v, drop (n + 1) s)))"

definition reference :: "string \<Rightarrow> (string \<times> string) option" where
  "reference s = (case s of c # t \<Rightarrow> if c = CHR ''#'' then numeric_reference t else named_reference s
                  | [] \<Rightarrow> named_reference s)"

lemma read_digits_length [parse_len]: "length (snd (read_digits b cp s)) \<le> length s"
  by (induction b cp s rule: read_digits.induct) auto

lemma numeric_reference_length:
  assumes "numeric_reference s = Some (v, t)"
  shows "length t \<le> length s"
proof -
  obtain b s1 where s1: "ref_base s = (b, s1)" by fastforce
  then have "length s1 \<le> length s" by (auto simp: ref_base_def split: list.splits if_splits)
  moreover have "length t \<le> length (snd (read_digits b 0 s1))"
    using assms s1 by (auto simp: numeric_reference_def Let_def split: prod.splits if_splits list.splits)
  ultimately show ?thesis
    using read_digits_length [of b 0 s1] by linarith
qed

lemma named_reference_length: "named_reference s = Some (v, t) \<Longrightarrow> length t \<le> length s"
  by (auto simp: named_reference_def Let_def split: option.splits)

lemma reference_length: "reference s = Some (v, t) \<Longrightarrow> length t \<le> length s"
  by (auto simp: reference_def split: list.splits if_splits
      dest: numeric_reference_length named_reference_length)

function decode_entities :: "string \<Rightarrow> string" where
  "decode_entities s =
     (case s of
        [] \<Rightarrow> []
      | c # t \<Rightarrow>
          if c \<noteq> CHR ''&'' then c # decode_entities t
          else (case reference t of
                  Some (v, rest) \<Rightarrow> v @ decode_entities rest
                | None \<Rightarrow> c # decode_entities t))"
  by pat_completeness auto
termination
  by (relation "measure length") (auto dest: reference_length simp: le_imp_less_Suc)

declare decode_entities.simps [simp del]

lemma decode_entities_simps [simp]:
  "decode_entities [] = []"
  "c \<noteq> CHR ''&'' \<Longrightarrow> decode_entities (c # s) = c # decode_entities s"
  "reference s = Some (v, t) \<Longrightarrow> decode_entities (CHR ''&'' # s) = v @ decode_entities t"
  "reference s = None \<Longrightarrow> decode_entities (CHR ''&'' # s) = CHR ''&'' # decode_entities s"
  by (subst decode_entities.simps; simp)+

section \<open>Numeric references do not overflow\<close>

text \<open>
  The value a digit sequence denotes over the natural numbers, the reference for the saturating
  32-bit loop.
\<close>

definition digits_value :: "nat \<Rightarrow> nat \<Rightarrow> string \<Rightarrow> nat" where
  "digits_value base acc ds = foldl (\<lambda>a c. a * base + unat (ref_digit c)) acc ds"

lemma digits_value_simps [simp]:
  "digits_value b a [] = a"
  "digits_value b a (c # s) = digits_value b (a * b + unat (ref_digit c)) s"
  by (simp_all add: digits_value_def)

lemma digits_value_ge: "0 < b \<Longrightarrow> a \<le> digits_value b a s"
proof (induction s arbitrary: a)
  case (Cons c s)
  have "a \<le> a * b + unat (ref_digit c)" using Cons.prems by (simp add: trans_le_add1)
  also have "\<dots> \<le> digits_value b (a * b + unat (ref_digit c)) s" by (rule Cons.IH [OF Cons.prems])
  finally show ?case by simp
qed simp

lemma unat_mult_add_small:
  assumes "unat (cp::u32) * unat base + unat d < 2 ^ 32"
  shows "unat (cp * base + d) = unat cp * unat base + unat d"
proof -
  have "unat (cp * base) = unat cp * unat base"
    using assms by (simp add: unat_word_ariths)
  then show ?thesis using assms by (simp add: unat_word_ariths)
qed

text \<open>
  One iteration keeps the accumulator exact up to the limit and above the limit once the exact
  value is: \<open>agree n cp\<close> relates the exact value \<open>n\<close> to the machine word \<open>cp\<close>.
\<close>

definition agree :: "nat \<Rightarrow> u32 \<Rightarrow> bool" where
  "agree n cp \<longleftrightarrow> (if n \<le> 0x10ffff then unat cp = n else 0x10ffff < unat cp \<and> unat cp \<le> 0x110010)"

lemma agree_step:
  assumes "agree n cp" and "base = 10 \<or> base = 16" and "ref_digit c < base"
  shows "agree (n * unat base + unat (ref_digit c))
           (if cp > 0x10ffff div base then 0x110000 else cp * base + ref_digit c)"
proof -
  have b: "unat base = 10 \<or> unat base = 16" using assms(2) by auto
  have d: "unat (ref_digit c) < unat base" using assms(3) by (simp add: word_less_nat_alt)
  have lim: "unat (0x10ffff div base) = 0x10ffff div unat base"
    by (simp add: unat_div)
  show ?thesis
  proof (cases "cp > 0x10ffff div base")
    case True
    then have "0x10ffff div unat base < unat cp" by (simp add: word_less_nat_alt lim)
    then have "0x10ffff < n * unat base"
      using assms(1) b by (auto simp: agree_def split: if_splits)
    then show ?thesis using True by (simp add: agree_def)
  next
    case False
    then have le: "unat cp \<le> 0x10ffff div unat base"
      by (metis lim not_le word_less_nat_alt)
    then have small: "unat cp * unat base + unat (ref_digit c) < 2 ^ 32" and n: "unat cp = n"
      using assms(1) b d by (auto simp: agree_def split: if_splits)
    have "unat cp * unat base \<le> 0x10ffff" using le b by auto
    with unat_mult_add_small [OF small] False n b d show ?thesis
      by (auto simp: agree_def)
  qed
qed

lemma read_digits_agree:
  assumes "agree n cp" and "base = 10 \<or> base = 16"
  shows "agree (digits_value (unat base) n (takeWhile (\<lambda>c. ref_digit c < base) s))
           (fst (read_digits base cp s))"
  using assms
proof (induction base cp s arbitrary: n rule: read_digits.induct)
  case (2 base cp c s)
  show ?case
  proof (cases "ref_digit c < base")
    case True
    with agree_step [OF "2.prems" True] "2.IH" [OF _ agree_step [OF "2.prems" True] "2.prems"(2)]
    show ?thesis by (auto dest: leD)
  next
    case False
    with "2.prems" show ?thesis by (auto simp: not_less)
  qed
qed simp

lemma read_digits_rest: "snd (read_digits base cp s) = dropWhile (\<lambda>c. ref_digit c < base) s"
  by (induction base cp s rule: read_digits.induct) (auto simp: not_le)

lemma append_utf8_utf8:
  assumes "cp \<le> 0x10ffff"
  shows "append_utf8 out cp = out @ utf8 (unat cp)"
proof -
  have b: "unat cp \<le> 0x10ffff" using assms by (simp add: word_le_nat_alt)
  then have "unat cp div 262144 < 16" by auto
  moreover have "unat cp < 0x800 \<Longrightarrow> unat cp div 64 < 64" "unat cp < 0x10000 \<Longrightarrow> unat cp div 4096 < 32"
    by auto
  ultimately show ?thesis
    by (simp add: append_utf8_def utf8_def to_char_def word_less_nat_alt)
qed

lemma fix_codepoint_cases:
  "fix_codepoint cp = 0xfffd \<or> fix_codepoint cp = cp \<and> 0 < unat cp \<and> scalar (unat cp) \<or>
   fix_codepoint cp \<in> set c1_table"
proof -
  have "unat (cp - 0x80) < length c1_table" if "cp \<ge> 0x80" "cp \<le> 0x9f"
    using that by (simp add: c1_table_def unat_sub word_le_nat_alt)
  then show ?thesis
    by (auto simp: fix_codepoint_def scalar_def word_less_nat_alt word_le_nat_alt unat_gt_0)
qed

lemma fix_codepoint_id:
  assumes "0 < unat cp" and "scalar (unat cp)" and "\<not> (0x80 \<le> unat cp \<and> unat cp \<le> 0x9f)"
  shows "fix_codepoint cp = cp"
proof -
  have "cp \<noteq> 0" using assms(1) by auto
  moreover have "\<not> cp > 0x10ffff" "\<not> (cp \<ge> 0xd800 \<and> cp \<le> 0xdfff)"
    using assms(2) by (simp_all add: scalar_def word_less_nat_alt word_le_nat_alt)
  moreover have "\<not> (cp \<ge> 0x80 \<and> cp \<le> 0x9f)"
    using assms(3) by (simp add: word_le_nat_alt)
  ultimately show ?thesis by (simp only: fix_codepoint_def simp_thms if_False)
qed

lemma c1_table_scalar: "\<forall>w\<in>set c1_table. 0 < unat w \<and> scalar (unat w)"
  by (simp add: c1_table_def scalar_def)

lemma fix_codepoint_scalar: "0 < unat (fix_codepoint cp) \<and> scalar (unat (fix_codepoint cp))"
  using fix_codepoint_cases [of cp] c1_table_scalar by (auto simp: scalar_def)

text \<open>
  Every numeric reference, however long, decodes to the UTF-8 bytes of one non-zero Unicode
  scalar value; when the digits denote a scalar outside the C1 range that value is the one
  encoded, and the digits consumed are exactly the maximal run of digits of the base.
\<close>

theorem numeric_reference_correct:
  assumes "ref_base s = (base, ds @ rest)" and "ds \<noteq> []"
    and "\<forall>c\<in>set ds. ref_digit c < base" and "rest = [] \<or> base \<le> ref_digit (hd rest)"
  shows "\<exists>n. 0 < n \<and> scalar n \<and>
     numeric_reference s = Some (utf8 n, if rest \<noteq> [] \<and> hd rest = CHR '';'' then tl rest else rest) \<and>
     (let v = digits_value (unat base) 0 ds
      in 0 < v \<and> scalar v \<and> \<not> (0x80 \<le> v \<and> v \<le> 0x9f) \<longrightarrow> n = v)"
proof -
  have base: "base = 10 \<or> base = 16"
    using assms(1) by (auto simp: ref_base_def split: list.splits if_splits)
  have tw: "takeWhile (\<lambda>c. ref_digit c < base) (ds @ rest) = ds"
    using assms(3,4) by (cases rest) (auto simp: takeWhile_append not_less)
  have dw: "dropWhile (\<lambda>c. ref_digit c < base) (ds @ rest) = rest"
    using assms(3,4) by (cases rest) (auto simp: dropWhile_append not_less)
  obtain cp where rd: "read_digits base 0 (ds @ rest) = (cp, rest)"
    by (metis dw prod.collapse read_digits_rest)
  let ?n = "unat (fix_codepoint cp)" and ?v = "digits_value (unat base) 0 ds"
  have ag: "agree ?v cp"
    using read_digits_agree [of 0 0 base "ds @ rest"] base rd by (simp add: agree_def tw)
  have sc: "0 < ?n \<and> scalar ?n" by (rule fix_codepoint_scalar)
  then have "fix_codepoint cp \<le> 0x10ffff" by (simp add: scalar_def word_le_nat_alt)
  with assms(1,2) rd have eq: "numeric_reference s =
      Some (utf8 ?n, if rest \<noteq> [] \<and> hd rest = CHR '';'' then tl rest else rest)"
    by (cases rest) (auto simp: numeric_reference_def append_utf8_utf8)
  have "?n = ?v" if v: "0 < ?v" "scalar ?v" "\<not> (0x80 \<le> ?v \<and> ?v \<le> 0x9f)"
  proof -
    have "unat cp = ?v" using ag v(2) by (simp add: agree_def scalar_def)
    with v have "fix_codepoint cp = cp" by (intro fix_codepoint_id) simp_all
    then show ?thesis using \<open>unat cp = ?v\<close> by simp
  qed
  with sc eq show ?thesis unfolding Let_def by metis
qed

theorem numeric_reference_correct_witness:
  "numeric_reference ''x41;z'' = Some (utf8 0x41, ''z'')"
  using numeric_reference_correct [of "''x41;z''" 16 "''41''" "'';z''"]
  by (auto simp: ref_base_def ref_digit_def byte_def scalar_def Let_def)

end
