(* ===== verification/Interfaces.thy ===== *)
theory Interfaces
  imports Prelude
begin

text \<open>
  The contracts several components share, as locales.  Each is interpreted on the definitions of
  the component that provides it, and the lemmas proved here reach the properties through those
  interpretations:
  \<^item> \<open>escaping\<close>: a per-character escape and the decoder that undoes it (HTML text, HTML
    attributes, IML strings, JSON strings);
  \<^item> \<open>keyed_store\<close> and \<open>keyed_store_del\<close>: named entries that are overwritten in place (node
    attributes, capability sets, emitter registries);
  \<^item> \<open>codec\<close>: a prefix-free encoding with its reader (words, length-prefixed strings, VTD tokens,
    drawing commands), lifted to counted sequences;
  \<^item> \<open>token_source\<close>: a stream whose unread part shrinks until it is exhausted.
\<close>

section \<open>Escaping\<close>

locale escaping =
  fixes esc :: "char \<Rightarrow> string"
    and dec :: "string \<Rightarrow> string"
  assumes dec_Nil: "dec [] = []"
    and dec_esc: "dec (esc c @ s) = c # dec s"
begin

lemma dec_escape_append: "dec (concat (map esc s) @ t) = s @ dec t"
  by (induction s) (simp_all add: dec_esc)

lemma dec_escape: "dec (concat (map esc s)) = s"
  using dec_escape_append [of s "[]"] by (simp add: dec_Nil)

lemma escape_inj: "concat (map esc s) = concat (map esc t) \<longleftrightarrow> s = t"
  by (metis dec_escape)

end

section \<open>Keyed stores\<close>

locale keyed_store =
  fixes put :: "'k \<Rightarrow> 'v \<Rightarrow> 's \<Rightarrow> 's"
    and get :: "'k \<Rightarrow> 's \<Rightarrow> 'v option"
    and inv :: "'s \<Rightarrow> bool"
  assumes get_put_same: "get k (put k v s) = Some v"
    and get_put_other: "k \<noteq> k' \<Longrightarrow> get k (put k' v s) = get k s"
    and inv_put: "inv s \<Longrightarrow> inv (put k v s)"
begin

lemma get_put: "get k (put k' v s) = (if k = k' then Some v else get k s)"
  by (simp add: get_put_same get_put_other)

lemma put_put_same: "get k' (put k v (put k w s)) = get k' (put k v s)"
  by (simp add: get_put)

text \<open>After any sequence of writes a key holds the value written last.\<close>

lemma get_puts:
  "get k (fold (\<lambda>(k', v). put k' v) kvs s) =
     (case map_of (rev kvs) k of Some v \<Rightarrow> Some v | None \<Rightarrow> get k s)"
  by (induction kvs arbitrary: s)
     (auto simp: get_put map_add_def split: option.splits)

lemma inv_puts: "inv s \<Longrightarrow> inv (fold (\<lambda>(k', v). put k' v) kvs s)"
  by (induction kvs arbitrary: s) (auto intro: inv_put)

end

locale keyed_store_del = keyed_store put get inv
  for put :: "'k \<Rightarrow> 'v \<Rightarrow> 's \<Rightarrow> 's" and get :: "'k \<Rightarrow> 's \<Rightarrow> 'v option" and inv :: "'s \<Rightarrow> bool" +
  fixes del :: "'k \<Rightarrow> 's \<Rightarrow> 's"
  assumes get_del: "get k (del k' s) = (if k = k' then None else get k s)"
    and inv_del: "inv s \<Longrightarrow> inv (del k s)"
begin

lemma del_put: "get k' (del k (put k v s)) = get k' (del k s)"
  by (simp add: get_del get_put)

lemma get_after_del: "get k (del k s) = None"
  by (simp add: get_del)

end

section \<open>Prefix codecs\<close>

locale codec =
  fixes enc :: "'a \<Rightarrow> 'b list"
    and dec :: "'b list \<Rightarrow> ('a \<times> 'b list) option"
    and ok :: "'a \<Rightarrow> bool"
  assumes dec_enc: "ok x \<Longrightarrow> dec (enc x @ rest) = Some (x, rest)"
begin

fun dec_seq :: "nat \<Rightarrow> 'b list \<Rightarrow> ('a list \<times> 'b list) option" where
  "dec_seq 0 bs = Some ([], bs)"
| "dec_seq (Suc n) bs =
     (case dec bs of
        None \<Rightarrow> None
      | Some (x, rest) \<Rightarrow> map_option (\<lambda>(xs, r). (x # xs, r)) (dec_seq n rest))"

lemma dec_seq_enc:
  "list_all ok xs \<Longrightarrow> dec_seq (length xs) (concat (map enc xs) @ rest) = Some (xs, rest)"
  by (induction xs) (simp_all add: dec_enc)

lemma enc_inj: "ok x \<Longrightarrow> ok y \<Longrightarrow> enc x @ r = enc y @ r' \<Longrightarrow> x = y \<and> r = r'"
  by (metis dec_enc option.inject prod.inject)

end

section \<open>Token sources\<close>

locale token_source =
  fixes next_tok :: "'s \<Rightarrow> 't \<times> 's"
    and unread :: "'s \<Rightarrow> nat"
    and at_end :: "'t \<Rightarrow> bool"
  assumes end_iff: "at_end (fst (next_tok s)) \<longleftrightarrow> unread s = 0"
    and progress: "unread s \<noteq> 0 \<Longrightarrow> unread (snd (next_tok s)) < unread s"
begin

text \<open>All tokens up to the end, reading at most \<open>n\<close> of them.\<close>

fun tokens :: "nat \<Rightarrow> 's \<Rightarrow> 't list option" where
  "tokens 0 s = None"
| "tokens (Suc n) s =
     (if at_end (fst (next_tok s)) then Some []
      else map_option ((#) (fst (next_tok s))) (tokens n (snd (next_tok s))))"

lemma tokens_terminate: "unread s < n \<Longrightarrow> \<exists>ts. tokens n s = Some ts \<and> length ts \<le> unread s"
proof (induction n arbitrary: s)
  case (Suc n)
  show ?case
  proof (cases "unread s = 0")
    case True
    then show ?thesis by (simp add: end_iff)
  next
    case False
    from progress [OF False] Suc.prems have "unread (snd (next_tok s)) < n" by simp
    from Suc.IH [OF this] obtain ts where "tokens n (snd (next_tok s)) = Some ts"
      "length ts \<le> unread (snd (next_tok s))" by blast
    with False progress [OF False] show ?thesis by (auto simp: end_iff)
  qed
qed simp

lemma tokens_no_end: "tokens n s = Some ts \<Longrightarrow> t \<in> set ts \<Longrightarrow> \<not> at_end t"
  by (induction n arbitrary: s ts) (auto split: if_splits)

end

end
