(* ===== verification/Html_Tokenizer.thy ===== *)
theory Html_Tokenizer
  imports Html_Syntax Interfaces
begin

text \<open>
  \<^verbatim>\<open>html_tokenizer.cpp\<close>: the streaming tokenizer.  The pair \<open>(input_, position_)\<close> is the unread
  suffix \<open>tk_rest\<close>; \<open>tk_text_element\<close> is the raw-text or RCDATA element whose content is to be
  read next, empty when there is none.
\<close>

record tokenizer =
  tk_rest :: string
  tk_text_element :: string

definition html_tokenizer :: "string \<Rightarrow> tokenizer" where
  "html_tokenizer input = \<lparr>tk_rest = input, tk_text_element = []\<rparr>"

definition text_element :: "string \<Rightarrow> tokenizer \<Rightarrow> tokenizer" where
  "text_element name tk = tk\<lparr>tk_text_element := name\<rparr>"

definition mk_token :: "token_kind \<Rightarrow> string \<Rightarrow> attribute list \<Rightarrow> html_token" where
  "mk_token k d as = \<lparr>tok_kind = k, tok_data = d, tok_attributes = as\<rparr>"

lemma mk_token_sel [simp]:
  "tok_kind (mk_token k d as) = k" "tok_data (mk_token k d as) = d"
  "tok_attributes (mk_token k d as) = as"
  by (simp_all add: mk_token_def)

section \<open>Content of raw-text and RCDATA elements\<close>

text \<open>Whether what follows a \<open><\<close> is the end tag of the text element \<open>te\<close>.\<close>

definition closes_text :: "string \<Rightarrow> string \<Rightarrow> bool" where
  "closes_text te s \<longleftrightarrow>
     (case s of
        [] \<Rightarrow> False
      | d # r \<Rightarrow> length te < length r \<and> d = CHR ''/'' \<and> to_lower (take (length te) r) = te \<and>
          (let x = r ! length te in is_space x \<or> x = CHR ''/'' \<or> x = CHR ''>''))"

fun split_text :: "string \<Rightarrow> string \<Rightarrow> string \<times> string" where
  "split_text te [] = ([], [])"
| "split_text te (c # s) =
     (if c = CHR ''<'' \<and> closes_text te s then ([], c # s)
      else let (raw, rest) = split_text te s in (c # raw, rest))"

section \<open>Attributes\<close>

definition attr_name_char :: "char \<Rightarrow> bool" where
  "attr_name_char c \<longleftrightarrow> \<not> is_space c \<and> c \<noteq> CHR ''/'' \<and> c \<noteq> CHR ''>'' \<and> c \<noteq> CHR ''=''"

definition unquoted_char :: "char \<Rightarrow> bool" where
  "unquoted_char c \<longleftrightarrow> \<not> is_space c \<and> c \<noteq> CHR ''>''"

definition tag_name_char :: "char \<Rightarrow> bool" where
  "tag_name_char c \<longleftrightarrow> \<not> is_space c \<and> c \<noteq> CHR ''/'' \<and> c \<noteq> CHR ''>''"

text \<open>The value after an attribute name: empty without \<open>=\<close>, quoted, or unquoted.\<close>

definition read_value :: "string \<Rightarrow> string \<times> string" where
  "read_value s =
     (case dropWhile is_space s of
        [] \<Rightarrow> ([], [])
      | e # s1 \<Rightarrow>
          if e \<noteq> CHR ''='' then ([], e # s1)
          else (case dropWhile is_space s1 of
                  [] \<Rightarrow> ([], [])
                | q # s2 \<Rightarrow>
                    if q = CHR 0x27 \<or> q = CHR 0x22 then
                      (decode_entities (takeWhile (\<lambda>c. c \<noteq> q) s2), drop 1 (dropWhile (\<lambda>c. c \<noteq> q) s2))
                    else (decode_entities (takeWhile unquoted_char (q # s2)),
                          dropWhile unquoted_char (q # s2))))"

lemma read_value_length [parse_len]: "length (snd (read_value s)) \<le> length s"
proof -
  have 1: "length (dropWhile is_space s) \<le> length s" by (rule length_dropWhile_le)
  have 2: "length (dropWhile P t) \<le> length t" for P and t :: string by (rule length_dropWhile_le)
  show ?thesis
  proof (cases "dropWhile is_space s")
    case (Cons e s1)
    show ?thesis
    proof (cases "dropWhile is_space s1")
      case Nil
      with Cons 1 show ?thesis by (simp add: read_value_def)
    next
      case (Cons q s2)
      with \<open>dropWhile is_space s = e # s1\<close> 1 2 [of is_space s1] 2 [of "\<lambda>c. c \<noteq> q" s2]
        2 [of unquoted_char "q # s2"]
      show ?thesis by (auto simp: read_value_def)
    qed
  qed (simp add: read_value_def)
qed

text \<open>
  The attribute loop of a tag; \<open>seen\<close> is the set of names inserted so far, and the loop stops at
  the closing \<open>>\<close> or at the end of the input.
\<close>

function read_attributes ::
  "bool \<Rightarrow> string set \<Rightarrow> attribute list \<Rightarrow> string \<Rightarrow> attribute list \<times> string" where
  "read_attributes closing seen as s =
     (case s of
        [] \<Rightarrow> (as, [])
      | c # t \<Rightarrow>
          if c = CHR ''>'' then (as, s)
          else if is_space c \<or> c = CHR ''/'' then read_attributes closing seen as t
          else if takeWhile attr_name_char s = [] then read_attributes closing seen as t
          else let name = to_lower (takeWhile attr_name_char s);
                   (value, rest) = read_value (dropWhile attr_name_char s)
               in if \<not> closing \<and> name \<notin> seen
                  then read_attributes closing (insert name seen)
                         (as @ [\<lparr>attr_name = name, attr_value = value\<rparr>]) rest
                  else read_attributes closing seen as rest)"
  by pat_completeness auto
termination
proof (relation "measure (\<lambda>(closing, seen, as, s). length s)")
  fix c :: char and s t n v :: string and p :: "string \<times> string" and rest :: string
  assume s: "s = c # t" and tw: "takeWhile attr_name_char s \<noteq> []"
    and p: "p = read_value (dropWhile attr_name_char s)" "(v, rest) = p"
  have "length rest \<le> length (dropWhile attr_name_char s)"
    using p read_value_length [of "dropWhile attr_name_char s"] by (metis snd_conv)
  with dropWhile_decreases [OF tw] have *: "length rest < length s" by simp
  fix closing :: bool and seen :: "string set" and as as' :: "attribute list" and seen' :: "string set"
  from * show "((closing, seen', as', rest), closing, seen, as, s)
     \<in> measure (\<lambda>(closing, seen, as, s). length s)" by simp
  from * show "((closing, seen, as, rest), closing, seen, as, s)
     \<in> measure (\<lambda>(closing, seen, as, s). length s)" by simp
qed auto

declare read_attributes.simps [simp del]

lemma not_attr_name_char:
  "\<not> attr_name_char c \<longleftrightarrow> is_space c \<or> c = CHR ''/'' \<or> c = CHR ''>'' \<or> c = CHR ''=''"
  by (auto simp: attr_name_char_def)

lemma read_attributes_Nil [simp]: "read_attributes cl seen as [] = (as, [])"
  by (subst read_attributes.simps) simp

lemma read_attributes_stop [simp]:
  "read_attributes cl seen as (CHR ''>'' # t) = (as, CHR ''>'' # t)"
  by (subst read_attributes.simps) simp

lemma read_attributes_skip [simp]:
  "\<not> attr_name_char c \<Longrightarrow> c \<noteq> CHR ''>'' \<Longrightarrow>
   read_attributes cl seen as (c # t) = read_attributes cl seen as t"
  by (subst read_attributes.simps) simp

lemma read_attributes_attr:
  assumes "attr_name_char c" and "read_value (dropWhile attr_name_char (c # t)) = (v, rest)"
    and "n = to_lower (takeWhile attr_name_char (c # t))"
  shows "read_attributes cl seen as (c # t) =
    (if \<not> cl \<and> n \<notin> seen
     then read_attributes cl (insert n seen) (as @ [\<lparr>attr_name = n, attr_value = v\<rparr>]) rest
     else read_attributes cl seen as rest)"
  using assms by (subst read_attributes.simps) (simp add: attr_name_char_def Let_def)

text \<open>The induction principle of the loop, with its four kinds of step.\<close>

lemma read_attributes_induct [case_names Nil Stop Skip Attr]:
  assumes Nil: "\<And>cl seen as. P cl seen as []"
    and Stop: "\<And>cl seen as t. P cl seen as (CHR ''>'' # t)"
    and Skip: "\<And>cl seen as c t. \<not> attr_name_char c \<Longrightarrow> c \<noteq> CHR ''>'' \<Longrightarrow> P cl seen as t \<Longrightarrow>
      P cl seen as (c # t)"
    and Attr: "\<And>cl seen as c t n v rest. attr_name_char c \<Longrightarrow>
      read_value (dropWhile attr_name_char (c # t)) = (v, rest) \<Longrightarrow>
      n = to_lower (takeWhile attr_name_char (c # t)) \<Longrightarrow> length rest \<le> length t \<Longrightarrow>
      (if \<not> cl \<and> n \<notin> seen then P cl (insert n seen) (as @ [\<lparr>attr_name = n, attr_value = v\<rparr>]) rest
       else P cl seen as rest) \<Longrightarrow> P cl seen as (c # t)"
  shows "P cl seen as s"
proof (induction s arbitrary: seen as rule: length_induct)
  case (1 s)
  show ?case
  proof (cases s)
    case (Cons c t)
    consider "c = CHR ''>''" | "\<not> attr_name_char c" "c \<noteq> CHR ''>''" | "attr_name_char c" by blast
    then show ?thesis
    proof cases
      case 3
      obtain v rest where rv: "read_value (dropWhile attr_name_char (c # t)) = (v, rest)" by fastforce
      have "length rest \<le> length (dropWhile attr_name_char (c # t))"
        using read_value_length [of "dropWhile attr_name_char (c # t)"] rv by simp
      also have "\<dots> \<le> length t" using 3 length_dropWhile_le [of attr_name_char t] by simp
      finally have len: "length rest \<le> length t" .
      show ?thesis unfolding Cons
        by (rule Attr [OF 3 rv refl len]) (use 1 len Cons in auto)
    qed (use 1 Cons Stop Skip in auto)
  qed (simp add: Nil)
qed

section \<open>The next token\<close>

definition next_comment :: "string \<Rightarrow> html_token \<times> string" where
  "next_comment s =
     (let body = drop 4 s in
      case find_str ''-->'' body of
        None \<Rightarrow> (mk_token CommentToken body [], [])
      | Some n \<Rightarrow> (mk_token CommentToken (take n body) [], drop (n + 3) body))"

definition next_declaration :: "string \<Rightarrow> html_token \<times> string" where
  "next_declaration s =
     (let doctype = (to_lower (take 7 (drop 2 s)) = ''doctype'');
          body = drop (if doctype then 2 else 1) s
      in (mk_token (if doctype then DoctypeToken else CommentToken)
            (takeWhile (\<lambda>c. c \<noteq> CHR ''>'') body) [],
          drop 1 (dropWhile (\<lambda>c. c \<noteq> CHR ''>'') body)))"

definition next_tag :: "string \<Rightarrow> html_token \<times> string" where
  "next_tag s =
     (let closing = prefix ''</'' s;
          body = drop (if closing then 2 else 1) s
      in if body = [] \<or> \<not> ascii_alpha (hd body) then (mk_token TextToken ''<'' [], tl s)
         else let name = to_lower (takeWhile tag_name_char body);
                  (as, rest) = read_attributes closing {} [] (dropWhile tag_name_char body)
              in (mk_token (if closing then EndTag else StartTag) name as, drop 1 rest))"

definition next_markup :: "string \<Rightarrow> html_token \<times> string" where
  "next_markup s =
     (if hd s \<noteq> CHR ''<'' then
        (mk_token TextToken (decode_entities (takeWhile (\<lambda>c. c \<noteq> CHR ''<'') s)) [],
         dropWhile (\<lambda>c. c \<noteq> CHR ''<'') s)
      else if prefix ''<!--'' s then next_comment s
      else if prefix ''<!'' s \<or> prefix ''<?'' s then next_declaration s
      else next_tag s)"

text \<open>\<open>HtmlTokenizer::next\<close>.\<close>

definition next_token :: "tokenizer \<Rightarrow> html_token \<times> tokenizer" where
  "next_token tk =
     (if tk_rest tk = [] then (mk_token EndToken [] [], tk)
      else if tk_text_element tk \<noteq> [] then
        (let (raw, rest) = split_text (tk_text_element tk) (tk_rest tk);
             data = (if is_rcdata_element (tk_text_element tk) then decode_entities raw else raw);
             tk' = \<lparr>tk_rest = rest, tk_text_element = []\<rparr>
         in if data \<noteq> [] then (mk_token TextToken data [], tk')
            else if rest = [] then (mk_token EndToken [] [], tk')
            else let (tok, rest') = next_markup rest in (tok, tk'\<lparr>tk_rest := rest'\<rparr>))
      else let (tok, rest') = next_markup (tk_rest tk) in (tok, tk\<lparr>tk_rest := rest'\<rparr>))"

section \<open>Progress\<close>

lemma split_text_append: "split_text te s = (raw, rest) \<Longrightarrow> s = raw @ rest"
  by (induction te s arbitrary: raw rule: split_text.induct) (auto split: if_splits prod.splits)

lemma reference_nonempty:
  assumes "reference s = Some (v, t)" shows "v \<noteq> []"
proof -
  have "append_utf8 [] cp \<noteq> []" for cp by (simp add: append_utf8_def)
  moreover have "\<forall>(k, w)\<in>set named_entities. w \<noteq> []" by (simp add: named_entities_def)
  ultimately show ?thesis using assms
    by (auto simp: reference_def numeric_reference_def named_reference_def Let_def
        split: list.splits if_splits prod.splits option.splits dest: map_of_SomeD)
qed

lemma decode_entities_eq_Nil [simp]: "decode_entities s = [] \<longleftrightarrow> s = []"
proof (cases s)
  case (Cons c t)
  show ?thesis
  proof (cases "c = CHR ''&''")
    case True
    with Cons show ?thesis
      by (cases "reference t") (auto dest: reference_nonempty)
  qed (simp add: Cons)
qed simp

lemma read_attributes_length: "length (snd (read_attributes cl seen as s)) \<le> length s"
proof (induction cl seen as s rule: read_attributes_induct)
  case (Attr cl seen as c t n v rest)
  then show ?case by (auto simp: read_attributes_attr [OF Attr(1-3)] split: if_splits)
qed auto

lemma next_comment_length:
  "prefix ''<!--'' s \<Longrightarrow> length (snd (next_comment s)) < length s"
  by (auto simp: next_comment_def Let_def prefix_def split: option.splits)

lemma next_declaration_length:
  "s \<noteq> [] \<Longrightarrow> length (snd (next_declaration s)) < length s"
  by (cases s)
     (auto simp: next_declaration_def Let_def less_Suc_eq_le
       intro!: le_trans [OF diff_le_self] length_dropWhile_le_trans)

lemma next_tag_length: "s \<noteq> [] \<Longrightarrow> length (snd (next_tag s)) < length s"
proof -
  assume "s \<noteq> []"
  let ?cl = "prefix ''</'' s" and ?body = "drop (if prefix ''</'' s then 2 else 1) s"
  let ?r = "read_attributes ?cl {} [] (dropWhile tag_name_char ?body)"
  have "length (snd ?r) \<le> length (dropWhile tag_name_char ?body)"
    by (rule read_attributes_length)
  also have "\<dots> \<le> length ?body" by (rule length_dropWhile_le)
  also have "\<dots> < length s" using \<open>s \<noteq> []\<close> by (simp add: length_greater_0_conv [symmetric] del: length_greater_0_conv)
  finally show ?thesis using \<open>s \<noteq> []\<close>
    by (cases ?r) (auto simp: next_tag_def Let_def)
qed

lemma next_markup_length: "s \<noteq> [] \<Longrightarrow> length (snd (next_markup s)) < length s"
  using next_comment_length [of s] next_declaration_length [of s] next_tag_length [of s]
    dropWhile_decreases [of "\<lambda>c. c \<noteq> CHR ''<''" s]
  by (cases "hd s = CHR ''<''") (auto simp: next_markup_def neq_Nil_conv)

lemma next_markup_kind: "tok_kind (fst (next_markup s)) \<noteq> EndToken"
  by (auto simp: next_markup_def next_comment_def next_declaration_def next_tag_def Let_def
      split: option.splits prod.splits)

text \<open>
  The three outcomes of \<open>next\<close>, with the fall-through of the text-element branch resolved: an
  empty run of text means that the unread input already starts with the end tag.
\<close>

lemma next_token_eq:
  "next_token tk =
     (let te = tk_text_element tk; s = tk_rest tk; (raw, rest) = split_text te s in
      if s = [] then (mk_token EndToken [] [], tk)
      else if te \<noteq> [] \<and> raw \<noteq> [] then
        (mk_token TextToken (if is_rcdata_element te then decode_entities raw else raw) [],
         \<lparr>tk_rest = rest, tk_text_element = []\<rparr>)
      else (fst (next_markup s), \<lparr>tk_rest = snd (next_markup s), tk_text_element = []\<rparr>))"
proof -
  obtain raw rest where sp: "split_text (tk_text_element tk) (tk_rest tk) = (raw, rest)" by fastforce
  have "raw = [] \<Longrightarrow> rest = tk_rest tk" using split_text_append [OF sp] by simp
  with sp show ?thesis
    by (cases tk) (auto simp: next_token_def Let_def split: prod.splits)
qed

lemma next_token_End [simp]: "tk_rest tk = [] \<Longrightarrow> next_token tk = (mk_token EndToken [] [], tk)"
  by (simp add: next_token_def)

lemma next_token_length [parse_len]:
  "tk_rest tk \<noteq> [] \<Longrightarrow> length (tk_rest (snd (next_token tk))) < length (tk_rest tk)"
proof -
  assume ne: "tk_rest tk \<noteq> []"
  obtain raw rest where sp: "split_text (tk_text_element tk) (tk_rest tk) = (raw, rest)" by fastforce
  have "raw \<noteq> [] \<Longrightarrow> length rest < length (tk_rest tk)" using split_text_append [OF sp] by simp
  with sp ne next_markup_length [of "tk_rest tk"] show ?thesis
    by (simp add: next_token_eq Let_def)
qed

lemma next_token_kind_End: "tok_kind (fst (next_token tk)) = EndToken \<longleftrightarrow> tk_rest tk = []"
  using next_markup_kind [of "tk_rest tk"]
  by (auto simp: next_token_eq Let_def split: prod.splits)

interpretation html_tokens: token_source next_token "\<lambda>tk. length (tk_rest tk)" "\<lambda>tok. tok_kind tok = EndToken"
  by unfold_locales (simp_all add: next_token_kind_End next_token_length)

text \<open>
  C5: every call of \<open>next\<close> makes progress: it reports the end of input exactly when no input is
  left, and otherwise leaves strictly less unread input than it found; hence reading tokens until
  the end terminates with at most one token per input byte.
\<close>

theorem next_token_progress:
  "(tok_kind (fst (next_token tk)) = EndToken \<longleftrightarrow> tk_rest tk = []) \<and>
   (if tk_rest tk = [] then snd (next_token tk) = tk
    else length (tk_rest (snd (next_token tk))) < length (tk_rest tk)) \<and>
   (\<exists>ts. html_tokens.tokens (Suc (length s)) (html_tokenizer s) = Some ts \<and> length ts \<le> length s)"
  using html_tokens.tokens_terminate [of "html_tokenizer s" "Suc (length s)"]
  by (simp add: next_token_kind_End next_token_length html_tokenizer_def)

section \<open>Shape of tokens\<close>

lemma attr_name_char_lower [simp]: "attr_name_char (lower_char c) = attr_name_char c"
  by (simp add: attr_name_char_def lower_char_eq_iff ascii_alpha_def is_lower_def is_upper_def)

lemma tag_name_char_lower [simp]: "tag_name_char (lower_char c) = tag_name_char c"
  by (simp add: tag_name_char_def lower_char_eq_iff ascii_alpha_def is_lower_def is_upper_def)

text \<open>Names as the tokenizer produces them: lower case, and made of name characters only.\<close>

definition attr_name_ok :: "string \<Rightarrow> bool" where
  "attr_name_ok n \<longleftrightarrow> n \<noteq> [] \<and> to_lower n = n \<and> (\<forall>c\<in>set n. attr_name_char c)"

definition tag_name_ok :: "string \<Rightarrow> bool" where
  "tag_name_ok n \<longleftrightarrow>
     n \<noteq> [] \<and> ascii_alpha (hd n) \<and> to_lower n = n \<and> (\<forall>c\<in>set n. tag_name_char c)"

definition attributes_ok :: "attribute list \<Rightarrow> bool" where
  "attributes_ok as \<longleftrightarrow> distinct (map attr_name as) \<and> (\<forall>a\<in>set as. attr_name_ok (attr_name a))"

definition token_ok :: "html_token \<Rightarrow> bool" where
  "token_ok t \<longleftrightarrow>
     (case tok_kind t of
        StartTag \<Rightarrow> tag_name_ok (tok_data t) \<and> attributes_ok (tok_attributes t)
      | EndTag \<Rightarrow> tag_name_ok (tok_data t) \<and> tok_attributes t = []
      | TextToken \<Rightarrow> tok_data t \<noteq> [] \<and> tok_attributes t = []
      | _ \<Rightarrow> tok_attributes t = [])"

lemma read_attributes_ok:
  assumes "attributes_ok as" and "seen = set (map attr_name as)"
  shows "attributes_ok (fst (read_attributes False seen as s))"
  using assms
proof (induction False seen as s rule: read_attributes_induct)
  case (Attr seen as c t n v rest)
  have n: "attr_name_ok n"
    using Attr(1,3) by (auto simp: attr_name_ok_def dest: set_takeWhileD)
  show ?case
  proof (cases "n \<in> seen")
    case True
    with Attr(5-7) show ?thesis by (simp add: read_attributes_attr [OF Attr(1-3)])
  next
    case False
    with Attr(6,7) n have "attributes_ok (as @ [\<lparr>attr_name = n, attr_value = v\<rparr>])"
      by (simp add: attributes_ok_def)
    with False Attr(5,7) show ?thesis by (simp add: read_attributes_attr [OF Attr(1-3)])
  qed
qed auto

lemma read_attributes_closing: "fst (read_attributes True seen as s) = as"
proof (induction True seen as s rule: read_attributes_induct)
  case (Attr seen as c t n v rest)
  then show ?case by (simp add: read_attributes_attr [OF Attr(1-3)])
qed auto

lemma next_tag_ok: "s \<noteq> [] \<Longrightarrow> token_ok (fst (next_tag s))"
proof -
  assume "s \<noteq> []"
  have name: "tag_name_ok (to_lower (takeWhile tag_name_char b))"
    if "b \<noteq> []" "ascii_alpha (hd b)" for b
  proof -
    have "tag_name_char (hd b)"
      using that(2) by (auto simp: tag_name_char_def char_class)
    then have "takeWhile tag_name_char b \<noteq> []" "hd (takeWhile tag_name_char b) = hd b"
      using that(1) by (cases b; simp)+
    with that show ?thesis
      by (auto simp: tag_name_ok_def dest: set_takeWhileD)
  qed
  show ?thesis
    using name read_attributes_ok [of "[]" "{}"] read_attributes_closing
    by (auto simp: next_tag_def Let_def token_ok_def attributes_ok_def split: prod.splits
        dest: arg_cong [where f = fst]) (metis fst_conv)+
qed

lemma next_markup_ok: "s \<noteq> [] \<Longrightarrow> token_ok (fst (next_markup s))"
  using next_tag_ok [of s]
  by (cases s) (auto simp: next_markup_def next_comment_def next_declaration_def token_ok_def Let_def
      split: option.splits)

lemma next_token_wf: "token_ok (fst (next_token tk))"
proof -
  have "token_ok (mk_token TextToken d [])" if "d \<noteq> []" for d
    using that by (simp add: token_ok_def)
  with next_markup_ok [of "tk_rest tk"] show ?thesis
    by (auto simp: next_token_eq Let_def token_ok_def [of "mk_token EndToken [] []"] split: prod.splits)
qed

text \<open>
  C4: every token \<open>next\<close> produces is well formed: tag and attribute names are non-empty, lower case
  and free of delimiters, a start tag never repeats an attribute name, end tags carry no
  attributes, and text tokens are never empty.
\<close>

theorem next_token_shape:
  "case tok_kind (fst (next_token tk)) of
     StartTag \<Rightarrow> tag_name_ok (tok_data (fst (next_token tk))) \<and>
       distinct (map attr_name (tok_attributes (fst (next_token tk)))) \<and>
       list_all (\<lambda>a. attr_name_ok (attr_name a)) (tok_attributes (fst (next_token tk)))
   | EndTag \<Rightarrow> tag_name_ok (tok_data (fst (next_token tk))) \<and>
       tok_attributes (fst (next_token tk)) = []
   | TextToken \<Rightarrow> tok_data (fst (next_token tk)) \<noteq> [] \<and> tok_attributes (fst (next_token tk)) = []
   | _ \<Rightarrow> tok_attributes (fst (next_token tk)) = []"
  using next_token_wf [of tk]
  by (auto simp: token_ok_def attributes_ok_def list_all_iff split: token_kind.splits)

end
