(* ===== verification/Dom_Store.thy ===== *)
theory Dom_Store
  imports Html_Syntax Interfaces
begin

text \<open>
  \<^verbatim>\<open>dom_internal.hpp\<close> and \<^verbatim>\<open>dom_node.cpp\<close>: DOM nodes and their mutation.  Nodes are shared and
  mutable in the source, so they live in a store: a node is addressed by its index, \<open>children\<close>
  holds addresses and the weak \<open>parent\<close> link is an optional address.  Nodes are never removed from
  the store; this models executions in which the roots of all trees in use stay alive.  The
  \<open>mutation_sink\<close> callback is the flag \<open>has_sink\<close>, and the calls made to sinks are logged in
  \<open>mutations\<close> together with the root that owns the sink.
\<close>

section \<open>Nodes and the store\<close>

datatype node_type = Document | Element | Text | Comment | Doctype

record node =
  ntype :: node_type
  nname :: string
  attributes :: "attribute list"
  ntext :: string
  children :: "nat list"
  parent :: "nat option"
  has_sink :: bool

record mutation_info =
  mi_kind :: string
  mi_node_name :: string
  mi_attribute_name :: string
  mi_value :: string

record dom =
  nodes :: "node list"
  mutations :: "(nat \<times> mutation_info) list"

definition empty_dom :: dom where
  "empty_dom = \<lparr>nodes = [], mutations = []\<rparr>"

abbreviation size_dom :: "dom \<Rightarrow> nat" where
  "size_dom d \<equiv> length (nodes d)"

abbreviation node_at :: "dom \<Rightarrow> nat \<Rightarrow> node" where
  "node_at d i \<equiv> nodes d ! i"

definition fresh_node :: "node_type \<Rightarrow> node" where
  "fresh_node ty = \<lparr>ntype = ty, nname = [], attributes = [], ntext = [], children = [],
     parent = None, has_sink = False\<rparr>"

definition make_node :: "node_type \<Rightarrow> dom \<Rightarrow> nat \<times> dom" where
  "make_node ty d = (size_dom d, d\<lparr>nodes := nodes d @ [fresh_node ty]\<rparr>)"

definition update_node :: "nat \<Rightarrow> (node \<Rightarrow> node) \<Rightarrow> dom \<Rightarrow> dom" where
  "update_node i f d = d\<lparr>nodes := (nodes d)[i := f (node_at d i)]\<rparr>"

definition is_element :: "node \<Rightarrow> bool" where
  "is_element n \<longleftrightarrow> ntype n = Element"

definition is_text :: "node \<Rightarrow> bool" where
  "is_text n \<longleftrightarrow> ntype n = Text"

lemma update_node_sel [simp]:
  "mutations (update_node i f d) = mutations d"
  "size_dom (update_node i f d) = size_dom d"
  "node_at (update_node i f d) j = (if j = i \<and> i < size_dom d then f (node_at d i) else node_at d j)"
  by (auto simp: update_node_def nth_list_update list_update_beyond not_less)

lemma node_eqI:
  fixes m n :: node
  assumes "ntype m = ntype n" "nname m = nname n" "attributes m = attributes n" "ntext m = ntext n"
    "children m = children n" "parent m = parent n" "has_sink m = has_sink n"
  shows "m = n"
  using assms by (cases m; cases n) simp

section \<open>Walking up and reporting mutations\<close>

text \<open>\<open>Node::document_root\<close>: the end of the parent chain; no value if the chain never ends.\<close>

partial_function (option) document_root :: "dom \<Rightarrow> nat \<Rightarrow> nat option" where
  "document_root d i = (case parent (node_at d i) of None \<Rightarrow> Some i | Some p \<Rightarrow> document_root d p)"

declare document_root.simps [code]

text \<open>\<open>Node::report_mutation\<close>: the sink of the root, if it has one, receives the record.\<close>

definition report_mutation :: "nat \<Rightarrow> mutation_info \<Rightarrow> dom \<Rightarrow> dom option" where
  "report_mutation i info d =
     (case document_root d i of
        None \<Rightarrow> None
      | Some r \<Rightarrow> Some (if has_sink (node_at d r) then d\<lparr>mutations := mutations d @ [(r, info)]\<rparr>
                        else d))"

section \<open>Attributes\<close>

fun attr_find :: "string \<Rightarrow> attribute list \<Rightarrow> string option" where
  "attr_find nm [] = None"
| "attr_find nm (a # as) = (if attr_name a = nm then Some (attr_value a) else attr_find nm as)"

definition attribute_of :: "node \<Rightarrow> string \<Rightarrow> string option" where
  "attribute_of n nm = attr_find nm (attributes n)"

text \<open>Overwrite the first attribute of that name, or append a new one.\<close>

fun attr_set :: "string \<Rightarrow> string \<Rightarrow> attribute list \<Rightarrow> attribute list" where
  "attr_set nm v [] = [\<lparr>attr_name = nm, attr_value = v\<rparr>]"
| "attr_set nm v (a # as) =
     (if attr_name a = nm then a\<lparr>attr_value := v\<rparr> # as else a # attr_set nm v as)"

definition attr_remove :: "string \<Rightarrow> attribute list \<Rightarrow> attribute list" where
  "attr_remove nm as = filter (\<lambda>a. attr_name a \<noteq> nm) as"

definition set_attribute :: "nat \<Rightarrow> string \<Rightarrow> string \<Rightarrow> dom \<Rightarrow> dom option" where
  "set_attribute i nm v d =
     report_mutation i \<lparr>mi_kind = ''attribute-set'', mi_node_name = nname (node_at d i),
         mi_attribute_name = nm, mi_value = v\<rparr>
       (update_node i (\<lambda>n. n\<lparr>attributes := attr_set nm v (attributes n)\<rparr>) d)"

definition remove_attribute :: "nat \<Rightarrow> string \<Rightarrow> dom \<Rightarrow> (bool \<times> dom) option" where
  "remove_attribute i nm d =
     (let as' = attr_remove nm (attributes (node_at d i)) in
      if length as' = length (attributes (node_at d i)) then Some (False, d)
      else map_option (Pair True)
        (report_mutation i \<lparr>mi_kind = ''attribute-removed'', mi_node_name = nname (node_at d i),
            mi_attribute_name = nm, mi_value = []\<rparr>
          (update_node i (\<lambda>n. n\<lparr>attributes := as'\<rparr>) d)))"

section \<open>Children\<close>

text \<open>The guard of \<open>append_child\<close>: whether \<open>child\<close> is met on the way from \<open>a\<close> to its root.\<close>

partial_function (option) on_parent_chain :: "dom \<Rightarrow> nat \<Rightarrow> nat \<Rightarrow> bool option" where
  "on_parent_chain d child a =
     (if a = child then Some True
      else case parent (node_at d a) of None \<Rightarrow> Some False | Some p \<Rightarrow> on_parent_chain d child p)"

declare on_parent_chain.simps [code]

definition child_info :: "string \<Rightarrow> string \<Rightarrow> mutation_info" where
  "child_info kind nm = \<lparr>mi_kind = kind, mi_node_name = nm, mi_attribute_name = [], mi_value = []\<rparr>"

definition append_child :: "nat \<Rightarrow> nat option \<Rightarrow> dom \<Rightarrow> dom option" where
  "append_child i child d =
     (case child of
        None \<Rightarrow> Some d
      | Some c \<Rightarrow>
          if c = i then Some d
          else (case on_parent_chain d c i of
              None \<Rightarrow> None
            | Some True \<Rightarrow> Some d
            | Some False \<Rightarrow>
                (let old_parent = parent (node_at d c);
                     d1 = update_node i (\<lambda>n. n\<lparr>children := children n @ [c]\<rparr>) d;
                     d2 = (case old_parent of None \<Rightarrow> d1
                           | Some p \<Rightarrow> update_node p (\<lambda>n. n\<lparr>children := remove1 c (children n)\<rparr>) d1);
                     d3 = update_node c (\<lambda>n. n\<lparr>parent := Some i\<rparr>) d2
                 in Option.bind
                      (case old_parent of None \<Rightarrow> Some d3
                       | Some p \<Rightarrow> report_mutation p (child_info ''child-removed'' (nname (node_at d c))) d3)
                      (report_mutation i (child_info ''child-added'' (nname (node_at d c)))))))"

definition remove_child :: "nat \<Rightarrow> nat option \<Rightarrow> dom \<Rightarrow> (bool \<times> dom) option" where
  "remove_child i child d =
     (case child of
        None \<Rightarrow> Some (False, d)
      | Some c \<Rightarrow>
          if c \<notin> set (children (node_at d i)) then Some (False, d)
          else let d1 = update_node c (\<lambda>n. n\<lparr>parent := None\<rparr>) d;
                   d2 = update_node i (\<lambda>n. n\<lparr>children := remove1 c (children n)\<rparr>) d1
               in map_option (Pair True)
                    (report_mutation i (child_info ''child-removed'' (nname (node_at d c))) d2))"

section \<open>The store invariant\<close>

text \<open>
  Parent and child links agree, no node is listed twice below its parent, and no node is its own
  ancestor.
\<close>

definition parent_rel :: "dom \<Rightarrow> (nat \<times> nat) set" where
  "parent_rel d = {(p, c). c < size_dom d \<and> parent (node_at d c) = Some p}"

definition links_ok :: "dom \<Rightarrow> bool" where
  "links_ok d \<longleftrightarrow>
     (\<forall>i < size_dom d. distinct (children (node_at d i)) \<and>
        (\<forall>c\<in>set (children (node_at d i)). c < size_dom d \<and> parent (node_at d c) = Some i)) \<and>
     (\<forall>c < size_dom d. \<forall>p. parent (node_at d c) = Some p \<longrightarrow>
        p < size_dom d \<and> c \<in> set (children (node_at d p)))"

definition dom_wf :: "dom \<Rightarrow> bool" where
  "dom_wf d \<longleftrightarrow> links_ok d \<and> acyclic (parent_rel d)"

lemma dom_wf_empty [simp]: "dom_wf empty_dom"
  by (simp add: dom_wf_def links_ok_def empty_dom_def parent_rel_def acyclic_def)

lemma links_okD:
  assumes "links_ok d" "i < size_dom d"
  shows "distinct (children (node_at d i))"
    and "c \<in> set (children (node_at d i)) \<Longrightarrow> c < size_dom d \<and> parent (node_at d c) = Some i"
    and "parent (node_at d i) = Some p \<Longrightarrow> p < size_dom d \<and> i \<in> set (children (node_at d p))"
  using assms unfolding links_ok_def by blast+

lemma dom_wfD [dest]: "dom_wf d \<Longrightarrow> links_ok d" "dom_wf d \<Longrightarrow> acyclic (parent_rel d)"
  by (simp_all add: dom_wf_def)

lemma wf_parent_rel: "dom_wf d \<Longrightarrow> wf (parent_rel d)"
proof (rule finite_acyclic_wf)
  assume wf: "dom_wf d"
  have "parent_rel d \<subseteq> {0 ..< size_dom d} \<times> {0 ..< size_dom d}"
    using links_okD(3) [OF dom_wfD(1) [OF wf]] by (auto simp: parent_rel_def)
  then show "finite (parent_rel d)" by (rule finite_subset) simp
  show "acyclic (parent_rel d)" using wf by blast
qed

text \<open>Induction up the parent chain.\<close>

lemma parent_induct [consumes 2, case_names up]:
  assumes "dom_wf d" and "i < size_dom d"
    and "\<And>i. i < size_dom d \<Longrightarrow>
      (\<And>p. parent (node_at d i) = Some p \<Longrightarrow> p < size_dom d \<Longrightarrow> P p) \<Longrightarrow> P i"
  shows "P i"
  using wf_parent_rel [OF assms(1)] assms(2)
proof (induction i rule: wf_induct_rule)
  case (less i)
  show ?case
  proof (rule assms(3) [OF less.prems])
    fix p assume "parent (node_at d i) = Some p" "p < size_dom d"
    with less show "P p" by (simp add: parent_rel_def)
  qed
qed

lemma document_root_total:
  assumes "dom_wf d" and "i < size_dom d"
  shows "\<exists>r. document_root d i = Some r \<and> r < size_dom d \<and> parent (node_at d r) = None"
  using assms
proof (induction i rule: parent_induct)
  case (up i)
  then show ?case
    using links_okD(3) [OF dom_wfD(1) [OF assms(1)] up(1)]
    by (subst document_root.simps) (auto split: option.split)
qed

lemma on_parent_chain_eq:
  assumes "dom_wf d" and "a < size_dom d"
  shows "on_parent_chain d c a = Some ((c, a) \<in> (parent_rel d)\<^sup>*)"
  using assms
proof (induction a rule: parent_induct)
  case (up a)
  have step: "(c, a) \<in> (parent_rel d)\<^sup>* \<longleftrightarrow>
      c = a \<or> (\<exists>p. parent (node_at d a) = Some p \<and> (c, p) \<in> (parent_rel d)\<^sup>*)"
    using up(1) by (subst rtrancl.simps) (auto simp: parent_rel_def)
  show ?case
    using up links_okD(3) [OF dom_wfD(1) [OF assms(1)] up(1)]
    by (subst on_parent_chain.simps) (auto simp: step split: option.split)
qed

text \<open>The invariant depends on the links only.\<close>

lemma dom_wf_cong:
  assumes "size_dom d' = size_dom d"
    and "\<And>i. i < size_dom d \<Longrightarrow> children (node_at d' i) = children (node_at d i)"
    and "\<And>i. i < size_dom d \<Longrightarrow> parent (node_at d' i) = parent (node_at d i)"
  shows "dom_wf d' \<longleftrightarrow> dom_wf d"
proof -
  have "parent_rel d' = parent_rel d" using assms by (auto simp: parent_rel_def)
  moreover have "links_ok d' \<longleftrightarrow> links_ok d"
    by (simp add: links_ok_def assms cong: conj_cong)
  ultimately show ?thesis by (simp add: dom_wf_def)
qed

lemma report_mutation_nodes: "report_mutation i info d = Some d' \<Longrightarrow> nodes d' = nodes d"
  by (auto simp: report_mutation_def split: option.splits if_splits)

lemma report_mutation_wf: "report_mutation i info d = Some d' \<Longrightarrow> dom_wf d' \<longleftrightarrow> dom_wf d"
  by (rule dom_wf_cong) (simp_all add: report_mutation_nodes)

lemma report_mutation_total:
  "dom_wf d \<Longrightarrow> i < size_dom d \<Longrightarrow> \<exists>d'. report_mutation i info d = Some d'"
  using document_root_total [of d i] by (auto simp: report_mutation_def)

section \<open>Attribute lists are keyed stores\<close>

definition attrs_distinct :: "attribute list \<Rightarrow> bool" where
  "attrs_distinct as \<longleftrightarrow> distinct (map attr_name as)"

lemma attr_set_names: "attr_name ` set (attr_set k v as) = insert k (attr_name ` set as)"
  by (induction as) auto

interpretation attrs: keyed_store_del attr_set attr_find attrs_distinct attr_remove
proof
  show "attr_find k (attr_set k v as) = Some v" for k v as
    by (induction as) auto
  show "attr_find k (attr_set k' v as) = attr_find k as" if "k \<noteq> k'" for k k' v as
    using that by (induction as) auto
  show "attrs_distinct (attr_set k v as)" if "attrs_distinct as" for k v as
    using that by (induction as) (auto simp: attrs_distinct_def attr_set_names)
  show "attr_find k (attr_remove k' as) = (if k = k' then None else attr_find k as)" for k k' as
    by (induction as) (auto simp: attr_remove_def)
  show "attrs_distinct (attr_remove k as)" if "attrs_distinct as" for k as
    using that by (auto simp: attrs_distinct_def attr_remove_def distinct_map_filter)
qed

section \<open>Mutations keep the invariant\<close>

lemma update_attributes_wf [simp]:
  "dom_wf (update_node i (\<lambda>n. n\<lparr>attributes := f n\<rparr>) d) \<longleftrightarrow> dom_wf d"
  by (rule dom_wf_cong) simp_all

text \<open>
  The links after moving \<open>c\<close> below \<open>i\<close>: the formulation with one equation for children and one
  for parents that the three updates of \<open>append_child\<close> amount to.
\<close>

definition moved :: "nat \<Rightarrow> nat \<Rightarrow> dom \<Rightarrow> dom \<Rightarrow> bool" where
  "moved i c d d' \<longleftrightarrow> size_dom d' = size_dom d \<and>
     (\<forall>x < size_dom d. children (node_at d' x) =
        remove1 c (children (node_at d x)) @ (if x = i then [c] else [])) \<and>
     (\<forall>y < size_dom d. parent (node_at d' y) = (if y = c then Some i else parent (node_at d y)))"

lemma moved_wf:
  assumes wf: "dom_wf d" and m: "moved i c d d'" and i: "i < size_dom d" and c: "c < size_dom d"
    and noanc: "(c, i) \<notin> (parent_rel d)\<^sup>*"
  shows "dom_wf d'"
proof -
  have lk: "links_ok d" using wf by blast
  have n: "size_dom d' = size_dom d"
    and ch: "\<And>x. x < size_dom d \<Longrightarrow> children (node_at d' x) =
        remove1 c (children (node_at d x)) @ (if x = i then [c] else [])"
    and pa: "\<And>y. y < size_dom d \<Longrightarrow>
        parent (node_at d' y) = (if y = c then Some i else parent (node_at d y))"
    using m by (simp_all add: moved_def)
  have "links_ok d'"
    unfolding links_ok_def n
  proof (intro conjI allI impI ballI)
    fix x assume x: "x < size_dom d"
    show "distinct (children (node_at d' x))"
      using links_okD(1) [OF lk x] by (simp add: ch [OF x])
    fix y assume "y \<in> set (children (node_at d' x))"
    then have "y \<in> set (children (node_at d x)) \<and> y \<noteq> c \<or> y = c \<and> x = i"
      using links_okD(1) [OF lk x] by (auto simp: ch [OF x] split: if_splits)
    then show "y < size_dom d" "parent (node_at d' y) = Some x"
      using links_okD(2) [OF lk x] c by (auto simp: pa)
  next
    fix y p assume y: "y < size_dom d" and "parent (node_at d' y) = Some p"
    then have *: "y = c \<and> p = i \<or> y \<noteq> c \<and> parent (node_at d y) = Some p"
      by (auto simp: pa split: if_splits)
    then show "p < size_dom d" using links_okD(3) [OF lk y] i by auto
    then show "y \<in> set (children (node_at d' p))"
      using * links_okD(3) [OF lk y] by (auto simp: ch)
  qed
  moreover have "parent_rel d' \<subseteq> insert (i, c) (parent_rel d)"
    by (auto simp: parent_rel_def n pa split: if_splits)
  moreover have "acyclic (insert (i, c) (parent_rel d))"
    using wf noanc by (simp add: acyclic_insert dom_wf_def)
  ultimately show ?thesis
    by (auto simp: dom_wf_def intro: acyclic_subset)
qed

lemma append_child_links:
  assumes "dom_wf d" and "i < size_dom d" and "c < size_dom d" and "c \<noteq> i"
    and "d1 = update_node i (\<lambda>n. n\<lparr>children := children n @ [c]\<rparr>) d"
    and "d2 = (case parent (node_at d c) of None \<Rightarrow> d1
               | Some p \<Rightarrow> update_node p (\<lambda>n. n\<lparr>children := remove1 c (children n)\<rparr>) d1)"
    and "d3 = update_node c (\<lambda>n. n\<lparr>parent := Some i\<rparr>) d2"
  shows "moved i c d d3"
proof -
  have lk: "links_ok d" using assms(1) by blast
  have notin: "c \<notin> set (children (node_at d x))" if "x < size_dom d" "parent (node_at d c) \<noteq> Some x" for x
    using links_okD(2) [OF lk that(1), of c] that(2) by auto
  have isin: "c \<in> set (children (node_at d x))" "x < size_dom d" if "parent (node_at d c) = Some x" for x
    using links_okD(3) [OF lk assms(3) that] by auto
  show ?thesis
    unfolding moved_def assms(5-7)
    using notin isin assms(2,4)
    by (auto split: option.split simp: remove1_append remove1_idem)
qed

text \<open>The two branches of \<open>append_child\<close>: ignored, or the child is moved and both parents report.\<close>

lemma append_child_cases:
  assumes wf: "dom_wf d" and i: "i < size_dom d" and c: "c < size_dom d"
  shows "\<exists>d'. append_child i (Some c) d = Some d' \<and> dom_wf d' \<and>
     (if (c, i) \<in> (parent_rel d)\<^sup>* then d' = d else moved i c d d')"
proof (cases "(c, i) \<in> (parent_rel d)\<^sup>*")
  case True
  with on_parent_chain_eq [OF wf i, of c] wf show ?thesis
    by (simp add: append_child_def)
next
  case False
  then have ci: "c \<noteq> i" by auto
  define d1 where "d1 = update_node i (\<lambda>n. n\<lparr>children := children n @ [c]\<rparr>) d"
  define d2 where "d2 = (case parent (node_at d c) of None \<Rightarrow> d1
     | Some p \<Rightarrow> update_node p (\<lambda>n. n\<lparr>children := remove1 c (children n)\<rparr>) d1)"
  define d3 where "d3 = update_node c (\<lambda>n. n\<lparr>parent := Some i\<rparr>) d2"
  have m: "moved i c d d3" by (rule append_child_links [OF wf i c ci d1_def d2_def d3_def])
  have w3: "dom_wf d3" by (rule moved_wf [OF wf m i c False])
  have n3: "size_dom d3 = size_dom d" using m by (simp add: moved_def)
  have "\<exists>d4. (case parent (node_at d c) of None \<Rightarrow> Some d3
     | Some p \<Rightarrow> report_mutation p (child_info ''child-removed'' (nname (node_at d c))) d3) = Some d4
     \<and> nodes d4 = nodes d3"
    using links_okD(3) [OF dom_wfD(1) [OF wf] c] report_mutation_total [OF w3] n3
    by (fastforce split: option.split dest: report_mutation_nodes)
  then obtain d4 where d4: "(case parent (node_at d c) of None \<Rightarrow> Some d3
     | Some p \<Rightarrow> report_mutation p (child_info ''child-removed'' (nname (node_at d c))) d3) = Some d4"
     "nodes d4 = nodes d3" by blast
  have w4: "dom_wf d4" using w3 d4(2) dom_wf_cong [of d4 d3] by simp
  obtain d5 where d5: "report_mutation i (child_info ''child-added'' (nname (node_at d c))) d4 = Some d5"
    using report_mutation_total [OF w4] i n3 d4(2) by force
  have "append_child i (Some c) d = Some d5"
    using False ci on_parent_chain_eq [OF wf i, of c] d4(1) d5
    by (cases "parent (node_at d c)") (simp_all add: append_child_def d1_def d2_def d3_def)
  moreover have "moved i c d d5"
    using m d4(2) report_mutation_nodes [OF d5] by (simp add: moved_def)
  ultimately show ?thesis
    using False w4 report_mutation_wf [OF d5] by auto
qed

text \<open>The links after detaching \<open>c\<close> from \<open>i\<close>.\<close>

definition detached :: "nat \<Rightarrow> nat \<Rightarrow> dom \<Rightarrow> dom \<Rightarrow> bool" where
  "detached i c d d' \<longleftrightarrow> size_dom d' = size_dom d \<and>
     (\<forall>x < size_dom d. children (node_at d' x) =
        (if x = i then remove1 c (children (node_at d x)) else children (node_at d x))) \<and>
     (\<forall>y < size_dom d. parent (node_at d' y) = (if y = c then None else parent (node_at d y)))"

lemma detached_wf:
  assumes wf: "dom_wf d" and m: "detached i c d d'" and i: "i < size_dom d"
    and c: "c \<in> set (children (node_at d i))"
  shows "dom_wf d'"
proof -
  have lk: "links_ok d" using wf by blast
  have n: "size_dom d' = size_dom d"
    and ch: "\<And>x. x < size_dom d \<Longrightarrow> children (node_at d' x) =
        (if x = i then remove1 c (children (node_at d x)) else children (node_at d x))"
    and pa: "\<And>y. y < size_dom d \<Longrightarrow>
        parent (node_at d' y) = (if y = c then None else parent (node_at d y))"
    using m by (simp_all add: detached_def)
  have pc: "parent (node_at d c) = Some i" using links_okD(2) [OF lk i c] by simp
  have "links_ok d'"
    unfolding links_ok_def n
  proof (intro conjI allI impI ballI)
    fix x assume x: "x < size_dom d"
    show "distinct (children (node_at d' x))"
      using links_okD(1) [OF lk x] ch [OF x] by (cases "x = i") simp_all
    fix y assume "y \<in> set (children (node_at d' x))"
    then have *: "y \<in> set (children (node_at d x))" "x = i \<longrightarrow> y \<noteq> c"
      using links_okD(1) [OF lk x] by (auto simp: ch [OF x] split: if_splits)
    then have "parent (node_at d y) = Some x" "y < size_dom d" using links_okD(2) [OF lk x] by auto
    with * pc show "y < size_dom d" "parent (node_at d' y) = Some x" by (auto simp: pa)
  next
    fix y p assume y: "y < size_dom d" and "parent (node_at d' y) = Some p"
    then have *: "y \<noteq> c" "parent (node_at d y) = Some p" by (auto simp: pa split: if_splits)
    then show "p < size_dom d" using links_okD(3) [OF lk y] by auto
    then show "y \<in> set (children (node_at d' p))"
      using * links_okD(3) [OF lk y] by (auto simp: ch)
  qed
  moreover have "parent_rel d' \<subseteq> parent_rel d"
    by (auto simp: parent_rel_def n pa split: if_splits)
  ultimately show ?thesis
    using wf by (auto simp: dom_wf_def intro: acyclic_subset)
qed

lemma remove_child_cases:
  assumes wf: "dom_wf d" and i: "i < size_dom d"
  shows "\<exists>d'. remove_child i (Some c) d = Some (c \<in> set (children (node_at d i)), d') \<and> dom_wf d' \<and>
     (if c \<in> set (children (node_at d i)) then detached i c d d' else d' = d)"
proof (cases "c \<in> set (children (node_at d i))")
  case False
  with wf show ?thesis by (simp add: remove_child_def)
next
  case True
  define d2 where "d2 = update_node i (\<lambda>n. n\<lparr>children := remove1 c (children n)\<rparr>)
     (update_node c (\<lambda>n. n\<lparr>parent := None\<rparr>) d)"
  have c: "c < size_dom d" using links_okD(2) [OF dom_wfD(1) [OF wf] i True] by simp
  have m: "detached i c d d2" using i c by (simp add: detached_def d2_def)
  have w2: "dom_wf d2" by (rule detached_wf [OF wf m i True])
  obtain d3 where d3: "report_mutation i (child_info ''child-removed'' (nname (node_at d c))) d2 = Some d3"
    using report_mutation_total [OF w2, of i] i m by (force simp: detached_def)
  have "detached i c d d3" using m report_mutation_nodes [OF d3] by (simp add: detached_def)
  with True d3 w2 report_mutation_wf [OF d3] show ?thesis
    by (simp add: remove_child_def Let_def flip: d2_def)
qed

lemma set_attribute_cases:
  assumes wf: "dom_wf d" and i: "i < size_dom d"
  shows "\<exists>d'. set_attribute i nm v d = Some d' \<and> dom_wf d' \<and>
     nodes d' = (nodes d)[i := (node_at d i)\<lparr>attributes := attr_set nm v (attributes (node_at d i))\<rparr>]"
proof -
  let ?d = "update_node i (\<lambda>n. n\<lparr>attributes := attr_set nm v (attributes n)\<rparr>) d"
  have w: "dom_wf ?d" using wf by simp
  obtain d' where "set_attribute i nm v d = Some d'"
    using report_mutation_total [OF w, of i] i by (force simp: set_attribute_def)
  then show ?thesis
    using w report_mutation_wf report_mutation_nodes
    by (fastforce simp: set_attribute_def update_node_def)
qed

lemma remove_attribute_cases:
  assumes wf: "dom_wf d" and i: "i < size_dom d"
  shows "\<exists>d'. remove_attribute i nm d = Some (attribute_of (node_at d i) nm \<noteq> None, d') \<and> dom_wf d' \<and>
     nodes d' = (nodes d)[i := (node_at d i)\<lparr>attributes := attr_remove nm (attributes (node_at d i))\<rparr>]"
proof -
  let ?as = "attributes (node_at d i)"
  let ?d = "update_node i (\<lambda>n. n\<lparr>attributes := attr_remove nm ?as\<rparr>) d"
  have found: "attribute_of (node_at d i) nm = None \<longleftrightarrow> length (attr_remove nm ?as) = length ?as"
  proof -
    have "attr_find nm as = None \<longleftrightarrow> (\<forall>a\<in>set as. attr_name a \<noteq> nm)" for as
      by (induction as) auto
    moreover have "length (filter P as) = length as \<longleftrightarrow> (\<forall>a\<in>set as. P a)" for P and as :: "attribute list"
      by (metis filter_id_conv length_filter_less nat_neq_iff)
    ultimately show ?thesis by (simp add: attribute_of_def attr_remove_def)
  qed
  show ?thesis
  proof (cases "length (attr_remove nm ?as) = length ?as")
    case True
    then have "attr_remove nm ?as = ?as"
      by (metis attr_remove_def filter_id_conv length_filter_less nat_neq_iff)
    with True wf found show ?thesis by (simp add: remove_attribute_def)
  next
    case False
    have w: "dom_wf ?d" using wf by simp
    obtain d' where d': "report_mutation i \<lparr>mi_kind = ''attribute-removed'',
        mi_node_name = nname (node_at d i), mi_attribute_name = nm, mi_value = []\<rparr> ?d = Some d'"
      using report_mutation_total [OF w, of i] i by force
    with False found w report_mutation_wf [OF d'] report_mutation_nodes [OF d'] show ?thesis
      by (simp add: remove_attribute_def Let_def update_node_def)
  qed
qed

lemma make_node_wf:
  assumes "make_node ty d = (i, d')" and wf: "dom_wf d"
  shows "dom_wf d'" "i = size_dom d" "size_dom d' = Suc (size_dom d)"
    "\<And>j. j < size_dom d \<Longrightarrow> node_at d' j = node_at d j" "node_at d' i = fresh_node ty"
proof -
  show i: "i = size_dom d" and n: "size_dom d' = Suc (size_dom d)"
    and old: "\<And>j. j < size_dom d \<Longrightarrow> node_at d' j = node_at d j"
    and new: "node_at d' i = fresh_node ty"
    using assms(1) by (auto simp: make_node_def nth_append)
  have new': "node_at d' (size_dom d) = fresh_node ty" using i new by simp
  have lk: "links_ok d" using wf by blast
  have bare: "children (fresh_node ty) = []" "parent (fresh_node ty) = None"
    by (simp_all add: fresh_node_def)
  have "links_ok d'"
    unfolding links_ok_def n
  proof (intro conjI allI impI ballI)
    fix x assume "x < Suc (size_dom d)"
    then consider "x = size_dom d" | (o) "x < size_dom d" by linarith
    note x = this
    from x show "distinct (children (node_at d' x))"
      using links_okD(1) [OF lk] by cases (simp_all add: old new' bare)
    fix y assume y: "y \<in> set (children (node_at d' x))"
    from x have "y < size_dom d \<and> parent (node_at d y) = Some x"
      using y links_okD(2) [OF lk] by cases (simp_all add: old new' bare)
    then show "y < Suc (size_dom d)" "parent (node_at d' y) = Some x" by (simp_all add: old)
  next
    fix y p assume "y < Suc (size_dom d)" and p: "parent (node_at d' y) = Some p"
    then have "y < size_dom d" using bare by (cases "y = size_dom d") (simp_all add: new')
    then have "p < size_dom d \<and> y \<in> set (children (node_at d p))"
      using p links_okD(3) [OF lk] by (simp add: old)
    then show "p < Suc (size_dom d)" "y \<in> set (children (node_at d' p))" by (simp_all add: old)
  qed
  moreover have "parent_rel d' = parent_rel d"
    using old new' by (auto simp: parent_rel_def n less_Suc_eq fresh_node_def)
  ultimately show "dom_wf d'" using wf by (simp add: dom_wf_def)
qed

text \<open>Attaching a node that has neither parent nor children.\<close>

lemma attach_fresh_wf:
  assumes wf: "dom_wf d" and p: "p < size_dom d" and i: "i < size_dom d" and ne: "p \<noteq> i"
    and bare: "children (node_at d i) = []" "parent (node_at d i) = None"
  shows "dom_wf (update_node p (\<lambda>n. n\<lparr>children := children n @ [i]\<rparr>)
    (update_node i (\<lambda>n. n\<lparr>parent := Some p\<rparr>) d))" (is "dom_wf ?d")
proof -
  have orphan: "i \<notin> set (children (node_at d x))" if "x < size_dom d" for x
    using links_okD(2) [OF dom_wfD(1) [OF wf] that, of i] bare(2) by auto
  have "moved p i d ?d"
    using orphan p i ne by (simp add: moved_def remove1_idem)
  moreover have "(i, p) \<notin> (parent_rel d)\<^sup>*"
  proof
    assume "(i, p) \<in> (parent_rel d)\<^sup>*"
    with ne obtain x where "(i, x) \<in> parent_rel d" by (blast elim: converse_rtranclE)
    then have "x \<in> set (children (node_at d i))"
      using links_okD(3) [OF dom_wfD(1) [OF wf]] by (simp add: parent_rel_def)
    with bare(1) show False by simp
  qed
  ultimately show ?thesis using moved_wf [OF wf _ p i] by blast
qed

end
