(* ===== verification/Dom_Tree.thy ===== *)
theory Dom_Tree
  imports Dom_Store
begin

text \<open>
  The subtree below a node as a value.  The recursive readers of the source (serializer, text
  content, event model, IML) take a \<open>const Node&\<close> and only follow \<open>children\<close>; they are modelled
  on this tree, and \<open>tree_at\<close> reads it out of the store.  Following children in an arbitrary
  store need not end, so \<open>tree_of\<close> carries fuel; in a store that satisfies \<open>dom_wf\<close> the number
  of nodes is always enough (\<open>tree_at_total\<close>).
\<close>

datatype tree =
  Tree (t_type: node_type) (t_name: string) (t_attributes: "attribute list") (t_text: string)
    (t_children: "tree list")

definition node_tree :: "node \<Rightarrow> tree list \<Rightarrow> tree" where
  "node_tree n ts = Tree (ntype n) (nname n) (attributes n) (ntext n) ts"

fun tree_of :: "nat \<Rightarrow> dom \<Rightarrow> nat \<Rightarrow> tree option" where
  "tree_of 0 d i = None"
| "tree_of (Suc k) d i =
     (if i < size_dom d
      then map_option (node_tree (node_at d i)) (those (map (tree_of k d) (children (node_at d i))))
      else None)"

definition tree_at :: "dom \<Rightarrow> nat \<Rightarrow> tree option" where
  "tree_at d i = tree_of (size_dom d) d i"

text \<open>
  \<open>rep d A i t\<close>: the nodes below \<open>i\<close> represent \<open>t\<close>, and none of them is in \<open>A\<close>.
\<close>

inductive rep :: "dom \<Rightarrow> nat set \<Rightarrow> nat \<Rightarrow> tree \<Rightarrow> bool" where
  rep: "i < size_dom d \<Longrightarrow> i \<notin> A \<Longrightarrow> list_all2 (rep d A) (children (node_at d i)) ts \<Longrightarrow>
    rep d A i (node_tree (node_at d i) ts)"
monos list_all2_mono

inductive_cases repE: "rep d A i t"

lemma those_Some_iff: "those xs = Some ys \<longleftrightarrow> list_all2 (\<lambda>x y. x = Some y) xs ys"
proof (induction xs arbitrary: ys)
  case (Cons x xs)
  then show ?case by (cases x; cases ys) auto
qed auto

lemma tree_of_rep: "tree_of k d i = Some t \<Longrightarrow> rep d {} i t"
proof (induction k arbitrary: i t)
  case (Suc k)
  then obtain ts where i: "i < size_dom d" and t: "t = node_tree (node_at d i) ts"
    and ts: "list_all2 (\<lambda>x y. x = Some y) (map (tree_of k d) (children (node_at d i))) ts"
    by (auto simp: those_Some_iff split: if_splits)
  have "list_all2 (rep d {}) (children (node_at d i)) ts"
    using ts by (auto simp: list_all2_map1 intro: Suc.IH list_all2_mono)
  with i t show ?case by (auto intro: rep)
qed simp

lemma rep_mono: "rep d A i t \<Longrightarrow> B \<subseteq> A \<Longrightarrow> rep d B i t"
  by (induction rule: rep.induct) (auto intro!: rep elim: list_all2_mono)

lemma rep_unique: "rep d A i t \<Longrightarrow> rep d B i t' \<Longrightarrow> t = t'"
proof (induction arbitrary: t' rule: rep.induct)
  case (rep i d A ts)
  from rep.prems obtain ts' where t': "t' = node_tree (node_at d i) ts'"
    and ts': "list_all2 (rep d B) (children (node_at d i)) ts'" by (auto elim: repE)
  from rep.IH have "list_all2 (\<lambda>c t. \<forall>t'. rep d B c t' \<longrightarrow> t = t') (children (node_at d i)) ts"
    by (auto elim: list_all2_mono)
  with ts' have "ts = ts'"
    by (auto simp: list_all2_conv_all_nth intro: nth_equalityI)
  with t' show ?case by simp
qed

lemma rep_frame:
  assumes "rep d A i t" and "size_dom d \<le> size_dom d'"
    and "\<And>j. j < size_dom d \<Longrightarrow> j \<notin> A \<Longrightarrow>
      node_tree (node_at d' j) = node_tree (node_at d j) \<and> children (node_at d' j) = children (node_at d j)"
  shows "rep d' A i t"
  using assms
proof (induction rule: rep.induct)
  case (rep i d A ts)
  have eq: "node_tree (node_at d' i) = node_tree (node_at d i)"
    "children (node_at d' i) = children (node_at d i)"
    using rep.prems(2) rep.hyps by auto
  have "list_all2 (rep d' A) (children (node_at d' i)) ts"
    unfolding eq(2) using rep.IH rep.prems by (auto elim!: list_all2_mono)
  then have "rep d' A i (node_tree (node_at d' i) ts)"
    using rep.hyps rep.prems(1) by (intro rep.rep) auto
  then show ?case by (simp add: eq)
qed

text \<open>In a well-formed store no path downwards repeats a node, so the node count bounds its length.\<close>

lemma tree_of_enough:
  assumes wf: "dom_wf d"
  shows "i < size_dom d \<Longrightarrow> V \<subseteq> {0 ..< size_dom d} \<Longrightarrow> i \<notin> V \<Longrightarrow>
    (\<forall>v\<in>V. (v, i) \<in> (parent_rel d)\<^sup>+) \<Longrightarrow> size_dom d \<le> card V + k \<Longrightarrow> \<exists>t. tree_of k d i = Some t"
proof (induction k arbitrary: i V)
  case 0
  have "card V < card {0 ..< size_dom d}"
    using 0 by (intro psubset_card_mono) auto
  with 0 show ?case by simp
next
  case (Suc k)
  let ?cs = "children (node_at d i)"
  have fin: "finite V" using Suc.prems(2) finite_subset by blast
  have "\<exists>t. tree_of k d c = Some t" if c: "c \<in> set ?cs" for c
  proof (rule Suc.IH)
    have c': "c < size_dom d" "parent (node_at d c) = Some i"
      using links_okD(2) [OF dom_wfD(1) [OF wf] Suc.prems(1) c] by auto
    then have ic: "(i, c) \<in> parent_rel d" by (simp add: parent_rel_def)
    show "c < size_dom d" by fact
    show "insert i V \<subseteq> {0 ..< size_dom d}" using Suc.prems(1,2) by auto
    show all: "\<forall>v\<in>insert i V. (v, c) \<in> (parent_rel d)\<^sup>+"
      using ic Suc.prems(4) by (auto intro: trancl_into_trancl)
    show "c \<notin> insert i V"
      using all dom_wfD(2) [OF wf] by (auto simp: acyclic_def)
    show "size_dom d \<le> card (insert i V) + k"
      using Suc.prems(3,5) fin by simp
  qed
  then have "list_all2 (\<lambda>x y. x = Some y) (map (tree_of k d) ?cs) (map (\<lambda>c. the (tree_of k d c)) ?cs)"
    by (auto simp: list_all2_conv_all_nth)
  then have "those (map (tree_of k d) ?cs) = Some (map (\<lambda>c. the (tree_of k d c)) ?cs)"
    by (simp add: those_Some_iff)
  with Suc.prems(1) show ?case by simp
qed

lemma tree_at_total: "dom_wf d \<Longrightarrow> i < size_dom d \<Longrightarrow> \<exists>t. tree_at d i = Some t"
  using tree_of_enough [of d i "{}" "size_dom d"] by (simp add: tree_at_def)

lemma tree_at_rep: "dom_wf d \<Longrightarrow> tree_at d i = Some t \<longleftrightarrow> rep d {} i t"
  using tree_at_total [of d i] tree_of_rep rep_unique
  by (metis repE tree_at_def)

text \<open>The number of levels below the root of a tree.\<close>

fun levels :: "tree \<Rightarrow> nat" where
  "levels (Tree ty nm as tx ts) = Max (insert 0 (set (map (\<lambda>t. Suc (levels t)) ts)))"

lemma levels_le_iff: "levels (Tree ty nm as tx ts) \<le> k \<longleftrightarrow> (\<forall>t\<in>set ts. Suc (levels t) \<le> k)"
  by auto

end
