(* ===== verification/Html_Parser.thy ===== *)
theory Html_Parser
  imports Html_Tokenizer Dom_Tree
begin

text \<open>
  \<^verbatim>\<open>html_parser.cpp\<close>: tree construction.  The parser pushes nodes into the store while it keeps the
  stack of open elements (here with its top first); implied end tags are the scoped recoveries of
  \<open>close_for_start\<close>.  Next to it stands the specification \<open>build\<close>, which builds the tree as a value
  from the same tokens with a stack of partial elements; \<open>parse_loop_build\<close> shows that the store
  always represents what the specification built.
\<close>

section \<open>Implied end tags\<close>

text \<open>
  The stack elements are nodes in the parser and partial trees in the specification; \<open>nm\<close> reads
  the name of an element.  The root, at the bottom of the stack, is never closed.
\<close>

fun scan_scope :: "('a \<Rightarrow> string) \<Rightarrow> string list \<Rightarrow> string list \<Rightarrow> 'a list \<Rightarrow> 'a list option" where
  "scan_scope nm targets barriers (x # y # stack) =
     (if nm x \<in> set targets then Some (y # stack)
      else if nm x \<in> set barriers then None
      else scan_scope nm targets barriers (y # stack))"
| "scan_scope nm targets barriers _ = None"

definition close_scoped :: "('a \<Rightarrow> string) \<Rightarrow> string list \<Rightarrow> string list \<Rightarrow> 'a list \<Rightarrow> 'a list" where
  "close_scoped nm targets barriers stack =
     (case scan_scope nm targets barriers stack of None \<Rightarrow> stack | Some rest \<Rightarrow> rest)"

definition close_for_start :: "('a \<Rightarrow> string) \<Rightarrow> string \<Rightarrow> 'a list \<Rightarrow> 'a list" where
  "close_for_start nm n stack =
     (let s1 = (if n \<in> {''address'', ''article'', ''aside'', ''blockquote'', ''div'', ''dl'',
                        ''fieldset'', ''footer'', ''form'', ''h1'', ''h2'', ''h3'', ''h4'', ''h5'',
                        ''h6'', ''header'', ''hgroup'', ''hr'', ''main'', ''menu'', ''nav'', ''ol'',
                        ''p'', ''pre'', ''section'', ''table'', ''ul''}
                then close_scoped nm [''p''] [''html'', ''table'', ''td'', ''th'', ''button'', ''template''] stack
                else stack);
          s2 = (if n = ''li''
                then close_scoped nm [''li''] [''ul'', ''ol'', ''menu'', ''html'', ''template''] s1 else s1);
          s3 = (if n = ''dt'' \<or> n = ''dd''
                then close_scoped nm [''dt'', ''dd''] [''dl'', ''html'', ''template''] s2 else s2);
          s4 = (if n = ''option'' \<or> n = ''optgroup''
                then close_scoped nm [''option''] [''select'', ''datalist'', ''optgroup'', ''html'', ''template''] s3
                else s3);
          s5 = (if n = ''optgroup''
                then close_scoped nm [''optgroup''] [''select'', ''html'', ''template''] s4 else s4);
          s6 = (if n \<in> {''td'', ''th'', ''tr'', ''tbody'', ''thead'', ''tfoot''}
                then close_scoped nm [''td'', ''th''] [''tr'', ''table'', ''html'', ''template''] s5 else s5);
          s7 = (if n \<in> {''tr'', ''tbody'', ''thead'', ''tfoot''}
                then close_scoped nm [''tr''] [''table'', ''tbody'', ''thead'', ''tfoot'', ''html'', ''template''] s6
                else s6)
      in if n \<in> {''tbody'', ''thead'', ''tfoot''}
         then close_scoped nm [''tbody'', ''thead'', ''tfoot''] [''table'', ''html'', ''template''] s7
         else s7)"

text \<open>An end tag closes the innermost open element of its name, if there is one.\<close>

definition close_end :: "('a \<Rightarrow> string) \<Rightarrow> string \<Rightarrow> 'a list \<Rightarrow> 'a list" where
  "close_end nm n stack = close_scoped nm [n] [] stack"

section \<open>The parser\<close>

definition max_bytes :: nat where "max_bytes = 16 * 1024 * 1024"
definition max_nodes :: nat where "max_nodes = 250000"
definition max_depth :: nat where "max_depth = 256"

definition token_type :: "token_kind \<Rightarrow> node_type" where
  "token_type k = (if k = StartTag then Element else if k = TextToken then Text
     else if k = CommentToken then Comment else Doctype)"

text \<open>Create the node of a token and push it below node \<open>p\<close>.\<close>

definition add_node :: "html_token \<Rightarrow> nat \<Rightarrow> dom \<Rightarrow> nat \<times> dom" where
  "add_node tok p d =
     (let (i, d1) = make_node (token_type (tok_kind tok)) d;
          d2 = update_node i (\<lambda>n. if tok_kind tok = StartTag
                 then n\<lparr>nname := tok_data tok, attributes := tok_attributes tok\<rparr>
                 else n\<lparr>ntext := tok_data tok\<rparr>) d1;
          d3 = update_node i (\<lambda>n. n\<lparr>parent := Some p\<rparr>) d2;
          d4 = update_node p (\<lambda>n. n\<lparr>children := children n @ [i]\<rparr>) d3
      in (i, d4))"

definition limit_error :: error where
  "limit_error = Error ResourceLimit ''HTML tree exceeds node or depth limit''"

definition opens :: "html_token \<Rightarrow> bool" where
  "opens tok \<longleftrightarrow> tok_kind tok = StartTag \<and> \<not> is_void_element (tok_data tok)"

definition after_start :: "html_token \<Rightarrow> tokenizer \<Rightarrow> tokenizer" where
  "after_start tok tk =
     (if opens tok \<and> (is_raw_text_element (tok_data tok) \<or> is_rcdata_element (tok_data tok))
      then text_element (tok_data tok) tk else tk)"

lemma after_start_rest [simp]: "tk_rest (after_start tok tk) = tk_rest tk"
  by (simp add: after_start_def text_element_def)

lemma next_token_dec:
  "(tok, tk') = next_token tk \<Longrightarrow> tok_kind tok \<noteq> EndToken \<Longrightarrow> length (tk_rest tk') < length (tk_rest tk)"
  using next_token_length [of tk] next_token_kind_End [of tk] by (metis fst_conv snd_conv)

function parse_loop :: "tokenizer \<Rightarrow> dom \<Rightarrow> nat list \<Rightarrow> nat \<Rightarrow> dom result" where
  "parse_loop tk d stack count =
     (let (tok, tk') = next_token tk in
      if tok_kind tok = EndToken then Inr d
      else if tok_kind tok = EndTag then
        parse_loop tk' d (close_end (\<lambda>i. nname (node_at d i)) (tok_data tok) stack) count
      else
        let stack' = (if tok_kind tok = StartTag
              then close_for_start (\<lambda>i. nname (node_at d i)) (tok_data tok) stack else stack)
        in if Suc count > max_nodes \<or> length stack' > max_depth then Inl limit_error
           else let (i, d') = add_node tok (hd stack') d
                in parse_loop (after_start tok tk') d' (if opens tok then i # stack' else stack')
                     (Suc count))"
  by pat_completeness auto
termination
  by (relation "measure (\<lambda>(tk, d, stack, count). length (tk_rest tk))") (auto intro: next_token_dec)

declare parse_loop.simps [simp del]

text \<open>\<open>parse_html_tree\<close>: the resulting store, whose document node has address 0.\<close>

definition parse_html_tree :: "string \<Rightarrow> dom result" where
  "parse_html_tree html =
     (if length html > max_bytes then Inl (Error ResourceLimit ''HTML input exceeds 16 MiB'')
      else let (root, d) = make_node Document empty_dom
           in parse_loop (html_tokenizer html) d [root] 1)"

section \<open>The specification: building the tree as a value\<close>

text \<open>An open element: what is known of it, and its finished children in order.\<close>

datatype frame =
  Frame (f_type: node_type) (f_name: string) (f_attributes: "attribute list") (f_done: "tree list")

definition close_frame :: "frame \<Rightarrow> tree" where
  "close_frame f = Tree (f_type f) (f_name f) (f_attributes f) [] (f_done f)"

fun add_done :: "tree \<Rightarrow> frame list \<Rightarrow> frame list" where
  "add_done t (f # fs) = Frame (f_type f) (f_name f) (f_attributes f) (f_done f @ [t]) # fs"
| "add_done t [] = []"

fun pop :: "frame list \<Rightarrow> frame list" where
  "pop (f # g # fs) = add_done (close_frame f) (g # fs)"
| "pop fs = fs"

text \<open>Close open elements until as many are left as \<open>keep\<close> leaves.\<close>

definition pop_to :: "(frame list \<Rightarrow> frame list) \<Rightarrow> frame list \<Rightarrow> frame list" where
  "pop_to keep fs = (pop ^^ (length fs - length (keep fs))) fs"

definition finish :: "frame list \<Rightarrow> tree" where
  "finish fs = close_frame (hd ((pop ^^ (length fs - 1)) fs))"

definition token_tree :: "html_token \<Rightarrow> tree" where
  "token_tree tok = (if tok_kind tok = StartTag
     then Tree Element (tok_data tok) (tok_attributes tok) [] []
     else Tree (token_type (tok_kind tok)) [] [] (tok_data tok) [])"

definition token_frame :: "html_token \<Rightarrow> frame" where
  "token_frame tok = Frame Element (tok_data tok) (tok_attributes tok) []"

function build :: "tokenizer \<Rightarrow> frame list \<Rightarrow> nat \<Rightarrow> tree result" where
  "build tk fs count =
     (let (tok, tk') = next_token tk in
      if tok_kind tok = EndToken then Inr (finish fs)
      else if tok_kind tok = EndTag then build tk' (pop_to (close_end f_name (tok_data tok)) fs) count
      else
        let fs' = (if tok_kind tok = StartTag
              then pop_to (close_for_start f_name (tok_data tok)) fs else fs)
        in if Suc count > max_nodes \<or> length fs' > max_depth then Inl limit_error
           else build (after_start tok tk')
                  (if opens tok then token_frame tok # fs' else add_done (token_tree tok) fs') (Suc count))"
  by pat_completeness auto
termination
  by (relation "measure (\<lambda>(tk, fs, count). length (tk_rest tk))") (auto intro: next_token_dec)

declare build.simps [simp del]

definition root_frame :: frame where
  "root_frame = Frame Document [] [] []"

definition build_html :: "string \<Rightarrow> tree result" where
  "build_html html =
     (if length html > max_bytes then Inl (Error ResourceLimit ''HTML input exceeds 16 MiB'')
      else build (html_tokenizer html) [root_frame] 1)"

section \<open>Stacks shrink by name only\<close>

lemma scan_scope_map:
  "scan_scope nm ts bs (map f xs) = map_option (map f) (scan_scope (\<lambda>x. nm (f x)) ts bs xs)"
  by (induction "\<lambda>x. nm (f x)" ts bs xs rule: scan_scope.induct) auto

lemma close_scoped_map:
  "close_scoped nm ts bs (map f xs) = map f (close_scoped (\<lambda>x. nm (f x)) ts bs xs)"
  by (simp add: close_scoped_def scan_scope_map split: option.split)

lemma close_for_start_map:
  "close_for_start nm n (map f xs) = map f (close_for_start (\<lambda>x. nm (f x)) n xs)"
  unfolding close_for_start_def Let_def
  by (simp only: close_scoped_map if_distrib [of "map f", symmetric] if_distrib [of "close_scoped _ _ _"]
      cong: if_cong)

lemma scan_scope_suffix: "scan_scope nm ts bs xs = Some r \<Longrightarrow> r \<noteq> [] \<and> suffix r xs"
  by (induction nm ts bs xs rule: scan_scope.induct) (auto split: if_splits intro: suffix_ConsI)

lemma close_scoped_suffix: "xs \<noteq> [] \<Longrightarrow> close_scoped nm ts bs xs \<noteq> [] \<and> suffix (close_scoped nm ts bs xs) xs"
  by (auto simp: close_scoped_def split: option.split dest: scan_scope_suffix)

lemma close_scoped_suffixI:
  "xs \<noteq> [] \<and> suffix xs ys \<Longrightarrow> close_scoped nm ts bs xs \<noteq> [] \<and> suffix (close_scoped nm ts bs xs) ys"
  using close_scoped_suffix [of xs nm ts bs] suffix_order.trans by blast

lemma close_for_start_suffix:
  assumes "xs \<noteq> []"
  shows "close_for_start nm n xs \<noteq> [] \<and> suffix (close_for_start nm n xs) xs"
proof -
  have step: "(if b then close_scoped nm ts bs ys else ys) \<noteq> [] \<and>
      suffix (if b then close_scoped nm ts bs ys else ys) xs"
    if "ys \<noteq> [] \<and> suffix ys xs" for b ts bs ys
    using that close_scoped_suffixI [of ys xs] by auto
  show ?thesis
    unfolding close_for_start_def Let_def by (intro step) (simp add: assms)
qed

lemma close_end_suffix: "xs \<noteq> [] \<Longrightarrow> close_end nm n xs \<noteq> [] \<and> suffix (close_end nm n xs) xs"
  by (simp add: close_end_def close_scoped_suffix)

lemma suffix_drop_length: "suffix r xs \<Longrightarrow> r = drop (length xs - length r) xs"
  by (auto simp: suffix_def)

text \<open>Two stacks with the same names are cut at the same height.\<close>

lemma close_same_length:
  assumes "map nm xs = map nm' ys"
  shows "length (close_for_start nm n xs) = length (close_for_start nm' n ys)"
    "length (close_end nm n xs) = length (close_end nm' n ys)"
  using close_for_start_map [of "\<lambda>s. s" n nm xs] close_for_start_map [of "\<lambda>s. s" n nm' ys]
    close_scoped_map [of "\<lambda>s. s" "[n]" "[]" nm xs] close_scoped_map [of "\<lambda>s. s" "[n]" "[]" nm' ys] assms
  unfolding close_end_def by (metis length_map)+

section \<open>The store represents the specification\<close>

text \<open>
  \<open>linked d A ex stack fs\<close>: each stack node carries what its frame says, its finished children
  represent the frame's, and its last child is the next open element (\<open>ex\<close> for the top of the
  stack), where finished subtrees avoid the nodes in \<open>A\<close>.
\<close>

fun linked :: "dom \<Rightarrow> nat set \<Rightarrow> nat list \<Rightarrow> nat list \<Rightarrow> frame list \<Rightarrow> bool" where
  "linked d A ex [] [] \<longleftrightarrow> True"
| "linked d A ex (i # stack) (f # fs) \<longleftrightarrow>
     i < size_dom d \<and> ntype (node_at d i) = f_type f \<and> nname (node_at d i) = f_name f \<and>
     attributes (node_at d i) = f_attributes f \<and> ntext (node_at d i) = [] \<and>
     (\<exists>ids. children (node_at d i) = ids @ ex \<and> list_all2 (rep d A) ids (f_done f)) \<and>
     linked d A [i] stack fs"
| "linked d A ex _ _ \<longleftrightarrow> False"

definition sim :: "dom \<Rightarrow> nat list \<Rightarrow> frame list \<Rightarrow> bool" where
  "sim d stack fs \<longleftrightarrow> stack \<noteq> [] \<and> distinct stack \<and> linked d (set stack) [] stack fs"

lemma rep_list_mono: "list_all2 (rep d A) is ts \<Longrightarrow> B \<subseteq> A \<Longrightarrow> list_all2 (rep d B) is ts"
  by (erule list_all2_mono) (rule rep_mono)

lemma linked_mono: "linked d A ex stack fs \<Longrightarrow> B \<subseteq> A \<Longrightarrow> linked d B ex stack fs"
  by (induction d A ex stack fs rule: linked.induct) (auto intro: rep_list_mono)

lemma linked_names: "linked d A ex stack fs \<Longrightarrow> map (\<lambda>i. nname (node_at d i)) stack = map f_name fs"
  by (induction d A ex stack fs rule: linked.induct) auto

lemma linked_length: "linked d A ex stack fs \<Longrightarrow> length stack = length fs"
  by (induction d A ex stack fs rule: linked.induct) auto

lemma linked_bound: "linked d A ex stack fs \<Longrightarrow> set stack \<subseteq> {0 ..< size_dom d}"
  by (induction d A ex stack fs rule: linked.induct) auto

lemma close_frame_tree:
  "ntype n = f_type f \<Longrightarrow> nname n = f_name f \<Longrightarrow> attributes n = f_attributes f \<Longrightarrow> ntext n = [] \<Longrightarrow>
   node_tree n (f_done f) = close_frame f"
  by (simp add: node_tree_def close_frame_def)

lemma sim_pop:
  assumes "sim d (i # j # stack) fs"
  shows "sim d (j # stack) (pop fs)"
proof -
  obtain f g fs' where fs: "fs = f # g # fs'"
    using assms by (cases fs; cases "tl fs") (auto simp: sim_def)
  let ?A = "set (j # stack)"
  have link: "linked d (insert i ?A) [] (i # j # stack) (f # g # fs')" and dist: "distinct (i # j # stack)"
    using assms fs by (simp_all add: sim_def)
  obtain ids where ids: "children (node_at d j) = ids @ [i]" "list_all2 (rep d (insert i ?A)) ids (f_done g)"
    using link by auto
  have sub: "?A \<subseteq> insert i ?A" by blast
  have "list_all2 (rep d (insert i ?A)) (children (node_at d i)) (f_done f)"
    using link by simp
  then have "list_all2 (rep d ?A) (children (node_at d i)) (f_done f)"
    by (rule rep_list_mono [OF _ sub])
  then have "rep d ?A i (node_tree (node_at d i) (f_done f))"
    using link dist by (intro rep) auto
  then have "rep d ?A i (close_frame f)"
    using link by (simp add: close_frame_tree)
  moreover have "list_all2 (rep d ?A) ids (f_done g)"
    by (rule rep_list_mono [OF ids(2) sub])
  ultimately have "list_all2 (rep d ?A) (ids @ [i]) (f_done g @ [close_frame f])"
    by (auto intro: list_all2_appendI)
  moreover have "linked d ?A [j] stack fs'"
    by (rule linked_mono [OF _ sub]) (use link in simp)
  ultimately show ?thesis
    using link ids(1) dist by (auto simp: sim_def fs)
qed

lemma sim_pops: "sim d stack fs \<Longrightarrow> k < length stack \<Longrightarrow> sim d (drop k stack) ((pop ^^ k) fs)"
proof (induction k)
  case (Suc k)
  then have "sim d (drop k stack) ((pop ^^ k) fs)" by simp
  moreover have "drop k stack = stack ! k # stack ! Suc k # drop (Suc (Suc k)) stack"
    using Suc.prems(2) by (simp add: Cons_nth_drop_Suc)
  moreover have "drop (Suc k) stack = stack ! Suc k # drop (Suc (Suc k)) stack"
    using Suc.prems(2) by (simp add: Cons_nth_drop_Suc)
  ultimately show ?case by (simp add: sim_pop)
qed simp

lemma sim_pop_to:
  assumes "sim d stack fs" and "keep stack \<noteq> []" "suffix (keep stack) stack"
    and "length (keep' fs) = length (keep stack)"
  shows "sim d (keep stack) (pop_to keep' fs)"
proof -
  have len: "length stack = length fs" using assms(1) linked_length by (auto simp: sim_def)
  have "keep stack = drop (length stack - length (keep stack)) stack"
    by (rule suffix_drop_length [OF assms(3)])
  moreover have "length stack - length (keep stack) < length stack"
    using assms(2) suffix_length_le [OF assms(3)] by (cases "keep stack") auto
  ultimately show ?thesis
    using sim_pops [OF assms(1), of "length stack - length (keep stack)"] assms(4)
    by (simp add: pop_to_def len)
qed

lemma rep_fresh: "rep d A i t \<Longrightarrow> size_dom d \<le> m \<Longrightarrow> rep d (insert m A) i t"
  by (induction rule: rep.induct) (auto intro!: rep elim: list_all2_mono)

lemma linked_fresh: "linked d A ex stack fs \<Longrightarrow> size_dom d \<le> m \<Longrightarrow> linked d (insert m A) ex stack fs"
proof (induction d A ex stack fs rule: linked.induct)
  case (2 d A ex i stack f fs)
  have "list_all2 (rep d A) ids ts \<Longrightarrow> list_all2 (rep d (insert m A)) ids ts" for ids ts
    by (erule list_all2_mono) (simp add: rep_fresh 2)
  with 2 show ?case by auto
qed auto

text \<open>What \<open>add_node\<close> does to the store.\<close>

definition token_node :: "html_token \<Rightarrow> nat \<Rightarrow> node" where
  "token_node tok p = (let n = (fresh_node (token_type (tok_kind tok)))\<lparr>parent := Some p\<rparr> in
     if tok_kind tok = StartTag then n\<lparr>nname := tok_data tok, attributes := tok_attributes tok\<rparr>
     else n\<lparr>ntext := tok_data tok\<rparr>)"

lemma add_node_spec:
  assumes "add_node tok p d = (i, d')" and "p < size_dom d"
  shows "i = size_dom d" "size_dom d' = Suc (size_dom d)" "node_at d' i = token_node tok p"
    "node_at d' p = (node_at d p)\<lparr>children := children (node_at d p) @ [i]\<rparr>"
    "j < size_dom d \<Longrightarrow> j \<noteq> p \<Longrightarrow> node_at d' j = node_at d j" "mutations d' = mutations d"
  using assms by (auto simp: add_node_def make_node_def token_node_def Let_def nth_append)

lemma token_node_leaf: "children (token_node tok p) = []" "parent (token_node tok p) = Some p"
  by (simp_all add: token_node_def fresh_node_def Let_def)

lemma token_node_tree: "node_tree (token_node tok p) [] = token_tree tok"
  by (simp add: node_tree_def token_node_def token_tree_def fresh_node_def token_type_def Let_def)

lemma node_tree_children [simp]: "node_tree (n\<lparr>children := cs\<rparr>) = node_tree n"
  by (auto simp: node_tree_def)

lemma rep_add_node:
  assumes "add_node tok p d = (i, d')" and "p < size_dom d" and "p \<in> A" and "rep d A c t"
  shows "rep d' A c t"
  using assms(4)
proof (rule rep_frame)
  show "size_dom d \<le> size_dom d'" using add_node_spec [OF assms(1,2)] by simp
  fix j assume "j < size_dom d" "j \<notin> A"
  then have "node_at d' j = node_at d j" using add_node_spec(5) [OF assms(1,2)] assms(3) by blast
  then show "node_tree (node_at d' j) = node_tree (node_at d j) \<and>
    children (node_at d' j) = children (node_at d j)" by simp
qed

lemma linked_add_node:
  assumes an: "add_node tok p d = (i, d')" "p < size_dom d" and A: "p \<in> A"
  shows "linked d A ex stack fs \<Longrightarrow> p \<notin> set stack \<Longrightarrow> linked d' A ex stack fs"
proof (induction stack arbitrary: ex fs)
  case Nil
  then show ?case by (cases fs) auto
next
  case (Cons j stack)
  then obtain f fs' where fs: "fs = f # fs'" by (cases fs) auto
  have "node_at d' j = node_at d j" "j < size_dom d'"
    using Cons.prems fs add_node_spec(2,5) [OF an] by auto
  moreover have "list_all2 (rep d A) ids ts \<Longrightarrow> list_all2 (rep d' A) ids ts" for ids ts
    by (erule list_all2_mono) (rule rep_add_node [OF an A])
  ultimately show ?case
    using Cons fs by auto
qed

text \<open>The top of the stack after a node was pushed below it.\<close>

lemma sim_add:
  assumes sim: "sim d (p # stack) (f # fs)" and an: "add_node tok p d = (i, d')"
  shows "sim d' (p # stack) (add_done (token_tree tok) (f # fs))" (is ?leaf)
    and "tok_kind tok = StartTag \<Longrightarrow> sim d' (i # p # stack) (token_frame tok # f # fs)" (is "_ \<Longrightarrow> ?open")
proof -
  let ?A = "set (p # stack)"
  have link: "linked d ?A [] (p # stack) (f # fs)" and dist: "distinct (p # stack)"
    using sim by (simp_all add: sim_def)
  then have p: "p < size_dom d" and bound: "?A \<subseteq> {0 ..< size_dom d}"
    using linked_bound [OF link] by auto
  note spec = add_node_spec [OF an p]
  have ids: "list_all2 (rep d ?A) (children (node_at d p)) (f_done f)" using link by simp
  then have ids': "list_all2 (rep d' ?A) (children (node_at d p)) (f_done f)"
    by (rule list_all2_mono) (rule rep_add_node [OF an p], simp_all)
  have rest: "linked d' ?A [p] stack fs"
    by (rule linked_add_node [OF an p]) (use link dist in auto)
  have inew: "i \<notin> ?A" using bound spec(1) by auto
  have top: "node_at d' p = (node_at d p)\<lparr>children := children (node_at d p) @ [i]\<rparr>" by (rule spec(4))
  have "rep d' ?A i (node_tree (node_at d' i) [])"
    using inew spec(1,2,3) by (intro rep) (simp_all add: token_node_leaf)
  then have "rep d' ?A i (token_tree tok)" by (simp add: spec(3) token_node_tree)
  with ids' have "list_all2 (rep d' ?A) (children (node_at d p) @ [i]) (f_done f @ [token_tree tok])"
    by (auto intro: list_all2_appendI)
  with link dist rest spec(2) top show ?leaf
    by (simp add: sim_def)
  assume st: "tok_kind tok = StartTag"
  have mono: "list_all2 (rep d (insert i ?A)) (children (node_at d p)) (f_done f)"
    using ids by (rule list_all2_mono) (simp add: rep_fresh spec(1))
  then have mono': "list_all2 (rep d' (insert i ?A)) (children (node_at d p)) (f_done f)"
    by (rule list_all2_mono) (rule rep_add_node [OF an p], simp_all)
  have "linked d (insert i ?A) [p] stack fs"
    by (rule linked_fresh) (use link spec(1) in simp_all)
  then have "linked d' (insert i ?A) [p] stack fs"
    by (rule linked_add_node [OF an p, rotated]) (use dist in auto)
  moreover have "node_at d' i = token_node tok p" "i < size_dom d'" using spec(1,2,3) by simp_all
  ultimately show ?open
    using link dist inew mono' spec(2) top st
    by (simp add: sim_def token_node_def fresh_node_def token_frame_def Let_def token_type_def)
qed

lemma sim_finish:
  assumes "sim d stack fs"
  shows "rep d {} (last stack) (finish fs)"
proof -
  have ne: "stack \<noteq> []" and len: "length stack = length fs"
    using assms linked_length by (auto simp: sim_def)
  have "sim d (drop (length fs - 1) stack) ((pop ^^ (length fs - 1)) fs)"
    by (rule sim_pops [OF assms]) (use ne len in \<open>cases stack; simp\<close>)
  moreover have "drop (length fs - 1) stack = [last stack]"
    using ne len by (metis append_butlast_last_id append_eq_conv_conj length_butlast)
  ultimately have s: "sim d [last stack] ((pop ^^ (length fs - 1)) fs)" by simp
  then obtain g where g: "(pop ^^ (length fs - 1)) fs = [g]"
    by (cases "(pop ^^ (length fs - 1)) fs"; cases "tl ((pop ^^ (length fs - 1)) fs)") (auto simp: sim_def)
  have link: "linked d {last stack} [] [last stack] [g]" using s g by (simp add: sim_def)
  have "list_all2 (rep d {}) (children (node_at d (last stack))) (f_done g)"
    by (rule rep_list_mono [of d "{last stack}"]) (use link in auto)
  then have "rep d {} (last stack) (node_tree (node_at d (last stack)) (f_done g))"
    by (intro rep) (use link in auto)
  then show ?thesis using link g by (simp add: finish_def close_frame_tree)
qed

lemma last_suffix: "r \<noteq> [] \<Longrightarrow> suffix r xs \<Longrightarrow> last r = last xs"
  by (auto simp: suffix_def)

definition agrees :: "nat \<Rightarrow> dom result \<Rightarrow> tree result \<Rightarrow> bool" where
  "agrees root r s \<longleftrightarrow>
     (case r of Inl e \<Rightarrow> s = Inl e | Inr d \<Rightarrow> (\<exists>t. s = Inr t \<and> rep d {} root t))"

lemma sim_start:
  assumes "sim d stack fs"
  shows "sim d (close_for_start (\<lambda>i. nname (node_at d i)) n stack) (pop_to (close_for_start f_name n) fs)"
    "sim d (close_end (\<lambda>i. nname (node_at d i)) n stack) (pop_to (close_end f_name n) fs)"
proof -
  have ne: "stack \<noteq> []" using assms by (simp add: sim_def)
  have nm: "map (\<lambda>i. nname (node_at d i)) stack = map f_name fs"
    using assms linked_names by (auto simp: sim_def)
  show "sim d (close_for_start (\<lambda>i. nname (node_at d i)) n stack) (pop_to (close_for_start f_name n) fs)"
    using close_for_start_suffix [OF ne] close_same_length(1) [OF nm]
    by (intro sim_pop_to [OF assms]) auto
  show "sim d (close_end (\<lambda>i. nname (node_at d i)) n stack) (pop_to (close_end f_name n) fs)"
    using close_end_suffix [OF ne] close_same_length(2) [OF nm]
    by (intro sim_pop_to [OF assms]) auto
qed

lemma parse_loop_build:
  "sim d stack fs \<Longrightarrow> agrees (last stack) (parse_loop tk d stack count) (build tk fs count)"
proof (induction tk d stack count arbitrary: fs rule: parse_loop.induct)
  case (1 tk d stack count)
  obtain tok tk' where nt: "next_token tk = (tok, tk')" by fastforce
  have ne: "stack \<noteq> []" using "1.prems" by (simp add: sim_def)
  let ?nm = "\<lambda>i. nname (node_at d i)"
  note unfold = parse_loop.simps [of tk d stack count] build.simps [of tk fs count]
  consider "tok_kind tok = EndToken" | "tok_kind tok = EndTag"
    | (node) "tok_kind tok \<noteq> EndToken" "tok_kind tok \<noteq> EndTag" by blast
  then show ?case
  proof cases
    case 1
    then show ?thesis using sim_finish [OF "1.prems"] by (simp add: unfold nt agrees_def)
  next
    case 2
    have "agrees (last (close_end ?nm (tok_data tok) stack))
        (parse_loop tk' d (close_end ?nm (tok_data tok) stack) count)
        (build tk' (pop_to (close_end f_name (tok_data tok)) fs) count)"
      by (rule "1.IH"(1) [OF nt [symmetric] refl]) (use 2 sim_start [OF "1.prems"] in simp_all)
    moreover have "last (close_end ?nm (tok_data tok) stack) = last stack"
      using close_end_suffix [OF ne] last_suffix by blast
    ultimately show ?thesis
      using 2 by (simp add: unfold nt)
  next
    case node
    define stack' where "stack' = (if tok_kind tok = StartTag
      then close_for_start ?nm (tok_data tok) stack else stack)"
    define fs' where "fs' = (if tok_kind tok = StartTag
      then pop_to (close_for_start f_name (tok_data tok)) fs else fs)"
    have sim': "sim d stack' fs'"
      using sim_start(1) [OF "1.prems"] "1.prems" by (simp add: stack'_def fs'_def)
    have last': "last stack' = last stack"
      using close_for_start_suffix [OF ne] by (simp add: stack'_def last_suffix)
    have len: "length fs' = length stack'" using sim' linked_length by (auto simp: sim_def)
    obtain p s f g where sf: "stack' = p # s" "fs' = f # g"
      using sim' len by (cases stack'; cases fs') (auto simp: sim_def)
    obtain i d' where an: "add_node tok (hd stack') d = (i, d')" by fastforce
    show ?thesis
    proof (cases "Suc count > max_nodes \<or> length stack' > max_depth")
      case True
      then show ?thesis
        using node len by (simp add: unfold nt agrees_def flip: stack'_def fs'_def)
    next
      case False
      have "sim d' (if opens tok then i # stack' else stack')
          (if opens tok then token_frame tok # fs' else add_done (token_tree tok) fs')"
        using sim_add [of d p s f g tok i d'] sim' an sf by (auto simp: opens_def)
      then have "agrees (last (if opens tok then i # stack' else stack'))
          (parse_loop (after_start tok tk') d' (if opens tok then i # stack' else stack') (Suc count))
          (build (after_start tok tk')
            (if opens tok then token_frame tok # fs' else add_done (token_tree tok) fs') (Suc count))"
        using "1.IH"(2) [OF nt [symmetric] refl node stack'_def False an [symmetric] refl] by blast
      moreover have "last (if opens tok then i # stack' else stack') = last stack"
        using last' sf by auto
      ultimately show ?thesis
        using node False an len by (simp add: unfold nt flip: stack'_def fs'_def)
    qed
  qed
qed

section \<open>The parser keeps the store well formed and within its bounds\<close>

lemma add_node_wf:
  assumes an: "add_node tok p d = (i, d')" and p: "p < size_dom d" and wf: "dom_wf d"
  shows "dom_wf d'"
proof -
  obtain d1 where mk: "make_node (token_type (tok_kind tok)) d = (i, d1)"
    using an by (auto simp: add_node_def Let_def split: prod.splits)
  define d2 where "d2 = update_node i (\<lambda>n. if tok_kind tok = StartTag
     then n\<lparr>nname := tok_data tok, attributes := tok_attributes tok\<rparr> else n\<lparr>ntext := tok_data tok\<rparr>) d1"
  note mkd = make_node_wf [OF mk wf]
  have i: "i < size_dom d2" and p2: "p < size_dom d2" using p mkd(2,3) by (simp_all add: d2_def)
  have "dom_wf d2 \<longleftrightarrow> dom_wf d1" by (rule dom_wf_cong) (simp_all add: d2_def)
  then have w2: "dom_wf d2" using mkd(1) by simp
  have bare: "children (node_at d2 i) = []" "parent (node_at d2 i) = None"
    using mkd(5) i by (simp_all add: d2_def fresh_node_def)
  have "d' = update_node p (\<lambda>n. n\<lparr>children := children n @ [i]\<rparr>)
      (update_node i (\<lambda>n. n\<lparr>parent := Some p\<rparr>) d2)"
    using an by (simp add: add_node_def Let_def mk d2_def)
  moreover have "p \<noteq> i" using p mkd(2) by simp
  ultimately show ?thesis using attach_fresh_wf [OF w2 p2 i _ bare] by simp
qed

text \<open>What holds whenever the loop is entered: the node count is the size of the store.\<close>

definition loop_inv :: "dom \<Rightarrow> nat list \<Rightarrow> nat \<Rightarrow> bool" where
  "loop_inv d stack count \<longleftrightarrow> dom_wf d \<and> size_dom d = count \<and> count \<le> max_nodes \<and>
     stack \<noteq> [] \<and> set stack \<subseteq> {0 ..< size_dom d}"

lemma parse_loop_inv:
  "loop_inv d stack count \<Longrightarrow>
   (case parse_loop tk d stack count of Inl e \<Rightarrow> e = limit_error
    | Inr d' \<Rightarrow> dom_wf d' \<and> size_dom d' \<le> max_nodes)"
proof (induction tk d stack count rule: parse_loop.induct)
  case (1 tk d stack count)
  obtain tok tk' where nt: "next_token tk = (tok, tk')" by fastforce
  have ne: "stack \<noteq> []" using "1.prems" by (simp add: loop_inv_def)
  let ?nm = "\<lambda>i. nname (node_at d i)"
  have shrink: "loop_inv d s count" if "s \<noteq> [] \<and> suffix s stack" for s
    using "1.prems" that set_mono_suffix by (fastforce simp: loop_inv_def)
  note unfold = parse_loop.simps [of tk d stack count]
  consider "tok_kind tok = EndToken" | "tok_kind tok = EndTag"
    | (node) "tok_kind tok \<noteq> EndToken" "tok_kind tok \<noteq> EndTag" by blast
  then show ?case
  proof cases
    case 1
    then show ?thesis using "1.prems" by (simp add: unfold nt loop_inv_def)
  next
    case 2
    have "loop_inv d (close_end ?nm (tok_data tok) stack) count"
      by (rule shrink [OF close_end_suffix [OF ne]])
    then show ?thesis
      using 2 "1.IH"(1) [OF nt [symmetric] refl] by (simp add: unfold nt)
  next
    case node
    define stack' where "stack' = (if tok_kind tok = StartTag
      then close_for_start ?nm (tok_data tok) stack else stack)"
    have inv': "loop_inv d stack' count"
      using shrink [OF close_for_start_suffix [OF ne]] "1.prems" by (simp add: stack'_def)
    then have p: "hd stack' < size_dom d" by (cases stack') (auto simp: loop_inv_def)
    obtain i d' where an: "add_node tok (hd stack') d = (i, d')" by fastforce
    note spec = add_node_spec(1,2) [OF an p]
    show ?thesis
    proof (cases "Suc count > max_nodes \<or> length stack' > max_depth")
      case True
      then show ?thesis using node by (simp add: unfold nt flip: stack'_def)
    next
      case False
      have "loop_inv d' (if opens tok then i # stack' else stack') (Suc count)"
        using inv' False spec add_node_wf [OF an p] by (auto simp: loop_inv_def)
      then show ?thesis
        using "1.IH"(2) [OF nt [symmetric] refl node stack'_def False an [symmetric] refl] node False an
        by (simp add: unfold nt flip: stack'_def)
    qed
  qed
qed

text \<open>The depth bound, on the specification: a finished child of the frame at height \<open>h\<close> fits below it.\<close>

fun fits :: "frame list \<Rightarrow> bool" where
  "fits [] \<longleftrightarrow> True"
| "fits (f # fs) \<longleftrightarrow> length fs \<le> max_depth \<and>
     (\<forall>t\<in>set (f_done f). Suc (length fs) + levels t \<le> max_depth) \<and> fits fs"

lemma fits_pop: "fits fs \<Longrightarrow> fits (pop fs)"
proof (induction fs rule: pop.induct)
  case (1 f g fs)
  then have "levels (close_frame f) \<le> max_depth - Suc (length fs)"
    unfolding close_frame_def levels_le_iff by fastforce
  with 1 show ?case by auto
qed auto

lemma fits_pops: "fits fs \<Longrightarrow> fits ((pop ^^ k) fs)"
  by (induction k) (auto intro: fits_pop)

lemma length_add_done [simp]: "length (add_done t fs) = length fs"
  by (cases fs) auto

lemma length_pop [simp]: "length (pop fs) = (if length fs \<le> 1 then length fs else length fs - 1)"
  by (induction fs rule: pop.induct) auto

lemma length_pops: "k < length fs \<Longrightarrow> length ((pop ^^ k) fs) = length fs - k"
  by (induction k) auto

lemma fits_add: "fits fs \<Longrightarrow> length fs \<le> max_depth \<Longrightarrow> fits (add_done (token_tree tok) fs)"
  by (cases fs) (auto simp: token_tree_def)

lemma build_fits: "fits fs \<Longrightarrow> fs \<noteq> [] \<Longrightarrow> build tk fs count = Inr t \<Longrightarrow> levels t \<le> max_depth"
proof (induction tk fs count rule: build.induct)
  case (1 tk fs count)
  obtain tok tk' where nt: "next_token tk = (tok, tk')" by fastforce
  have pt: "fits (pop_to keep fs)" for keep
    using "1.prems" by (simp add: pop_to_def fits_pops)
  have pne: "pop_to keep fs \<noteq> []" if "keep fs \<noteq> []" for keep
  proof -
    have "length fs - length (keep fs) < length fs" using that "1.prems"(2) by (cases fs; cases "keep fs") auto
    from length_pops [OF this] show ?thesis using \<open>_ < length fs\<close> by (auto simp: pop_to_def)
  qed
  note unfold = build.simps [of tk fs count]
  consider "tok_kind tok = EndToken" | "tok_kind tok = EndTag"
    | (node) "tok_kind tok \<noteq> EndToken" "tok_kind tok \<noteq> EndTag" by blast
  then show ?case
  proof cases
    case 1
    have "length fs - 1 < length fs" using "1.prems"(2) by (cases fs) auto
    from length_pops [OF this] obtain g where g: "(pop ^^ (length fs - 1)) fs = [g]"
      using \<open>length fs - 1 < length fs\<close> by (cases "(pop ^^ (length fs - 1)) fs") auto
    have "fits [g]" using fits_pops [OF "1.prems"(1), of "length fs - 1"] g by simp
    then have "levels (close_frame g) \<le> max_depth"
      unfolding close_frame_def levels_le_iff by simp
    with 1 g "1.prems"(3) show ?thesis by (simp add: unfold nt finish_def)
  next
    case 2
    then show ?thesis
      using "1.IH"(1) [OF nt [symmetric] refl _ _ pt] pne close_end_suffix [OF "1.prems"(2)] "1.prems"(3)
      by (simp add: unfold nt)
  next
    case node
    define fs' where "fs' = (if tok_kind tok = StartTag
      then pop_to (close_for_start f_name (tok_data tok)) fs else fs)"
    have f': "fits fs'" "fs' \<noteq> []"
      using pt pne close_for_start_suffix [OF "1.prems"(2)] "1.prems" by (simp_all add: fs'_def)
    have ok: "\<not> (Suc count > max_nodes \<or> length fs' > max_depth)"
      using node "1.prems"(3) by (auto simp: unfold nt simp flip: fs'_def split: if_splits)
    have "fits (if opens tok then token_frame tok # fs' else add_done (token_tree tok) fs')"
      using f' ok fits_add [of fs'] by (simp add: token_frame_def)
    moreover have "(if opens tok then token_frame tok # fs' else add_done (token_tree tok) fs') \<noteq> []"
      using f'(2) by (cases fs') auto
    ultimately show ?thesis
      using "1.IH"(2) [OF nt [symmetric] refl node fs'_def ok] node ok "1.prems"(3)
      by (simp add: unfold nt flip: fs'_def)
  qed
qed

section \<open>Correctness of the parser\<close>

lemma parse_start:
  "make_node Document empty_dom = (0, \<lparr>nodes = [fresh_node Document], mutations = []\<rparr>)"
  by (simp add: make_node_def empty_dom_def)

lemma sim_initial: "sim \<lparr>nodes = [fresh_node Document], mutations = []\<rparr> [0] [root_frame]"
  by (simp add: sim_def root_frame_def fresh_node_def)

lemma initial_inv: "loop_inv \<lparr>nodes = [fresh_node Document], mutations = []\<rparr> [0] 1"
  using make_node_wf(1) [OF parse_start] by (simp add: loop_inv_def max_nodes_def)

lemma parse_html_tree_wf:
  "parse_html_tree html = Inr d \<Longrightarrow> dom_wf d \<and> size_dom d \<le> max_nodes"
  using parse_loop_inv [OF initial_inv, of "html_tokenizer html"]
  by (auto simp: parse_html_tree_def parse_start split: if_splits)

lemma parse_html_tree_agrees: "agrees 0 (parse_html_tree html) (build_html html)"
  using parse_loop_build [OF sim_initial, of "html_tokenizer html" 1]
  by (cases "length html > max_bytes") (simp_all add: parse_html_tree_def build_html_def parse_start agrees_def)

lemma parse_html_tree_Inr:
  assumes "parse_html_tree html = Inr d"
  shows "\<exists>t. build_html html = Inr t \<and> tree_at d 0 = Some t \<and> levels t \<le> max_depth"
proof -
  obtain t where t: "build_html html = Inr t" "rep d {} 0 t"
    using parse_html_tree_agrees [of html] assms by (auto simp: agrees_def)
  moreover have "levels t \<le> max_depth"
    using t(1) build_fits [of "[root_frame]" "html_tokenizer html" 1 t]
    by (simp add: build_html_def root_frame_def split: if_splits)
  ultimately show ?thesis
    using parse_html_tree_wf [OF assms] tree_at_rep by blast
qed

text \<open>
  C2: the store \<open>parse_html_tree\<close> builds by pushing nodes and cutting its stack of open elements
  represents exactly the tree that the specification \<open>build_html\<close> computes from the same tokens by
  closing finished elements into their parents, and the parser fails exactly when, and with the
  error with which, the specification fails.
\<close>

theorem parse_html_tree_refines_build:
  "(case parse_html_tree html of
      Inl e \<Rightarrow> build_html html = Inl e
    | Inr d \<Rightarrow> map_option Inr (tree_at d 0) = Some (build_html html))"
  using parse_html_tree_agrees [of html] parse_html_tree_Inr [of html]
  by (auto simp: agrees_def split: sum.split)

text \<open>
  C3: for every input the parser returns; either it reports a resource limit, or the document
  it returns is a well-formed store (parent and child links agree, no node is listed twice, no
  cycle) of at most 250000 nodes whose tree below the document node is at most 256 levels deep.
\<close>

theorem parse_html_tree_bounds:
  "(case parse_html_tree html of
      Inl e \<Rightarrow> code e = ResourceLimit
    | Inr d \<Rightarrow> dom_wf d \<and> size_dom d \<le> 250000 \<and> (\<exists>t. tree_at d 0 = Some t \<and> levels t \<le> 256))"
  using parse_loop_inv [OF initial_inv, of "html_tokenizer html"]
    parse_html_tree_Inr [of html] parse_html_tree_wf [of html]
  by (auto simp: parse_html_tree_def parse_start limit_error_def max_nodes_def max_depth_def split: sum.splits if_splits)

end
