(* ===== verification/Html_Serializer.thy ===== *)
theory Html_Serializer
  imports Html_Tokenizer Dom_Tree
begin

text \<open>
  \<^verbatim>\<open>html_serializer.cpp\<close>: markup escaping, serialization and text content.  The recursive readers
  take the tree below a node; \<open>serialize\<close> and \<open>text_content\<close> read that tree out of the store.
\<close>

section \<open>Escaping\<close>

definition escape_text_char :: "char \<Rightarrow> string" where
  "escape_text_char c =
     (if c = CHR ''&'' then ''&amp;'' else if c = CHR ''<'' then ''&lt;''
      else if c = CHR ''>'' then ''&gt;'' else [c])"

definition escape_text :: "string \<Rightarrow> string" where
  "escape_text value = concat (map escape_text_char value)"

definition escape_attribute_char :: "char \<Rightarrow> string" where
  "escape_attribute_char c =
     (if c = CHR ''&'' then ''&amp;'' else if c = CHR 0x22 then ''&quot;''
      else if c = CHR ''<'' then ''&lt;'' else if c = CHR ''>'' then ''&gt;'' else [c])"

definition escape_attribute :: "string \<Rightarrow> string" where
  "escape_attribute value = concat (map escape_attribute_char value)"

section \<open>Serialization\<close>

definition serialize_attribute :: "attribute \<Rightarrow> string" where
  "serialize_attribute a =
     '' '' @ attr_name a @ [CHR ''='', CHR 0x22] @ escape_attribute (attr_value a) @ [CHR 0x22]"

definition open_tag :: "string \<Rightarrow> attribute list \<Rightarrow> string" where
  "open_tag nm as = ''<'' @ nm @ concat (map serialize_attribute as) @ ''>''"

fun serialize_impl :: "tree \<Rightarrow> string \<Rightarrow> string" where
  "serialize_impl (Tree ty nm as tx ts) parent_name =
     (case ty of
        Document \<Rightarrow> concat (map (\<lambda>t. serialize_impl t []) ts)
      | Text \<Rightarrow> if is_raw_text_element parent_name then tx else escape_text tx
      | Comment \<Rightarrow> ''<!--'' @ tx @ ''-->''
      | Doctype \<Rightarrow> ''<!'' @ tx @ ''>''
      | Element \<Rightarrow>
          if is_void_element nm then open_tag nm as
          else open_tag nm as @ concat (map (\<lambda>t. serialize_impl t nm) ts) @ ''</'' @ nm @ ''>'')"

definition serialize :: "dom \<Rightarrow> nat \<Rightarrow> string option" where
  "serialize d i =
     map_option (\<lambda>t. serialize_impl t (case parent (node_at d i) of None \<Rightarrow> [] | Some p \<Rightarrow> nname (node_at d p)))
       (tree_at d i)"

fun tree_text :: "tree \<Rightarrow> string" where
  "tree_text (Tree ty nm as tx ts) = (if ty = Text then tx else concat (map tree_text ts))"

definition text_content :: "dom \<Rightarrow> nat \<Rightarrow> string option" where
  "text_content d i = map_option tree_text (tree_at d i)"

section \<open>Escaped text decodes to itself\<close>

lemma named_reference_entity:
  assumes "map_of named_entities n = Some v" and "CHR '';'' \<notin> set n" and "length n < 12"
    and "n \<noteq> []" and "hd n \<noteq> CHR ''#''"
  shows "reference (n @ CHR '';'' # s) = Some (v, s)"
proof -
  have tk: "take 12 (n @ CHR '';'' # s) = n @ CHR '';'' # take (11 - length n) s"
    using assms(3) by (simp add: take_Cons' Suc_diff_le numeral_eq_Suc)
  have "find_char (CHR '';'') (take 12 (n @ CHR '';'' # s)) = Some (length n)"
    "take (length n) (take 12 (n @ CHR '';'' # s)) = n"
    using assms(2) unfolding tk by simp_all
  then have "named_reference (n @ CHR '';'' # s) = Some (v, s)"
    using assms(1) by (simp add: named_reference_def Let_def del: take_append)
  with assms(4,5) show ?thesis by (cases n) (simp_all add: reference_def)
qed

lemma decode_entity:
  assumes "map_of named_entities n = Some [c]" and "CHR '';'' \<notin> set n" and "length n < 12"
    and "n \<noteq> []" and "hd n \<noteq> CHR ''#''"
  shows "decode_entities (CHR ''&'' # n @ CHR '';'' # s) = c # decode_entities s"
  using named_reference_entity [OF assms] by simp

lemma decode_escapes:
  "decode_entities (''&amp;'' @ s) = CHR ''&'' # decode_entities s"
  "decode_entities (''&lt;'' @ s) = CHR ''<'' # decode_entities s"
  "decode_entities (''&gt;'' @ s) = CHR ''>'' # decode_entities s"
  "decode_entities (''&quot;'' @ s) = CHR 0x22 # decode_entities s"
  using decode_entity [of "''amp''" "CHR ''&''" s] decode_entity [of "''lt''" "CHR ''<''" s]
    decode_entity [of "''gt''" "CHR ''>''" s] decode_entity [of "''quot''" "CHR 0x22" s]
  by (simp_all add: named_entities_def)

interpretation text_esc: escaping escape_text_char decode_entities
  by unfold_locales (simp_all add: escape_text_char_def decode_escapes [simplified])

interpretation attribute_esc: escaping escape_attribute_char decode_entities
  by unfold_locales (simp_all add: escape_attribute_char_def decode_escapes [simplified])

lemma decode_escape_text [simp]: "decode_entities (escape_text s) = s"
  by (simp add: escape_text_def text_esc.dec_escape)

lemma decode_escape_attribute [simp]: "decode_entities (escape_attribute s) = s"
  by (simp add: escape_attribute_def attribute_esc.dec_escape)

lemma escape_text_safe: "CHR ''<'' \<notin> set (escape_text s)"
  by (induction s) (auto simp: escape_text_def escape_text_char_def)

lemma escape_attribute_safe: "CHR 0x22 \<notin> set (escape_attribute s)"
  by (induction s) (auto simp: escape_attribute_def escape_attribute_char_def)

lemma escape_text_eq_Nil [simp]: "escape_text s = [] \<longleftrightarrow> s = []"
  by (cases s) (auto simp: escape_text_def escape_text_char_def)

text \<open>
  C6: escaping is safe and exact: escaped text holds no \<open><\<close> or \<open>>\<close> and an escaped attribute value no
  quote either, so neither can end its context early, and decoding character references
  restores the original bytes of both.
\<close>

theorem escape_decode:
  "set (escape_text s) \<inter> {CHR ''<'', CHR ''>''} = {} \<and> decode_entities (escape_text s) = s \<and>
   set (escape_attribute s) \<inter> {CHR ''<'', CHR ''>'', CHR 0x22} = {} \<and>
   decode_entities (escape_attribute s) = s"
proof -
  have "set (escape_text s) \<inter> {CHR ''<'', CHR ''>''} = {}"
    by (induction s) (auto simp: escape_text_def escape_text_char_def)
  moreover have "set (escape_attribute s) \<inter> {CHR ''<'', CHR ''>'', CHR 0x22} = {}"
    by (induction s) (auto simp: escape_attribute_def escape_attribute_char_def)
  ultimately show ?thesis by simp
qed

section \<open>Serialization of a well-formed store\<close>

lemma serialize_total: "dom_wf d \<Longrightarrow> i < size_dom d \<Longrightarrow> \<exists>s. serialize d i = Some s"
  using tree_at_total [of d i] by (auto simp: serialize_def)

end
