(* ===== verification/Html_Roundtrip.thy ===== *)
theory Html_Roundtrip
  imports Html_Parser Html_Serializer
begin

text \<open>
  The serializer and the parser together: a canonical document, serialized by \<open>serialize_impl\<close>
  and parsed again, gives the same tree.  Canonical means that the document can be written in
  HTML at all: names as the tokenizer produces them, no two adjacent text nodes, comments and
  raw text that do not contain their own end, and no element that an enclosing start tag would
  implicitly close.
\<close>

section \<open>Canonical documents\<close>

definition comment_ok :: "string \<Rightarrow> bool" where
  "comment_ok tx \<longleftrightarrow> find_str ''-->'' (tx @ ''-->'') = Some (length tx)"

definition doctype_ok :: "string \<Rightarrow> bool" where
  "doctype_ok tx \<longleftrightarrow> to_lower (take 7 tx) = ''doctype'' \<and> CHR ''>'' \<notin> set tx"

definition raw_safe :: "string \<Rightarrow> string \<Rightarrow> bool" where
  "raw_safe nm tx \<longleftrightarrow> split_text nm (tx @ ''</'' @ nm @ ''>'') = (tx, ''</'' @ nm @ ''>'')"

definition text_body :: "string \<Rightarrow> tree list \<Rightarrow> bool" where
  "text_body nm ts \<longleftrightarrow> length ts \<le> 1 \<and>
     (\<forall>t\<in>set ts. t_type t = Text \<and> (is_raw_text_element nm \<longrightarrow> raw_safe nm (t_text t)))"

fun separated :: "tree list \<Rightarrow> bool" where
  "separated (x # y # ts) \<longleftrightarrow> \<not> (t_type x = Text \<and> t_type y = Text) \<and> separated (y # ts)"
| "separated _ \<longleftrightarrow> True"

text \<open>\<open>st\<close>: the names of the open elements around the node, innermost first.\<close>

fun canon :: "string list \<Rightarrow> tree \<Rightarrow> bool" where
  "canon st (Tree ty nm as tx ts) \<longleftrightarrow> length st \<le> max_depth \<and>
     (if ty = Element then
        tx = [] \<and> tag_name_ok nm \<and> attributes_ok as \<and> close_for_start (\<lambda>s. s) nm st = st \<and>
        (\<forall>t\<in>set ts. canon (nm # st) t) \<and>
        (if is_void_element nm then ts = []
         else if is_raw_text_element nm \<or> is_rcdata_element nm then text_body nm ts
         else separated ts)
      else nm = [] \<and> as = [] \<and> ts = [] \<and>
        (case ty of Text \<Rightarrow> tx \<noteq> [] | Comment \<Rightarrow> comment_ok tx | Doctype \<Rightarrow> doctype_ok tx | _ \<Rightarrow> False))"

fun canon_document :: "tree \<Rightarrow> bool" where
  "canon_document (Tree ty nm as tx ts) \<longleftrightarrow> ty = Document \<and> nm = [] \<and> as = [] \<and> tx = [] \<and>
     separated ts \<and> (\<forall>t\<in>set ts. canon [[]] t)"

fun tree_nodes :: "tree \<Rightarrow> nat" where
  "tree_nodes (Tree ty nm as tx ts) = Suc (sum_list (map tree_nodes ts))"

section \<open>The tokenizer on serialized markup\<close>

definition tail_ok :: "string \<Rightarrow> bool" where
  "tail_ok s \<longleftrightarrow> s = [] \<or> hd s = CHR ''<''"

lemma takeWhile_until: "x \<notin> set s \<Longrightarrow> takeWhile (\<lambda>c. c \<noteq> x) (s @ x # t) = s"
  "x \<notin> set s \<Longrightarrow> dropWhile (\<lambda>c. c \<noteq> x) (s @ x # t) = x # t"
  by (induction s) auto

lemma next_markup_text:
  assumes "tx \<noteq> []" and "tail_ok tail"
  shows "next_markup (escape_text tx @ tail) = (mk_token TextToken tx [], tail)"
proof -
  have "hd (escape_text tx @ tail) \<noteq> CHR ''<''"
    using assms(1) escape_text_safe [of tx] by (metis escape_text_eq_Nil hd_append2 hd_in_set)
  moreover have "takeWhile (\<lambda>c. c \<noteq> CHR ''<'') (escape_text tx @ tail) = escape_text tx \<and>
    dropWhile (\<lambda>c. c \<noteq> CHR ''<'') (escape_text tx @ tail) = tail"
  proof (cases tail)
    case Nil
    have "c \<noteq> CHR ''<''" if "c \<in> set (escape_text tx)" for c
      using that escape_text_safe [of tx] by metis
    with Nil show ?thesis by (simp add: takeWhile_eq_all_conv)
  next
    case (Cons c r)
    with assms(2) takeWhile_until [OF escape_text_safe [of tx], of r] show ?thesis
      by (simp add: tail_ok_def)
  qed
  ultimately show ?thesis by (simp add: next_markup_def)
qed

lemma next_markup_comment:
  "comment_ok tx \<Longrightarrow> next_markup (''<!--'' @ tx @ ''-->'' @ tail) = (mk_token CommentToken tx [], tail)"
  using find_str_append [of "''-->''" "tx @ ''-->''" "length tx" tail]
  by (simp add: comment_ok_def next_markup_def next_comment_def)

lemma next_markup_doctype:
  assumes "doctype_ok tx"
  shows "next_markup (''<!'' @ tx @ ''>'' @ tail) = (mk_token DoctypeToken tx [], tail)"
proof -
  have "length (to_lower (take 7 tx)) = length ''doctype''" using assms by (simp only: doctype_ok_def)
  then have len: "length tx \<ge> 7" by simp
  then obtain c r where tx: "tx = c # r" by (cases tx) auto
  then have "lower_char c = CHR ''d''" using assms by (simp add: doctype_ok_def numeral_eq_Suc)
  then have "c \<noteq> CHR ''-''" by (auto simp: lower_char_def char_class)
  with assms len tx show ?thesis
    using takeWhile_until [of "CHR ''>''" tx tail]
    by (simp add: next_markup_def next_declaration_def doctype_ok_def)
qed

lemma read_value_serialized:
  "read_value (CHR ''='' # CHR 0x22 # escape_attribute v @ CHR 0x22 # rest) = (v, rest)"
  using takeWhile_until [OF escape_attribute_safe [of v], of rest]
  by (simp add: read_value_def is_space_def)

lemma read_attributes_serialized:
  assumes "\<forall>a\<in>set as. attr_name_ok (attr_name a)" and "distinct (map attr_name as)"
    and "seen \<inter> set (map attr_name as) = {}"
  shows "read_attributes False seen acc (concat (map serialize_attribute as) @ CHR ''>'' # tail) =
    (acc @ as, CHR ''>'' # tail)"
  using assms
proof (induction as arbitrary: seen acc)
  case (Cons a as)
  have ok: "attr_name_ok (attr_name a)" using Cons.prems by simp
  then obtain c r where n: "attr_name a = c # r" "attr_name_char c" "\<forall>x\<in>set r. attr_name_char x"
    by (cases "attr_name a") (auto simp: attr_name_ok_def)
  have eq: "\<not> attr_name_char (CHR ''='')" and sp: "\<not> attr_name_char (CHR '' '')"
    by (auto simp: attr_name_char_def is_space_def)
  let ?rest = "concat (map serialize_attribute as) @ CHR ''>'' # tail"
  let ?s = "CHR ''='' # CHR 0x22 # escape_attribute (attr_value a) @ CHR 0x22 # ?rest"
  have tw: "takeWhile attr_name_char (c # r @ ?s) = attr_name a"
    and dw: "dropWhile attr_name_char (c # r @ ?s) = ?s"
    using n eq by (simp_all add: takeWhile_append dropWhile_append)
  have nm: "attr_name a = to_lower (takeWhile attr_name_char (c # r @ ?s))"
    using ok unfolding tw by (simp add: attr_name_ok_def)
  have rv: "read_value (dropWhile attr_name_char (c # r @ ?s)) = (attr_value a, ?rest)"
    unfolding dw by (rule read_value_serialized)
  have new: "attr_name a \<notin> seen" using Cons.prems(3) by simp
  have rec: "\<lparr>attr_name = attr_name a, attr_value = attr_value a\<rparr> = a" by simp
  have "read_attributes False seen acc (c # r @ ?s) =
      read_attributes False (insert (attr_name a) seen) (acc @ [a]) ?rest"
    using read_attributes_attr [OF n(2) rv nm, of False seen acc] new unfolding rec by simp
  also have "\<dots> = (acc @ a # as, CHR ''>'' # tail)"
    using Cons.IH [of "insert (attr_name a) seen" "acc @ [a]"] Cons.prems by auto
  finally show ?case
    using n(1) sp by (simp add: serialize_attribute_def [of a])
qed simp

lemma ascii_alpha_tag:
  assumes "ascii_alpha c"
  shows "c \<noteq> CHR ''/''" "c \<noteq> CHR ''!''" "c \<noteq> CHR ''?''"
  using assms by (auto simp: char_class)

lemma tag_name_scan:
  assumes "tag_name_ok nm" and "\<not> tag_name_char x"
  shows "takeWhile tag_name_char (nm @ x # s) = nm" "dropWhile tag_name_char (nm @ x # s) = x # s"
  using assms by (simp_all add: tag_name_ok_def)

lemma next_markup_open:
  assumes "tag_name_ok nm" and "attributes_ok as"
  shows "next_markup (open_tag nm as @ tail) = (mk_token StartTag nm as, tail)"
proof -
  obtain c r where nm: "nm = c # r" and c: "ascii_alpha c"
    using assms(1) by (cases nm) (auto simp: tag_name_ok_def)
  let ?s = "concat (map serialize_attribute as) @ CHR ''>'' # tail"
  obtain x s' where hd: "?s = x # s'" "\<not> tag_name_char x"
    by (cases as) (auto simp: serialize_attribute_def tag_name_char_def is_space_def)
  then have s: "open_tag nm as @ tail = CHR ''<'' # c # r @ x # s'" by (simp add: open_tag_def nm)
  have "read_attributes False {} [] ?s = (as, CHR ''>'' # tail)"
    using read_attributes_serialized [of as "{}" "[]" tail] assms(2) by (simp add: attributes_ok_def)
  moreover have "to_lower nm = nm" using assms(1) by (simp add: tag_name_ok_def)
  ultimately show ?thesis
    using tag_name_scan [OF assms(1) hd(2), of s'] ascii_alpha_tag [OF c] c hd(1)
    unfolding s by (simp add: next_markup_def next_tag_def nm Let_def)
qed

lemma next_markup_close:
  assumes "tag_name_ok nm"
  shows "next_markup (''</'' @ nm @ ''>'' @ tail) = (mk_token EndTag nm [], tail)"
proof -
  obtain c r where nm: "nm = c # r" and c: "ascii_alpha c"
    using assms(1) by (cases nm) (auto simp: tag_name_ok_def)
  have "\<not> tag_name_char (CHR ''>'')" by (simp add: tag_name_char_def)
  moreover have "to_lower nm = nm" using assms(1) by (simp add: tag_name_ok_def)
  ultimately show ?thesis
    using tag_name_scan [OF assms(1), of "CHR ''>''" tail] ascii_alpha_tag [OF c] c
    by (simp add: next_markup_def next_tag_def nm Let_def)
qed

section \<open>Content of text elements\<close>

lemma closes_text_append:
  "length s > Suc (length te) \<Longrightarrow> closes_text te (s @ t) = closes_text te s"
  by (cases s) (auto simp: closes_text_def nth_append)

lemma closes_text_end: "to_lower nm = nm \<Longrightarrow> closes_text nm (CHR ''/'' # nm @ CHR ''>'' # tail)"
  by (simp add: closes_text_def nth_append)

lemma split_text_append_tail:
  "split_text nm (tx @ ''</'' @ nm @ ''>'') = (tx, ''</'' @ nm @ ''>'') \<Longrightarrow> to_lower nm = nm \<Longrightarrow>
   split_text nm (tx @ ''</'' @ nm @ ''>'' @ tail) = (tx, ''</'' @ nm @ ''>'' @ tail)"
proof (induction tx)
  case Nil
  then show ?case by (simp add: closes_text_end)
next
  case (Cons c tx)
  have "closes_text nm ((tx @ ''</'' @ nm @ ''>'') @ tail) = closes_text nm (tx @ ''</'' @ nm @ ''>'')"
    by (rule closes_text_append) simp
  with Cons show ?case by (auto split: if_splits prod.splits)
qed

lemma split_text_escaped:
  "CHR ''<'' \<notin> set e \<Longrightarrow> to_lower nm = nm \<Longrightarrow>
   split_text nm (e @ ''</'' @ nm @ ''>'' @ tail) = (e, ''</'' @ nm @ ''>'' @ tail)"
  by (induction e) (auto simp: closes_text_end)

text \<open>The text of a raw-text or RCDATA element is one token.\<close>

lemma next_token_text_element:
  assumes "tag_name_ok nm" and "is_raw_text_element nm \<or> is_rcdata_element nm"
    and "is_raw_text_element nm \<longrightarrow> raw_safe nm tx" and "tx \<noteq> []"
  shows "next_token \<lparr>tk_rest = serialize_impl (Tree Text [] [] tx []) nm @ ''</'' @ nm @ ''>'' @ tail,
      tk_text_element = nm\<rparr> =
    (mk_token TextToken tx [], \<lparr>tk_rest = ''</'' @ nm @ ''>'' @ tail, tk_text_element = []\<rparr>)"
proof -
  have nm: "to_lower nm = nm" "nm \<noteq> []" using assms(1) by (simp_all add: tag_name_ok_def)
  have raw_rc: "\<not> (is_raw_text_element nm \<and> is_rcdata_element nm)"
    by (auto simp: is_raw_text_element_def is_rcdata_element_def)
  show ?thesis
  proof (cases "is_raw_text_element nm")
    case True
    then have "split_text nm (tx @ ''</'' @ nm @ ''>'' @ tail) = (tx, ''</'' @ nm @ ''>'' @ tail)"
      using assms(3) split_text_append_tail [OF _ nm(1)] by (simp add: raw_safe_def)
    with True raw_rc assms(4) nm(2) show ?thesis by (simp add: next_token_eq)
  next
    case False
    with assms(2) split_text_escaped [OF escape_text_safe [of tx] nm(1), of tail] assms(4) nm(2)
    show ?thesis by (simp add: next_token_eq)
  qed
qed

lemma next_token_markup:
  "s \<noteq> [] \<Longrightarrow> next_markup s = (tok, rest) \<Longrightarrow>
   next_token \<lparr>tk_rest = s, tk_text_element = []\<rparr> = (tok, \<lparr>tk_rest = rest, tk_text_element = []\<rparr>)"
  by (simp add: next_token_eq)

text \<open>An empty text element: its end tag is read in spite of the pending text element.\<close>

lemma next_token_close:
  assumes "tag_name_ok nm" and "te = [] \<or> te = nm"
  shows "next_token \<lparr>tk_rest = ''</'' @ nm @ ''>'' @ tail, tk_text_element = te\<rparr> =
    (mk_token EndTag nm [], \<lparr>tk_rest = tail, tk_text_element = []\<rparr>)"
  using assms next_markup_close [OF assms(1), of tail] closes_text_end [of nm tail]
  by (auto simp: next_token_eq tag_name_ok_def)

section \<open>The specification parser on serialized trees\<close>

abbreviation tokens_of :: "string \<Rightarrow> tokenizer" where
  "tokens_of s \<equiv> \<lparr>tk_rest = s, tk_text_element = []\<rparr>"

lemma build_leaf:
  assumes "next_token tk = (mk_token k tx [], tk')" and "k \<in> {TextToken, CommentToken, DoctypeToken}"
    and "Suc count \<le> max_nodes" and "length fs \<le> max_depth"
  shows "build tk fs count = build tk' (add_done (Tree (token_type k) [] [] tx []) fs) (Suc count)"
  using assms by (subst build.simps) (auto simp: opens_def after_start_def token_tree_def)

lemma build_start:
  assumes "next_token tk = (mk_token StartTag nm as, tk')"
    and "close_for_start (\<lambda>s. s) nm (map f_name fs) = map f_name fs"
    and "Suc count \<le> max_nodes" and "length fs \<le> max_depth"
  shows "build tk fs count =
    build (after_start (mk_token StartTag nm as) tk')
      (if is_void_element nm then add_done (Tree Element nm as [] []) fs else Frame Element nm as [] # fs)
      (Suc count)"
proof -
  have "map f_name (close_for_start f_name nm fs) = map f_name fs"
    using assms(2) close_for_start_map [of "\<lambda>s. s" nm f_name fs] by simp
  then have "pop_to (close_for_start f_name nm) fs = fs"
    using map_eq_imp_length_eq by (fastforce simp: pop_to_def)
  with assms show ?thesis
    by (subst build.simps) (auto simp: opens_def token_tree_def token_frame_def)
qed

lemma build_end:
  assumes "next_token tk = (mk_token EndTag nm [], tk')"
  shows "build tk (Frame Element nm as ts # f # fs) count = build tk' (add_done (Tree Element nm as [] ts) (f # fs)) count"
proof -
  have "pop_to (close_end f_name nm) (Frame Element nm as ts # f # fs) = add_done (Tree Element nm as [] ts) (f # fs)"
    by (simp add: pop_to_def close_end_def close_scoped_def close_frame_def)
  with assms show ?thesis by (subst build.simps) simp
qed

lemma serialize_nontext_hd:
  "canon st t \<Longrightarrow> t_type t \<noteq> Text \<Longrightarrow> serialize_impl t p \<noteq> [] \<and> hd (serialize_impl t p) = CHR ''<''"
  by (cases t) (auto simp: open_tag_def split: if_splits node_type.splits)

definition builds :: "tree \<Rightarrow> bool" where
  "builds t \<longleftrightarrow> (\<forall>f fs count tail. canon (map f_name (f # fs)) t \<longrightarrow> \<not> is_raw_text_element (f_name f) \<longrightarrow>
     (t_type t = Text \<longrightarrow> tail_ok tail) \<longrightarrow> count + tree_nodes t \<le> max_nodes \<longrightarrow>
     build (tokens_of (serialize_impl t (f_name f) @ tail)) (f # fs) count =
     build (tokens_of tail) (add_done t (f # fs)) (count + tree_nodes t))"

lemma builds_forest:
  assumes "\<forall>t\<in>set ts. builds t" and "\<forall>t\<in>set ts. canon (map f_name (f # fs)) t"
    and "\<not> is_raw_text_element (f_name f)" and "separated ts" and "tail_ok tail"
    and "count + sum_list (map tree_nodes ts) \<le> max_nodes"
  shows "build (tokens_of (concat (map (\<lambda>t. serialize_impl t (f_name f)) ts) @ tail)) (f # fs) count =
    build (tokens_of tail) (Frame (f_type f) (f_name f) (f_attributes f) (f_done f @ ts) # fs)
      (count + sum_list (map tree_nodes ts))"
  using assms
proof (induction ts arbitrary: f count)
  case (Cons t ts)
  let ?rest = "concat (map (\<lambda>t. serialize_impl t (f_name f)) ts) @ tail"
  let ?f = "Frame (f_type f) (f_name f) (f_attributes f) (f_done f @ [t])"
  have "tail_ok ?rest" if "t_type t = Text"
  proof (cases ts)
    case Nil
    then show ?thesis using Cons.prems(5) by simp
  next
    case (Cons u us)
    then have "t_type u \<noteq> Text" using Cons.prems(4) that by simp
    with serialize_nontext_hd [of "map f_name (f # fs)" u "f_name f"] Cons.prems(2) Cons show ?thesis
      by (simp add: tail_ok_def)
  qed
  then have "build (tokens_of (serialize_impl t (f_name f) @ ?rest)) (f # fs) count =
      build (tokens_of ?rest) (?f # fs) (count + tree_nodes t)"
    using Cons.prems(1,2,3,6) by (simp add: builds_def)
  moreover have "separated ts" using Cons.prems(4) by (cases ts) auto
  ultimately show ?case
    using Cons.IH [of ?f "count + tree_nodes t"] Cons.prems by (simp add: add.assoc)
qed (cases f; simp)

text \<open>From behind the start tag of an element to behind its end tag.\<close>

lemma builds_body:
  assumes "\<forall>t\<in>set ts. builds t" and "\<forall>t\<in>set ts. canon (map f_name (Frame Element nm as [] # f # fs)) t"
    and nok: "tag_name_ok nm" and nv: "\<not> is_void_element nm"
    and body: "if is_raw_text_element nm \<or> is_rcdata_element nm then text_body nm ts else separated ts"
    and cnt: "count + sum_list (map tree_nodes ts) \<le> max_nodes"
  shows "build (after_start (mk_token StartTag nm as)
        (tokens_of (concat (map (\<lambda>t. serialize_impl t nm) ts) @ ''</'' @ nm @ ''>'' @ tail)))
      (Frame Element nm as [] # f # fs) count =
    build (tokens_of tail) (add_done (Tree Element nm as [] ts) (f # fs)) (count + sum_list (map tree_nodes ts))"
proof -
  let ?close = "''</'' @ nm @ ''>'' @ tail" and ?fr = "Frame Element nm as"
  have fin: "build \<lparr>tk_rest = ?close, tk_text_element = te\<rparr> (?fr ts' # f # fs) n =
      build (tokens_of tail) (add_done (Tree Element nm as [] ts') (f # fs)) n"
    if "te = [] \<or> te = nm" for te ts' n
    by (rule build_end [OF next_token_close [OF nok that]])
  show ?thesis
  proof (cases "is_raw_text_element nm \<or> is_rcdata_element nm")
    case False
    have "build (tokens_of (concat (map (\<lambda>t. serialize_impl t nm) ts) @ ?close)) (?fr [] # f # fs) count =
        build (tokens_of ?close) (?fr ts # f # fs) (count + sum_list (map tree_nodes ts))"
      using builds_forest [OF assms(1,2), of ?close count] False body cnt by (simp add: tail_ok_def)
    with False fin [of "[]"] show ?thesis by (simp add: after_start_def)
  next
    case True
    then have st: "after_start (mk_token StartTag nm as) (tokens_of s) = \<lparr>tk_rest = s, tk_text_element = nm\<rparr>" for s
      using nv by (simp add: after_start_def opens_def text_element_def)
    show ?thesis
    proof (cases ts)
      case Nil
      then show ?thesis using st fin [of nm] by simp
    next
      case (Cons t us)
      then have us: "us = []" and ty: "t_type t = Text" and safe: "is_raw_text_element nm \<longrightarrow> raw_safe nm (t_text t)"
        using body True by (simp_all add: text_body_def)
      have leaf: "t = Tree Text [] [] (t_text t) []" "t_text t \<noteq> []" and depth: "length (?fr [] # f # fs) \<le> max_depth"
        using assms(2) Cons ty by (cases t; simp)+
      have "next_token \<lparr>tk_rest = serialize_impl t nm @ ?close, tk_text_element = nm\<rparr> =
          (mk_token TextToken (t_text t) [], tokens_of ?close)"
        using next_token_text_element [OF nok True safe leaf(2), of tail] leaf(1) by simp
      from build_leaf [OF this _ _ depth, of count]
      have "build \<lparr>tk_rest = serialize_impl t nm @ ?close, tk_text_element = nm\<rparr> (?fr [] # f # fs) count =
          build (tokens_of ?close) (?fr [t] # f # fs) (Suc count)"
        using cnt Cons us leaf(1) by (cases t) (simp add: token_type_def)
      moreover have "tree_nodes t = 1" using leaf(1) by (cases t) simp
      ultimately show ?thesis using st fin [of "[]"] Cons us by simp
    qed
  qed
qed

lemma builds_leaf:
  assumes can: "canon (map f_name (f # fs)) (Tree ty nm as tx ts)" and nraw: "\<not> is_raw_text_element (f_name f)"
    and tl: "ty = Text \<longrightarrow> tail_ok tail" and cnt: "Suc count \<le> max_nodes" and leaf: "ty \<noteq> Element"
  shows "build (tokens_of (serialize_impl (Tree ty nm as tx ts) (f_name f) @ tail)) (f # fs) count =
    build (tokens_of tail) (add_done (Tree ty nm as tx ts) (f # fs)) (Suc count)"
proof -
  let ?out = "serialize_impl (Tree ty nm as tx ts) (f_name f) @ tail"
  have bare: "nm = []" "as = []" "ts = []" and depth: "length (f # fs) \<le> max_depth"
    using can leaf by simp_all
  obtain k where k: "k \<in> {TextToken, CommentToken, DoctypeToken}" "token_type k = ty"
    and nm: "next_markup ?out = (mk_token k tx [], tail)" and ne: "?out \<noteq> []"
  proof (cases ty)
    case Text
    then show ?thesis
      using that [of TextToken] can tl nraw next_markup_text [of tx tail] by (simp add: token_type_def)
  next
    case Comment
    then show ?thesis
      using that [of CommentToken] can next_markup_comment [of tx tail] by (simp add: token_type_def)
  next
    case Doctype
    then show ?thesis
      using that [of DoctypeToken] can next_markup_doctype [of tx tail] by (simp add: token_type_def)
  qed (use can leaf in auto)
  show ?thesis
    using build_leaf [OF next_token_markup [OF ne nm] k(1) cnt depth] k(2) bare by simp
qed

lemma builds_tree: "builds t"
proof (induction t)
  case (Tree ty nm as tx ts)
  show ?case
    unfolding builds_def
  proof (intro allI impI)
    fix f :: frame and fs count tail
    let ?t = "Tree ty nm as tx ts"
    let ?out = "serialize_impl ?t (f_name f) @ tail"
    assume can: "canon (map f_name (f # fs)) ?t" and nraw: "\<not> is_raw_text_element (f_name f)"
      and tl: "t_type ?t = Text \<longrightarrow> tail_ok tail" and cnt: "count + tree_nodes ?t \<le> max_nodes"
    show "build (tokens_of ?out) (f # fs) count =
      build (tokens_of tail) (add_done ?t (f # fs)) (count + tree_nodes ?t)"
    proof (cases "ty = Element")
      case False
      moreover from this have "ts = []" using can by simp
      ultimately show ?thesis using builds_leaf [OF can nraw _ _ False, of tail count] tl cnt by simp
    next
      case True
      have nok: "tag_name_ok nm" and aok: "attributes_ok as" and tx: "tx = []"
        and keep: "close_for_start (\<lambda>s. s) nm (map f_name (f # fs)) = map f_name (f # fs)"
        and kids: "\<forall>t\<in>set ts. canon (map f_name (Frame Element nm as [] # f # fs)) t"
        and depth: "length (f # fs) \<le> max_depth"
        using can True by simp_all
      define rest where "rest = (if is_void_element nm then tail
        else concat (map (\<lambda>t. serialize_impl t nm) ts) @ ''</'' @ nm @ ''>'' @ tail)"
      have out: "?out = open_tag nm as @ rest" using True by (simp add: rest_def)
      have "?out \<noteq> []" unfolding out by (simp add: open_tag_def)
      note tok = next_token_markup [OF this, unfolded out, OF next_markup_open [OF nok aok]]
      note start = build_start [OF tok keep _ depth, of count]
      show ?thesis
      proof (cases "is_void_element nm")
        case void: True
        with True can start tx cnt show ?thesis
          unfolding out by (simp add: after_start_def opens_def rest_def)
      next
        case False
        have "if is_raw_text_element nm \<or> is_rcdata_element nm then text_body nm ts else separated ts"
          using can True False by simp
        from builds_body [OF _ kids nok False this, of "Suc count" tail] Tree.IH start False cnt True tx
        show ?thesis unfolding out by (simp add: rest_def)
      qed
    qed
  qed
qed

lemma build_html_canonical:
  assumes "canon_document t" and "tree_nodes t \<le> max_nodes" and "length (serialize_impl t []) \<le> max_bytes"
  shows "build_html (serialize_impl t []) = Inr t"
proof -
  obtain ts where t: "t = Tree Document [] [] [] ts" and sep: "separated ts" and can: "\<forall>t\<in>set ts. canon [[]] t"
    using assms(1) by (cases t) auto
  have "build (tokens_of (concat (map (\<lambda>t. serialize_impl t []) ts))) [root_frame] 1 =
      build (tokens_of []) [Frame Document [] [] ts] (1 + sum_list (map tree_nodes ts))"
    using builds_forest [of ts root_frame "[]" "[]" 1] builds_tree sep can assms(2) t
    by (simp add: root_frame_def tail_ok_def is_raw_text_element_def)
  moreover have "build (tokens_of []) [Frame Document [] [] ts] n = Inr t" for n
    by (subst build.simps) (simp add: finish_def close_frame_def t)
  ultimately show ?thesis
    using assms(3) t by (simp add: build_html_def html_tokenizer_def)
qed

text \<open>
  C1: a canonical document of at most 250000 nodes, serialized and parsed again, gives the same
  tree, as long as the markup stays within the 16 MiB the parser accepts.
\<close>

theorem parse_serialize:
  assumes "canon_document t" and "tree_nodes t \<le> max_nodes" and "length (serialize_impl t []) \<le> max_bytes"
  shows "\<exists>d. parse_html_tree (serialize_impl t []) = Inr d \<and> tree_at d 0 = Some t"
proof -
  have b: "build_html (serialize_impl t []) = Inr t" by (rule build_html_canonical [OF assms])
  with parse_html_tree_agrees [of "serialize_impl t []"]
  obtain d where d: "parse_html_tree (serialize_impl t []) = Inr d"
    by (auto simp: agrees_def split: sum.splits)
  with parse_html_tree_Inr [OF d] b show ?thesis by simp
qed

definition sample_document :: tree where
  "sample_document = Tree Document [] [] []
     [Tree Doctype [] [] ''doctype html'' [],
      Tree Element ''ul'' [\<lparr>attr_name = ''id'', attr_value = ''a<b''\<rparr>] []
        [Tree Element ''li'' [] [] [Tree Text [] [] ''x & y'' []],
         Tree Element ''br'' [] [] []]]"

theorem parse_serialize_witness:
  "\<exists>d. parse_html_tree (serialize_impl sample_document []) = Inr d \<and> tree_at d 0 = Some sample_document"
proof (rule parse_serialize)
  show "canon_document sample_document"
    by (simp add: sample_document_def max_depth_def doctype_ok_def tag_name_ok_def attributes_ok_def
        attr_name_ok_def attr_name_char_def tag_name_char_def lower_char_def char_class
        close_for_start_def close_scoped_def is_void_element_def is_raw_text_element_def is_rcdata_element_def)
  show "tree_nodes sample_document \<le> max_nodes"
    by (simp add: sample_document_def max_nodes_def)
  show "length (serialize_impl sample_document []) \<le> max_bytes"
    by (simp add: sample_document_def max_bytes_def open_tag_def serialize_attribute_def escape_text_def
        escape_text_char_def escape_attribute_def escape_attribute_char_def is_void_element_def
        is_raw_text_element_def)
qed

end
