(* ===== verification/Dom_Order.thy ===== *)
theory Dom_Order
  imports Dom_Tree
begin

text \<open>
  Document order.  Traversals of the source that return nodes (\<open>collect\<close>, \<open>get_element_by_id\<close>)
  visit the nodes below a root depth first; \<open>itree_at\<close> is the tree of addresses they follow and
  \<open>preorder\<close> the order of their visits.  In a well-formed store \<open>itree_at\<close> exists for every node and
  lists every descendant exactly once.
\<close>

datatype itree = INode (iroot: nat) (subtrees: "itree list")

fun itree_of :: "nat \<Rightarrow> dom \<Rightarrow> nat \<Rightarrow> itree option" where
  "itree_of 0 d i = None"
| "itree_of (Suc k) d i =
     (if i < size_dom d
      then map_option (INode i) (those (map (itree_of k d) (children (node_at d i))))
      else None)"

definition itree_at :: "dom \<Rightarrow> nat \<Rightarrow> itree option" where
  "itree_at d i = itree_of (size_dom d) d i"

fun preorder :: "itree \<Rightarrow> nat list" where
  "preorder (INode i ts) = i # concat (map preorder ts)"

text \<open>The addresses in a tree are the ones the store links.\<close>

fun links :: "dom \<Rightarrow> itree \<Rightarrow> bool" where
  "links d (INode i ts) \<longleftrightarrow> i < size_dom d \<and> map iroot ts = children (node_at d i) \<and> (\<forall>t\<in>set ts. links d t)"

lemma those_None_iff: "those xs = None \<longleftrightarrow> None \<in> set xs"
  by (induction xs) (auto split: option.splits)

lemma itree_of_None: "itree_of k d i = None \<longleftrightarrow> tree_of k d i = None"
proof (induction k arbitrary: i)
  case (Suc k)
  have "None \<in> set (map (itree_of k d) xs) \<longleftrightarrow> None \<in> set (map (tree_of k d) xs)" for xs
    by (induction xs) (simp_all add: Suc.IH eq_commute [of None])
  then show ?case by (simp add: those_None_iff)
qed simp

lemma itree_of_links: "itree_of k d i = Some t \<Longrightarrow> iroot t = i \<and> links d t"
proof (induction k arbitrary: i t)
  case (Suc k)
  then obtain ts where i: "i < size_dom d" and t: "t = INode i ts"
    and "list_all2 (\<lambda>x y. x = Some y) (map (itree_of k d) (children (node_at d i))) ts"
    by (auto simp: those_Some_iff split: if_splits)
  then have "list_all2 (\<lambda>c u. itree_of k d c = Some u) (children (node_at d i)) ts"
    by (simp add: list_all2_map1)
  then have "list_all2 (\<lambda>c u. iroot u = c \<and> links d u) (children (node_at d i)) ts"
    by (rule list_all2_mono) (rule Suc.IH)
  then have "map iroot ts = children (node_at d i)" "\<forall>u\<in>set ts. links d u"
    by (auto simp: list_all2_conv_all_nth in_set_conv_nth intro: nth_equalityI)
  with i t show ?case by simp
qed simp

lemma itree_at_total:
  assumes "dom_wf d" and "i < size_dom d"
  shows "\<exists>t. itree_at d i = Some t \<and> iroot t = i \<and> links d t"
  using tree_at_total [OF assms] itree_of_None [of "size_dom d" d i] itree_of_links [of "size_dom d" d i]
  unfolding itree_at_def tree_at_def by (cases "itree_of (size_dom d) d i") auto

lemma child_parent_rel:
  assumes wf: "dom_wf d" and i: "i < size_dom d"
  shows "c \<in> set (children (node_at d i)) \<longleftrightarrow> (i, c) \<in> parent_rel d"
proof
  assume "c \<in> set (children (node_at d i))"
  from links_okD(2) [OF dom_wfD(1) [OF wf] i this] show "(i, c) \<in> parent_rel d"
    by (simp add: parent_rel_def)
next
  assume "(i, c) \<in> parent_rel d"
  then have "c < size_dom d" "parent (node_at d c) = Some i" by (simp_all add: parent_rel_def)
  from links_okD(3) [OF dom_wfD(1) [OF wf] this] show "c \<in> set (children (node_at d i))" by simp
qed

section \<open>Preorder lists every descendant exactly once\<close>

lemma root_preorder [simp]: "iroot t \<in> set (preorder t)"
  by (cases t) simp

lemma preorder_descendants:
  assumes wf: "dom_wf d"
  shows "links d t \<Longrightarrow> set (preorder t) = {j. (iroot t, j) \<in> (parent_rel d)\<^sup>*}"
proof (induction t)
  case (INode i ts)
  have i: "i < size_dom d" and ts: "map iroot ts = children (node_at d i)"
    using INode.prems by simp_all
  have kid: "(i, c) \<in> parent_rel d \<longleftrightarrow> c \<in> iroot ` set ts" for c
  proof -
    have "c \<in> iroot ` set ts \<longleftrightarrow> c \<in> set (children (node_at d i))" by (metis ts set_map)
    with child_parent_rel [OF wf i, of c] show ?thesis by simp
  qed
  have "(i, j) \<in> (parent_rel d)\<^sup>* \<longleftrightarrow> j = i \<or> (\<exists>t\<in>set ts. (iroot t, j) \<in> (parent_rel d)\<^sup>*)" for j
  proof
    assume "(i, j) \<in> (parent_rel d)\<^sup>*"
    then show "j = i \<or> (\<exists>t\<in>set ts. (iroot t, j) \<in> (parent_rel d)\<^sup>*)"
      by (cases rule: converse_rtranclE) (auto simp: kid)
  next
    assume "j = i \<or> (\<exists>t\<in>set ts. (iroot t, j) \<in> (parent_rel d)\<^sup>*)"
    then show "(i, j) \<in> (parent_rel d)\<^sup>*"
      using kid by (blast intro: converse_rtrancl_into_rtrancl)
  qed
  moreover have "set (preorder t) = {j. (iroot t, j) \<in> (parent_rel d)\<^sup>*}" if "t \<in> set ts" for t
    using INode that by simp
  ultimately show ?case by auto
qed

text \<open>Parents are unique, so two ancestors of one node are comparable.\<close>

lemma ancestors_comparable:
  assumes "(a, j) \<in> (parent_rel d)\<^sup>*" and "(b, j) \<in> (parent_rel d)\<^sup>*"
  shows "(a, b) \<in> (parent_rel d)\<^sup>* \<or> (b, a) \<in> (parent_rel d)\<^sup>*"
proof -
  have "single_valued ((parent_rel d)\<inverse>)" by (auto simp: single_valued_def parent_rel_def)
  from single_valued_confluent [OF this, of j a b] show ?thesis
    using assms by (auto simp: rtrancl_converse)
qed

lemma preorder_distinct:
  assumes wf: "dom_wf d"
  shows "links d t \<Longrightarrow> distinct (preorder t)"
proof (induction t)
  case (INode i ts)
  have i: "i < size_dom d" and ts: "map iroot ts = children (node_at d i)" using INode.prems by simp_all
  have ac: "(x, x) \<notin> (parent_rel d)\<^sup>+" for x using wf by (auto simp: dom_wf_def acyclic_def)
  have par: "(i, iroot t) \<in> parent_rel d" and lk: "links d t" if "t \<in> set ts" for t
  proof -
    have "iroot t \<in> set (children (node_at d i))" using that by (metis image_eqI set_map ts)
    then show "(i, iroot t) \<in> parent_rel d"
      using child_parent_rel [OF wf i] by simp
    show "links d t" using INode.prems that by simp
  qed
  note sub = preorder_descendants [OF wf lk]
  have up: "(x, i) \<in> (parent_rel d)\<^sup>*" if "(x, iroot t) \<in> (parent_rel d)\<^sup>+" "t \<in> set ts" for x t
    using tranclD2 [OF that(1)] par [OF that(2)] by (auto simp: parent_rel_def)
  have "distinct (concat (map preorder ts))"
  proof (rule distinct_concat)
    have "distinct (map iroot ts)" using links_okD(1) [OF dom_wfD(1) [OF wf] i] ts by simp
    then have dts: "distinct ts" and inj: "inj_on iroot (set ts)" by (simp_all add: distinct_map)
    have "inj_on preorder (set ts)"
    proof (rule inj_onI)
      fix t u assume "t \<in> set ts" "u \<in> set ts" "preorder t = preorder u"
      moreover from this(3) have "iroot t = iroot u" by (cases t; cases u) simp
      ultimately show "t = u" using inj by (simp add: inj_on_def)
    qed
    with dts show "distinct (map preorder ts)" by (simp add: distinct_map)
    show "\<And>ys. ys \<in> set (map preorder ts) \<Longrightarrow> distinct ys" using INode.IH lk by auto
    fix ys zs assume "ys \<in> set (map preorder ts)" "zs \<in> set (map preorder ts)" and ne: "ys \<noteq> zs"
    then obtain t u where tu: "t \<in> set ts" "ys = preorder t" "u \<in> set ts" "zs = preorder u" by auto
    have strict: "(iroot v, iroot w) \<notin> (parent_rel d)\<^sup>+" if "v \<in> set ts" "w \<in> set ts" for v w
      using up [OF _ that(2)] par [OF that(1)] ac [of i] by (meson rtrancl_into_trancl2)
    have ru: "iroot t \<noteq> iroot u" using tu ne inj by (metis inj_onD)
    show "set ys \<inter> set zs = {}"
    proof (rule equals0I)
      fix j assume "j \<in> set ys \<inter> set zs"
      then have "(iroot t, j) \<in> (parent_rel d)\<^sup>*" "(iroot u, j) \<in> (parent_rel d)\<^sup>*"
        using sub [OF tu(1)] sub [OF tu(3)] tu by auto
      from ancestors_comparable [OF this] show False
        using ru strict [OF tu(1,3)] strict [OF tu(3,1)] by (metis rtranclD)
    qed
  qed
  moreover have "i \<notin> set (preorder t)" if "t \<in> set ts" for t
    using sub [OF that] par [OF that] ac [of i] by (auto dest: rtrancl_into_trancl2)
  ultimately show ?case by auto
qed

end
