(* ===== verification/Selector_Model.thy ===== *)
theory Selector_Model
  imports Dom_Order "HOL-Library.Signed_Division"
begin

text \<open>
  \<^verbatim>\<open>selector_model.hpp\<close>: the syntax of CSS selectors, as the parser produces it and the matcher
  reads it.
\<close>

datatype combinator = Descendant | Child | Adjacent | Sibling

datatype attr_op = Exists | Equals | Includes | DashMatch | Prefix | Suffix | Substring

record attr_selector =
  as_name :: string
  as_op :: attr_op
  as_value :: string
  as_insensitive :: bool

datatype pseudo_kind =
    FirstChild | LastChild | OnlyChild | NthChild | NthLastChild | FirstOfType | LastOfType
  | OnlyOfType | NthOfType | NthLastOfType | Empty | Root | Not

datatype pseudo_class =
    PseudoClass (pseudo_kind: pseudo_kind) (nth_a: int) (nth_b: int) (not_list: "complex_selector list")
and compound =
    Compound (universal: bool) (tag: string) (ids: "string list") (classes: "string list")
      (attr_selectors: "attr_selector list") (pseudos: "pseudo_class list")
and complex_selector =
    ComplexSelector (compounds: "compound list") (combinators: "combinator list")

text \<open>A selector that can be matched: one combinator between any two neighbouring compounds.\<close>

fun pseudo_ok :: "pseudo_class \<Rightarrow> bool" and compound_ok :: "compound \<Rightarrow> bool"
  and complex_ok :: "complex_selector \<Rightarrow> bool" where
  "pseudo_ok (PseudoClass k a b nl) \<longleftrightarrow> (\<forall>s\<in>set nl. complex_ok s)"
| "compound_ok (Compound u t is cs as ps) \<longleftrightarrow> (\<forall>p\<in>set ps. pseudo_ok p)"
| "complex_ok (ComplexSelector cs ks) \<longleftrightarrow> length cs = Suc (length ks) \<and> (\<forall>c\<in>set cs. compound_ok c)"

end
