(* ===== verification/Selector_Matcher.thy ===== *)
theory Selector_Matcher
  imports Selector_Model
begin

text \<open>
  \<^verbatim>\<open>selector_matcher.cpp\<close>: matching a node against a selector under a budget of steps.  The budget
  is threaded through every call; running out of it is the error \<open>budget_error\<close>.  Next to the
  matcher stands what it should compute, \<open>sat_complex\<close>, with combinators as relations between
  nodes.
\<close>

definition budget_error :: error where
  "budget_error = Error ResourceLimit ''selector matching budget exhausted''"

fun split_ws :: "string \<Rightarrow> string \<Rightarrow> string list" where
  "split_ws current [] = (if current \<noteq> [] then [current] else [])"
| "split_ws current (c # s) =
     (if is_space c then (if current \<noteq> [] then current # split_ws [] s else split_ws [] s)
      else split_ws (current @ [c]) s)"

definition split_whitespace :: "string \<Rightarrow> string list" where
  "split_whitespace value = split_ws [] value"

section \<open>Positions among siblings\<close>

definition counts :: "dom \<Rightarrow> nat \<Rightarrow> bool \<Rightarrow> nat \<Rightarrow> bool" where
  "counts d i of_type c \<longleftrightarrow>
     is_element (node_at d c) \<and> (\<not> of_type \<or> nname (node_at d c) = nname (node_at d i))"

fun index_loop :: "dom \<Rightarrow> nat \<Rightarrow> bool \<Rightarrow> nat list \<Rightarrow> nat \<Rightarrow> nat" where
  "index_loop d i of_type [] index = index"
| "index_loop d i of_type (c # cs) index =
     (let index' = (if counts d i of_type c then index + 1 else index)
      in if c = i then index' else index_loop d i of_type cs index')"

definition element_index :: "dom \<Rightarrow> nat \<Rightarrow> bool \<Rightarrow> nat" where
  "element_index d i of_type =
     (case parent (node_at d i) of None \<Rightarrow> 1
      | Some p \<Rightarrow> index_loop d i of_type (children (node_at d p)) 0)"

definition element_count :: "dom \<Rightarrow> nat \<Rightarrow> bool \<Rightarrow> nat" where
  "element_count d i of_type =
     (case parent (node_at d i) of None \<Rightarrow> 1
      | Some p \<Rightarrow> length (filter (counts d i of_type) (children (node_at d p))))"

definition match_empty :: "dom \<Rightarrow> nat \<Rightarrow> bool" where
  "match_empty d i \<longleftrightarrow>
     list_all (\<lambda>c. \<not> is_element (node_at d c) \<and> (is_text (node_at d c) \<longrightarrow> ntext (node_at d c) = []))
       (children (node_at d i))"

definition match_root :: "dom \<Rightarrow> nat \<Rightarrow> bool" where
  "match_root d i \<longleftrightarrow>
     (case parent (node_at d i) of None \<Rightarrow> False | Some p \<Rightarrow> ntype (node_at d p) = Document)"

text \<open>The division of \<open>std::int64_t\<close> truncates; positions and coefficients are far from its bounds.\<close>

definition match_nth :: "dom \<Rightarrow> nat \<Rightarrow> bool \<Rightarrow> bool \<Rightarrow> int \<Rightarrow> int \<Rightarrow> bool" where
  "match_nth d i of_type reverse a b =
     (let position = element_index d i of_type;
          index = int (if reverse then element_count d i of_type - position + 1 else position)
      in if a = 0 then index = b
         else let delta = index - b in delta smod a = 0 \<and> delta sdiv a \<ge> 0)"

section \<open>Attributes\<close>

definition match_op :: "attr_op \<Rightarrow> string \<Rightarrow> string \<Rightarrow> bool" where
  "match_op op value wanted =
     (case op of
        Exists \<Rightarrow> True
      | Equals \<Rightarrow> value = wanted
      | Includes \<Rightarrow> List.member (split_whitespace value) wanted
      | DashMatch \<Rightarrow> value = wanted \<or>
          length value > length wanted \<and> take (length wanted) value = wanted \<and>
          value ! length wanted = CHR ''-''
      | Prefix \<Rightarrow> wanted \<noteq> [] \<and> prefix wanted value
      | Suffix \<Rightarrow> wanted \<noteq> [] \<and> length value \<ge> length wanted \<and>
          drop (length value - length wanted) value = wanted
      | Substring \<Rightarrow> wanted \<noteq> [] \<and> find_str wanted value \<noteq> None)"

definition match_attr :: "dom \<Rightarrow> nat \<Rightarrow> attr_selector \<Rightarrow> bool" where
  "match_attr d i a =
     (case attribute_of (node_at d i) (as_name a) of
        None \<Rightarrow> False
      | Some value \<Rightarrow>
          match_op (as_op a) (if as_insensitive a then to_lower value else value) (as_value a))"

definition match_classes :: "dom \<Rightarrow> nat \<Rightarrow> string list \<Rightarrow> bool" where
  "match_classes d i wanted \<longleftrightarrow> wanted = [] \<or>
     (case attribute_of (node_at d i) ''class'' of
        None \<Rightarrow> False
      | Some value \<Rightarrow> list_all (List.member (split_whitespace value)) wanted)"

definition match_ids :: "dom \<Rightarrow> nat \<Rightarrow> string list \<Rightarrow> bool" where
  "match_ids d i wanted \<longleftrightarrow> list_all (\<lambda>w. attribute_of (node_at d i) ''id'' = Some w) wanted"

section \<open>Combinators\<close>

text \<open>
  The nodes a combinator lets the matcher try, in the order it tries them: the parent chain
  upwards, the parent element, the nearest preceding element sibling, or all preceding element
  siblings backwards.
\<close>

fun ancestors_of :: "nat \<Rightarrow> dom \<Rightarrow> nat \<Rightarrow> nat list" where
  "ancestors_of 0 d i = []"
| "ancestors_of (Suc k) d i =
     (case parent (node_at d i) of None \<Rightarrow> [] | Some p \<Rightarrow> p # ancestors_of k d p)"

definition ancestors :: "dom \<Rightarrow> nat \<Rightarrow> nat list" where
  "ancestors d i = ancestors_of (size_dom d) d i"

definition preceding :: "dom \<Rightarrow> nat \<Rightarrow> nat list" where
  "preceding d i =
     (case parent (node_at d i) of None \<Rightarrow> []
      | Some p \<Rightarrow> let cs = children (node_at d p) in
          if i \<in> set cs then filter (\<lambda>c. is_element (node_at d c)) (rev (takeWhile (\<lambda>c. c \<noteq> i) cs)) else [])"

definition candidates :: "dom \<Rightarrow> combinator \<Rightarrow> nat \<Rightarrow> nat list" where
  "candidates d k i =
     (case k of
        Descendant \<Rightarrow> ancestors d i
      | Child \<Rightarrow> (case parent (node_at d i) of None \<Rightarrow> []
                  | Some p \<Rightarrow> if is_element (node_at d p) then [p] else [])
      | Adjacent \<Rightarrow> take 1 (preceding d i)
      | Sibling \<Rightarrow> preceding d i)"

section \<open>The matcher\<close>

type_synonym step_result = "(bool \<times> nat) result"

text \<open>Loops that stop at the first success, and at the first failure.\<close>

fun any_steps :: "('a \<Rightarrow> nat \<Rightarrow> step_result) \<Rightarrow> 'a list \<Rightarrow> nat \<Rightarrow> step_result" where
  "any_steps f [] b = Inr (False, b)"
| "any_steps f (x # xs) b =
     rbind (f x b) (\<lambda>(r, b'). if r then Inr (True, b') else any_steps f xs b')"

fun all_steps :: "('a \<Rightarrow> nat \<Rightarrow> step_result) \<Rightarrow> 'a list \<Rightarrow> nat \<Rightarrow> step_result" where
  "all_steps f [] b = Inr (True, b)"
| "all_steps f (x # xs) b =
     rbind (f x b) (\<lambda>(r, b'). if r then all_steps f xs b' else Inr (False, b'))"

lemma any_steps_cong [fundef_cong]:
  assumes "xs = ys" and "\<And>x b. x \<in> set ys \<Longrightarrow> f x b = g x b" and "b = b'"
  shows "any_steps f xs b = any_steps g ys b'"
proof -
  have "(\<And>x. x \<in> set zs \<Longrightarrow> f x = g x) \<Longrightarrow> any_steps f zs = any_steps g zs" for zs
  proof (induction zs)
    case (Cons x zs)
    have "f x = g x" "any_steps f zs = any_steps g zs" using Cons by auto
    then show ?case by (intro ext) (simp cong: if_cong)
  qed (intro ext, simp)
  moreover have "f x = g x" if "x \<in> set ys" for x using assms(2) that by auto
  ultimately show ?thesis using assms(1,3) by auto
qed

lemma all_steps_cong [fundef_cong]:
  assumes "xs = ys" and "\<And>x b. x \<in> set ys \<Longrightarrow> f x b = g x b" and "b = b'"
  shows "all_steps f xs b = all_steps g ys b'"
proof -
  have "(\<And>x. x \<in> set zs \<Longrightarrow> f x = g x) \<Longrightarrow> all_steps f zs = all_steps g zs" for zs
  proof (induction zs)
    case (Cons x zs)
    have "f x = g x" "all_steps f zs = all_steps g zs" using Cons by auto
    then show ?case by (intro ext) (simp cong: if_cong)
  qed (intro ext, simp)
  moreover have "f x = g x" if "x \<in> set ys" for x using assms(2) that by auto
  ultimately show ?thesis using assms(1,3) by auto
qed

lemma size_nth_le: "k < length xs \<Longrightarrow> size (xs ! k) \<le> size_list size xs"
  by (simp add: size_list_estimation' [OF nth_mem])

text \<open>The part of a compound that needs no further matching.\<close>

definition match_simple :: "dom \<Rightarrow> nat \<Rightarrow> compound \<Rightarrow> bool" where
  "match_simple d i c \<longleftrightarrow> is_element (node_at d i) \<and>
     \<not> (\<not> universal c \<and> tag c \<noteq> [] \<and> nname (node_at d i) \<noteq> tag c) \<and>
     match_ids d i (ids c) \<and> match_classes d i (classes c) \<and>
     list_all (match_attr d i) (attr_selectors c)"

function match_pseudo :: "dom \<Rightarrow> nat \<Rightarrow> pseudo_class \<Rightarrow> nat \<Rightarrow> step_result"
  and match_compound :: "dom \<Rightarrow> nat \<Rightarrow> compound \<Rightarrow> nat \<Rightarrow> step_result"
  and match_complex :: "dom \<Rightarrow> nat \<Rightarrow> complex_selector \<Rightarrow> nat \<Rightarrow> nat \<Rightarrow> step_result" where
  "match_pseudo d i (PseudoClass kind na nb nl) b =
     (case kind of
        FirstChild \<Rightarrow> Inr (element_index d i False = 1, b)
      | LastChild \<Rightarrow> Inr (element_index d i False = element_count d i False, b)
      | OnlyChild \<Rightarrow> Inr (element_count d i False = 1, b)
      | FirstOfType \<Rightarrow> Inr (element_index d i True = 1, b)
      | LastOfType \<Rightarrow> Inr (element_index d i True = element_count d i True, b)
      | OnlyOfType \<Rightarrow> Inr (element_count d i True = 1, b)
      | Empty \<Rightarrow> Inr (match_empty d i, b)
      | Root \<Rightarrow> Inr (match_root d i, b)
      | NthChild \<Rightarrow> Inr (match_nth d i False False na nb, b)
      | NthLastChild \<Rightarrow> Inr (match_nth d i False True na nb, b)
      | NthOfType \<Rightarrow> Inr (match_nth d i True False na nb, b)
      | NthLastOfType \<Rightarrow> Inr (match_nth d i True True na nb, b)
      | Not \<Rightarrow> rbind (any_steps (\<lambda>s. match_complex d i s (length (compounds s) - 1)) nl b)
                 (\<lambda>(r, b'). Inr (\<not> r, b')))"
| "match_compound d i (Compound u t is cs as ps) b =
     (if b = 0 then Inl budget_error
      else if \<not> match_simple d i (Compound u t is cs as ps) then Inr (False, b - 1)
      else all_steps (match_pseudo d i) ps (b - 1))"
| "match_complex d i (ComplexSelector cs ks) index b =
     (if \<not> (index < length cs \<and> index \<le> length ks) then Inl (Error Internal ''selector index'')
      else rbind (match_compound d i (cs ! index) b)
        (\<lambda>(r, b'). if \<not> r then Inr (False, b')
                   else if index = 0 then Inr (True, b')
                   else any_steps (\<lambda>j. match_complex d j (ComplexSelector cs ks) (index - 1))
                          (candidates d (ks ! (index - 1)) i) b'))"
  by pat_completeness auto
termination
  by (relation "inv_image (less_than <*lex*> less_than)
      (\<lambda>x. case x of Inl (d, i, p, b) \<Rightarrow> (size p, 0) | Inr (Inl (d, i, c, b)) \<Rightarrow> (size c, 0)
           | Inr (Inr (d, i, s, k, b)) \<Rightarrow> (size s, k))")
     (auto simp: less_Suc_eq_le size_list_estimation' size_nth_le trans_le_add1 trans_le_add2)

definition initial_budget :: nat where "initial_budget = 100000"

definition matches_with :: "nat \<Rightarrow> dom \<Rightarrow> nat \<Rightarrow> complex_selector list \<Rightarrow> bool result" where
  "matches_with budget d i selectors =
     rbind (any_steps (\<lambda>s. match_complex d i s (length (compounds s) - 1)) selectors budget)
       (\<lambda>(r, b). Inr r)"

definition matches :: "dom \<Rightarrow> nat \<Rightarrow> complex_selector list \<Rightarrow> bool result" where
  "matches d i selectors = matches_with initial_budget d i selectors"

section \<open>What a selector means\<close>

fun combines :: "dom \<Rightarrow> combinator \<Rightarrow> nat \<Rightarrow> nat \<Rightarrow> bool" where
  "combines d Descendant j i \<longleftrightarrow> (j, i) \<in> (parent_rel d)\<^sup>+"
| "combines d Child j i \<longleftrightarrow> (j, i) \<in> parent_rel d \<and> is_element (node_at d j)"
| "combines d Adjacent j i \<longleftrightarrow>
     (\<exists>p pre mid post. p < size_dom d \<and> children (node_at d p) = pre @ j # mid @ i # post \<and>
        is_element (node_at d j) \<and> (\<forall>m\<in>set mid. \<not> is_element (node_at d m)))"
| "combines d Sibling j i \<longleftrightarrow>
     (\<exists>p pre mid post. p < size_dom d \<and> children (node_at d p) = pre @ j # mid @ i # post \<and>
        is_element (node_at d j))"

text \<open>\<open>an + b\<close>: the position is \<open>a * n + b\<close> for some \<open>n\<close> counting up from zero.\<close>

definition nth_position :: "dom \<Rightarrow> nat \<Rightarrow> bool \<Rightarrow> bool \<Rightarrow> int \<Rightarrow> int \<Rightarrow> bool" where
  "nth_position d i of_type reverse a b \<longleftrightarrow>
     (\<exists>n. int (if reverse then element_count d i of_type - element_index d i of_type + 1
               else element_index d i of_type) = a * int n + b)"

function sat_pseudo :: "dom \<Rightarrow> nat \<Rightarrow> pseudo_class \<Rightarrow> bool"
  and sat_compound :: "dom \<Rightarrow> nat \<Rightarrow> compound \<Rightarrow> bool"
  and sat_complex :: "dom \<Rightarrow> nat \<Rightarrow> complex_selector \<Rightarrow> nat \<Rightarrow> bool" where
  "sat_pseudo d i (PseudoClass kind na nb nl) =
     (case kind of
        FirstChild \<Rightarrow> element_index d i False = 1
      | LastChild \<Rightarrow> element_index d i False = element_count d i False
      | OnlyChild \<Rightarrow> element_count d i False = 1
      | FirstOfType \<Rightarrow> element_index d i True = 1
      | LastOfType \<Rightarrow> element_index d i True = element_count d i True
      | OnlyOfType \<Rightarrow> element_count d i True = 1
      | Empty \<Rightarrow> match_empty d i
      | Root \<Rightarrow> match_root d i
      | NthChild \<Rightarrow> nth_position d i False False na nb
      | NthLastChild \<Rightarrow> nth_position d i False True na nb
      | NthOfType \<Rightarrow> nth_position d i True False na nb
      | NthLastOfType \<Rightarrow> nth_position d i True True na nb
      | Not \<Rightarrow> \<not> (\<exists>s\<in>set nl. sat_complex d i s (length (compounds s) - 1)))"
| "sat_compound d i (Compound u t is cs as ps) \<longleftrightarrow>
     match_simple d i (Compound u t is cs as ps) \<and> (\<forall>p\<in>set ps. sat_pseudo d i p)"
| "sat_complex d i (ComplexSelector cs ks) index \<longleftrightarrow>
     (if index < length cs then
        sat_compound d i (cs ! index) \<and>
        (if index = 0 then True
         else \<exists>j. combines d (ks ! (index - 1)) j i \<and> sat_complex d j (ComplexSelector cs ks) (index - 1))
      else False)"
  by pat_completeness auto
termination
  by (relation "inv_image (less_than <*lex*> less_than)
      (\<lambda>x. case x of Inl (d, i, p) \<Rightarrow> (size p, 0) | Inr (Inl (d, i, c)) \<Rightarrow> (size c, 0)
           | Inr (Inr (d, i, s, k)) \<Rightarrow> (size s, k))")
     (auto simp: less_Suc_eq_le size_list_estimation' size_nth_le trans_le_add1 trans_le_add2)

section \<open>Candidates are the related nodes\<close>

lemma smod_sdiv_nonneg:
  assumes "a \<noteq> (0::int)"
  shows "x smod a = 0 \<and> x sdiv a \<ge> 0 \<longleftrightarrow> (\<exists>n. x = a * int n)"
proof
  assume h: "x smod a = 0 \<and> x sdiv a \<ge> 0"
  have "x sdiv a * a + x smod a = x" by (rule sdiv_mult_smod_eq)
  with h have "x = a * int (nat (x sdiv a))" by (simp add: mult.commute)
  then show "\<exists>n. x = a * int n" by blast
next
  assume "\<exists>n. x = a * int n"
  then obtain n where x: "x = a * int n" by blast
  have "x sdiv a = int n"
    using assms unfolding x signed_divide_int_def by (auto simp: sgn_mult abs_mult sgn_if zero_less_mult_iff)
  with x show "x smod a = 0 \<and> x sdiv a \<ge> 0" using sdiv_mult_smod_eq [of x a] by simp
qed

lemma match_nth_position: "match_nth d i ot rv a b = nth_position d i ot rv a b"
proof (cases "a = 0")
  case False
  with smod_sdiv_nonneg [OF False] show ?thesis
    unfolding match_nth_def nth_position_def Let_def by (simp add: algebra_simps diff_eq_eq)
qed (simp add: match_nth_def nth_position_def)

lemma ancestors_of_sound: "j \<in> set (ancestors_of k d i) \<Longrightarrow> i < size_dom d \<Longrightarrow> dom_wf d \<Longrightarrow> (j, i) \<in> (parent_rel d)\<^sup>+"
proof (induction k arbitrary: i)
  case (Suc k)
  then obtain p where p: "parent (node_at d i) = Some p" "j = p \<or> j \<in> set (ancestors_of k d p)"
    by (cases "parent (node_at d i)") auto
  have pi: "(p, i) \<in> parent_rel d" and "p < size_dom d"
    using p(1) Suc.prems links_okD(3) [OF dom_wfD(1) [OF Suc.prems(3)] Suc.prems(2) p(1)]
    by (simp_all add: parent_rel_def)
  then show ?case using p(2) Suc.IH [of p] Suc.prems by (auto intro: trancl_into_trancl)
qed simp

lemma ancestors_of_complete:
  "(j, i) \<in> (parent_rel d) ^^ Suc n \<Longrightarrow> n < k \<Longrightarrow> j \<in> set (ancestors_of k d i)"
proof (induction n arbitrary: i k)
  case 0
  then show ?case by (cases k) (auto simp: parent_rel_def)
next
  case (Suc n)
  then obtain p where "(j, p) \<in> (parent_rel d) ^^ Suc n" "(p, i) \<in> parent_rel d"
    by (meson relpow_Suc_E)
  moreover obtain k' where "k = Suc k'" "n < k'" using Suc.prems(2) by (cases k) auto
  ultimately show ?case using Suc.IH [of p k'] by (auto simp: parent_rel_def)
qed

text \<open>The parent chain is shorter than the store, so the fuel of \<open>ancestors\<close> is enough.\<close>

lemma ancestors_iff:
  assumes wf: "dom_wf d" and i: "i < size_dom d"
  shows "j \<in> set (ancestors d i) \<longleftrightarrow> (j, i) \<in> (parent_rel d)\<^sup>+"
proof
  assume "j \<in> set (ancestors d i)"
  then show "(j, i) \<in> (parent_rel d)\<^sup>+" using ancestors_of_sound wf i by (simp add: ancestors_def)
next
  assume a: "(j, i) \<in> (parent_rel d)\<^sup>+"
  have fin: "finite (parent_rel d)" and sub: "Range (parent_rel d) \<subseteq> {0 ..< size_dom d}"
  proof -
    have "parent_rel d \<subseteq> {0 ..< size_dom d} \<times> {0 ..< size_dom d}"
      using links_okD(3) [OF dom_wfD(1) [OF wf]] by (auto simp: parent_rel_def)
    then show "finite (parent_rel d)" by (rule finite_subset) simp
    show "Range (parent_rel d) \<subseteq> {0 ..< size_dom d}" by (auto simp: parent_rel_def)
  qed
  obtain n where n: "(j, i) \<in> (parent_rel d) ^^ n" "0 < n" "n \<le> card (parent_rel d)"
    using a fin by (auto simp: trancl_finite_eq_relpow)
  have "inj_on snd (parent_rel d)" by (auto simp: inj_on_def parent_rel_def)
  then have "card (parent_rel d) = card (snd ` parent_rel d)" by (simp add: card_image)
  also have "\<dots> \<le> card {0 ..< size_dom d}" by (rule card_mono) (use sub in auto)
  finally have "n \<le> size_dom d" using n(3) by simp
  then show "j \<in> set (ancestors d i)"
    using ancestors_of_complete [where j = j and i = i and d = d and n = "n - 1" and k = "size_dom d"] n by (auto simp: ancestors_def)
qed

lemma wf_parent_unique:
  assumes "dom_wf d" and "p < size_dom d" and "children (node_at d p) = pre @ c # post"
  shows "c < size_dom d" "parent (node_at d c) = Some p"
  using links_okD(2) [OF dom_wfD(1) [OF assms(1)] assms(2), of c] assms(3) by auto

text \<open>Where a node stands among the children of its parent.\<close>

lemma child_position:
  assumes wf: "dom_wf d" and i: "i < size_dom d" and p: "parent (node_at d i) = Some p"
  obtains pre post where "p < size_dom d"
    "\<And>q xs ys. q < size_dom d \<and> children (node_at d q) = xs @ i # ys \<longleftrightarrow> q = p \<and> xs = pre \<and> ys = post"
    "preceding d i = filter (\<lambda>c. is_element (node_at d c)) (rev pre)"
proof -
  have pd: "p < size_dom d" and mem: "i \<in> set (children (node_at d p))"
    using links_okD(3) [OF dom_wfD(1) [OF wf] i p] by simp_all
  then obtain pre post where s: "children (node_at d p) = pre @ i # post" "i \<notin> set pre"
    by (meson split_list_first)
  have dist: "distinct (children (node_at d p))" by (rule links_okD(1) [OF dom_wfD(1) [OF wf] pd])
  have "q = p" if "q < size_dom d" "children (node_at d q) = xs @ i # ys" for q xs ys
    using wf_parent_unique(2) [OF wf that] p by simp
  moreover have "xs = pre \<and> ys = post" if "children (node_at d p) = xs @ i # ys" for xs ys
    using that s dist by (metis append_Cons_eq_iff distinct_append distinct.simps(2) not_distinct_conv_prefix)
  moreover have "takeWhile (\<lambda>c. c \<noteq> i) (children (node_at d p)) = pre"
    unfolding s(1) using s(2) by (intro takeWhile_stop) auto
  then have "preceding d i = filter (\<lambda>c. is_element (node_at d c)) (rev pre)"
    using p mem by (simp add: preceding_def)
  ultimately show ?thesis using that [of pre post] pd s(1) by blast
qed

lemma take1_filter_rev:
  "j \<in> set (take 1 (filter P (rev pre))) \<longleftrightarrow> (\<exists>a mid. pre = a @ j # mid \<and> P j \<and> (\<forall>m\<in>set mid. \<not> P m))"
proof (induction pre rule: rev_induct)
  case (snoc x pre)
  show ?case
  proof (cases "P x")
    case True
    have "(\<exists>a mid. pre @ [x] = a @ j # mid \<and> P j \<and> (\<forall>m\<in>set mid. \<not> P m)) \<longleftrightarrow> j = x"
    proof
      assume "\<exists>a mid. pre @ [x] = a @ j # mid \<and> P j \<and> (\<forall>m\<in>set mid. \<not> P m)"
      then obtain a mid where "pre @ [x] = a @ j # mid" "\<forall>m\<in>set mid. \<not> P m" by blast
      then show "j = x" using True by (cases mid rule: rev_cases) auto
    qed (use True in force)
    with True show ?thesis by simp
  next
    case False
    have "(\<exists>a mid. pre @ [x] = a @ j # mid \<and> P j \<and> (\<forall>m\<in>set mid. \<not> P m)) \<longleftrightarrow>
        (\<exists>a mid. pre = a @ j # mid \<and> P j \<and> (\<forall>m\<in>set mid. \<not> P m))"
    proof
      assume "\<exists>a mid. pre @ [x] = a @ j # mid \<and> P j \<and> (\<forall>m\<in>set mid. \<not> P m)"
      then obtain a mid where "pre @ [x] = a @ j # mid" "P j" "\<forall>m\<in>set mid. \<not> P m" by blast
      then show "\<exists>a mid. pre = a @ j # mid \<and> P j \<and> (\<forall>m\<in>set mid. \<not> P m)"
        using False by (cases mid rule: rev_cases) auto
    next
      assume "\<exists>a mid. pre = a @ j # mid \<and> P j \<and> (\<forall>m\<in>set mid. \<not> P m)"
      then obtain a mid where "pre = a @ j # mid" "P j" "\<forall>m\<in>set mid. \<not> P m" by blast
      then show "\<exists>a mid. pre @ [x] = a @ j # mid \<and> P j \<and> (\<forall>m\<in>set mid. \<not> P m)"
        using False by (intro exI [of _ a] exI [of _ "mid @ [x]"]) auto
    qed
    with False snoc show ?thesis by simp
  qed
qed simp

lemma candidates_iff:
  assumes wf: "dom_wf d" and i: "i < size_dom d"
  shows "j \<in> set (candidates d k i) \<longleftrightarrow> combines d k j i"
proof -
  let ?el = "\<lambda>c. is_element (node_at d c)"
  have sib: "j \<in> set (candidates d k i) \<longleftrightarrow> combines d k j i" if "k = Adjacent \<or> k = Sibling"
  proof (cases "parent (node_at d i)")
    case None
    then have "\<not> (q < size_dom d \<and> children (node_at d q) = xs @ i # ys)" for q xs ys
      using wf_parent_unique(2) [OF wf, of q xs i ys] by auto
    then have "\<not> (q < size_dom d \<and> children (node_at d q) = xs @ j # mid @ i # ys)" for q xs mid ys
      by (metis append.assoc append_Cons)
    with None that show ?thesis by (auto simp: candidates_def preceding_def)
  next
    case (Some p)
    from child_position [OF wf i Some] obtain pre post where
      pos: "\<And>q xs ys. q < size_dom d \<and> children (node_at d q) = xs @ i # ys \<longleftrightarrow> q = p \<and> xs = pre \<and> ys = post"
      and prec: "preceding d i = filter ?el (rev pre)" by metis
    have pos': "q < size_dom d \<and> children (node_at d q) = xs @ j # mid @ i # ys \<longleftrightarrow>
        q = p \<and> pre = xs @ j # mid \<and> ys = post" for q xs mid ys
      using pos [of q "xs @ j # mid" ys] by auto
    have "combines d Adjacent j i \<longleftrightarrow> j \<in> set (take 1 (preceding d i))"
      unfolding prec take1_filter_rev combines.simps by (metis pos')
    moreover have "combines d Sibling j i \<longleftrightarrow> j \<in> set (preceding d i)"
      unfolding prec combines.simps set_filter set_rev mem_Collect_eq by (metis pos' in_set_conv_decomp)
    ultimately show ?thesis
      using that by (elim disjE) (simp_all add: candidates_def del: combines.simps)
  qed
  show ?thesis
  proof (cases k)
    case Descendant
    then show ?thesis using ancestors_iff [OF wf i] by (simp add: candidates_def)
  next
    case Child
    then show ?thesis using i by (auto simp: candidates_def parent_rel_def split: option.splits)
  next
    case Adjacent
    show ?thesis by (rule sib) (simp add: Adjacent)
  next
    case Sibling
    show ?thesis by (rule sib) (simp add: Sibling)
  qed
qed

section \<open>The matcher computes the meaning, at a cost\<close>

text \<open>
  \<open>costs f r\<close>: for some number of steps, \<open>f\<close> answers \<open>r\<close> whenever the budget allows that many, and
  reports exhaustion otherwise.
\<close>

definition costs :: "(nat \<Rightarrow> step_result) \<Rightarrow> bool \<Rightarrow> bool" where
  "costs f r \<longleftrightarrow> (\<exists>c. \<forall>b. f b = (if c \<le> b then Inr (r, b - c) else Inl budget_error))"

lemma costs_return: "costs (\<lambda>b. Inr (r, b)) r"
  unfolding costs_def by (rule exI [of _ 0]) simp

lemma costs_bind:
  assumes "costs f r" and "costs (g r) r'"
  shows "costs (\<lambda>b. rbind (f b) (\<lambda>(x, b'). g x b')) r'"
proof -
  obtain c c' where "\<forall>b. f b = (if c \<le> b then Inr (r, b - c) else Inl budget_error)"
    "\<forall>b. g r b = (if c' \<le> b then Inr (r', b - c') else Inl budget_error)"
    using assms unfolding costs_def by blast
  then show ?thesis unfolding costs_def by (intro exI [of _ "c + c'"]) auto
qed

lemma costs_step:
  assumes "costs f r"
  shows "costs (\<lambda>b. if b = 0 then Inl budget_error else f (b - 1)) r"
proof -
  obtain c where "\<forall>b. f b = (if c \<le> b then Inr (r, b - c) else Inl budget_error)"
    using assms unfolding costs_def by blast
  then show ?thesis unfolding costs_def by (intro exI [of _ "Suc c"]) auto
qed

lemma costs_any:
  "(\<And>x. x \<in> set xs \<Longrightarrow> costs (f x) (P x)) \<Longrightarrow> costs (any_steps f xs) (\<exists>x\<in>set xs. P x)"
proof (induction xs)
  case Nil
  have "any_steps f [] = (\<lambda>b. Inr (False, b))" by (rule ext) simp
  then show ?case by (simp add: costs_return)
next
  case (Cons x xs)
  have "any_steps f (x # xs) =
      (\<lambda>b. rbind (f x b) (\<lambda>(r, b'). (if r then \<lambda>b'. Inr (True, b') else any_steps f xs) b'))"
    by (rule ext) (simp add: if_distribR)
  moreover have "costs (\<lambda>b. rbind (f x b) (\<lambda>(r, b'). (if r then \<lambda>b'. Inr (True, b') else any_steps f xs) b'))
      (\<exists>y\<in>set (x # xs). P y)"
    by (rule costs_bind [of _ "P x"]) (use Cons costs_return in auto)
  ultimately show ?case by simp
qed

lemma costs_all:
  "(\<And>x. x \<in> set xs \<Longrightarrow> costs (f x) (P x)) \<Longrightarrow> costs (all_steps f xs) (\<forall>x\<in>set xs. P x)"
proof (induction xs)
  case Nil
  have "all_steps f [] = (\<lambda>b. Inr (True, b))" by (rule ext) simp
  then show ?case by (simp add: costs_return)
next
  case (Cons x xs)
  have "all_steps f (x # xs) =
      (\<lambda>b. rbind (f x b) (\<lambda>(r, b'). (if r then all_steps f xs else (\<lambda>b'. Inr (False, b'))) b'))"
    by (rule ext) (simp add: if_distribR)
  moreover have "costs (\<lambda>b. rbind (f x b) (\<lambda>(r, b'). (if r then all_steps f xs else (\<lambda>b'. Inr (False, b'))) b'))
      (\<forall>y\<in>set (x # xs). P y)"
    by (rule costs_bind [of _ "P x"]) (use Cons costs_return in auto)
  ultimately show ?case by simp
qed

lemma combines_bound:
  assumes wf: "dom_wf d" and i: "i < size_dom d" and j: "combines d k j i"
  shows "j < size_dom d"
proof -
  have up: "j < size_dom d" if t: "(j, i) \<in> (parent_rel d)\<^sup>+"
  proof -
    obtain x where x: "(j, x) \<in> parent_rel d" using tranclD [OF t] by blast
    then have "x < size_dom d" "parent (node_at d x) = Some j" by (simp_all add: parent_rel_def)
    from links_okD(3) [OF dom_wfD(1) [OF wf] this] show ?thesis by simp
  qed
  show ?thesis
    using j up wf_parent_unique(1) [OF wf, of _ _ j] by (cases k) auto
qed

lemma costs_complex:
  assumes wf: "dom_wf d" and ok: "complex_ok (ComplexSelector cs ks)"
    and comp: "\<And>c i. c \<in> set cs \<Longrightarrow> compound_ok c \<Longrightarrow> i < size_dom d \<Longrightarrow>
      costs (match_compound d i c) (sat_compound d i c)"
  shows "i < size_dom d \<Longrightarrow> index < length cs \<Longrightarrow>
    costs (match_complex d i (ComplexSelector cs ks) index) (sat_complex d i (ComplexSelector cs ks) index)"
proof (induction index arbitrary: i)
  case 0
  have "compound_ok (cs ! 0)" "cs ! 0 \<in> set cs" using ok 0 by simp_all
  then have c0: "costs (match_compound d i (cs ! 0)) (sat_compound d i (cs ! 0))" using comp 0 by simp
  have "match_complex d i (ComplexSelector cs ks) 0 = (\<lambda>b. rbind (match_compound d i (cs ! 0) b) (\<lambda>(r, b'). Inr (r, b')))"
    using 0 by (intro ext) (simp, rule arg_cong [where f = "rbind _"], auto)
  with costs_bind [OF c0, of "\<lambda>r b'. Inr (r, b')"] costs_return 0 show ?case by simp
next
  case (Suc index)
  let ?s = "ComplexSelector cs ks" and ?c = "cs ! Suc index" and ?k = "ks ! index"
  let ?go = "any_steps (\<lambda>j. match_complex d j ?s index) (candidates d ?k i)"
  have len: "Suc index \<le> length ks" using ok Suc.prems by simp
  have "costs (match_compound d i ?c) (sat_compound d i ?c)" using comp ok Suc.prems by simp
  moreover have "costs ?go (\<exists>j\<in>set (candidates d ?k i). sat_complex d j ?s index)"
    using Suc.prems candidates_iff [OF wf Suc.prems(1)] combines_bound [OF wf Suc.prems(1)]
    by (intro costs_any Suc.IH) auto
  then have "costs (if sat_compound d i ?c then ?go else (\<lambda>b. Inr (False, b))) (sat_complex d i ?s (Suc index))"
    using candidates_iff [OF wf Suc.prems(1)] Suc.prems(2) by (auto simp: Bex_def intro: costs_return)
  ultimately have "costs (\<lambda>b. rbind (match_compound d i ?c b)
      (\<lambda>(r, b'). (if r then ?go else (\<lambda>b. Inr (False, b))) b')) (sat_complex d i ?s (Suc index))"
    by (rule costs_bind)
  moreover have "match_complex d i ?s (Suc index) = (\<lambda>b. rbind (match_compound d i ?c b)
      (\<lambda>(r, b'). (if r then ?go else (\<lambda>b. Inr (False, b))) b'))"
    using Suc.prems len by (intro ext) (simp, rule arg_cong [where f = "rbind _"], auto)
  ultimately show ?case by simp
qed

lemma match_costs:
  assumes wf: "dom_wf d"
  shows "pseudo_ok p \<Longrightarrow> i < size_dom d \<Longrightarrow> costs (match_pseudo d i p) (sat_pseudo d i p)"
    and "compound_ok c \<Longrightarrow> i < size_dom d \<Longrightarrow> costs (match_compound d i c) (sat_compound d i c)"
    and "complex_ok s \<Longrightarrow> i < size_dom d \<Longrightarrow> index < length (compounds s) \<Longrightarrow>
      costs (match_complex d i s index) (sat_complex d i s index)"
proof (induction p and c and s arbitrary: i and i and i index)
  case (PseudoClass k a b nl)
  have "costs (any_steps (\<lambda>s. match_complex d i s (length (compounds s) - 1)) nl)
      (\<exists>s\<in>set nl. sat_complex d i s (length (compounds s) - 1))"
  proof (rule costs_any)
    fix s assume s: "s \<in> set nl"
    then have ok: "complex_ok s" using PseudoClass.prems by simp
    then have "length (compounds s) - 1 < length (compounds s)" by (cases s) auto
    with PseudoClass s ok show "costs (match_complex d i s (length (compounds s) - 1))
        (sat_complex d i s (length (compounds s) - 1))" by simp
  qed
  from costs_bind [OF this, of "\<lambda>r b'. Inr (\<not> r, b')", OF costs_return]
  have "costs (\<lambda>n. rbind (any_steps (\<lambda>s. match_complex d i s (length (compounds s) - 1)) nl n)
      (\<lambda>(r, b'). Inr (\<not> r, b'))) (sat_pseudo d i (PseudoClass Not a b nl))" by simp
  moreover have "match_pseudo d i (PseudoClass Not a b nl) = (\<lambda>n. rbind
      (any_steps (\<lambda>s. match_complex d i s (length (compounds s) - 1)) nl n) (\<lambda>(r, b'). Inr (\<not> r, b')))"
    by (rule ext) simp
  ultimately have neg: "costs (match_pseudo d i (PseudoClass Not a b nl)) (sat_pseudo d i (PseudoClass Not a b nl))"
    by (simp only:)
  have "match_pseudo d i (PseudoClass k a b nl) = (\<lambda>n. Inr (sat_pseudo d i (PseudoClass k a b nl), n))" if "k \<noteq> Not"
    using that by (intro ext) (auto simp: match_nth_position split: pseudo_kind.splits)
  then show ?case using neg costs_return by (cases "k = Not") (simp_all only: simp_thms)
next
  case (Compound u t ii cs as ps)
  let ?c = "Compound u t ii cs as ps"
  have "costs (all_steps (match_pseudo d i) ps) (\<forall>p\<in>set ps. sat_pseudo d i p)"
    using Compound by (intro costs_all) auto
  then have "costs (if match_simple d i ?c then all_steps (match_pseudo d i) ps else (\<lambda>b. Inr (False, b)))
      (sat_compound d i ?c)"
    by (auto intro: costs_return)
  from costs_step [OF this]
  have "costs (\<lambda>b. if b = 0 then Inl budget_error else
      (if match_simple d i ?c then all_steps (match_pseudo d i) ps else (\<lambda>b. Inr (False, b))) (b - 1))
      (sat_compound d i ?c)" .
  moreover have "match_compound d i ?c = (\<lambda>b. if b = 0 then Inl budget_error else
      (if match_simple d i ?c then all_steps (match_pseudo d i) ps else (\<lambda>b. Inr (False, b))) (b - 1))"
    by (rule ext) simp
  ultimately show ?case by simp
next
  case (ComplexSelector cs ks)
  then show ?case by (intro costs_complex [OF wf]) auto
qed

definition selects :: "dom \<Rightarrow> complex_selector list \<Rightarrow> nat \<Rightarrow> bool" where
  "selects d sels i \<longleftrightarrow> (\<exists>s\<in>set sels. sat_complex d i s (length (compounds s) - 1))"

lemma matches_with_costs:
  assumes "dom_wf d" and "i < size_dom d" and "list_all complex_ok sels"
  shows "\<exists>c. \<forall>budget. matches_with budget d i sels =
    (if c \<le> budget then Inr (selects d sels i) else Inl budget_error)"
proof -
  have "costs (any_steps (\<lambda>s. match_complex d i s (length (compounds s) - 1)) sels) (selects d sels i)"
    unfolding selects_def
  proof (rule costs_any)
    fix s assume "s \<in> set sels"
    then have ok: "complex_ok s" using assms(3) by (simp add: list_all_iff)
    then have "length (compounds s) - 1 < length (compounds s)" by (cases s) auto
    then show "costs (match_complex d i s (length (compounds s) - 1)) (sat_complex d i s (length (compounds s) - 1))"
      by (rule match_costs(3) [OF assms(1) ok assms(2)])
  qed
  then obtain c where "\<forall>b. any_steps (\<lambda>s. match_complex d i s (length (compounds s) - 1)) sels b =
      (if c \<le> b then Inr (selects d sels i, b - c) else Inl budget_error)"
    unfolding costs_def by blast
  then show ?thesis by (intro exI [of _ c]) (simp add: matches_with_def)
qed

lemma matches_cases:
  assumes "dom_wf d" and "i < size_dom d" and "list_all complex_ok sels"
  shows "matches d i sels = Inr (selects d sels i) \<or> matches d i sels = Inl budget_error"
  using matches_with_costs [OF assms] by (auto simp: matches_def split: if_splits)

text \<open>
  C7: matching a node against a selector list computes the declarative meaning of CSS selectors
  (combinators as relations between nodes, \<open>an + b\<close> as an existential, negation as negation): for
  every node and selector there is a number of steps such that every budget of at least that
  many gives exactly the meaning, and every smaller one the budget error and nothing else.
\<close>

theorem matches_meaning:
  assumes "dom_wf d" and "i < size_dom d" and "list_all complex_ok sels"
  shows "\<exists>cost. \<forall>budget. matches_with budget d i sels =
    (if cost \<le> budget then Inr (\<exists>s\<in>set sels. sat_complex d i s (length (compounds s) - 1))
     else Inl (Error ResourceLimit ''selector matching budget exhausted''))"
  using matches_with_costs [OF assms] unfolding selects_def budget_error_def .

definition sample_dom :: dom where
  "sample_dom = \<lparr>nodes = [(fresh_node Document)\<lparr>children := [1]\<rparr>,
     (fresh_node Element)\<lparr>nname := ''p'', parent := Some 0\<rparr>], mutations = []\<rparr>"

lemma sample_dom_wf: "dom_wf sample_dom"
proof -
  have "parent_rel sample_dom = {(0, 1)}"
    by (auto simp: parent_rel_def sample_dom_def less_Suc_eq fresh_node_def)
  then have "parent_rel sample_dom \<subseteq> less_than" by simp
  then have "acyclic (parent_rel sample_dom)"
    using acyclic_subset [OF wf_acyclic [OF wf_less_than]] by blast
  moreover have "links_ok sample_dom"
    by (auto simp: links_ok_def sample_dom_def less_Suc_eq fresh_node_def)
  ultimately show ?thesis by (simp add: dom_wf_def)
qed

theorem matches_meaning_witness:
  "\<exists>cost. \<forall>budget. matches_with budget sample_dom 1 [ComplexSelector [Compound False ''p'' [] [] [] []] []] =
    (if cost \<le> budget then Inr True else Inl (Error ResourceLimit ''selector matching budget exhausted''))"
proof -
  let ?s = "ComplexSelector [Compound False ''p'' [] [] [] []] []"
  have "(\<exists>s\<in>set [?s]. sat_complex sample_dom 1 s (length (compounds s) - 1)) = True"
    by (simp add: sample_dom_def match_simple_def match_ids_def match_classes_def is_element_def fresh_node_def)
  moreover have "1 < size_dom sample_dom" "list_all complex_ok [?s]" by (simp_all add: sample_dom_def)
  ultimately show ?thesis using matches_meaning [OF sample_dom_wf, of 1 "[?s]"] by (simp only:)
qed

end
