(* ===== verification/Selector_Parser.thy ===== *)
theory Selector_Parser
  imports Selector_Model
begin

text \<open>
  \<^verbatim>\<open>selector_parser.cpp\<close>: the selector parser.  The parser object's cursor is the unread suffix, its
  compound counter travels with it, and the nesting counter is the number of levels that are
  still allowed: \<open>parse_list_at k\<close> is \<open>parse_list\<close> with \<open>32 - k\<close> levels of \<open>:not\<close> entered.
\<close>

type_synonym pstate = "string \<times> nat"

abbreviation parse_error :: "string \<Rightarrow> 'a result" where
  "parse_error msg \<equiv> Inl (Error ParseError msg)"

section \<open>Identifiers\<close>

definition is_ident_char :: "char \<Rightarrow> bool" where
  "is_ident_char c \<longleftrightarrow>
     is_alnum c \<or> c = CHR ''-'' \<or> c = CHR ''_'' \<or> c = CHR 0x5C \<or> byte c \<ge> 0x80"

fun ident_start :: "string \<Rightarrow> bool" where
  "ident_start [] = False"
| "ident_start (c # s) =
     (if c = CHR ''-'' then s \<noteq> [] \<and> (hd s = CHR ''-'' \<or> ident_start s)
      else is_lower c \<or> is_upper c \<or> c = CHR ''_'' \<or> byte c \<ge> 0x80 \<or> c = CHR 0x5C)"

definition append_codepoint :: "u32 \<Rightarrow> string" where
  "append_codepoint cp0 =
     (let cp = (if cp0 = 0 \<or> cp0 > 0x10ffff \<or> (cp0 \<ge> 0xd800 \<and> cp0 \<le> 0xdfff) then 0xfffd else cp0) in
      if cp \<le> 0x7f then [to_char cp]
      else if cp \<le> 0x7ff then [to_char (0xc0 OR drop_bit 6 cp), to_char (0x80 OR (cp AND 0x3f))]
      else if cp \<le> 0xffff then
        [to_char (0xe0 OR drop_bit 12 cp), to_char (0x80 OR (drop_bit 6 cp AND 0x3f)),
         to_char (0x80 OR (cp AND 0x3f))]
      else [to_char (0xf0 OR drop_bit 18 cp), to_char (0x80 OR (drop_bit 12 cp AND 0x3f)),
            to_char (0x80 OR (drop_bit 6 cp AND 0x3f)), to_char (0x80 OR (cp AND 0x3f))])"

definition hex_value :: "char \<Rightarrow> nat option" where
  "hex_value c =
     (if CHR ''0'' \<le> c \<and> c \<le> CHR ''9'' then Some (byte c - byte (CHR ''0''))
      else if CHR ''a'' \<le> c \<and> c \<le> CHR ''f'' then Some (byte c - byte (CHR ''a'') + 10)
      else if CHR ''A'' \<le> c \<and> c \<le> CHR ''F'' then Some (byte c - byte (CHR ''A'') + 10)
      else None)"

text \<open>At most \<open>n\<close> more hexadecimal digits.\<close>

fun read_hex :: "nat \<Rightarrow> u32 \<Rightarrow> string \<Rightarrow> u32 \<times> string" where
  "read_hex (Suc n) cp (c # s) =
     (case hex_value c of None \<Rightarrow> (cp, c # s) | Some v \<Rightarrow> read_hex n (cp * 16 + of_nat v) s)"
| "read_hex _ cp s = (cp, s)"

definition is_newline :: "char \<Rightarrow> bool" where
  "is_newline c \<longleftrightarrow> c = CHR 0x0A \<or> c = CHR 0x0D \<or> c = CHR 0x0C"

text \<open>Skip one white-space character, a carriage return together with its line feed.\<close>

definition skip_one_space :: "string \<Rightarrow> string" where
  "skip_one_space s =
     (case s of
        [] \<Rightarrow> []
      | c # t \<Rightarrow> if is_space c
                 then (if c = CHR 0x0D \<and> t \<noteq> [] \<and> hd t = CHR 0x0A then tl t else t) else s)"

text \<open>\<open>read_escape\<close>; the argument is what follows the backslash.\<close>

definition read_escape :: "string \<Rightarrow> (string \<times> string) result" where
  "read_escape s =
     (case s of
        [] \<Rightarrow> parse_error ''invalid selector escape''
      | c # t \<Rightarrow>
          if is_newline c then parse_error ''invalid selector escape''
          else if hex_value c = None then Inr ([c], t)
          else let (cp, rest) = read_hex 6 0 s in Inr (append_codepoint cp, skip_one_space rest))"

lemma read_hex_length: "length (snd (read_hex n cp s)) \<le> length s"
  by (induction n cp s rule: read_hex.induct) (auto split: option.split intro: le_SucI)

lemma skip_one_space_length: "length (skip_one_space s) \<le> length s"
  by (auto simp: skip_one_space_def split: list.split)

lemma read_escape_length: "read_escape s = Inr (v, r) \<Longrightarrow> length r \<le> length s"
  using read_hex_length [of 6 0 s] skip_one_space_length [of "snd (read_hex 6 0 s)"]
  by (auto simp: read_escape_def Let_def split: list.splits if_splits prod.splits)

function ident_loop :: "string \<Rightarrow> string \<Rightarrow> (string \<times> string) result" where
  "ident_loop result s =
     (case s of
        [] \<Rightarrow> Inr (result, [])
      | c # t \<Rightarrow>
          if \<not> is_ident_char c then Inr (result, s)
          else if c = CHR 0x5C then rbind (read_escape t) (\<lambda>(v, r). ident_loop (result @ v) r)
          else ident_loop (result @ [c]) t)"
  by pat_completeness auto
termination
  by (relation "measure (\<lambda>(result, s). length s)") (auto dest: read_escape_length)

declare ident_loop.simps [simp del]

definition read_ident :: "string \<Rightarrow> (string \<times> string) result" where
  "read_ident s = (if \<not> ident_start s then Inr ([], s) else ident_loop [] s)"

lemma ident_loop_length: "ident_loop acc s = Inr (v, r) \<Longrightarrow> length r \<le> length s"
proof (induction acc s arbitrary: v r rule: ident_loop.induct)
  case (1 acc s)
  then show ?case
    by (subst (asm) (3) ident_loop.simps)
       (fastforce simp: rbind_Inr_iff split: list.splits if_splits dest: read_escape_length)
qed

lemma read_ident_length: "read_ident s = Inr (v, r) \<Longrightarrow> length r \<le> length s"
  by (auto simp: read_ident_def split: if_splits dest: ident_loop_length)

section \<open>Attribute selectors\<close>

abbreviation skip_space :: "string \<Rightarrow> string" where
  "skip_space \<equiv> dropWhile is_space"

definition attr_operator :: "string \<Rightarrow> (attr_op \<times> string) result" where
  "attr_operator s =
     (case s of
        [] \<Rightarrow> parse_error ''unknown attribute operator''
      | c # t \<Rightarrow>
          if c = CHR ''='' then Inr (Equals, t)
          else if t \<noteq> [] \<and> hd t = CHR ''='' then
            (if c = CHR ''~'' then Inr (Includes, tl t)
             else if c = CHR ''|'' then Inr (DashMatch, tl t)
             else if c = CHR ''^'' then Inr (Prefix, tl t)
             else if c = CHR ''$'' then Inr (Suffix, tl t)
             else if c = CHR ''*'' then Inr (Substring, tl t)
             else parse_error ''unknown attribute operator'')
          else parse_error ''unknown attribute operator'')"

text \<open>The loop over a quoted value up to the closing quote, which it consumes.\<close>

function quoted_loop :: "char \<Rightarrow> string \<Rightarrow> string \<Rightarrow> (string \<times> string) result" where
  "quoted_loop q value s =
     (case s of
        [] \<Rightarrow> parse_error ''unterminated attribute value''
      | c # t \<Rightarrow>
          if c = q then Inr (value, t)
          else if c = CHR 0x5C then
            (if t \<noteq> [] \<and> is_newline (hd t)
             then quoted_loop q value
                    (if hd t = CHR 0x0D \<and> tl t \<noteq> [] \<and> hd (tl t) = CHR 0x0A then tl (tl t) else tl t)
             else rbind (read_escape t) (\<lambda>(v, r). quoted_loop q (value @ v) r))
          else if is_newline c then parse_error ''newline in attribute string''
          else quoted_loop q (value @ [c]) t)"
  by pat_completeness auto
termination
  by (relation "measure (\<lambda>(q, value, s). length s)") (auto dest: read_escape_length)

declare quoted_loop.simps [simp del]

definition attr_value_of :: "string \<Rightarrow> (string \<times> string) result" where
  "attr_value_of s =
     (case s of
        q # t \<Rightarrow> if q = CHR 0x22 \<or> q = CHR 0x27 then quoted_loop q [] t
                 else rbind (read_ident s) (\<lambda>(v, r). if v = [] then parse_error ''missing attribute value'' else Inr (v, r))
      | [] \<Rightarrow> parse_error ''missing attribute value'')"

text \<open>The optional case flag; \<open>None\<close> when there is none.\<close>

definition attr_flag :: "attr_op \<Rightarrow> string \<Rightarrow> (bool \<times> string) result" where
  "attr_flag op s =
     (if op \<noteq> Exists \<and> s \<noteq> [] \<and> hd s \<noteq> CHR '']'' then
        rbind (read_ident s) (\<lambda>(f, r).
          let flag = to_lower f in
          if flag \<noteq> ''i'' \<and> flag \<noteq> ''s'' then parse_error ''invalid attribute case flag''
          else Inr (flag = ''i'', skip_space r))
      else Inr (False, s))"

text \<open>\<open>parse_attribute\<close>; the argument is what follows the opening bracket.\<close>

definition parse_attribute :: "string \<Rightarrow> (attr_selector \<times> string) result" where
  "parse_attribute s =
     rbind (read_ident (skip_space s)) (\<lambda>(n, s1).
       let name = to_lower n; s2 = skip_space s1 in
       if name = [] then parse_error ''empty attribute name''
       else rbind (if s2 \<noteq> [] \<and> hd s2 \<noteq> CHR '']''
                   then rbind (attr_operator s2) (\<lambda>(op, s3).
                          rbind (attr_value_of (skip_space s3)) (\<lambda>(v, s4). Inr (op, v, s4)))
                   else Inr (Exists, [], s2))
         (\<lambda>(op, value, s5).
            rbind (attr_flag op (skip_space s5)) (\<lambda>(insensitive, s6).
              if s6 = [] \<or> hd s6 \<noteq> CHR '']'' then parse_error ''unterminated attribute selector''
              else Inr (\<lparr>as_name = name, as_op = op,
                          as_value = (if insensitive then to_lower value else value),
                          as_insensitive = insensitive\<rparr>, tl s6))))"

section \<open>The argument of nth pseudo-classes\<close>

definition decimal_value :: "string \<Rightarrow> nat" where
  "decimal_value ds = foldl (\<lambda>n c. n * 10 + (byte c - byte (CHR ''0''))) 0 ds"

text \<open>\<open>std::from_chars\<close> to \<open>int\<close>, consuming the whole value.\<close>

definition from_chars_int :: "string \<Rightarrow> int option" where
  "from_chars_int s =
     (let neg = (s \<noteq> [] \<and> hd s = CHR ''-''); ds = (if neg then tl s else s);
          v = (if neg then - int (decimal_value ds) else int (decimal_value ds))
      in if ds \<noteq> [] \<and> list_all is_digit ds \<and> - (2 ^ 31) \<le> v \<and> v < 2 ^ 31 then Some v else None)"

definition nth_integer :: "string \<Rightarrow> int result" where
  "nth_integer value =
     (let plus = (value \<noteq> [] \<and> hd value = CHR ''+''); v = (if plus then tl value else value) in
      if plus \<and> (v = [] \<or> hd v = CHR ''-'') then parse_error ''invalid nth expression''
      else case from_chars_int v of None \<Rightarrow> parse_error ''invalid nth expression'' | Some n \<Rightarrow> Inr n)"

definition nth_offset :: "string \<Rightarrow> int result" where
  "nth_offset b0 =
     (let b = skip_space b0 in
      if b = [] then Inr 0
      else if hd b \<noteq> CHR ''+'' \<and> hd b \<noteq> CHR ''-'' then parse_error ''missing nth offset sign''
      else let digits = skip_space (tl b) in
           if digits = [] \<or> \<not> is_digit (hd digits) then parse_error ''missing nth offset''
           else nth_integer (hd b # digits))"

definition nth_coefficients :: "string \<Rightarrow> (int \<times> int) result" where
  "nth_coefficients argument =
     (if argument = ''odd'' then Inr (2, 1)
      else if argument = ''even'' then Inr (2, 0)
      else case find_char (CHR ''n'') argument of
          None \<Rightarrow> rbind (nth_integer argument) (\<lambda>b. Inr (0, b))
        | Some n \<Rightarrow>
            let a = take n argument; b = drop (n + 1) argument in
            rbind (if a = [] \<or> a = ''+'' then Inr 1 else if a = ''-'' then Inr (- 1) else nth_integer a)
              (\<lambda>na. rbind (nth_offset b) (\<lambda>nb. Inr (na, nb))))"

definition trim_back :: "string \<Rightarrow> string" where
  "trim_back s = rev (dropWhile is_space (rev s))"

definition parse_nth :: "string \<Rightarrow> ((int \<times> int) \<times> string) result" where
  "parse_nth s =
     (if s = [] \<or> hd s \<noteq> CHR ''('' then parse_error '':nth-child() requires an argument''
      else let s1 = skip_space (tl s) in
           case find_char (CHR '')'') s1 of
             None \<Rightarrow> parse_error ''unterminated :nth-child()''
           | Some close \<Rightarrow>
               rbind (nth_coefficients (trim_back (to_lower (take close s1))))
                 (\<lambda>ab. Inr (ab, drop (close + 1) s1)))"

section \<open>Unread input shrinks\<close>

lemma skip_space_length: "length s \<le> n \<Longrightarrow> length (skip_space s) \<le> n"
  using length_dropWhile_le [of is_space s] by simp

lemma quoted_loop_length: "quoted_loop q acc s = Inr (v, r) \<Longrightarrow> length r \<le> length s"
proof (induction q acc s arbitrary: v r rule: quoted_loop.induct)
  case (1 q acc s)
  show ?case
  proof (cases s)
    case Nil
    with "1.prems" show ?thesis by (simp add: quoted_loop.simps)
  next
    case (Cons c t)
    let ?skip = "if hd t = CHR 0x0D \<and> tl t \<noteq> [] \<and> hd (tl t) = CHR 0x0A then tl (tl t) else tl t"
    have skip: "length ?skip \<le> length t" by (cases t) auto
    consider "c = q" | (nl) "c \<noteq> q" "c = CHR 0x5C" "t \<noteq> [] \<and> is_newline (hd t)"
      | (esc) "c \<noteq> q" "c = CHR 0x5C" "\<not> (t \<noteq> [] \<and> is_newline (hd t))" | (plain) "c \<noteq> q" "c \<noteq> CHR 0x5C" by blast
    then show ?thesis
    proof cases
      case 1
      with "1.prems" Cons show ?thesis by (simp add: quoted_loop.simps)
    next
      case nl
      have "quoted_loop q acc s = quoted_loop q acc ?skip"
        using nl Cons by (subst quoted_loop.simps) simp
      with "1.prems" "1.IH"(1) [OF Cons nl(1) nl(2) nl(3)] skip Cons show ?thesis by fastforce
    next
      case esc
      then obtain w u where "read_escape t = Inr (w, u)" "quoted_loop q (acc @ w) u = Inr (v, r)"
        using "1.prems" Cons by (subst (asm) quoted_loop.simps) (auto simp: rbind_Inr_iff)
      with "1.IH"(2) [OF Cons esc(1) esc(2) esc(3)] Cons show ?thesis
        by (fastforce dest: read_escape_length)
    next
      case plain
      then have "\<not> is_newline c" and "quoted_loop q (acc @ [c]) t = Inr (v, r)"
        using "1.prems" Cons by (subst (asm) quoted_loop.simps; auto split: if_splits)+
      with "1.IH"(3) [OF Cons plain] Cons show ?thesis by fastforce
    qed
  qed
qed

lemma attr_value_of_length: "attr_value_of s = Inr (v, r) \<Longrightarrow> length r \<le> length s"
  by (auto simp: attr_value_of_def rbind_Inr_iff split: list.splits if_splits
      dest: quoted_loop_length read_ident_length)

lemma attr_operator_length: "attr_operator s = Inr (v, r) \<Longrightarrow> length r \<le> length s"
  by (auto simp: attr_operator_def split: list.splits if_splits)

lemma attr_flag_length: "attr_flag op s = Inr (v, r) \<Longrightarrow> length r \<le> length s"
  by (auto simp: attr_flag_def rbind_Inr_iff Let_def split: if_splits
      dest!: read_ident_length intro: skip_space_length)

lemma parse_attribute_length:
  assumes "parse_attribute s = Inr (a, r)"
  shows "length r \<le> length s"
proof -
  from assms obtain n s1 op v s5 ins s6 where
    1: "read_ident (skip_space s) = Inr (n, s1)"
    and 2: "(if skip_space s1 \<noteq> [] \<and> hd (skip_space s1) \<noteq> CHR '']''
             then rbind (attr_operator (skip_space s1)) (\<lambda>(op, s3).
                    rbind (attr_value_of (skip_space s3)) (\<lambda>(v, s4). Inr (op, v, s4)))
             else Inr (Exists, [], skip_space s1)) = Inr (op, v, s5)"
    and 3: "attr_flag op (skip_space s5) = Inr (ins, s6)" and 4: "r = tl s6"
    by (auto simp: parse_attribute_def rbind_Inr_iff Let_def split: if_splits)
  have "length s1 \<le> length s"
    using read_ident_length [OF 1] length_dropWhile_le [of is_space s] by linarith
  moreover have "length s5 \<le> length s1"
  proof (cases "skip_space s1 \<noteq> [] \<and> hd (skip_space s1) \<noteq> CHR '']''")
    case True
    with 2 obtain s3 where o: "attr_operator (skip_space s1) = Inr (op, s3)"
      and w: "attr_value_of (skip_space s3) = Inr (v, s5)"
      by (auto simp: rbind_Inr_iff)
    from attr_operator_length [OF o] attr_value_of_length [OF w] show ?thesis
      using length_dropWhile_le [of is_space s1] length_dropWhile_le [of is_space s3] by linarith
  next
    case False
    with 2 show ?thesis using length_dropWhile_le [of is_space s1] by auto
  qed
  moreover have "length s6 \<le> length s5"
    using attr_flag_length [OF 3] length_dropWhile_le [of is_space s5] by linarith
  ultimately show ?thesis using 4 by simp
qed

lemma parse_nth_length: "parse_nth s = Inr (v, r) \<Longrightarrow> length r \<le> length s"
  using length_dropWhile_le [of is_space "tl s"]
  by (auto simp: parse_nth_def rbind_Inr_iff Let_def split: if_splits option.splits)

section \<open>Compounds, complex selectors and lists\<close>

text \<open>
  The nested parser is an argument: \<open>None\<close> when no further nesting is allowed.  The loops check
  that each round consumes input; \<open>parse_result\<close> shows that it always does.
\<close>

type_synonym list_parser = "pstate \<Rightarrow> (complex_selector list \<times> pstate) result"

definition no_progress :: error where
  "no_progress = Error Internal ''selector parser made no progress''"

definition plain_pseudo :: "pseudo_kind \<Rightarrow> pseudo_class" where
  "plain_pseudo k = PseudoClass k 0 0 []"

definition simple_kinds :: "(string \<times> pseudo_kind) list" where
  "simple_kinds =
     [(''first-child'', FirstChild), (''last-child'', LastChild), (''only-child'', OnlyChild),
      (''empty'', Empty), (''root'', Root), (''first-of-type'', FirstOfType),
      (''last-of-type'', LastOfType), (''only-of-type'', OnlyOfType)]"

definition nth_kinds :: "(string \<times> pseudo_kind) list" where
  "nth_kinds =
     [(''nth-child'', NthChild), (''nth-last-child'', NthLastChild), (''nth-of-type'', NthOfType),
      (''nth-last-of-type'', NthLastOfType)]"

text \<open>\<open>parse_pseudo\<close>; the unread input starts behind the colon.\<close>

definition parse_pseudo :: "list_parser option \<Rightarrow> pstate \<Rightarrow> (pseudo_class \<times> pstate) result" where
  "parse_pseudo nested st =
     rbind (read_ident (fst st)) (\<lambda>(n, s1).
       let name = to_lower n; count = snd st in
       case map_of simple_kinds name of
         Some k \<Rightarrow> Inr (plain_pseudo k, s1, count)
       | None \<Rightarrow>
         (case map_of nth_kinds name of
            Some k \<Rightarrow> rbind (parse_nth s1) (\<lambda>((a, b), s2). Inr (PseudoClass k a b [], s2, count))
          | None \<Rightarrow>
              if name = ''not'' then
                (if s1 = [] \<or> hd s1 \<noteq> CHR ''('' then parse_error '':not() requires an argument''
                 else case nested of
                     None \<Rightarrow> parse_error ''selector nesting exceeds 32''
                   | Some parse_nested \<Rightarrow>
                       rbind (parse_nested (tl s1, count)) (\<lambda>(sels, s2, count').
                         if s2 = [] \<or> hd s2 \<noteq> CHR '')'' then parse_error ''unterminated :not()''
                         else Inr (PseudoClass Not 0 0 sels, tl s2, count')))
              else parse_error (''unsupported pseudo-class: '' @ name)))"

definition add_class :: "string \<Rightarrow> compound \<Rightarrow> compound" where
  "add_class n c = Compound (universal c) (tag c) (ids c) (classes c @ [n]) (attr_selectors c) (pseudos c)"

definition add_id :: "string \<Rightarrow> compound \<Rightarrow> compound" where
  "add_id n c = Compound (universal c) (tag c) (ids c @ [n]) (classes c) (attr_selectors c) (pseudos c)"

definition add_attr :: "attr_selector \<Rightarrow> compound \<Rightarrow> compound" where
  "add_attr a c = Compound (universal c) (tag c) (ids c) (classes c) (attr_selectors c @ [a]) (pseudos c)"

definition add_pseudo :: "pseudo_class \<Rightarrow> compound \<Rightarrow> compound" where
  "add_pseudo p c = Compound (universal c) (tag c) (ids c) (classes c) (attr_selectors c) (pseudos c @ [p])"

function compound_loop ::
  "list_parser option \<Rightarrow> compound \<Rightarrow> bool \<Rightarrow> pstate \<Rightarrow> ((compound \<times> bool) \<times> pstate) result" where
  "compound_loop nested c consumed (s, count) =
     (case s of
        [] \<Rightarrow> Inr ((c, consumed), s, count)
      | x # t \<Rightarrow>
          if x = CHR ''.'' then
            rbind (read_ident t) (\<lambda>(n, r).
              if n = [] then parse_error ''empty class selector''
              else compound_loop nested (add_class n c) True (r, count))
          else if x = CHR ''#'' then
            rbind (read_ident t) (\<lambda>(n, r).
              if n = [] then parse_error ''empty id selector''
              else compound_loop nested (add_id n c) True (r, count))
          else if x = CHR ''['' then
            rbind (parse_attribute t) (\<lambda>(a, r). compound_loop nested (add_attr a c) True (r, count))
          else if x = CHR '':'' then
            rbind (parse_pseudo nested (t, count)) (\<lambda>(p, r, count').
              if length r < length s then compound_loop nested (add_pseudo p c) True (r, count')
              else Inl no_progress)
          else Inr ((c, consumed), s, count))"
  by pat_completeness auto
termination
  by (relation "measure (\<lambda>(nested, c, consumed, s, count). length s)")
     (auto dest: read_ident_length parse_attribute_length)

declare compound_loop.simps [simp del]

definition parse_compound :: "list_parser option \<Rightarrow> pstate \<Rightarrow> (compound \<times> pstate) result" where
  "parse_compound nested st =
     (let s = fst st; count = snd st + 1 in
      if count > 256 then parse_error ''selector exceeds 256 compounds''
      else rbind
        (if s \<noteq> [] \<and> hd s = CHR ''*'' then Inr (Compound True [] [] [] [] [], True, tl s)
         else if ident_start s then
           rbind (read_ident s) (\<lambda>(n, r). Inr (Compound False (to_lower n) [] [] [] [], True, r))
         else Inr (Compound False [] [] [] [] [], False, s))
        (\<lambda>(c, consumed, s1).
           rbind (compound_loop nested c consumed (s1, count)) (\<lambda>((c', consumed'), st').
             if \<not> consumed' then parse_error ''empty compound selector'' else Inr (c', st'))))"

definition read_combinator :: "string \<Rightarrow> (combinator \<times> string) option" where
  "read_combinator s =
     (case s of
        c # t \<Rightarrow> if c = CHR ''>'' then Some (Child, t) else if c = CHR ''+'' then Some (Adjacent, t)
                 else if c = CHR ''~'' then Some (Sibling, t) else None
      | [] \<Rightarrow> None)"

definition at_stop :: "string \<Rightarrow> bool" where
  "at_stop s \<longleftrightarrow> s = [] \<or> hd s = CHR '','' \<or> hd s = CHR '')''"

function complex_loop ::
  "list_parser option \<Rightarrow> compound list \<Rightarrow> combinator list \<Rightarrow> pstate \<Rightarrow> (complex_selector \<times> pstate) result" where
  "complex_loop nested cs ks (s, count) =
     (if at_stop s then Inr (ComplexSelector cs ks, s, count)
      else
        let s1 = skip_space s; comb = read_combinator s1 in
        if comb = None \<and> s1 = s then Inr (ComplexSelector cs ks, s1, count)
        else
          let (k, s2) = (case comb of None \<Rightarrow> (Descendant, s1) | Some p \<Rightarrow> p); s3 = skip_space s2 in
          if at_stop s3 then
            (if k \<noteq> Descendant then parse_error ''missing selector after combinator''
             else Inr (ComplexSelector cs ks, s3, count))
          else rbind (parse_compound nested (s3, count)) (\<lambda>(c, r, count').
                 if length r < length s then complex_loop nested (cs @ [c]) (ks @ [k]) (r, count')
                 else Inl no_progress))"
  by pat_completeness auto
termination
  by (relation "measure (\<lambda>(nested, cs, ks, s, count). length s)") auto

declare complex_loop.simps [simp del]

definition parse_complex :: "list_parser option \<Rightarrow> pstate \<Rightarrow> (complex_selector \<times> pstate) result" where
  "parse_complex nested st = rbind (parse_compound nested st) (\<lambda>(c, st'). complex_loop nested [c] [] st')"

function list_loop ::
  "list_parser option \<Rightarrow> complex_selector list \<Rightarrow> pstate \<Rightarrow> (complex_selector list \<times> pstate) result" where
  "list_loop nested sels (s, count) =
     (if s \<noteq> [] \<and> hd s = CHR '','' then
        rbind (parse_complex nested (skip_space (tl s), count)) (\<lambda>(sel, r, count').
          if length (skip_space r) < length s then list_loop nested (sels @ [sel]) (skip_space r, count')
          else Inl no_progress)
      else Inr (sels, s, count))"
  by pat_completeness auto
termination
  by (relation "measure (\<lambda>(nested, sels, s, count). length s)") auto

declare list_loop.simps [simp del]

definition parse_list :: "list_parser option \<Rightarrow> bool \<Rightarrow> list_parser" where
  "parse_list nested in_not st =
     rbind (parse_complex nested (skip_space (fst st), snd st)) (\<lambda>(sel, r, count).
       rbind (list_loop nested [sel] (skip_space r, count)) (\<lambda>(sels, s, count').
         if s \<noteq> [] \<and> \<not> (in_not \<and> hd s = CHR '')'')
         then parse_error (''unexpected character in selector: '' @ [hd s])
         else Inr (sels, s, count')))"

fun parse_list_at :: "nat \<Rightarrow> bool \<Rightarrow> list_parser" where
  "parse_list_at 0 in_not = parse_list None in_not"
| "parse_list_at (Suc k) in_not = parse_list (Some (parse_list_at k True)) in_not"

definition parse :: "string \<Rightarrow> complex_selector list result" where
  "parse text =
     (if length text > 65536 then parse_error ''selector exceeds 64 KiB limit''
      else rbind (parse_list_at 32 False (text, 0)) (\<lambda>(sels, st). Inr sels))"

section \<open>Failures are parse errors\<close>

definition perr :: "'a result \<Rightarrow> bool" where
  "perr r \<longleftrightarrow> (\<forall>e. r = Inl e \<longrightarrow> code e = ParseError)"

lemma perr_simps [simp]: "perr (Inr x)" "perr (Inl e) \<longleftrightarrow> code e = ParseError"
  by (simp_all add: perr_def)

lemma perr_bind [intro!]: "perr r \<Longrightarrow> (\<And>x. r = Inr x \<Longrightarrow> perr (f x)) \<Longrightarrow> perr (rbind r f)"
  by (cases r) auto

lemma perr_prod [intro!]: "(\<And>a b. x = (a, b) \<Longrightarrow> perr (f a b)) \<Longrightarrow> perr (case x of (a, b) \<Rightarrow> f a b)"
  by (cases x) simp

lemma perr_if [intro!]: "(b \<Longrightarrow> perr x) \<Longrightarrow> (\<not> b \<Longrightarrow> perr y) \<Longrightarrow> perr (if b then x else y)"
  by simp

lemma read_escape_perr [simp]: "perr (read_escape s)"
  by (auto simp: read_escape_def Let_def split: list.split prod.split)

lemma ident_loop_perr [simp]: "perr (ident_loop acc s)"
proof (induction acc s rule: ident_loop.induct)
  case (1 acc s)
  then show ?case
    by (subst ident_loop.simps) (auto split: list.split)
qed

lemma read_ident_perr [simp]: "perr (read_ident s)"
  by (simp add: read_ident_def)

lemma quoted_loop_perr [simp]: "perr (quoted_loop q acc s)"
proof (induction "length s" arbitrary: acc s rule: less_induct)
  case less
  show ?case
  proof (cases s)
    case (Cons c t)
    then have IH: "perr (quoted_loop q a u)" if "length u \<le> length t" for a u
      using less that by simp
    show ?thesis
      unfolding Cons quoted_loop.simps [of q acc "c # t"] list.case
      by (intro perr_if perr_bind perr_prod IH) (auto dest: read_escape_length)
  qed (simp add: quoted_loop.simps)
qed

lemma attr_value_of_perr [simp]: "perr (attr_value_of s)"
  by (auto simp: attr_value_of_def split: list.split)

lemma attr_operator_perr [simp]: "perr (attr_operator s)"
  by (auto simp: attr_operator_def split: list.split)

lemma attr_flag_perr [simp]: "perr (attr_flag op s)"
  by (auto simp: attr_flag_def Let_def)

lemma parse_attribute_perr [simp]: "perr (parse_attribute s)"
  unfolding parse_attribute_def Let_def
  by (intro perr_bind perr_prod perr_if) simp_all

lemma nth_integer_perr [simp]: "perr (nth_integer s)"
  by (auto simp: nth_integer_def Let_def split: option.split)

lemma nth_offset_perr [simp]: "perr (nth_offset s)"
  by (auto simp: nth_offset_def Let_def)

lemma nth_coefficients_perr [simp]: "perr (nth_coefficients s)"
  unfolding nth_coefficients_def Let_def
  by (intro perr_if) (simp_all, auto split: option.split)

lemma parse_nth_perr [simp]: "perr (parse_nth s)"
  unfolding parse_nth_def Let_def by (auto split: option.split)

section \<open>What a parsed selector looks like\<close>

fun n_pseudo :: "pseudo_class \<Rightarrow> nat" and n_compound :: "compound \<Rightarrow> nat"
  and n_complex :: "complex_selector \<Rightarrow> nat" where
  "n_pseudo (PseudoClass k a b nl) = sum_list (map n_complex nl)"
| "n_compound (Compound u t is cs as ps) = Suc (sum_list (map n_pseudo ps))"
| "n_complex (ComplexSelector cs ks) = sum_list (map n_compound cs)"

definition int32 :: "int \<Rightarrow> bool" where
  "int32 n \<longleftrightarrow> - (2 ^ 31) \<le> n \<and> n < 2 ^ 31"

definition attr_good :: "attr_selector \<Rightarrow> bool" where
  "attr_good a \<longleftrightarrow> as_name a \<noteq> [] \<and> to_lower (as_name a) = as_name a \<and>
     (as_insensitive a \<longrightarrow> to_lower (as_value a) = as_value a)"

text \<open>\<open>Q\<close> says what the argument list of a \<open>:not\<close> has to satisfy.\<close>

definition good_pseudo :: "(complex_selector list \<Rightarrow> bool) \<Rightarrow> pseudo_class \<Rightarrow> bool" where
  "good_pseudo Q p \<longleftrightarrow> int32 (nth_a p) \<and> int32 (nth_b p) \<and>
     (if pseudo_kind p = Not then Q (not_list p) else not_list p = [])"

definition good_compound :: "(complex_selector list \<Rightarrow> bool) \<Rightarrow> compound \<Rightarrow> bool" where
  "good_compound Q c \<longleftrightarrow> to_lower (tag c) = tag c \<and> [] \<notin> set (ids c) \<and> [] \<notin> set (classes c) \<and>
     list_all attr_good (attr_selectors c) \<and> list_all (good_pseudo Q) (pseudos c)"

definition good_complex :: "(complex_selector list \<Rightarrow> bool) \<Rightarrow> complex_selector \<Rightarrow> bool" where
  "good_complex Q s \<longleftrightarrow> length (compounds s) = Suc (length (combinators s)) \<and>
     list_all (good_compound Q) (compounds s)"

fun good_list :: "nat \<Rightarrow> complex_selector list \<Rightarrow> bool" where
  "good_list 0 sels \<longleftrightarrow> sels \<noteq> [] \<and> list_all (good_complex (\<lambda>_. False)) sels"
| "good_list (Suc k) sels \<longleftrightarrow> sels \<noteq> [] \<and> list_all (good_complex (good_list k)) sels"

lemma int32_simps [simp]: "int32 0" "int32 1" "int32 2" "int32 (- 1)"
  by (simp_all add: int32_def)

lemma parse_attribute_good: "parse_attribute s = Inr (a, r) \<Longrightarrow> attr_good a"
  by (auto simp: parse_attribute_def attr_good_def rbind_Inr_iff Let_def split: if_splits)

lemma nth_integer_int32: "nth_integer s = Inr n \<Longrightarrow> int32 n"
  by (auto simp: nth_integer_def from_chars_int_def int32_def Let_def split: if_splits option.splits)

lemma nth_offset_int32: "nth_offset s = Inr n \<Longrightarrow> int32 n"
  by (auto simp: nth_offset_def Let_def split: if_splits dest: nth_integer_int32)

lemma nth_coefficients_int32:
  assumes "nth_coefficients s = Inr (a, b)"
  shows "int32 a \<and> int32 b"
proof (cases "s = ''odd'' \<or> s = ''even''")
  case True
  with assms show ?thesis by (auto simp: nth_coefficients_def)
next
  case False
  show ?thesis
  proof (cases "find_char (CHR ''n'') s")
    case None
    with False assms show ?thesis
      by (auto simp: nth_coefficients_def rbind_Inr_iff dest: nth_integer_int32)
  next
    case (Some n)
    let ?a = "take n s"
    have a: "(if ?a = [] \<or> ?a = ''+'' then Inr 1 else if ?a = ''-'' then Inr (- 1) else nth_integer ?a) = Inr a"
      and b: "nth_offset (drop (n + 1) s) = Inr b"
      using False assms Some by (simp_all add: nth_coefficients_def rbind_Inr_iff Let_def del: take_eq_Nil)
    show ?thesis
      using a nth_integer_int32 [of ?a a] nth_offset_int32 [OF b]
      by (auto split: if_splits)
  qed
qed

lemma parse_nth_int32: "parse_nth s = Inr ((a, b), r) \<Longrightarrow> int32 a \<and> int32 b"
  by (auto simp: parse_nth_def rbind_Inr_iff Let_def split: if_splits option.splits
      dest: nth_coefficients_int32)

section \<open>Every stage consumes input and counts its compounds\<close>

text \<open>
  \<open>steps N R n st res\<close>: \<open>res\<close> is a parse error, or a value that satisfies \<open>R\<close>, leaves at least \<open>n\<close>
  characters less to read, and raised the compound counter by \<open>N\<close>, within the limit.
\<close>

definition steps :: "('a \<Rightarrow> nat) \<Rightarrow> ('a \<Rightarrow> bool) \<Rightarrow> nat \<Rightarrow> pstate \<Rightarrow> ('a \<times> pstate) result \<Rightarrow> bool" where
  "steps N R n st res \<longleftrightarrow>
     (case res of
        Inl e \<Rightarrow> code e = ParseError
      | Inr (x, r, count) \<Rightarrow> length r + n \<le> length (fst st) \<and> R x \<and> count = snd st + N x \<and>
          (snd st \<le> 256 \<longrightarrow> count \<le> 256))"

definition nested_ok :: "(complex_selector list \<Rightarrow> bool) \<Rightarrow> list_parser option \<Rightarrow> bool" where
  "nested_ok Q nested \<longleftrightarrow> (case nested of None \<Rightarrow> True
     | Some p \<Rightarrow> \<forall>st. steps (\<lambda>ss. sum_list (map n_complex ss)) Q 0 st (p st))"

lemma steps_perr: "perr res \<Longrightarrow> (\<And>x r count. res = Inr (x, r, count) \<Longrightarrow>
     length r + n \<le> length (fst st) \<and> R x \<and> count = snd st + N x \<and> (snd st \<le> 256 \<longrightarrow> count \<le> 256)) \<Longrightarrow>
   steps N R n st res"
  by (auto simp: steps_def perr_def split: sum.split)

lemma steps_Inr:
  "steps N R n st (Inr (x, r, count)) \<longleftrightarrow> length r + n \<le> length (fst st) \<and> R x \<and> count = snd st + N x \<and>
     (snd st \<le> 256 \<longrightarrow> count \<le> 256)"
  by (simp add: steps_def)

lemma steps_Inl: "steps N R n st (Inl e) \<longleftrightarrow> code e = ParseError"
  by (simp add: steps_def)

lemma parse_pseudo_steps:
  assumes "nested_ok Q nested"
  shows "steps n_pseudo (good_pseudo Q) 0 (s, count) (parse_pseudo nested (s, count))"
proof (cases "read_ident s")
  case (Inl e)
  then show ?thesis using read_ident_perr [of s] by (simp add: parse_pseudo_def steps_Inl)
next
  case (Inr p)
  then obtain n s1 where p: "read_ident s = Inr (n, s1)" by (cases p) auto
  note len = read_ident_length [OF p]
  let ?nm = "to_lower n"
  have simple: "k \<noteq> Not" if "map_of simple_kinds ?nm = Some k" for k
    using map_of_SomeD [OF that] by (auto simp: simple_kinds_def)
  have nth: "k \<noteq> Not" if "map_of nth_kinds ?nm = Some k" for k
    using map_of_SomeD [OF that] by (auto simp: nth_kinds_def)
  consider (a) k where "map_of simple_kinds ?nm = Some k"
    | (b) k where "map_of simple_kinds ?nm = None" "map_of nth_kinds ?nm = Some k"
    | (c) "map_of simple_kinds ?nm = None" "map_of nth_kinds ?nm = None" by fastforce
  then show ?thesis
  proof cases
    case a
    then show ?thesis
      using simple [OF a] len by (simp add: parse_pseudo_def p steps_Inr plain_pseudo_def good_pseudo_def)
  next
    case b
    show ?thesis
    proof (cases "parse_nth s1")
      case (Inl e)
      then show ?thesis using b parse_nth_perr [of s1] by (simp add: parse_pseudo_def p steps_Inl)
    next
      case (Inr q)
      then obtain x y r where q: "parse_nth s1 = Inr ((x, y), r)" by (cases q) auto
      then show ?thesis
        using b nth [OF b(2)] len parse_nth_length [OF q] parse_nth_int32 [OF q]
        by (simp add: parse_pseudo_def p steps_Inr good_pseudo_def)
    qed
  next
    case c
    show ?thesis
    proof (cases "?nm = ''not'' \<and> s1 \<noteq> [] \<and> hd s1 = CHR ''('' \<and> nested \<noteq> None")
      case False
      with c show ?thesis by (auto simp: parse_pseudo_def p steps_Inl Let_def split: option.split)
    next
      case True
      then obtain pl where pl: "nested = Some pl" by auto
      have "steps (\<lambda>ss. sum_list (map n_complex ss)) Q 0 (tl s1, count) (pl (tl s1, count))"
        using assms pl by (simp add: nested_ok_def)
      with True c pl len show ?thesis
        by (cases "pl (tl s1, count)")
           (auto simp: parse_pseudo_def p steps_Inl steps_Inr good_pseudo_def Let_def)
    qed
  qed
qed

lemma add_simps [simp]:
  "n_compound (add_class n c) = n_compound c" "n_compound (add_id n c) = n_compound c"
  "n_compound (add_attr a c) = n_compound c" "n_compound (add_pseudo p c) = n_compound c + n_pseudo p"
  by (cases c; simp add: add_class_def add_id_def add_attr_def add_pseudo_def)+

lemma good_add:
  "good_compound Q c \<Longrightarrow> n \<noteq> [] \<Longrightarrow> good_compound Q (add_class n c)"
  "good_compound Q c \<Longrightarrow> n \<noteq> [] \<Longrightarrow> good_compound Q (add_id n c)"
  "good_compound Q c \<Longrightarrow> attr_good a \<Longrightarrow> good_compound Q (add_attr a c)"
  "good_compound Q c \<Longrightarrow> good_pseudo Q p \<Longrightarrow> good_compound Q (add_pseudo p c)"
  by (simp_all add: good_compound_def add_class_def add_id_def add_attr_def add_pseudo_def)

text \<open>The compound loop, as a statement about one more round.\<close>

definition loop_ok ::
  "(complex_selector list \<Rightarrow> bool) \<Rightarrow> compound \<Rightarrow> bool \<Rightarrow> pstate \<Rightarrow> ((compound \<times> bool) \<times> pstate) result \<Rightarrow> bool" where
  "loop_ok Q c consumed st res \<longleftrightarrow>
     (case res of
        Inl e \<Rightarrow> code e = ParseError
      | Inr ((c', consumed'), r, count) \<Rightarrow> good_compound Q c' \<and> length r \<le> length (fst st) \<and>
          (consumed' \<longrightarrow> consumed \<or> length r < length (fst st)) \<and>
          count + n_compound c = snd st + n_compound c' \<and> (snd st \<le> 256 \<longrightarrow> count \<le> 256))"

lemma loop_ok_weaken:
  assumes "loop_ok Q c' True (r, count') res" and "length r < length s"
    and "count' + n_compound c = count + n_compound c'" and "count \<le> 256 \<longrightarrow> count' \<le> 256"
  shows "loop_ok Q c consumed (s, count) res"
  using assms by (auto simp: loop_ok_def split: sum.splits prod.splits)

lemma loop_ok_bind:
  assumes "perr res" and "\<And>x. res = Inr x \<Longrightarrow> loop_ok Q c consumed st (f x)"
  shows "loop_ok Q c consumed st (rbind res f)"
  using assms by (cases res) (auto simp: loop_ok_def)

lemma compound_loop_ok:
  assumes nested: "nested_ok Q nested"
  shows "good_compound Q c \<Longrightarrow> loop_ok Q c consumed (s, count) (compound_loop nested c consumed (s, count))"
proof (induction "length s" arbitrary: s c consumed count rule: less_induct)
  case less
  have stop: "loop_ok Q c consumed (s, count) (Inr ((c, consumed), s, count))"
    using less.prems by (simp add: loop_ok_def)
  show ?case
  proof (cases s)
    case Nil
    with stop show ?thesis by (simp add: compound_loop.simps)
  next
    case (Cons x t)
    have go: "loop_ok Q c consumed (s, count) (compound_loop nested c' True (r, count'))"
      if "length r < length s" "good_compound Q c'" "count' + n_compound c = count + n_compound c'"
        "count \<le> 256 \<longrightarrow> count' \<le> 256" for c' r count'
      by (rule loop_ok_weaken [OF less.hyps [OF that(1,2)] that(1,3,4)])
    have ident: "loop_ok Q c consumed (s, count) (rbind (read_ident t) (\<lambda>(n, r).
        if n = [] then parse_error msg else compound_loop nested (add n c) True (r, count)))"
      if "\<And>n. n \<noteq> [] \<Longrightarrow> good_compound Q (add n c) \<and> n_compound (add n c) = n_compound c" for add msg
    proof (rule loop_ok_bind)
      fix y assume y: "read_ident t = Inr y"
      obtain n r where nr: "y = (n, r)" by fastforce
      have "length r < length s" using read_ident_length y nr Cons by fastforce
      with that [of n] go [of r "add n c" count] nr
      show "loop_ok Q c consumed (s, count) (case y of (n, r) \<Rightarrow>
          if n = [] then parse_error msg else compound_loop nested (add n c) True (r, count))"
        by (simp add: loop_ok_def [of _ _ _ _ "Inl _"])
    qed simp
    have ps: "steps n_pseudo (good_pseudo Q) 0 (t, count) (parse_pseudo nested (t, count))"
      by (rule parse_pseudo_steps [OF nested])
    have pseudo: "loop_ok Q c consumed (s, count) (rbind (parse_pseudo nested (t, count)) (\<lambda>(p, r, count').
        if length r < length s then compound_loop nested (add_pseudo p c) True (r, count') else Inl no_progress))"
    proof (cases "parse_pseudo nested (t, count)")
      case (Inl e)
      with ps show ?thesis by (simp add: steps_Inl loop_ok_def)
    next
      case (Inr y)
      then obtain p r n where y: "parse_pseudo nested (t, count) = Inr (p, r, n)" by (cases y) auto
      then have "length r < length s" "good_pseudo Q p" "n = count + n_pseudo p" "count \<le> 256 \<longrightarrow> n \<le> 256"
        using ps Cons by (auto simp: steps_Inr)
      with go [of r "add_pseudo p c" n] good_add(4) [OF less.prems] y show ?thesis by simp
    qed
    have attr: "loop_ok Q c consumed (s, count) (rbind (parse_attribute t)
        (\<lambda>(a, r). compound_loop nested (add_attr a c) True (r, count)))"
    proof (rule loop_ok_bind)
      fix y assume y: "parse_attribute t = Inr y"
      obtain a r where ar: "y = (a, r)" by fastforce
      have "length r < length s" "attr_good a"
        using parse_attribute_length parse_attribute_good y ar Cons by fastforce+
      with go [of r "add_attr a c" count] good_add(3) [OF less.prems] ar
      show "loop_ok Q c consumed (s, count) (case y of (a, r) \<Rightarrow> compound_loop nested (add_attr a c) True (r, count))"
        by simp
    qed simp
    show ?thesis
      unfolding Cons compound_loop.simps [of nested c consumed "x # t" count] list.case
      using stop ident [of add_class] ident [of add_id] attr pseudo less.prems
      by (simp add: Cons good_add) blast
  qed
qed

lemma ident_start_ident_char: "ident_start (c # s) \<Longrightarrow> is_ident_char c"
  by (auto simp: is_ident_char_def is_alnum_def ascii_alpha_def split: if_splits)

lemma read_ident_less:
  assumes "ident_start s" and "read_ident s = Inr (v, r)"
  shows "length r < length s"
proof -
  obtain c t where s: "s = c # t" using assms(1) by (cases s) auto
  have "is_ident_char c" using ident_start_ident_char assms(1) s by blast
  with assms s show ?thesis
    by (auto simp: read_ident_def ident_loop.simps [of "[]"] rbind_Inr_iff split: if_splits
        dest!: ident_loop_length read_escape_length)
qed

lemma parse_compound_steps:
  assumes nested: "nested_ok Q nested"
  shows "steps n_compound (good_compound Q) 1 (s, count) (parse_compound nested (s, count))"
proof (cases "count + 1 > 256")
  case True
  then show ?thesis by (simp add: parse_compound_def steps_Inl)
next
  case False
  define start where "start = (if s \<noteq> [] \<and> hd s = CHR ''*'' then Inr (Compound True [] [] [] [] [], True, tl s)
    else if ident_start s then
      rbind (read_ident s) (\<lambda>(n, r). Inr (Compound False (to_lower n) [] [] [] [], True, r))
    else Inr (Compound False [] [] [] [] [], False, s) :: (compound \<times> bool \<times> string) result)"
  have eq: "parse_compound nested (s, count) = rbind start (\<lambda>(c, consumed, s1).
      rbind (compound_loop nested c consumed (s1, count + 1)) (\<lambda>((c', consumed'), st').
        if \<not> consumed' then parse_error ''empty compound selector'' else Inr (c', st')))"
    using False by (simp add: parse_compound_def start_def)
  show ?thesis
  proof (cases start)
    case (Inl e)
    have "perr start" unfolding start_def by auto
    with Inl eq show ?thesis by (simp add: steps_Inl)
  next
    case (Inr x)
    then obtain c consumed s1 where x: "start = Inr (c, consumed, s1)" by (cases x) auto
    then have c: "good_compound Q c" "n_compound c = 1" "length s1 \<le> length s" "consumed \<longrightarrow> length s1 < length s"
      by (auto simp: start_def good_compound_def rbind_Inr_iff split: if_splits
          dest: read_ident_length read_ident_less)
    note ok = compound_loop_ok [OF nested c(1), of consumed s1 "count + 1"]
    show ?thesis
    proof (cases "compound_loop nested c consumed (s1, count + 1)")
      case (Inl e)
      with ok eq x show ?thesis by (simp add: loop_ok_def steps_Inl)
    next
      case (Inr y)
      then obtain c' consumed' r n where y: "compound_loop nested c consumed (s1, count + 1) = Inr ((c', consumed'), r, n)"
        by (cases y) auto
      with ok eq x c False show ?thesis
        by (cases consumed') (auto simp: loop_ok_def steps_Inl steps_Inr)
    qed
  qed
qed

lemma read_combinator_length: "read_combinator s = Some (k, r) \<Longrightarrow> length r < length s"
  by (auto simp: read_combinator_def split: list.splits if_splits)

text \<open>The loop of \<open>parse_complex\<close>: the compounds collected so far are extended.\<close>

definition extends_ok ::
  "(complex_selector list \<Rightarrow> bool) \<Rightarrow> compound list \<Rightarrow> pstate \<Rightarrow> (complex_selector \<times> pstate) result \<Rightarrow> bool" where
  "extends_ok Q cs st res \<longleftrightarrow>
     (case res of
        Inl e \<Rightarrow> code e = ParseError
      | Inr (s, r, count) \<Rightarrow> good_complex Q s \<and> length r \<le> length (fst st) \<and>
          count + sum_list (map n_compound cs) = snd st + n_complex s \<and> (snd st \<le> 256 \<longrightarrow> count \<le> 256))"

lemma complex_loop_ok:
  assumes nested: "nested_ok Q nested"
  shows "list_all (good_compound Q) cs \<Longrightarrow> length cs = Suc (length ks) \<Longrightarrow>
    extends_ok Q cs (s, count) (complex_loop nested cs ks (s, count))"
proof (induction "length s" arbitrary: s cs ks count rule: less_induct)
  case less
  have stop: "extends_ok Q cs (s, count) (Inr (ComplexSelector cs ks, r, count))" if "length r \<le> length s" for r
    using less.prems that by (simp add: extends_ok_def good_complex_def)
  define s1 where "s1 = skip_space s"
  define ks2 where "ks2 = (case read_combinator s1 of None \<Rightarrow> (Descendant, s1) | Some p \<Rightarrow> p)"
  define s3 where "s3 = skip_space (snd ks2)"
  have l1: "length s1 \<le> length s" by (simp add: s1_def length_dropWhile_le)
  have l2: "length (snd ks2) \<le> length s1"
    using read_combinator_length [of s1] by (cases "read_combinator s1") (force simp: ks2_def)+
  have l3: "length s3 \<le> length s"
    using l1 l2 length_dropWhile_le [of is_space "snd ks2"] by (simp add: s3_def)
  have unf: "complex_loop nested cs ks (s, count) =
     (if at_stop s then Inr (ComplexSelector cs ks, s, count)
      else if read_combinator s1 = None \<and> s1 = s then Inr (ComplexSelector cs ks, s1, count)
      else if at_stop s3 then
        (if fst ks2 \<noteq> Descendant then parse_error ''missing selector after combinator''
         else Inr (ComplexSelector cs ks, s3, count))
      else rbind (parse_compound nested (s3, count)) (\<lambda>(c, r, count').
             if length r < length s then complex_loop nested (cs @ [c]) (ks @ [fst ks2]) (r, count')
             else Inl no_progress))"
    by (simp only: complex_loop.simps [of nested cs ks s count] Let_def s1_def ks2_def s3_def case_prod_beta)
  have go: "extends_ok Q cs (s, count) (rbind (parse_compound nested (s3, count)) (\<lambda>(c, r, count').
      if length r < length s then complex_loop nested (cs @ [c]) (ks @ [fst ks2]) (r, count') else Inl no_progress))"
  proof (cases "parse_compound nested (s3, count)")
    case (Inl e)
    with parse_compound_steps [OF nested, of s3 count] show ?thesis by (simp add: steps_Inl extends_ok_def)
  next
    case (Inr y)
    then obtain c r n where y: "parse_compound nested (s3, count) = Inr (c, r, n)" by (cases y) auto
    then have c: "length r < length s" "good_compound Q c" "n = count + n_compound c" "count \<le> 256 \<longrightarrow> n \<le> 256"
      using parse_compound_steps [OF nested, of s3 count] l3 by (auto simp: steps_Inr)
    have "extends_ok Q (cs @ [c]) (r, n) (complex_loop nested (cs @ [c]) (ks @ [fst ks2]) (r, n))"
      by (rule less.hyps [OF c(1)]) (use less.prems c in auto)
    with c y show ?thesis by (auto simp: extends_ok_def split: sum.splits)
  qed
  show ?case
    unfolding unf using stop [of s] stop [OF l1] stop [OF l3] go by (simp add: extends_ok_def)
qed

lemma parse_complex_steps:
  assumes nested: "nested_ok Q nested"
  shows "steps n_complex (good_complex Q) 1 (s, count) (parse_complex nested (s, count))"
proof (cases "parse_compound nested (s, count)")
  case (Inl e)
  with parse_compound_steps [OF nested, of s count] show ?thesis by (simp add: steps_Inl parse_complex_def)
next
  case (Inr y)
  then obtain c r n where y: "parse_compound nested (s, count) = Inr (c, r, n)" by (cases y) auto
  then have c: "length r < length s" "good_compound Q c" "n = count + n_compound c" "count \<le> 256 \<longrightarrow> n \<le> 256"
    using parse_compound_steps [OF nested, of s count] by (auto simp: steps_Inr)
  have "extends_ok Q [c] (r, n) (complex_loop nested [c] [] (r, n))"
    by (rule complex_loop_ok [OF nested]) (use c in auto)
  with c y show ?thesis
    by (auto simp: extends_ok_def steps_def parse_complex_def split: sum.splits)
qed

abbreviation n_list :: "complex_selector list \<Rightarrow> nat" where
  "n_list ss \<equiv> sum_list (map n_complex ss)"

lemma list_loop_ok:
  assumes nested: "nested_ok Q nested"
  shows "sels \<noteq> [] \<Longrightarrow> list_all (good_complex Q) sels \<Longrightarrow>
    (case list_loop nested sels (s, count) of
       Inl e \<Rightarrow> code e = ParseError
     | Inr (sels', r, count') \<Rightarrow> sels' \<noteq> [] \<and> list_all (good_complex Q) sels' \<and> length r \<le> length s \<and>
         count' + n_list sels = count + n_list sels' \<and> (count \<le> 256 \<longrightarrow> count' \<le> 256))"
proof (induction "length s" arbitrary: s sels count rule: less_induct)
  case less
  show ?case
  proof (cases "s \<noteq> [] \<and> hd s = CHR '',''")
    case False
    with less.prems show ?thesis by (auto simp: list_loop.simps)
  next
    case True
    let ?p = "parse_complex nested (skip_space (tl s), count)"
    have len: "length (skip_space (tl s)) < length s"
      using True length_dropWhile_le [of is_space "tl s"] by (cases s) auto
    note st = parse_complex_steps [OF nested, of "skip_space (tl s)" count]
    show ?thesis
    proof (cases ?p)
      case (Inl e)
      with st True show ?thesis by (simp add: steps_Inl list_loop.simps)
    next
      case (Inr y)
      then obtain c r n where y: "?p = Inr (c, r, n)" by (cases y) auto
      then have c: "length r < length s" "good_complex Q c" "n = count + n_complex c" "count \<le> 256 \<longrightarrow> n \<le> 256"
        using st len by (auto simp: steps_Inr)
      then have lt: "length (skip_space r) < length s" using length_dropWhile_le [of is_space r] by simp
      have "list_loop nested sels (s, count) = list_loop nested (sels @ [c]) (skip_space r, n)"
        using True y lt by (subst list_loop.simps) simp
      with less.hyps [OF lt, of "sels @ [c]" n] less.prems c lt show ?thesis
        by (auto split: sum.splits)
    qed
  qed
qed

lemma parse_list_steps:
  assumes nested: "nested_ok Q nested"
  shows "steps n_list (\<lambda>ss. ss \<noteq> [] \<and> list_all (good_complex Q) ss) 0 st (parse_list nested in_not st)"
proof -
  obtain s count where st: "st = (s, count)" by fastforce
  let ?p = "parse_complex nested (skip_space s, count)"
  note ps = parse_complex_steps [OF nested, of "skip_space s" count]
  show ?thesis
  proof (cases ?p)
    case (Inl e)
    with ps show ?thesis by (simp add: st parse_list_def steps_Inl)
  next
    case (Inr y)
    then obtain c r n where y: "?p = Inr (c, r, n)" by (cases y) auto
    then have c: "length r < length s" "good_complex Q c" "n = count + n_complex c" "count \<le> 256 \<longrightarrow> n \<le> 256"
      using ps length_dropWhile_le [of is_space s] by (auto simp: steps_Inr)
    have len: "length (skip_space r) < length s" using c(1) length_dropWhile_le [of is_space r] by simp
    with list_loop_ok [OF nested, of "[c]" "skip_space r" n] c y show ?thesis
      by (cases "list_loop nested [c] (skip_space r, n)") (auto simp: st parse_list_def steps_Inl steps_Inr)
  qed
qed

lemma parse_list_at_steps: "steps n_list (good_list k) 0 st (parse_list_at k in_not st)"
proof (induction k arbitrary: st in_not)
  case 0
  have "nested_ok (\<lambda>_. False) None" by (simp add: nested_ok_def)
  from parse_list_steps [OF this, of st in_not] show ?case by (simp add: steps_def)
next
  case (Suc k)
  then have "nested_ok (good_list k) (Some (parse_list_at k True))" by (simp add: nested_ok_def)
  from parse_list_steps [OF this, of st in_not] show ?case by (simp add: steps_def)
qed

lemma good_complex_ok: "good_list k sels \<Longrightarrow> list_all complex_ok sels"
proof (induction k arbitrary: sels)
  case 0
  have pseudo: "pseudo_ok p" if "good_pseudo (\<lambda>_. False) p" for p
    using that by (cases p) (auto simp: good_pseudo_def split: if_splits)
  have "compound_ok c" if "good_compound (\<lambda>_. False) c" for c
    using that pseudo by (cases c) (auto simp: good_compound_def list_all_iff)
  then have "complex_ok s" if "good_complex (\<lambda>_. False) s" for s
    using that by (cases s) (auto simp: good_complex_def list_all_iff)
  with 0 show ?case by (auto simp: list_all_iff)
next
  case (Suc k)
  have pseudo: "pseudo_ok p" if "good_pseudo (good_list k) p" for p
    using that Suc.IH by (cases p) (auto simp: good_pseudo_def list_all_iff split: if_splits)
  have "compound_ok c" if "good_compound (good_list k) c" for c
    using that pseudo by (cases c) (auto simp: good_compound_def list_all_iff)
  then have "complex_ok s" if "good_complex (good_list k) s" for s
    using that by (cases s) (auto simp: good_complex_def list_all_iff)
  with Suc show ?case by (auto simp: list_all_iff)
qed

lemma parse_result:
  "case parse text of
     Inl e \<Rightarrow> code e = ParseError
   | Inr sels \<Rightarrow> good_list 32 sels \<and> n_list sels \<le> 256"
  using parse_list_at_steps [of 32 "(text, 0)" False]
  by (auto simp: parse_def steps_def simp del: good_list.simps split: sum.splits)

lemma parse_complex_ok: "parse text = Inr sels \<Longrightarrow> list_all complex_ok sels"
  using parse_result [of "text"] good_complex_ok [of 32 sels] by simp

text \<open>
  C9: the selector parser always returns; it fails with a parse error only, and what it accepts
  is non-empty, has one combinator fewer than compounds in every complex selector, contains at
  most 256 compounds in total with negations nested at most 32 deep, and its identifiers, attribute
  names and nth coefficients are what the matcher relies on (no empty class or id, lower-case tag
  and attribute names, coefficients that fit an int).
\<close>

theorem selector_parse_result:
  "case parse text of
     Inl e \<Rightarrow> code e = ParseError
   | Inr sels \<Rightarrow> good_list 32 sels \<and> list_all complex_ok sels \<and> sum_list (map n_complex sels) \<le> 256"
  using parse_result [of "text"] good_complex_ok [of 32] by (auto split: sum.splits)

end
