(* ===== verification/Css_Selector.thy ===== *)
theory Css_Selector
  imports Selector_Matcher Selector_Parser
begin

text \<open>
  \<^verbatim>\<open>css_selector.cpp\<close>: selector queries.  \<open>collect\<close> walks the tree with an explicit stack of pending
  nodes (its top first) and stops early when only the first hit is wanted.  Following children in
  an ill-formed store need not end, which is the value \<open>None\<close>; in a well-formed store it always
  does, and the hits come in document order.
\<close>

definition selector_matches :: "dom \<Rightarrow> complex_selector list \<Rightarrow> nat \<Rightarrow> bool result" where
  "selector_matches d sels i = matches d i sels"

partial_function (option) collect_loop ::
  "dom \<Rightarrow> (nat \<Rightarrow> bool result) \<Rightarrow> nat \<Rightarrow> bool \<Rightarrow> bool \<Rightarrow> nat list \<Rightarrow> nat list \<Rightarrow> nat list result option" where
  "collect_loop d m root first_only include_root pending result =
     (case pending of
        [] \<Rightarrow> Some (Inr result)
      | n # rest \<Rightarrow>
          (case (if include_root \<or> n \<noteq> root then m n else Inr False) of
             Inl e \<Rightarrow> Some (Inl e)
           | Inr hit \<Rightarrow>
               if hit \<and> first_only then Some (Inr (result @ [n]))
               else collect_loop d m root first_only include_root (children (node_at d n) @ rest)
                      (if hit then result @ [n] else result)))"

declare collect_loop.simps [code]

definition collect :: "dom \<Rightarrow> nat \<Rightarrow> complex_selector list \<Rightarrow> bool \<Rightarrow> bool \<Rightarrow> nat list result option" where
  "collect d root sels first_only include_root =
     collect_loop d (selector_matches d sels) root first_only include_root [root] []"

definition query_selector_all :: "dom \<Rightarrow> nat \<Rightarrow> string \<Rightarrow> bool \<Rightarrow> nat list result option" where
  "query_selector_all d root txt include_root =
     (case parse txt of
        Inl e \<Rightarrow> Some (Inl e)
      | Inr sels \<Rightarrow> collect d root sels False include_root)"

definition query_selector :: "dom \<Rightarrow> nat \<Rightarrow> string \<Rightarrow> bool \<Rightarrow> nat option result option" where
  "query_selector d root txt include_root =
     (case parse txt of
        Inl e \<Rightarrow> Some (Inl e)
      | Inr sels \<Rightarrow>
          map_option (map_sum id (\<lambda>r. if r = [] then None else Some (hd r)))
            (collect d root sels True include_root))"

definition element_matches :: "dom \<Rightarrow> nat \<Rightarrow> string \<Rightarrow> bool result" where
  "element_matches d i txt = rbind (parse txt) (\<lambda>sels. selector_matches d sels i)"

section \<open>The walk visits the nodes in document order\<close>

text \<open>The hits among a list of nodes, and the first failure of the matcher if there is one.\<close>

fun scan :: "(nat \<Rightarrow> bool result) \<Rightarrow> bool \<Rightarrow> nat list \<Rightarrow> nat list \<Rightarrow> nat list result" where
  "scan m first_only result [] = Inr result"
| "scan m first_only result (n # ns) =
     rbind (m n) (\<lambda>hit. if hit \<and> first_only then Inr (result @ [n])
                        else scan m first_only (if hit then result @ [n] else result) ns)"

lemma collect_loop_step:
  assumes "m' = (\<lambda>n. if include_root \<or> n \<noteq> root then m n else Inr False)"
  shows "collect_loop d m root first_only include_root (n # rest) result =
     (case m' n of
        Inl e \<Rightarrow> Some (Inl e)
      | Inr hit \<Rightarrow>
          if hit \<and> first_only then Some (Inr (result @ [n]))
          else collect_loop d m root first_only include_root (children (node_at d n) @ rest)
                 (if hit then result @ [n] else result))"
  unfolding assms by (subst collect_loop.simps) (simp only: list.case)

lemma scan_collect:
  assumes m': "m' = (\<lambda>n. if include_root \<or> n \<noteq> root then m n else Inr False)"
  shows "\<forall>t\<in>set ts. links d t \<Longrightarrow>
   collect_loop d m root first_only include_root (map iroot ts) result =
   Some (scan m' first_only result (concat (map preorder ts)))"
proof (induction "size_list size ts" arbitrary: ts result rule: less_induct)
  case less
  show ?case
  proof (cases ts)
    case Nil
    then show ?thesis by (subst collect_loop.simps) simp
  next
    case (Cons t us)
    obtain n ks where t: "t = INode n ks" by (cases t)
    have kids: "map iroot ks = children (node_at d n)" "\<forall>t\<in>set ks. links d t"
      using less.prems Cons t by simp_all
    have "size_list size (ks @ us) < size_list size ts" using Cons t by simp
    moreover have "\<forall>t\<in>set (ks @ us). links d t" using kids less.prems Cons by auto
    ultimately have "collect_loop d m root first_only include_root (children (node_at d n) @ map iroot us) r =
       Some (scan m' first_only r (concat (map preorder ks) @ concat (map preorder us)))" for r
      using less.hyps [of "ks @ us" r] kids(1) by simp
    then show ?thesis
      by (simp add: Cons t collect_loop_step [OF m'] split: sum.split)
  qed
qed

lemma collect_preorder:
  assumes "dom_wf d" and "root < size_dom d"
  shows "\<exists>t. itree_at d root = Some t \<and> links d t \<and> iroot t = root \<and>
    collect d root sels first_only include_root =
    Some (scan (\<lambda>n. if include_root \<or> n \<noteq> root then selector_matches d sels n else Inr False)
      first_only [] (preorder t))"
proof -
  obtain t where t: "itree_at d root = Some t" "iroot t = root" "links d t"
    using itree_at_total [OF assms] by blast
  with scan_collect [OF refl, of "[t]" d] show ?thesis by (intro exI [of _ t]) (simp add: collect_def)
qed

lemma scan_no_error:
  "(\<And>n. n \<in> set ns \<Longrightarrow> m n = Inr (P n)) \<Longrightarrow>
   scan m first_only result ns = Inr (result @ (if first_only then take 1 (filter P ns) else filter P ns))"
  by (induction ns arbitrary: result) auto

lemma scan_errors:
  "(\<And>n. n \<in> set ns \<Longrightarrow> m n = Inr (P n) \<or> m n = Inl e) \<Longrightarrow>
   scan m first_only result ns = Inl e \<or>
   scan m first_only result ns = Inr (result @ (if first_only then take 1 (filter P ns) else filter P ns))"
proof (induction ns arbitrary: result)
  case (Cons n ns)
  have IH: "scan m first_only r ns = Inl e \<or>
     scan m first_only r ns = Inr (r @ (if first_only then take 1 (filter P ns) else filter P ns))" for r
    using Cons by simp
  from Cons.prems [of n] show ?case
    using IH [of result] IH [of "result @ [n]"] by auto
qed simp

text \<open>The nodes a query can return: the descendants of the root in document order.\<close>

definition in_document_order :: "dom \<Rightarrow> nat \<Rightarrow> nat list \<Rightarrow> bool" where
  "in_document_order d root ns \<longleftrightarrow> distinct ns \<and> set ns = {j. (root, j) \<in> (parent_rel d)\<^sup>*} \<and>
     (\<exists>t. itree_at d root = Some t \<and> ns = preorder t)"

definition hits :: "dom \<Rightarrow> nat \<Rightarrow> complex_selector list \<Rightarrow> bool \<Rightarrow> nat list \<Rightarrow> nat list" where
  "hits d root sels include_root ns =
     filter (\<lambda>n. (include_root \<or> n \<noteq> root) \<and> selects d sels n) ns"

lemma collect_hits:
  assumes wf: "dom_wf d" and root: "root < size_dom d" and ok: "list_all complex_ok sels"
  shows "\<exists>ns. in_document_order d root ns \<and>
    (collect d root sels first_only include_root = Some (Inl budget_error) \<or>
     collect d root sels first_only include_root =
       Some (Inr (if first_only then take 1 (hits d root sels include_root ns) else hits d root sels include_root ns)))"
proof -
  obtain t where t: "itree_at d root = Some t" "links d t" "iroot t = root"
    and eq: "collect d root sels first_only include_root =
      Some (scan (\<lambda>n. if include_root \<or> n \<noteq> root then selector_matches d sels n else Inr False)
        first_only [] (preorder t))"
    using collect_preorder [OF wf root] by blast
  let ?P = "\<lambda>n. (include_root \<or> n \<noteq> root) \<and> selects d sels n"
  have desc: "set (preorder t) = {j. (root, j) \<in> (parent_rel d)\<^sup>*}"
    using preorder_descendants [OF wf t(2)] t(3) by simp
  have bound: "n < size_dom d" if "n \<in> set (preorder t)" for n
    using that desc root by (auto simp: parent_rel_def elim: rtranclE)
  have "(if include_root \<or> n \<noteq> root then selector_matches d sels n else Inr False) = Inr (?P n) \<or>
      (if include_root \<or> n \<noteq> root then selector_matches d sels n else Inr False) = Inl budget_error"
    if "n \<in> set (preorder t)" for n
    using matches_cases [OF wf bound [OF that] ok] by (auto simp: selector_matches_def)
  from scan_errors [of "preorder t" _ ?P budget_error first_only "[]", OF this]
  have "collect d root sels first_only include_root = Some (Inl budget_error) \<or>
      collect d root sels first_only include_root = Some (Inr (if first_only
        then take 1 (hits d root sels include_root (preorder t)) else hits d root sels include_root (preorder t)))"
    unfolding eq hits_def by simp
  moreover have "in_document_order d root (preorder t)"
    using preorder_distinct [OF wf t(2)] desc t(1) by (simp add: in_document_order_def)
  ultimately show ?thesis by blast
qed

text \<open>
  C8: on a well-formed store every selector query returns.  It reports the parser's error for a
  malformed selector and otherwise either the exhausted matching budget or exactly the selected
  nodes below the root: each once, in document order, the first of them for \<open>query_selector\<close>, with
  the root itself taken into account only when asked for.
\<close>

theorem query_selector_correct:
  assumes "dom_wf d" and "root < size_dom d"
  shows "\<exists>ns. distinct ns \<and> set ns = {j. (root, j) \<in> (parent_rel d)\<^sup>*} \<and>
    (\<exists>t. itree_at d root = Some t \<and> ns = preorder t) \<and>
    (case parse txt of
       Inl e \<Rightarrow> query_selector_all d root txt include_root = Some (Inl e) \<and>
                query_selector d root txt include_root = Some (Inl e)
     | Inr sels \<Rightarrow>
         (query_selector_all d root txt include_root = Some (Inl budget_error) \<or>
          query_selector_all d root txt include_root = Some (Inr (hits d root sels include_root ns))) \<and>
         (query_selector d root txt include_root = Some (Inl budget_error) \<or>
          query_selector d root txt include_root =
            Some (Inr (find (\<lambda>n. (include_root \<or> n \<noteq> root) \<and> selects d sels n) ns))))"
proof (cases "parse txt")
  case (Inl e)
  obtain t where "itree_at d root = Some t" "iroot t = root" "links d t"
    using itree_at_total [OF assms] by blast
  with preorder_distinct [OF assms(1)] preorder_descendants [OF assms(1)] Inl show ?thesis
    by (intro exI [of _ "preorder t"]) (auto simp: query_selector_all_def query_selector_def)
next
  case (Inr sels)
  have ok: "list_all complex_ok sels" by (rule parse_complex_ok [OF Inr])
  obtain ns where ns: "in_document_order d root ns"
    and all: "collect d root sels False include_root = Some (Inl budget_error) \<or>
      collect d root sels False include_root = Some (Inr (hits d root sels include_root ns))"
    using collect_hits [OF assms ok, of False include_root] by auto
  obtain ns' where ns': "in_document_order d root ns'"
    and one: "collect d root sels True include_root = Some (Inl budget_error) \<or>
      collect d root sels True include_root = Some (Inr (take 1 (hits d root sels include_root ns')))"
    using collect_hits [OF assms ok, of True include_root] by auto
  have same: "ns' = ns" using ns ns' by (auto simp: in_document_order_def)
  have "(if filter P xs = [] then None else Some (hd (take (Suc 0) (filter P xs)))) = find P xs" for P and xs :: "nat list"
    by (induction xs) auto
  then show ?thesis
    using ns all one Inr same
    by (intro exI [of _ ns]) (auto simp: in_document_order_def query_selector_all_def query_selector_def hits_def)
qed

lemma parse_universal: "parse ''*'' = Inr [ComplexSelector [Compound True [] [] [] [] []] []]"
proof -
  have "parse_list_at (Suc k) False (''*'', 0) = Inr ([ComplexSelector [Compound True [] [] [] [] []] []], [], 1)" for k
    by (simp add: parse_list_def parse_complex_def parse_compound_def is_space_def
        compound_loop.simps complex_loop.simps list_loop.simps at_stop_def)
  from this [of 31] show ?thesis by (simp add: parse_def)
qed

theorem query_selector_correct_witness:
  "\<exists>ns. distinct ns \<and> set ns = {j. (0, j) \<in> (parent_rel sample_dom)\<^sup>*} \<and>
    (query_selector_all sample_dom 0 ''*'' True = Some (Inl budget_error) \<or>
     query_selector_all sample_dom 0 ''*'' True =
       Some (Inr (hits sample_dom 0 [ComplexSelector [Compound True [] [] [] [] []] []] True ns)))"
proof -
  have "0 < size_dom sample_dom" by (simp add: sample_dom_def)
  from query_selector_correct [OF sample_dom_wf this, of "''*''" True] show ?thesis
    unfolding parse_universal sum.case by blast
qed

end
