(* ===== verification/Dom_Element.thy ===== *)
theory Dom_Element
  imports Css_Selector Html_Serializer
begin

text \<open>
  The \<open>Element\<close> class of \<^verbatim>\<open>dom.cpp\<close>: handles on nodes.  An \<open>Element\<close> holds a shared pointer that may be
  null, so a handle is a node address or \<open>None\<close>, and every operation starts with the null check of
  the source.  Operations that walk the tree return no value where following the links need not
  end; on a well-formed store they all return (\<open>exec_total\<close>).
\<close>

type_synonym handle = "nat option"

section \<open>Interactability\<close>

definition is_blank :: "char \<Rightarrow> bool" where
  "is_blank c \<longleftrightarrow> c = CHR '' '' \<or> c = CHR 0x09"

definition declares :: "string \<Rightarrow> string \<Rightarrow> bool" where
  "declares value after =
     (case dropWhile is_blank after of
        [] \<Rightarrow> False
      | c # rest \<Rightarrow> c = CHR '':'' \<and> take (length value) rest = value)"

partial_function (option) declaration_hides :: "string \<Rightarrow> string \<Rightarrow> string \<Rightarrow> nat \<Rightarrow> bool option" where
  "declaration_hides folded property value pos =
     (case find_from property folded pos of
        None \<Rightarrow> Some False
      | Some p \<Rightarrow>
          if p \<noteq> 0 \<and> folded ! (p - 1) \<noteq> CHR '';'' \<and> folded ! (p - 1) \<noteq> CHR '' '' \<and> folded ! (p - 1) \<noteq> CHR 0x09
          then declaration_hides folded property value (p + 1)
          else if declares value (drop (p + length property) folded) then Some True
          else declaration_hides folded property value (p + length property))"

declare declaration_hides.simps [code]

definition style_hides :: "string \<Rightarrow> bool option" where
  "style_hides style =
     (let folded = to_lower style in
      Option.bind (declaration_hides folded ''display'' ''none'' 0)
        (\<lambda>h. if h then Some True else declaration_hides folded ''visibility'' ''hidden'' 0))"

text \<open>The checks the loop makes on one node; \<open>True\<close> makes the element non-interactable.\<close>

definition node_blocks :: "node \<Rightarrow> bool option" where
  "node_blocks n =
     (if attribute_of n ''hidden'' \<noteq> None \<or> attribute_of n ''disabled'' \<noteq> None then Some True
      else if attribute_of n ''aria-disabled'' = Some ''true'' then Some True
      else case attribute_of n ''style'' of None \<Rightarrow> Some False | Some style \<Rightarrow> style_hides style)"

partial_function (option) node_interactable :: "dom \<Rightarrow> handle \<Rightarrow> bool option" where
  "node_interactable d current =
     (case current of
        None \<Rightarrow> Some True
      | Some i \<Rightarrow>
          if \<not> is_element (node_at d i) then Some True
          else Option.bind (node_blocks (node_at d i))
                 (\<lambda>b. if b then Some False else node_interactable d (parent (node_at d i))))"

declare node_interactable.simps [code]

section \<open>Reading an element\<close>

definition tag_name :: "dom \<Rightarrow> handle \<Rightarrow> string" where
  "tag_name d h = (case h of None \<Rightarrow> [] | Some i \<Rightarrow> nname (node_at d i))"

definition has_attribute :: "dom \<Rightarrow> handle \<Rightarrow> string \<Rightarrow> bool" where
  "has_attribute d h nm = (case h of None \<Rightarrow> False | Some i \<Rightarrow> attribute_of (node_at d i) nm \<noteq> None)"

definition value_or_empty :: "string option \<Rightarrow> string" where
  "value_or_empty v = (case v of None \<Rightarrow> [] | Some s \<Rightarrow> s)"

definition element_attribute :: "dom \<Rightarrow> handle \<Rightarrow> string \<Rightarrow> string" where
  "element_attribute d h nm = (case h of None \<Rightarrow> [] | Some i \<Rightarrow> value_or_empty (attribute_of (node_at d i) nm))"

definition element_id :: "dom \<Rightarrow> handle \<Rightarrow> string" where
  "element_id d h = element_attribute d h ''id''"

definition class_name :: "dom \<Rightarrow> handle \<Rightarrow> string" where
  "class_name d h = element_attribute d h ''class''"

definition element_attributes :: "dom \<Rightarrow> handle \<Rightarrow> (string \<times> string) list" where
  "element_attributes d h =
     (case h of None \<Rightarrow> [] | Some i \<Rightarrow> map (\<lambda>a. (attr_name a, attr_value a)) (attributes (node_at d i)))"

definition element_text :: "dom \<Rightarrow> handle \<Rightarrow> string option" where
  "element_text d h = (case h of None \<Rightarrow> Some [] | Some i \<Rightarrow> text_content d i)"

definition inner_html :: "dom \<Rightarrow> handle \<Rightarrow> string option" where
  "inner_html d h =
     (case h of None \<Rightarrow> Some []
      | Some i \<Rightarrow> map_option concat (those (map (serialize d) (children (node_at d i)))))"

definition outer_html :: "dom \<Rightarrow> handle \<Rightarrow> string option" where
  "outer_html d h = (case h of None \<Rightarrow> Some [] | Some i \<Rightarrow> serialize d i)"

section \<open>Navigation\<close>

definition element_parent :: "dom \<Rightarrow> handle \<Rightarrow> handle" where
  "element_parent d h =
     (case h of None \<Rightarrow> None
      | Some i \<Rightarrow> (case parent (node_at d i) of
            None \<Rightarrow> None
          | Some p \<Rightarrow> if is_element (node_at d p) then Some p else None))"

definition element_children :: "dom \<Rightarrow> handle \<Rightarrow> nat list" where
  "element_children d h =
     (case h of None \<Rightarrow> [] | Some i \<Rightarrow> filter (\<lambda>c. is_element (node_at d c)) (children (node_at d i)))"

definition first_child :: "dom \<Rightarrow> handle \<Rightarrow> handle" where
  "first_child d h =
     (case h of None \<Rightarrow> None | Some i \<Rightarrow> find (\<lambda>c. is_element (node_at d c)) (children (node_at d i)))"

fun next_loop :: "dom \<Rightarrow> nat \<Rightarrow> bool \<Rightarrow> nat list \<Rightarrow> handle" where
  "next_loop d i found [] = None"
| "next_loop d i found (s # ss) =
     (if found \<and> is_element (node_at d s) then Some s else next_loop d i (if s = i then True else found) ss)"

definition next_sibling :: "dom \<Rightarrow> handle \<Rightarrow> handle" where
  "next_sibling d h =
     (case h of None \<Rightarrow> None
      | Some i \<Rightarrow> (case parent (node_at d i) of
            None \<Rightarrow> None
          | Some p \<Rightarrow> next_loop d i False (children (node_at d p))))"

fun previous_loop :: "dom \<Rightarrow> nat \<Rightarrow> handle \<Rightarrow> nat list \<Rightarrow> handle" where
  "previous_loop d i previous [] = previous"
| "previous_loop d i previous (s # ss) =
     (if s = i then previous
      else previous_loop d i (if is_element (node_at d s) then Some s else previous) ss)"

definition previous_sibling :: "dom \<Rightarrow> handle \<Rightarrow> handle" where
  "previous_sibling d h =
     (case h of None \<Rightarrow> None
      | Some i \<Rightarrow> (case parent (node_at d i) of
            None \<Rightarrow> None
          | Some p \<Rightarrow> previous_loop d i None (children (node_at d p))))"

section \<open>Selectors and form values\<close>

definition element_query_selector :: "dom \<Rightarrow> handle \<Rightarrow> string \<Rightarrow> handle result option" where
  "element_query_selector d h sel =
     (case h of None \<Rightarrow> Some (Inr None) | Some i \<Rightarrow> query_selector d i sel False)"

definition element_query_selector_all :: "dom \<Rightarrow> handle \<Rightarrow> string \<Rightarrow> nat list result option" where
  "element_query_selector_all d h sel =
     (case h of None \<Rightarrow> Some (Inr []) | Some i \<Rightarrow> query_selector_all d i sel False)"

definition element_matches_selector :: "dom \<Rightarrow> handle \<Rightarrow> string \<Rightarrow> bool result" where
  "element_matches_selector d h sel = (case h of None \<Rightarrow> Inr False | Some i \<Rightarrow> element_matches d i sel)"

definition option_value :: "dom \<Rightarrow> nat \<Rightarrow> string option" where
  "option_value d i = (case attribute_of (node_at d i) ''value'' of Some v \<Rightarrow> Some v | None \<Rightarrow> text_content d i)"

definition obind :: "'a result option \<Rightarrow> ('a \<Rightarrow> 'b result option) \<Rightarrow> 'b result option" where
  "obind r f = (case r of None \<Rightarrow> None | Some (Inl e) \<Rightarrow> Some (Inl e) | Some (Inr x) \<Rightarrow> f x)"

definition element_value :: "dom \<Rightarrow> handle \<Rightarrow> string result option" where
  "element_value d h =
     (case h of None \<Rightarrow> Some (Inr [])
      | Some i \<Rightarrow>
          if nname (node_at d i) = ''textarea'' then map_option Inr (text_content d i)
          else if nname (node_at d i) = ''select'' then
            obind (query_selector_all d i ''option'' True) (\<lambda>opts.
              case find (\<lambda>j. attribute_of (node_at d j) ''selected'' \<noteq> None) opts of
                Some j \<Rightarrow> map_option Inr (option_value d j)
              | None \<Rightarrow> obind (query_selector d i ''option'' True) (\<lambda>opt.
                  case opt of Some j \<Rightarrow> map_option Inr (option_value d j) | None \<Rightarrow> Some (Inr [])))
          else Some (Inr (value_or_empty (attribute_of (node_at d i) ''value''))))"

section \<open>Changing an element\<close>

definition element_set_attribute :: "handle \<Rightarrow> string \<Rightarrow> string \<Rightarrow> dom \<Rightarrow> dom option" where
  "element_set_attribute h nm v d = (case h of None \<Rightarrow> Some d | Some i \<Rightarrow> set_attribute i nm v d)"

definition element_remove_attribute :: "handle \<Rightarrow> string \<Rightarrow> dom \<Rightarrow> (bool \<times> dom) option" where
  "element_remove_attribute h nm d = (case h of None \<Rightarrow> Some (False, d) | Some i \<Rightarrow> remove_attribute i nm d)"

definition element_append_child :: "handle \<Rightarrow> handle \<Rightarrow> dom \<Rightarrow> dom option" where
  "element_append_child h child d =
     (case h of None \<Rightarrow> Some d | Some i \<Rightarrow> if child = None then Some d else append_child i child d)"

definition element_remove_child :: "handle \<Rightarrow> handle \<Rightarrow> dom \<Rightarrow> (bool \<times> dom) option" where
  "element_remove_child h child d =
     (case h of None \<Rightarrow> Some (False, d)
      | Some i \<Rightarrow> if child = None then Some (False, d) else remove_child i child d)"

definition reset_parents :: "nat list \<Rightarrow> dom \<Rightarrow> dom" where
  "reset_parents cs d = fold (\<lambda>c. update_node c (\<lambda>n. n\<lparr>parent := None\<rparr>)) cs d"

definition set_text :: "handle \<Rightarrow> string \<Rightarrow> dom \<Rightarrow> dom option" where
  "set_text h v d =
     (case h of None \<Rightarrow> Some d
      | Some i \<Rightarrow>
          let d1 = reset_parents (children (node_at d i)) d;
              d2 = update_node i (\<lambda>n. n\<lparr>children := []\<rparr>) d1;
              (t, d3) = make_node Text d2;
              d4 = update_node t (\<lambda>n. n\<lparr>ntext := v\<rparr>) d3;
              d5 = update_node t (\<lambda>n. n\<lparr>parent := Some i\<rparr>) d4;
              d6 = update_node i (\<lambda>n. n\<lparr>children := children n @ [t]\<rparr>) d5
          in report_mutation i \<lparr>mi_kind = ''text-set'', mi_node_name = nname (node_at d i),
               mi_attribute_name = [], mi_value = v\<rparr> d6)"

definition set_value :: "handle \<Rightarrow> string \<Rightarrow> dom \<Rightarrow> dom option" where
  "set_value h v d =
     (case h of None \<Rightarrow> Some d
      | Some i \<Rightarrow> if nname (node_at d i) = ''textarea'' then set_text h v d else set_attribute i ''value'' v d)"

text \<open>Both branches of the gates report that nothing was dispatched.\<close>

definition element_click :: "dom \<Rightarrow> handle \<Rightarrow> bool option" where
  "element_click d h =
     (case h of None \<Rightarrow> Some False
      | Some i \<Rightarrow> Option.bind (node_interactable d h) (\<lambda>ok. if \<not> ok then Some False else Some False))"

definition element_type :: "dom \<Rightarrow> handle \<Rightarrow> string \<Rightarrow> bool option" where
  "element_type d h txt =
     (case h of None \<Rightarrow> Some False
      | Some i \<Rightarrow> Option.bind (node_interactable d h) (\<lambda>ok. if \<not> ok then Some False else Some False))"

section \<open>Replacing the text\<close>

lemma obind_Some_Inr: "obind r f = Some (Inr y) \<longleftrightarrow> (\<exists>x. r = Some (Inr x) \<and> f x = Some (Inr y))"
  by (auto simp: obind_def split: option.splits sum.splits)

lemma reset_parents_sel [simp]:
  "size_dom (reset_parents cs d) = size_dom d" "mutations (reset_parents cs d) = mutations d"
  by (induction cs arbitrary: d) (simp_all add: reset_parents_def)

lemma reset_parents_at:
  assumes "j < size_dom d"
  shows "node_at (reset_parents cs d) j = (if j \<in> set cs then (node_at d j)\<lparr>parent := None\<rparr> else node_at d j)"
  using assms
proof (induction cs arbitrary: d)
  case (Cons c cs)
  have "node_at (reset_parents (c # cs) d) j =
      node_at (reset_parents cs (update_node c (\<lambda>n. n\<lparr>parent := None\<rparr>) d)) j"
    by (simp add: reset_parents_def)
  also have "\<dots> = (if j \<in> set (c # cs) then (node_at d j)\<lparr>parent := None\<rparr> else node_at d j)"
    using Cons.prems by (subst Cons.IH) auto
  finally show ?case .
qed (simp add: reset_parents_def)

definition cleared :: "nat \<Rightarrow> dom \<Rightarrow> dom" where
  "cleared i d = update_node i (\<lambda>n. n\<lparr>children := []\<rparr>) (reset_parents (children (node_at d i)) d)"

lemma cleared_at:
  assumes wf: "dom_wf d" and i: "i < size_dom d" and j: "j < size_dom d"
  shows "node_at (cleared i d) j = (if j = i then (node_at d i)\<lparr>children := []\<rparr>
     else if j \<in> set (children (node_at d i)) then (node_at d j)\<lparr>parent := None\<rparr> else node_at d j)"
proof -
  have "i \<notin> set (children (node_at d i))"
    using child_parent_rel [OF wf i, of i] dom_wfD(2) [OF wf] by (auto simp: acyclic_def)
  with i j show ?thesis by (simp add: cleared_def reset_parents_at)
qed

lemma cleared_wf:
  assumes wf: "dom_wf d" and i: "i < size_dom d"
  shows "dom_wf (cleared i d)"
proof -
  have lk: "links_ok d" using wf by blast
  have n: "size_dom (cleared i d) = size_dom d" by (simp add: cleared_def)
  have ch: "children (node_at (cleared i d) x) = (if x = i then [] else children (node_at d x))"
    if "x < size_dom d" for x using cleared_at [OF wf i that] by simp
  have pa: "parent (node_at (cleared i d) y) = (if (i, y) \<in> parent_rel d then None else parent (node_at d y))"
    if "y < size_dom d" for y
    using cleared_at [OF wf i that] child_parent_rel [OF wf i, of y] dom_wfD(2) [OF wf] by (auto simp: acyclic_def)
  have "links_ok (cleared i d)"
    unfolding links_ok_def n
  proof (intro conjI allI impI ballI)
    fix x assume x: "x < size_dom d"
    show "distinct (children (node_at (cleared i d) x))"
      using links_okD(1) [OF lk x] by (simp add: ch [OF x])
    fix y assume "y \<in> set (children (node_at (cleared i d) x))"
    then have xy: "x \<noteq> i" "y \<in> set (children (node_at d x))" by (auto simp: ch [OF x] split: if_splits)
    with links_okD(2) [OF lk x, of y] show "y < size_dom d" by simp
    with links_okD(2) [OF lk x, of y] xy show "parent (node_at (cleared i d) y) = Some x"
      by (simp add: pa parent_rel_def)
  next
    fix y p assume y: "y < size_dom d" and "parent (node_at (cleared i d) y) = Some p"
    then have p: "(i, y) \<notin> parent_rel d" "parent (node_at d y) = Some p" by (auto simp: pa split: if_splits)
    from links_okD(3) [OF lk y p(2)] show "p < size_dom d" by simp
    then show "y \<in> set (children (node_at (cleared i d) p))"
      using p y links_okD(3) [OF lk y p(2)] by (auto simp: ch parent_rel_def)
  qed
  moreover have "parent_rel (cleared i d) \<subseteq> parent_rel d"
    by (auto simp: parent_rel_def n pa split: if_splits)
  ultimately show ?thesis using wf by (auto simp: dom_wf_def intro: acyclic_subset)
qed

text \<open>What \<open>set_text\<close> does to the links: the old children are detached, a new text node is the only child.\<close>

definition text_replaced :: "nat \<Rightarrow> string \<Rightarrow> dom \<Rightarrow> dom \<Rightarrow> bool" where
  "text_replaced i v d d' \<longleftrightarrow> size_dom d' = Suc (size_dom d) \<and>
     node_at d' (size_dom d) = (fresh_node Text)\<lparr>ntext := v, parent := Some i\<rparr> \<and>
     (\<forall>j < size_dom d. node_at d' j = (if j = i then (node_at d i)\<lparr>children := [size_dom d]\<rparr>
        else if j \<in> set (children (node_at d i)) then (node_at d j)\<lparr>parent := None\<rparr> else node_at d j))"

lemma set_text_cases:
  assumes wf: "dom_wf d" and i: "i < size_dom d"
  shows "\<exists>d'. set_text (Some i) v d = Some d' \<and> dom_wf d' \<and> text_replaced i v d d'"
proof -
  obtain t d3 where mk: "make_node Text (cleared i d) = (t, d3)" by fastforce
  note m = make_node_wf [OF mk cleared_wf [OF wf i]]
  have n: "size_dom (cleared i d) = size_dom d" by (simp add: cleared_def)
  define d4 where "d4 = update_node t (\<lambda>n. n\<lparr>ntext := v\<rparr>) d3"
  have w4: "dom_wf d4" unfolding d4_def using m(1) by (subst dom_wf_cong [of _ d3]) auto
  have new: "node_at d4 t = (fresh_node Text)\<lparr>ntext := v\<rparr>" using m(2,3,5) by (simp add: d4_def)
  define d6 where "d6 = update_node i (\<lambda>n. n\<lparr>children := children n @ [t]\<rparr>)
     (update_node t (\<lambda>n. n\<lparr>parent := Some i\<rparr>) d4)"
  have w6: "dom_wf d6"
    unfolding d6_def using i m(2,3) n new by (intro attach_fresh_wf [OF w4]) (simp_all add: d4_def fresh_node_def)
  have r6: "text_replaced i v d d6"
    unfolding text_replaced_def using i m(2,3,4) n new cleared_at [OF wf i]
    by (auto simp: d6_def d4_def)
  obtain d' where d': "report_mutation i \<lparr>mi_kind = ''text-set'', mi_node_name = nname (node_at d i),
       mi_attribute_name = [], mi_value = v\<rparr> d6 = Some d'"
    using report_mutation_total [OF w6, of i] i r6 by (force simp: text_replaced_def)
  have "set_text (Some i) v d = Some d'"
    using mk d' unfolding cleared_def by (simp add: set_text_def d6_def d4_def Let_def)
  moreover have "dom_wf d'" using w6 report_mutation_wf [OF d'] by simp
  moreover have "text_replaced i v d d'" using r6 report_mutation_nodes [OF d'] by (simp add: text_replaced_def)
  ultimately show ?thesis by blast
qed

lemma text_replaced_tree:
  assumes wf: "dom_wf d'" and r: "text_replaced i v d d'" and i: "i < size_dom d"
  shows "tree_at d' i = Some (node_tree (node_at d i) [Tree Text [] [] v []])"
proof -
  have new: "node_at d' (size_dom d) = (fresh_node Text)\<lparr>ntext := v, parent := Some i\<rparr>"
    and top_node: "node_at d' i = (node_at d i)\<lparr>children := [size_dom d]\<rparr>"
    and n: "size_dom d' = Suc (size_dom d)"
    using r i by (simp_all add: text_replaced_def)
  have "rep d' {} (size_dom d) (node_tree (node_at d' (size_dom d)) [])"
    by (rule rep) (simp_all add: n new fresh_node_def)
  then have "rep d' {} (size_dom d) (Tree Text [] [] v [])" by (simp add: new node_tree_def fresh_node_def)
  then have "rep d' {} i (node_tree (node_at d' i) [Tree Text [] [] v []])"
    by (intro rep) (simp_all add: n top_node i less_SucI)
  then show ?thesis by (simp add: tree_at_rep [OF wf] top_node node_tree_def)
qed

text \<open>
  Writing an element and reading it back.  \<open>set_text\<close> on an element leaves a well-formed store in which
  its text is the value written and its inner markup the escaped value (or the value itself inside a
  raw text element), and the former children are detached; \<open>set_value\<close> is read back by \<open>value\<close> for
  every element other than \<open>select\<close>.
\<close>

theorem set_text_value_roundtrip:
  assumes "dom_wf d" and "i < size_dom d" and "is_element (node_at d i)"
  shows "(\<exists>d'. set_text (Some i) v d = Some d' \<and> dom_wf d' \<and> element_text d' (Some i) = Some v \<and>
      inner_html d' (Some i) = Some (if is_raw_text_element (nname (node_at d i)) then v else escape_text v) \<and>
      (\<forall>c\<in>set (children (node_at d i)). parent (node_at d' c) = None)) \<and>
    (nname (node_at d i) \<noteq> ''select'' \<longrightarrow>
      (\<exists>d'. set_value (Some i) v d = Some d' \<and> dom_wf d' \<and> element_value d' (Some i) = Some (Inr v)))"
proof -
  obtain d' where d': "set_text (Some i) v d = Some d'" "dom_wf d'" "text_replaced i v d d'"
    using set_text_cases [OF assms(1,2)] by blast
  note r = d'(3) [unfolded text_replaced_def]
  have i': "i < size_dom d'" using r assms(2) by simp
  have new: "node_at d' i = (node_at d i)\<lparr>children := [size_dom d]\<rparr>"
    and leaf: "node_at d' (size_dom d) = (fresh_node Text)\<lparr>ntext := v, parent := Some i\<rparr>"
    using r assms(2) by simp_all
  have content: "text_content d' i = Some v"
    using assms(3) by (simp add: text_content_def text_replaced_tree [OF d'(2,3) assms(2)] node_tree_def is_element_def)
  have "rep d' {} (size_dom d) (node_tree (node_at d' (size_dom d)) [])"
    using r by (intro rep) (simp_all add: fresh_node_def)
  then have "tree_at d' (size_dom d) = Some (Tree Text [] [] v [])"
    by (simp add: tree_at_rep [OF d'(2)] leaf node_tree_def fresh_node_def)
  then have html: "inner_html d' (Some i) = Some (if is_raw_text_element (nname (node_at d i)) then v else escape_text v)"
    by (simp add: inner_html_def new serialize_def leaf)
  have orphan: "parent (node_at d' c) = None" if "c \<in> set (children (node_at d i))" for c
  proof -
    have "c < size_dom d" "c \<noteq> i"
      using that links_okD(2) [OF dom_wfD(1) [OF assms(1)] assms(2) that]
        child_parent_rel [OF assms(1,2), of c] dom_wfD(2) [OF assms(1)] by (auto simp: acyclic_def)
    with r that show ?thesis by simp
  qed
  have val: "\<exists>d'. set_value (Some i) v d = Some d' \<and> dom_wf d' \<and> element_value d' (Some i) = Some (Inr v)"
    if sel: "nname (node_at d i) \<noteq> ''select''"
  proof (cases "nname (node_at d i) = ''textarea''")
    case True
    then show ?thesis using d' content new by (simp add: set_value_def element_value_def)
  next
    case False
    obtain d2 where "set_attribute i ''value'' v d = Some d2" "dom_wf d2"
      "nodes d2 = (nodes d)[i := (node_at d i)\<lparr>attributes := attr_set ''value'' v (attributes (node_at d i))\<rparr>]"
      using set_attribute_cases [OF assms(1,2)] by blast
    with False sel assms(2) show ?thesis
      by (simp add: set_value_def element_value_def value_or_empty_def attribute_of_def attrs.get_put_same)
  qed
  show ?thesis
    using d'(1,2) content html orphan val by (auto simp: element_text_def)
qed

theorem set_text_value_roundtrip_witness:
  "\<exists>d'. set_text (Some 1) ''hi'' sample_dom = Some d' \<and> element_text d' (Some 1) = Some ''hi''"
proof -
  have "1 < size_dom sample_dom" "is_element (node_at sample_dom 1)"
    by (simp_all add: sample_dom_def is_element_def fresh_node_def)
  from set_text_value_roundtrip [OF sample_dom_wf this, of "''hi''"] show ?thesis by blast
qed

section \<open>Siblings\<close>

lemma previous_loop_not_in: "i \<notin> set ss \<Longrightarrow>
  previous_loop d i prev ss = (case filter (\<lambda>s. is_element (node_at d s)) (rev ss) of [] \<Rightarrow> prev | s # _ \<Rightarrow> Some s)"
  by (induction ss arbitrary: prev) (auto split: list.split)

lemma previous_loop_stop: "i \<notin> set ss \<Longrightarrow> previous_loop d i prev (ss @ i # ts) = previous_loop d i prev ss"
  by (induction ss arbitrary: prev) auto

lemma next_loop_found: "next_loop d i True ss = find (\<lambda>s. is_element (node_at d s)) ss"
  by (induction ss) auto

lemma next_loop_skip: "i \<notin> set ss \<Longrightarrow> next_loop d i False (ss @ i # ts) = next_loop d i True ts"
  by (induction ss) auto

text \<open>The element siblings of a node, itself included.\<close>

definition element_siblings :: "dom \<Rightarrow> nat \<Rightarrow> nat list" where
  "element_siblings d p = filter (\<lambda>s. is_element (node_at d s)) (children (node_at d p))"

lemma siblings_split:
  assumes "dom_wf d" and "p < size_dom d" and "children (node_at d p) = as @ i # bs"
  shows "next_sibling d (Some i) = find (\<lambda>s. is_element (node_at d s)) bs"
    and "previous_sibling d (Some i) = find (\<lambda>s. is_element (node_at d s)) (rev as)"
proof -
  have "distinct (as @ i # bs)" using links_okD(1) [OF dom_wfD(1) [OF assms(1)] assms(2)] assms(3) by simp
  then have i: "i \<notin> set as" by auto
  have par: "parent (node_at d i) = Some p"
    using links_okD(2) [OF dom_wfD(1) [OF assms(1)] assms(2), of i] assms(3) by simp
  show "next_sibling d (Some i) = find (\<lambda>s. is_element (node_at d s)) bs"
    by (simp add: next_sibling_def par assms(3) next_loop_skip [OF i] next_loop_found)
  have "find P xs = (case filter P xs of [] \<Rightarrow> None | s # _ \<Rightarrow> Some s)" for P and xs :: "nat list"
    by (induction xs) auto
  then show "previous_sibling d (Some i) = find (\<lambda>s. is_element (node_at d s)) (rev as)"
    by (simp add: previous_sibling_def par assms(3) previous_loop_stop [OF i] previous_loop_not_in [OF i])
qed

lemma find_first_iff: "find P xs = Some y \<longleftrightarrow> (\<exists>us vs. xs = us @ y # vs \<and> (\<forall>u\<in>set us. \<not> P u) \<and> P y)"
proof (induction xs)
  case (Cons x xs)
  show ?case
  proof (cases "P x")
    case True
    then show ?thesis by (auto simp: Cons_eq_append_conv)
  next
    case False
    then have "(\<exists>us vs. x # xs = us @ y # vs \<and> (\<forall>u\<in>set us. \<not> P u) \<and> P y) \<longleftrightarrow>
       (\<exists>us vs. xs = us @ y # vs \<and> (\<forall>u\<in>set us. \<not> P u) \<and> P y)"
      by (auto simp: Cons_eq_append_conv) (metis append_Cons set_ConsD)+
    with False Cons show ?thesis by simp
  qed
qed simp

text \<open>Two nodes listed below one parent with only non-elements between them.\<close>

definition adjacent :: "dom \<Rightarrow> nat \<Rightarrow> nat \<Rightarrow> bool" where
  "adjacent d i j \<longleftrightarrow> (\<exists>p as ms bs. p < size_dom d \<and> children (node_at d p) = as @ i # ms @ j # bs \<and>
     (\<forall>m\<in>set ms. \<not> is_element (node_at d m)))"

lemma parent_split:
  assumes "dom_wf d" and "k < size_dom d" and "parent (node_at d k) \<noteq> None"
  shows "\<exists>p as bs. p < size_dom d \<and> children (node_at d p) = as @ k # bs"
proof -
  from assms(3) obtain p where "parent (node_at d k) = Some p" by auto
  with links_okD(3) [OF dom_wfD(1) [OF assms(1)] assms(2)] show ?thesis by (metis split_list)
qed

lemma next_adjacent:
  assumes "dom_wf d" and "i < size_dom d" and "is_element (node_at d j)"
  shows "next_sibling d (Some i) = Some j \<longleftrightarrow> adjacent d i j"
proof
  assume l: "next_sibling d (Some i) = Some j"
  then have "parent (node_at d i) \<noteq> None" by (auto simp: next_sibling_def split: option.splits)
  then obtain p as bs where p: "p < size_dom d" "children (node_at d p) = as @ i # bs"
    using parent_split [OF assms(1,2)] by blast
  with l siblings_split(1) [OF assms(1) p] obtain us vs where "bs = us @ j # vs" "\<forall>u\<in>set us. \<not> is_element (node_at d u)"
    by (auto simp: find_first_iff)
  with p show "adjacent d i j" unfolding adjacent_def by blast
next
  assume "adjacent d i j"
  then obtain p as ms bs where p: "p < size_dom d" "children (node_at d p) = as @ i # ms @ j # bs"
    and "\<forall>m\<in>set ms. \<not> is_element (node_at d m)" unfolding adjacent_def by blast
  with siblings_split(1) [OF assms(1) p] assms(3) show "next_sibling d (Some i) = Some j"
    by (auto simp: find_first_iff)
qed

lemma previous_adjacent:
  assumes "dom_wf d" and "j < size_dom d" and "is_element (node_at d i)"
  shows "previous_sibling d (Some j) = Some i \<longleftrightarrow> adjacent d i j"
proof
  assume l: "previous_sibling d (Some j) = Some i"
  then have "parent (node_at d j) \<noteq> None" by (auto simp: previous_sibling_def split: option.splits)
  then obtain p as bs where p: "p < size_dom d" "children (node_at d p) = as @ j # bs"
    using parent_split [OF assms(1,2)] by blast
  with l siblings_split(2) [OF assms(1) p] obtain us vs
    where uv: "rev as = us @ i # vs" "\<forall>u\<in>set us. \<not> is_element (node_at d u)"
    by (auto simp: find_first_iff)
  then have "as = rev vs @ i # rev us"
    by (metis append.assoc append_Cons append_Nil rev.simps(2) rev_append rev_rev_ident)
  with p uv(2) show "adjacent d i j" unfolding adjacent_def
    by (intro exI [of _ p] exI [of _ "rev vs"] exI [of _ "rev us"] exI [of _ bs]) simp
next
  assume "adjacent d i j"
  then obtain p as ms bs where p: "p < size_dom d" "children (node_at d p) = (as @ i # ms) @ j # bs"
    and "\<forall>m\<in>set ms. \<not> is_element (node_at d m)" unfolding adjacent_def by auto
  then have "find (\<lambda>s. is_element (node_at d s)) (rev (as @ i # ms)) = Some i"
    using assms(3) by (intro find_first_iff [THEN iffD2] exI [of _ "rev ms"] exI [of _ "rev as"]) simp
  with siblings_split(2) [OF assms(1) p] show "previous_sibling d (Some j) = Some i" by simp
qed

lemma filter_eq_append: "filter P xs = us @ ys \<Longrightarrow> \<exists>a b. xs = a @ b \<and> filter P b = ys"
proof (induction xs arbitrary: us)
  case (Cons x xs)
  show ?case
  proof (cases "us = []")
    case True
    with Cons.prems show ?thesis by (metis append_Nil)
  next
    case False
    with Cons.prems obtain us' where "filter P xs = us' @ ys"
      by (cases "P x"; cases us) auto
    from Cons.IH [OF this] show ?thesis by (metis append_Cons)
  qed
qed simp

lemma filter_eq_Cons_split:
  "filter P ys = x # xs \<Longrightarrow> \<exists>us vs. ys = us @ x # vs \<and> (\<forall>u\<in>set us. \<not> P u) \<and> filter P vs = xs"
  by (auto simp: filter_eq_Cons_iff)

lemma adjacent_filter:
  assumes wf: "dom_wf d" and i: "i < size_dom d" and el: "is_element (node_at d i)" "is_element (node_at d j)"
  shows "adjacent d i j \<longleftrightarrow>
    (\<exists>p us vs. parent (node_at d i) = Some p \<and> element_children d (Some p) = us @ [i, j] @ vs)"
proof
  let ?P = "\<lambda>s. is_element (node_at d s)"
  note lk = dom_wfD(1) [OF wf]
  {
    assume "adjacent d i j"
    then obtain p as ms bs where p: "p < size_dom d" "children (node_at d p) = as @ i # ms @ j # bs" "\<forall>m\<in>set ms. \<not> ?P m"
      unfolding adjacent_def by blast
    have "parent (node_at d i) = Some p" using links_okD(2) [OF lk p(1), of i] p(2) by simp
    moreover have "filter ?P ms = []" using p(3) by (simp add: filter_empty_conv)
    ultimately show "\<exists>p us vs. parent (node_at d i) = Some p \<and> element_children d (Some p) = us @ [i, j] @ vs"
      using el p(2) by (intro exI [of _ p] exI [of _ "filter ?P as"] exI [of _ "filter ?P bs"]) (simp add: element_children_def)
  }
  assume "\<exists>p us vs. parent (node_at d i) = Some p \<and> element_children d (Some p) = us @ [i, j] @ vs"
  then obtain p us vs where p: "parent (node_at d i) = Some p" and f: "filter ?P (children (node_at d p)) = us @ i # j # vs"
    by (auto simp: element_children_def)
  from filter_eq_append [OF f] obtain a1 r where r: "children (node_at d p) = a1 @ r" "filter ?P r = i # j # vs"
    by blast
  from filter_eq_Cons_split [OF r(2)] obtain a2 r2 where r2: "r = a2 @ i # r2" "filter ?P r2 = j # vs" by blast
  from filter_eq_Cons_split [OF r2(2)] obtain ms r3 where "r2 = ms @ j # r3" "\<forall>m\<in>set ms. \<not> ?P m" by blast
  with r r2 show "adjacent d i j" unfolding adjacent_def using links_okD(3) [OF lk i p]
    by (intro exI [of _ p] exI [of _ "a1 @ a2"] exI [of _ ms] exI [of _ r3]) simp
qed

text \<open>
  Sibling navigation.  For two elements of a well-formed store, one is the next sibling of the
  other exactly when the other is its previous sibling, and exactly when they are neighbours in the
  list of element children of one parent; the first child is the head of that list.
\<close>

theorem sibling_navigation:
  assumes "dom_wf d" and "i < size_dom d" and "is_element (node_at d i)" and "is_element (node_at d j)"
    and "j < size_dom d"
  shows "(next_sibling d (Some i) = Some j \<longleftrightarrow> previous_sibling d (Some j) = Some i) \<and>
    (next_sibling d (Some i) = Some j \<longleftrightarrow>
      (\<exists>p us vs. parent (node_at d i) = Some p \<and> element_children d (Some p) = us @ [i, j] @ vs)) \<and>
    first_child d (Some i) = (case element_children d (Some i) of [] \<Rightarrow> None | c # _ \<Rightarrow> Some c)"
proof -
  have "find P xs = (case filter P xs of [] \<Rightarrow> None | c # _ \<Rightarrow> Some c)" for P and xs :: "nat list"
    by (induction xs) auto
  then show ?thesis
    unfolding next_adjacent [OF assms(1,2,4)] previous_adjacent [OF assms(1,5,3)] adjacent_filter [OF assms(1-4)]
    by (simp add: first_child_def element_children_def)
qed

theorem sibling_navigation_witness:
  "first_child sample_dom (Some 1) = None \<and>
   (next_sibling sample_dom (Some 1) = Some 1 \<longleftrightarrow> previous_sibling sample_dom (Some 1) = Some 1)"
proof -
  have "1 < size_dom sample_dom" "is_element (node_at sample_dom 1)"
    by (simp_all add: sample_dom_def is_element_def fresh_node_def)
  from sibling_navigation [OF sample_dom_wf this this(2,1)] show ?thesis
    by (simp add: element_children_def sample_dom_def fresh_node_def)
qed

section \<open>Moving and removing children\<close>

text \<open>
  \<open>append_child\<close> on a well-formed store always returns and keeps it well-formed.  An attempt to
  put an element below itself or below one of its descendants changes nothing; otherwise the child
  is the last child of its new parent and of no other node, and no other link changes.  
  \<open>remove_child\<close> reports whether the node was a child; if so it ends up with no parent and every
  other link stays.
\<close>

theorem append_remove_child_correct:
  assumes "dom_wf d" and "i < size_dom d" and "c < size_dom d"
  shows "(\<exists>d'. element_append_child (Some i) (Some c) d = Some d' \<and> dom_wf d' \<and>
      (if (c, i) \<in> (parent_rel d)\<^sup>* then d' = d
       else size_dom d' = size_dom d \<and>
         (\<forall>x < size_dom d. children (node_at d' x) =
            remove1 c (children (node_at d x)) @ (if x = i then [c] else [])) \<and>
         (\<forall>y < size_dom d. parent (node_at d' y) = (if y = c then Some i else parent (node_at d y))))) \<and>
    (\<exists>d'. element_remove_child (Some i) (Some c) d = Some (c \<in> set (children (node_at d i)), d') \<and> dom_wf d' \<and>
      (if c \<in> set (children (node_at d i))
       then size_dom d' = size_dom d \<and>
         (\<forall>x < size_dom d. children (node_at d' x) =
            (if x = i then remove1 c (children (node_at d x)) else children (node_at d x))) \<and>
         (\<forall>y < size_dom d. parent (node_at d' y) = (if y = c then None else parent (node_at d y)))
       else d' = d))"
proof -
  have "element_append_child (Some i) (Some c) d = append_child i (Some c) d"
    "element_remove_child (Some i) (Some c) d = remove_child i (Some c) d"
    by (simp_all add: element_append_child_def element_remove_child_def)
  then show ?thesis
    using append_child_cases [OF assms] remove_child_cases [OF assms(1,2), of c]
    unfolding moved_def detached_def by (simp only:)
qed

theorem append_remove_child_correct_witness:
  "\<exists>d'. element_remove_child (Some 0) (Some 1) sample_dom = Some (True, d') \<and> children (node_at d' 0) = []"
proof -
  have "0 < size_dom sample_dom" "1 < size_dom sample_dom" "children (node_at sample_dom 0) = [1]"
    by (simp_all add: sample_dom_def)
  with append_remove_child_correct [OF sample_dom_wf this(1,2)] show ?thesis by auto
qed

section \<open>Interactability\<close>

lemma declaration_hides_total:
  assumes "property \<noteq> []"
  shows "\<exists>b. declaration_hides folded property value pos = Some b"
proof (induction "length folded - pos" arbitrary: pos rule: less_induct)
  case less
  have IH: "\<exists>b. declaration_hides folded property value q = Some b" if "pos < q" "pos < length folded" for q
    using less that by (simp add: diff_less_mono2)
  show ?case
  proof (cases "find_from property folded pos")
    case None
    then have "declaration_hides folded property value pos = Some False"
      by (subst declaration_hides.simps) simp
    then show ?thesis by blast
  next
    case (Some p)
    from find_from_Some [OF Some] assms have "pos < p + 1" "pos < p + length property" "pos < length folded"
      by (cases property; auto)+
    then show ?thesis using Some IH by (subst declaration_hides.simps) (auto split del: if_split split: if_split)
  qed
qed

lemma style_hides_total: "\<exists>b. style_hides s = Some b"
  using declaration_hides_total [of "''display''" "to_lower s" "''none''" 0]
    declaration_hides_total [of "''visibility''" "to_lower s" "''hidden''" 0]
  by (auto simp: style_hides_def Let_def)

lemma node_blocks_total: "\<exists>b. node_blocks n = Some b"
  using style_hides_total by (auto simp: node_blocks_def split: option.split)

text \<open>The elements on the way up, until the first node that is not an element.\<close>

definition element_chain :: "dom \<Rightarrow> (nat \<times> nat) set" where
  "element_chain d = {(p, c). (p, c) \<in> parent_rel d \<and> is_element (node_at d c)}"

text \<open>
  The interactability check returns on every well-formed store, and says yes exactly when no
  element on the chain of element ancestors, the element itself included, carries a blocking
  attribute (\<open>hidden\<close>, \<open>disabled\<close>, \<open>aria-disabled="true"\<close>, a hiding inline style).
\<close>

theorem node_interactable_correct:
  assumes "dom_wf d" and "i < size_dom d"
  shows "node_interactable d (Some i) =
    Some (\<forall>a. (a, i) \<in> (element_chain d)\<^sup>* \<longrightarrow> is_element (node_at d a) \<longrightarrow> node_blocks (node_at d a) = Some False)"
  using assms
proof (induction i rule: parent_induct)
  case (up i)
  have step: "(a, i) \<in> (element_chain d)\<^sup>* \<longleftrightarrow> a = i \<or> (is_element (node_at d i) \<and>
      (\<exists>p. parent (node_at d i) = Some p \<and> (a, p) \<in> (element_chain d)\<^sup>*))" for a
    using up(1) by (subst rtrancl.simps) (auto simp: element_chain_def parent_rel_def)
  have bound: "p < size_dom d" if "parent (node_at d i) = Some p" for p
    using links_okD(3) [OF dom_wfD(1) [OF assms(1)] up(1) that] by simp
  obtain b where b: "node_blocks (node_at d i) = Some b" using node_blocks_total by blast
  show ?case
  proof (cases "parent (node_at d i)")
    case None
    then have "node_interactable d None = Some True" by (subst node_interactable.simps) simp
    with None b show ?thesis by (subst node_interactable.simps) (auto simp: step)
  next
    case (Some p)
    with up(2) [OF Some bound [OF Some]] b show ?thesis
      by (subst node_interactable.simps) (auto simp: step)
  qed
qed

theorem node_interactable_correct_witness: "node_interactable sample_dom (Some 1) = Some True"
proof -
  have "1 < size_dom sample_dom" by (simp add: sample_dom_def)
  have "a = 0 \<or> a = 1" if "(a, 1) \<in> (element_chain sample_dom)\<^sup>*" for a
    using that by (rule rtranclE) (auto simp: element_chain_def parent_rel_def sample_dom_def fresh_node_def
       less_Suc_eq elim: rtranclE)
  moreover have "node_blocks (node_at sample_dom 1) = Some False" "\<not> is_element (node_at sample_dom 0)"
    by (simp_all add: node_blocks_def attribute_of_def sample_dom_def fresh_node_def is_element_def)
  ultimately show ?thesis using node_interactable_correct [OF sample_dom_wf \<open>1 < size_dom sample_dom\<close>] by auto
qed

text \<open>
  A space behind the colon hides a declaration from the check: \<open>display:none\<close> and
  \<open>display :none\<close> make an element non-interactable, the usual spelling \<open>display: none\<close> does not.
\<close>

theorem style_space_after_colon:
  "style_hides ''display:none'' = Some True \<and> style_hides ''display :none'' = Some True \<and>
   style_hides ''display: none'' = Some False"
proof -
  note ev = find_from_def declares_def is_blank_def
  have 1: "declaration_hides ''display:none'' ''display'' ''none'' 0 = Some True"
    "declaration_hides ''display :none'' ''display'' ''none'' 0 = Some True"
    by (subst declaration_hides.simps, simp add: ev)+
  have "declaration_hides ''display: none'' ''display'' ''none'' 7 = Some False"
    by (subst declaration_hides.simps) (simp add: ev)
  then have 2: "declaration_hides ''display: none'' ''display'' ''none'' 0 = Some False"
    by (subst declaration_hides.simps) (simp add: ev numeral_eq_Suc)
  have 3: "declaration_hides ''display: none'' ''visibility'' ''hidden'' 0 = Some False"
    by (subst declaration_hides.simps) (simp add: ev)
  show ?thesis by (simp add: style_hides_def 1 2 3 lower_char_def char_class)
qed

end
