(* ===== verification/Url.thy ===== *)
theory Url
  imports Prelude
begin

text \<open>
  \<^verbatim>\<open>url.cpp\<close>: parsing, printing, resolving and normalizing URLs.
\<close>

record url =
  scheme :: string
  userinfo :: string
  host :: string
  port :: string
  path :: string
  query :: string
  fragment :: string
  has_authority :: bool
  has_query :: bool
  has_fragment :: bool

definition empty_url :: url where
  "empty_url = \<lparr>scheme = [], userinfo = [], host = [], port = [], path = [], query = [], fragment = [],
     has_authority = False, has_query = False, has_fragment = False\<rparr>"

definition is_scheme_start :: "char \<Rightarrow> bool" where
  "is_scheme_start c \<longleftrightarrow> ascii_alpha c"

definition is_scheme_char :: "char \<Rightarrow> bool" where
  "is_scheme_char c \<longleftrightarrow> is_alnum c \<or> c = CHR ''+'' \<or> c = CHR ''-'' \<or> c = CHR ''.''"

section \<open>Dot segments\<close>

text \<open>Drop everything from the last slash on; the whole output when it has none.\<close>

definition drop_last_segment :: "string \<Rightarrow> string" where
  "drop_last_segment out = (case find_last_char (CHR ''/'') out of None \<Rightarrow> [] | Some n \<Rightarrow> take n out)"

text \<open>\<open>path.find('/', start)\<close> behind a leading slash: the length of the first segment.\<close>

definition first_segment :: "string \<Rightarrow> nat" where
  "first_segment p =
     (if p \<noteq> [] \<and> hd p = CHR ''/'' then Suc (length (takeWhile (\<lambda>c. c \<noteq> CHR ''/'') (tl p)))
      else length (takeWhile (\<lambda>c. c \<noteq> CHR ''/'') p))"

function dots_loop :: "string \<Rightarrow> string \<Rightarrow> string" where
  "dots_loop out p =
     (if p = [] then out
      else if prefix ''../'' p then dots_loop out (drop 3 p)
      else if prefix ''./'' p then dots_loop out (drop 2 p)
      else if prefix ''/./'' p then dots_loop out (drop 2 p)
      else if p = ''/.'' then dots_loop out ''/''
      else if prefix ''/../'' p then dots_loop (drop_last_segment out) (drop 3 p)
      else if p = ''/..'' then dots_loop (drop_last_segment out) ''/''
      else if p = ''.'' \<or> p = ''..'' then dots_loop out []
      else dots_loop (out @ take (first_segment p) p) (drop (first_segment p) p))"
  by pat_completeness auto
termination
proof (relation "measure (\<lambda>(out, p). length p)")
  fix out p :: string
  assume "p \<noteq> []"
  then have "0 < first_segment p" by (cases p) (auto simp: first_segment_def)
  with \<open>p \<noteq> []\<close> show "((out @ take (first_segment p) p, drop (first_segment p) p), out, p)
     \<in> measure (\<lambda>(out, p). length p)" by simp
qed auto

declare dots_loop.simps [simp del]

definition remove_dot_segments :: "string \<Rightarrow> string" where
  "remove_dot_segments input = dots_loop [] input"

definition merge_paths :: "url \<Rightarrow> string \<Rightarrow> string" where
  "merge_paths base ref =
     (if has_authority base \<and> path base = [] then CHR ''/'' # ref
      else case find_last_char (CHR ''/'') (path base) of
          None \<Rightarrow> ref
        | Some n \<Rightarrow> take (n + 1) (path base) @ ref)"

section \<open>Printing\<close>

definition origin :: "url \<Rightarrow> string" where
  "origin u =
     (if \<not> has_authority u then []
      else scheme u @ ''://'' @ host u @ (if port u \<noteq> [] then CHR '':'' # port u else []))"

definition to_string :: "url \<Rightarrow> string" where
  "to_string u =
     (if scheme u \<noteq> [] then scheme u @ '':'' else []) @
     (if has_authority u
      then ''//'' @ (if userinfo u \<noteq> [] then userinfo u @ ''@'' else []) @ host u @
           (if port u \<noteq> [] then CHR '':'' # port u else [])
      else []) @
     path u @ (if has_query u then CHR ''?'' # query u else []) @
     (if has_fragment u then CHR ''#'' # fragment u else [])"

section \<open>Parsing\<close>

definition read_scheme :: "string \<Rightarrow> string \<times> string" where
  "read_scheme s =
     (case find_char (CHR '':'') s of
        None \<Rightarrow> ([], s)
      | Some colon \<Rightarrow>
          if colon > 0 \<and> is_scheme_start (s ! 0) \<and> list_all is_scheme_char (take colon s)
          then (to_lower (take colon s), drop (colon + 1) s) else ([], s))"

definition authority_char :: "char \<Rightarrow> bool" where
  "authority_char c \<longleftrightarrow> c \<noteq> CHR ''/'' \<and> c \<noteq> CHR ''?'' \<and> c \<noteq> CHR ''#''"

definition split_userinfo :: "string \<Rightarrow> string \<times> string" where
  "split_userinfo a =
     (case find_char (CHR ''@'') a of None \<Rightarrow> ([], a) | Some n \<Rightarrow> (take n a, drop (n + 1) a))"

definition split_host :: "string \<Rightarrow> (string \<times> string) result" where
  "split_host a =
     (if a \<noteq> [] \<and> hd a = CHR ''['' then
        (case find_char (CHR '']'') a of
           None \<Rightarrow> Inl (Error InvalidUrl ''unterminated IPv6 host'')
         | Some close \<Rightarrow>
             Inr (take (close + 1) a,
                  if close + 1 < length a \<and> a ! (close + 1) = CHR '':'' then drop (close + 2) a else []))
      else case find_char (CHR '':'') a of
          None \<Rightarrow> Inr (a, [])
        | Some n \<Rightarrow> Inr (take n a, drop (n + 1) a))"

definition read_authority :: "string \<Rightarrow> url \<Rightarrow> (url \<times> string) result" where
  "read_authority s u =
     (if prefix ''//'' s then
        let rest = drop 2 s;
            (ui, a) = split_userinfo (takeWhile authority_char rest)
        in rbind (split_host a) (\<lambda>(h, p).
             Inr (u\<lparr>has_authority := True, userinfo := ui, host := to_lower h, port := p\<rparr>,
                  dropWhile authority_char rest))
      else Inr (u, s))"

text \<open>The part of the input behind one delimiter, which is cut_at off.\<close>

definition cut_at :: "char \<Rightarrow> string \<Rightarrow> string \<times> string option" where
  "cut_at c s = (case find_char c s of None \<Rightarrow> (s, None) | Some n \<Rightarrow> (take n s, Some (drop (n + 1) s)))"

definition parse_url :: "string \<Rightarrow> url result" where
  "parse_url input =
     (let (sch, s1) = read_scheme input in
      rbind (read_authority s1 (empty_url\<lparr>scheme := sch\<rparr>)) (\<lambda>(u, s2).
        let (s3, frag) = cut_at (CHR ''#'') s2;
            u1 = (case frag of None \<Rightarrow> u | Some f \<Rightarrow> u\<lparr>fragment := f, has_fragment := True\<rparr>);
            (s4, qry) = cut_at (CHR ''?'') s3;
            u2 = (case qry of None \<Rightarrow> u1 | Some q \<Rightarrow> u1\<lparr>query := q, has_query := True\<rparr>)
        in Inr (u2\<lparr>path := s4\<rparr>)))"

section \<open>Resolution and normalization\<close>

definition resolve :: "url \<Rightarrow> string \<Rightarrow> url result" where
  "resolve base reference =
     rbind (parse_url reference) (\<lambda>ref.
       if scheme ref \<noteq> [] then Inr (ref\<lparr>path := remove_dot_segments (path ref)\<rparr>)
       else
         let t0 = empty_url\<lparr>scheme := scheme base\<rparr>;
             t1 = (if has_authority ref then
                     t0\<lparr>has_authority := True, userinfo := userinfo ref, host := host ref, port := port ref,
                        path := remove_dot_segments (path ref), query := query ref, has_query := has_query ref\<rparr>
                   else
                     let t = t0\<lparr>has_authority := has_authority base, userinfo := userinfo base,
                                host := host base, port := port base\<rparr>
                     in if path ref = [] then
                          t\<lparr>path := path base, query := (if has_query ref then query ref else query base),
                            has_query := (if has_query ref then True else has_query base)\<rparr>
                        else t\<lparr>path := remove_dot_segments (if hd (path ref) = CHR ''/'' then path ref
                                                           else merge_paths base (path ref)),
                               query := query ref, has_query := has_query ref\<rparr>)
         in Inr (t1\<lparr>fragment := fragment ref, has_fragment := has_fragment ref\<rparr>))"

definition resolve_url :: "string \<Rightarrow> string \<Rightarrow> string result" where
  "resolve_url base reference =
     rbind (parse_url base) (\<lambda>b. rbind (resolve b reference) (\<lambda>t.
       let n = t\<lparr>path := remove_dot_segments (path t)\<rparr>;
           n' = (if has_authority n \<and> path n = [] then n\<lparr>path := ''/''\<rparr> else n)
       in Inr (to_string n')))"

definition normalize :: "url \<Rightarrow> url" where
  "normalize u =
     (let u1 = u\<lparr>scheme := to_lower (scheme u), host := to_lower (host u),
                 path := remove_dot_segments (path u)\<rparr>;
          u2 = (if scheme u1 = ''http'' \<and> port u1 = ''80'' \<or> scheme u1 = ''https'' \<and> port u1 = ''443''
                then u1\<lparr>port := []\<rparr> else u1)
      in if has_authority u2 \<and> path u2 = [] then u2\<lparr>path := ''/''\<rparr> else u2)"

definition normalize_url :: "string \<Rightarrow> string result" where
  "normalize_url input = rbind (parse_url input) (\<lambda>u. Inr (to_string (normalize u)))"

section \<open>Printing and parsing are inverse\<close>

definition scheme_ok :: "string \<Rightarrow> bool" where
  "scheme_ok s \<longleftrightarrow> s \<noteq> [] \<and> is_scheme_start (hd s) \<and> list_all is_scheme_char s \<and> to_lower s = s"

text \<open>Whether a string would be read as starting with a scheme.\<close>

definition looks_schemed :: "string \<Rightarrow> bool" where
  "looks_schemed s \<longleftrightarrow>
     (let a = takeWhile (\<lambda>c. c \<noteq> CHR '':'') s
      in a \<noteq> [] \<and> length a < length s \<and> is_scheme_start (hd a) \<and> list_all is_scheme_char a)"

definition host_ok :: "string \<Rightarrow> bool" where
  "host_ok h \<longleftrightarrow> to_lower h = h \<and>
     (if h \<noteq> [] \<and> hd h = CHR ''['' then CHR '']'' \<notin> set (butlast h) \<and> last h = CHR '']''
      else CHR '':'' \<notin> set h)"

definition url_ok :: "url \<Rightarrow> bool" where
  "url_ok u \<longleftrightarrow> (scheme u = [] \<or> scheme_ok (scheme u)) \<and>
     (if has_authority u then
        list_all authority_char (userinfo u @ host u @ port u) \<and> CHR ''@'' \<notin> set (userinfo u) \<and>
        (userinfo u \<noteq> [] \<or> CHR ''@'' \<notin> set (host u @ port u)) \<and> host_ok (host u) \<and>
        (path u = [] \<or> hd (path u) = CHR ''/'')
      else userinfo u = [] \<and> host u = [] \<and> port u = [] \<and> \<not> prefix ''//'' (path u) \<and>
        (scheme u = [] \<longrightarrow> \<not> looks_schemed (path u))) \<and>
     CHR ''?'' \<notin> set (path u) \<and> CHR ''#'' \<notin> set (path u) \<and> CHR ''#'' \<notin> set (query u) \<and>
     (\<not> has_query u \<longrightarrow> query u = []) \<and> (\<not> has_fragment u \<longrightarrow> fragment u = [])"

lemma find_char_takeWhile:
  "find_char c s = (if c \<in> set s then Some (length (takeWhile (\<lambda>d. d \<noteq> c) s)) else None)"
proof (cases "c \<in> set s")
  case True
  then obtain a b where "s = a @ c # b" "c \<notin> set a" by (meson split_list_first)
  then show ?thesis by (simp add: takeWhile_append)
qed (simp add: find_char_None_iff)

lemma cut_none: "c \<notin> set s \<Longrightarrow> cut_at c s = (s, None)"
  by (simp add: cut_at_def find_char_takeWhile)

lemma cut_some [simp]: "c \<notin> set s \<Longrightarrow> cut_at c (s @ c # t) = (s, Some t)"
  by (simp add: cut_at_def)

lemma scheme_ok_no_colon: "list_all is_scheme_char s \<Longrightarrow> CHR '':'' \<notin> set s"
  by (auto simp: list_all_iff is_scheme_char_def char_class)

lemma take_takeWhile [simp]: "take (length (takeWhile P s)) s = takeWhile P s"
  by (metis takeWhile_eq_take)

lemma read_scheme_eq:
  "read_scheme s = (if looks_schemed s
     then (to_lower (takeWhile (\<lambda>c. c \<noteq> CHR '':'') s), drop (Suc (length (takeWhile (\<lambda>c. c \<noteq> CHR '':'') s))) s)
     else ([], s))"
proof -
  have "s ! 0 = hd (takeWhile P s)" if "takeWhile P s \<noteq> []" for P
    using that by (cases s) (auto split: if_splits)
  then show ?thesis by (auto simp: read_scheme_def find_char_def looks_schemed_def Let_def)
qed

lemma looks_schemed_split: "list_all is_scheme_char a \<Longrightarrow>
   looks_schemed (a @ CHR '':'' # t) \<longleftrightarrow> a \<noteq> [] \<and> is_scheme_start (hd a)"
  using scheme_ok_no_colon [of a] by (simp add: looks_schemed_def Let_def takeWhile_append)

lemma read_scheme_print:
  assumes "scheme_ok s"
  shows "read_scheme (s @ CHR '':'' # t) = (s, t)"
proof -
  have "takeWhile (\<lambda>c. c \<noteq> CHR '':'') (s @ CHR '':'' # t) = s"
    using scheme_ok_no_colon [of s] assms by (simp add: scheme_ok_def takeWhile_append)
  with assms show ?thesis
    by (simp add: read_scheme_eq looks_schemed_split scheme_ok_def)
qed

lemma looks_schemedE:
  assumes "looks_schemed s"
  obtains a b where "s = a @ CHR '':'' # b" "a \<noteq> []" "is_scheme_start (hd a)" "list_all is_scheme_char a"
proof -
  let ?a = "takeWhile (\<lambda>c. c \<noteq> CHR '':'') s"
  have "length ?a < length s" using assms by (simp add: looks_schemed_def Let_def)
  then have "dropWhile (\<lambda>c. c \<noteq> CHR '':'') s \<noteq> []" by (metis append_Nil2 less_not_refl takeWhile_dropWhile_id)
  then obtain x b where d: "dropWhile (\<lambda>c. c \<noteq> CHR '':'') s = x # b" by (cases "dropWhile (\<lambda>c. c \<noteq> CHR '':'') s") auto
  then have "x = CHR '':''" using dropWhile_head_false by fastforce
  then have "s = ?a @ CHR '':'' # b" using d by (metis takeWhile_dropWhile_id)
  then show ?thesis using that assms by (simp add: looks_schemed_def Let_def)
qed

text \<open>Text behind the path cannot make it look like a scheme.\<close>

lemma looks_schemed_append:
  assumes "\<not> looks_schemed p" and "t = [] \<or> \<not> is_scheme_char (hd t) \<and> hd t \<noteq> CHR '':''"
  shows "\<not> looks_schemed (p @ t)"
proof
  assume "looks_schemed (p @ t)"
  then obtain a b where s: "p @ t = a @ CHR '':'' # b" "a \<noteq> []" "is_scheme_start (hd a)" "list_all is_scheme_char a"
    by (rule looks_schemedE)
  then consider (in_p) u where "p = a @ CHR '':'' # u" | (in_t) u where "a = p @ u" "t = u @ CHR '':'' # b"
    by (auto simp: append_eq_append_conv2 append_eq_Cons_conv Cons_eq_append_conv)
  then show False
  proof cases
    case in_p
    with s looks_schemed_split [OF s(4)] assms(1) show False by simp
  next
    case in_t
    with s(4) assms(2) show False by (cases u) auto
  qed
qed

lemma looks_schemed_slash: "\<not> looks_schemed (CHR ''/'' # s)"
  by (simp add: looks_schemed_def Let_def is_scheme_start_def char_class)

section \<open>Printing and parsing the authority\<close>

definition authority :: "url \<Rightarrow> string" where
  "authority u = (if userinfo u \<noteq> [] then userinfo u @ ''@'' else []) @ host u @
     (if port u \<noteq> [] then CHR '':'' # port u else [])"

lemma split_userinfo_print:
  assumes "CHR ''@'' \<notin> set ui" and "ui \<noteq> [] \<or> CHR ''@'' \<notin> set s"
  shows "split_userinfo ((if ui \<noteq> [] then ui @ ''@'' else []) @ s) = (ui, s)"
  using assms by (cases "ui = []") (auto simp: split_userinfo_def find_char_takeWhile takeWhile_append)

lemma split_host_print:
  assumes "host_ok h"
  shows "split_host (h @ (if p \<noteq> [] then CHR '':'' # p else [])) = Inr (h, p)"
proof (cases "h \<noteq> [] \<and> hd h = CHR ''[''")
  case True
  then have b: "h = butlast h @ [CHR '']'']" "CHR '']'' \<notin> set (butlast h)"
    using assms append_butlast_last_id [of h] by (auto simp: host_ok_def)
  let ?t = "if p \<noteq> [] then CHR '':'' # p else []"
  have f: "find_char (CHR '']'') (h @ ?t) = Some (length (butlast h))"
    using find_char_append [OF b(2), of ?t] b(1) by (metis append.assoc append_Cons append_Nil)
  have l: "Suc (length (butlast h)) = length h" using True by (cases h) auto
  have h: "h @ ?t \<noteq> [] \<and> hd (h @ ?t) = CHR ''[''" using True by simp
  have "length (butlast h) + 1 = length h" using l by simp
  then show ?thesis
    unfolding split_host_def using h f by (cases "p = []") (simp_all add: l nth_append)
next
  case False
  then have c: "CHR '':'' \<notin> set h" using assms by (auto simp: host_ok_def)
  have nb: "\<not> (h @ (if p \<noteq> [] then CHR '':'' # p else []) \<noteq> [] \<and>
      hd (h @ (if p \<noteq> [] then CHR '':'' # p else [])) = CHR ''['')"
    using False by (cases h) auto
  show ?thesis
    unfolding split_host_def if_not_P [OF nb] using c
    by (cases "p = []") (simp_all add: find_char_takeWhile takeWhile_append)
qed

lemma read_authority_print:
  assumes "list_all authority_char (userinfo u @ host u @ port u)" and "CHR ''@'' \<notin> set (userinfo u)"
    and "userinfo u \<noteq> [] \<or> CHR ''@'' \<notin> set (host u @ port u)" and "host_ok (host u)"
    and "t = [] \<or> \<not> authority_char (hd t)"
  shows "read_authority (''//'' @ authority u @ t) v =
    Inr (v\<lparr>has_authority := True, userinfo := userinfo u, host := host u, port := port u\<rparr>, t)"
proof -
  have "\<forall>c\<in>set (authority u). authority_char c"
    using assms(1) by (auto simp: authority_def list_all_iff authority_char_def)
  then have sc: "takeWhile authority_char (authority u @ t) = authority u"
      "dropWhile authority_char (authority u @ t) = t"
    using assms(5) by (cases t; simp)+
  let ?p = "if port u \<noteq> [] then CHR '':'' # port u else []"
  have "CHR ''@'' \<notin> set (host u @ ?p) \<or> userinfo u \<noteq> []" using assms(3) by auto
  then have "split_userinfo (authority u) = (userinfo u, host u @ ?p)"
    using split_userinfo_print [OF assms(2), of "host u @ ?p"] by (auto simp: authority_def)
  moreover have "to_lower (host u) = host u" using assms(4) by (simp add: host_ok_def)
  ultimately show ?thesis
    using split_host_print [OF assms(4), of "port u"] sc by (simp add: read_authority_def Let_def)
qed

definition print_tail :: "url \<Rightarrow> string" where
  "print_tail u = path u @ (if has_query u then CHR ''?'' # query u else []) @
     (if has_fragment u then CHR ''#'' # fragment u else [])"

lemma to_string_eq:
  "to_string u = (if scheme u \<noteq> [] then scheme u @ '':'' else []) @
     (if has_authority u then ''//'' @ authority u else []) @ print_tail u"
  by (simp add: to_string_def authority_def print_tail_def)

text \<open>The last steps of \<open>parse_url\<close>: fragment, query and path.\<close>

definition finish_url :: "url \<Rightarrow> string \<Rightarrow> url" where
  "finish_url u s =
     (let (s3, frag) = cut_at (CHR ''#'') s;
          u1 = (case frag of None \<Rightarrow> u | Some f \<Rightarrow> u\<lparr>fragment := f, has_fragment := True\<rparr>);
          (s4, qry) = cut_at (CHR ''?'') s3;
          u2 = (case qry of None \<Rightarrow> u1 | Some q \<Rightarrow> u1\<lparr>query := q, has_query := True\<rparr>)
      in u2\<lparr>path := s4\<rparr>)"

lemma parse_url_eq:
  "parse_url s = rbind (read_authority (snd (read_scheme s)) (empty_url\<lparr>scheme := fst (read_scheme s)\<rparr>))
     (\<lambda>(u, r). Inr (finish_url u r))"
  by (simp add: parse_url_def finish_url_def case_prod_beta Let_def)

lemma finish_print:
  assumes "CHR ''?'' \<notin> set (path u)" "CHR ''#'' \<notin> set (path u)" "CHR ''#'' \<notin> set (query u)"
    and "\<not> has_query u \<longrightarrow> query u = []" and "\<not> has_fragment u \<longrightarrow> fragment u = []"
    and v: "has_query v = False" "query v = []" "has_fragment v = False" "fragment v = []"
      "scheme v = scheme u" "userinfo v = userinfo u" "host v = host u" "port v = port u"
      "has_authority v = has_authority u"
  shows "finish_url v (print_tail u) = u"
proof -
  let ?m = "path u @ (if has_query u then CHR ''?'' # query u else [])"
  have h: "CHR ''#'' \<notin> set ?m" using assms by auto
  have c1: "cut_at (CHR ''#'') (print_tail u) = (?m, if has_fragment u then Some (fragment u) else None)"
    using cut_some [OF h, of "fragment u"] cut_none [OF h] by (cases "has_fragment u") (simp_all add: print_tail_def)
  have c2: "cut_at (CHR ''?'') ?m = (path u, if has_query u then Some (query u) else None)"
    using cut_some [OF assms(1), of "query u"] cut_none [OF assms(1)] by (cases "has_query u") simp_all
  define v1 where "v1 = (if has_fragment u then v\<lparr>fragment := fragment u, has_fragment := True\<rparr> else v)"
  have "finish_url v (print_tail u) =
      (if has_query u then v1\<lparr>query := query u, has_query := True\<rparr> else v1)\<lparr>path := path u\<rparr>"
    unfolding finish_url_def c1 prod.case c2 Let_def v1_def by simp
  then show ?thesis
    by (intro url.equality) (use assms(4,5) v in \<open>auto simp: v1_def\<close>)
qed

lemma parse_print:
  assumes ok: "url_ok u"
  shows "parse_url (to_string u) = Inr u"
proof -
  let ?r = "(if has_authority u then ''//'' @ authority u else []) @ print_tail u"
  let ?e = "empty_url\<lparr>scheme := scheme u\<rparr>"
  have tl: "\<not> is_scheme_char (CHR ''?'')" "\<not> is_scheme_char (CHR ''#'')"
    by (auto simp: is_scheme_char_def char_class)
  have sch: "read_scheme (to_string u) = (scheme u, ?r)"
  proof (cases "scheme u = []")
    case False
    then show ?thesis
      using ok read_scheme_print [of "scheme u" ?r] by (simp add: url_ok_def to_string_eq)
  next
    case True
    have "\<not> looks_schemed ?r"
    proof (cases "has_authority u")
      case True
      then show ?thesis by (simp add: looks_schemed_slash)
    next
      case False
      then have "\<not> looks_schemed (path u)" using ok True by (simp add: url_ok_def)
      with False tl show ?thesis
        by (simp add: print_tail_def looks_schemed_append)
    qed
    with True show ?thesis by (simp add: to_string_eq read_scheme_eq)
  qed
  have tail: "print_tail u = [] \<or> \<not> authority_char (hd (print_tail u))" if "path u = [] \<or> hd (path u) = CHR ''/''"
    using that by (cases "path u") (auto simp: print_tail_def authority_char_def)
  define v where "v = (if has_authority u
    then ?e\<lparr>has_authority := True, userinfo := userinfo u, host := host u, port := port u\<rparr> else ?e)"
  have auth: "read_authority ?r ?e = Inr (v, print_tail u)"
  proof (cases "has_authority u")
    case True
    then have "list_all authority_char (userinfo u @ host u @ port u)" "CHR ''@'' \<notin> set (userinfo u)"
      "userinfo u \<noteq> [] \<or> CHR ''@'' \<notin> set (host u @ port u)" "host_ok (host u)"
      "path u = [] \<or> hd (path u) = CHR ''/''"
      using ok by (simp_all add: url_ok_def)
    from read_authority_print [OF this(1-4) tail [OF this(5)], of ?e] True show ?thesis
      by (simp add: v_def)
  next
    case False
    then have "\<not> prefix ''//'' (path u)" using ok by (simp add: url_ok_def)
    then have "\<not> prefix ''//'' (print_tail u)"
      by (cases "path u"; cases "tl (path u)") (auto simp: print_tail_def)
    with False show ?thesis by (simp add: read_authority_def v_def)
  qed
  have "finish_url v (print_tail u) = u"
    by (rule finish_print) (use ok in \<open>auto simp: url_ok_def v_def empty_url_def\<close>)
  then show ?thesis by (simp add: parse_url_eq sch auth)
qed

section \<open>What the parser produces\<close>

lemma cutD: "cut_at c s = (a, b) \<Longrightarrow> c \<notin> set a \<and> s = a @ (case b of None \<Rightarrow> [] | Some t \<Rightarrow> c # t)"
  using find_char_Some [of c s]
  by (cases "find_char c s") (auto simp: cut_at_def find_char_None_iff)

lemma split_host_ok:
  assumes "split_host a = Inr (h, p)"
  shows "host_ok (to_lower h) \<and> set (h @ p) \<subseteq> set a"
proof (cases "a \<noteq> [] \<and> hd a = CHR ''[''")
  case True
  then obtain n where n: "find_char (CHR '']'') a = Some n" and h: "h = take (n + 1) a"
    and p: "p = (if n + 1 < length a \<and> a ! (n + 1) = CHR '':'' then drop (n + 2) a else [])"
    using assms by (auto simp: split_host_def split: option.splits)
  note f = find_char_Some [OF n]
  have h': "h = take n a @ [CHR '']'']"
  proof -
    have "take (n + 1) (take n a @ CHR '']'' # drop (Suc n) a) = take n a @ [CHR '']'']" using f(1) by simp
    then show ?thesis using f(2) h by simp
  qed
  have low: "lower_char c = CHR '']'' \<longleftrightarrow> c = CHR '']''" for c
    by (rule lower_char_eq_iff) (simp add: char_class)
  have "n \<noteq> 0"
  proof
    assume "n = 0"
    with f(2) have "hd a = CHR '']''" by (metis append_Nil list.sel(1) take0)
    with True show False by simp
  qed
  then have "hd (to_lower h) = CHR ''[''" using True h by (cases a) (auto simp: lower_char_def char_class)
  moreover have "CHR '']'' \<notin> set (to_lower (take n a))" using f(3) low by (metis imageE set_to_lower)
  then have "CHR '']'' \<notin> set (butlast (to_lower h))" "last (to_lower h) = CHR '']''" "to_lower h \<noteq> []"
    unfolding h' using low [of "CHR '']''"] by (simp_all add: butlast_append)
  moreover have "set p \<subseteq> set a" using p set_drop_subset [of "n + 2" a] by auto
  moreover have "set h \<subseteq> set a" using h set_take_subset by metis
  ultimately show ?thesis by (auto simp: host_ok_def)
next
  case False
  then obtain b where c: "cut_at (CHR '':'') a = (h, b)" "p = (case b of None \<Rightarrow> [] | Some t \<Rightarrow> t)"
    using assms by (auto simp: split_host_def cut_at_def split: option.splits)
  note d = cutD [OF c(1)]
  have low: "lower_char x = CHR '':'' \<longleftrightarrow> x = CHR '':''" for x
    by (rule lower_char_eq_iff) (simp add: char_class)
  have "hd (to_lower h) \<noteq> CHR ''[''" if "h \<noteq> []"
    using that False d lower_char_eq_iff [of "CHR ''[''" "hd h"] by (auto simp: char_class)
  moreover have "CHR '':'' \<notin> set (to_lower h)" using d low by (metis imageE set_to_lower)
  moreover have "set (h @ p) \<subseteq> set a" using d c(2) by (auto split: option.splits)
  ultimately show ?thesis by (auto simp: host_ok_def)
qed

lemma parse_url_ok:
  assumes p: "parse_url s = Inr u" and at: "userinfo u \<noteq> [] \<or> CHR ''@'' \<notin> set (host u @ port u)"
  shows "url_ok u"
proof -
  obtain sch r where sch: "read_scheme s = (sch, r)" by fastforce
  obtain v q where v: "read_authority r (empty_url\<lparr>scheme := sch\<rparr>) = Inr (v, q)" and u: "u = finish_url v q"
    using p by (auto simp: parse_url_eq sch rbind_Inr_iff)
  obtain q1 frag where c1: "cut_at (CHR ''#'') q = (q1, frag)" by fastforce
  obtain q2 qry where c2: "cut_at (CHR ''?'') q1 = (q2, qry)" by fastforce
  note d1 = cutD [OF c1] and d2 = cutD [OF c2]
  have v0: "has_query v = False" "query v = []" "has_fragment v = False" "fragment v = []" "scheme v = sch"
    using v by (auto simp: read_authority_def Let_def empty_url_def rbind_Inr_iff split: if_splits prod.splits)
  have sel: "scheme u = sch" "userinfo u = userinfo v" "host u = host v" "port u = port v"
    "has_authority u = has_authority v" "path u = q2" "has_query u = (qry \<noteq> None)"
    "query u = (case qry of None \<Rightarrow> [] | Some t \<Rightarrow> t)" "has_fragment u = (frag \<noteq> None)"
    "fragment u = (case frag of None \<Rightarrow> [] | Some t \<Rightarrow> t)"
    using v0 by (cases frag; cases qry; simp add: u finish_url_def c1 c2 Let_def)+
  have tails: "CHR ''?'' \<notin> set (path u)" "CHR ''#'' \<notin> set (path u)" "CHR ''#'' \<notin> set (query u)"
    using d1 d2 sel by (auto split: option.splits)
  have schok: "scheme u = [] \<or> scheme_ok (scheme u)"
  proof (cases "looks_schemed s")
    case True
    then obtain a b where s: "s = a @ CHR '':'' # b" "a \<noteq> []" "is_scheme_start (hd a)" "list_all is_scheme_char a"
      by (rule looks_schemedE)
    have "takeWhile (\<lambda>c. c \<noteq> CHR '':'') s = a"
      unfolding s(1) using scheme_ok_no_colon [OF s(4)] by (intro takeWhile_stop) auto
    then have "sch = to_lower a" using sch True by (simp add: read_scheme_eq)
    moreover have "is_scheme_char (lower_char c)" if "is_scheme_char c" for c
      using that is_lower_lower_char [of c]
      by (cases "is_upper c") (auto simp: is_scheme_char_def is_alnum_def ascii_alpha_def)
    ultimately show ?thesis
      using s sel(1) by (auto simp: scheme_ok_def list_all_iff is_scheme_start_def)
  qed (use sch sel(1) in \<open>simp add: read_scheme_eq\<close>)
  have qpath: "path u = [] \<or> hd (path u) = hd q" and qne: "q = [] \<Longrightarrow> path u = []"
    using d1 d2 sel(6) by (auto split: option.splits simp: hd_append)
  show ?thesis
  proof (cases "prefix ''//'' r")
    case True
    let ?a = "takeWhile authority_char (drop 2 r)"
    obtain ui a where ua: "split_userinfo ?a = (ui, a)" by fastforce
    obtain h p' where hp: "split_host a = Inr (h, p')" and
      vq: "v = empty_url\<lparr>scheme := sch, has_authority := True, userinfo := ui, host := to_lower h, port := p'\<rparr>"
        "q = dropWhile authority_char (drop 2 r)"
      using v True ua by (auto simp: read_authority_def rbind_Inr_iff)
    have ui: "CHR ''@'' \<notin> set ui" "set ui \<union> set a \<subseteq> set ?a"
      using ua find_char_Some(3) [of "CHR ''@''" ?a]
      by (auto simp: split_userinfo_def split: option.splits dest: in_set_takeD in_set_dropD)
    note ho = split_host_ok [OF hp]
    have low: "authority_char (lower_char c) = authority_char c" for c
      by (auto simp: authority_char_def lower_char_eq_iff char_class)
    have "\<forall>c\<in>set ui \<union> set h \<union> set p'. authority_char c"
      using ui(2) ho set_takeWhileD [of _ authority_char "drop 2 r"] by auto
    then have "list_all authority_char (userinfo u @ host u @ port u)"
      using sel vq low by (auto simp: list_all_iff)
    moreover have "path u = [] \<or> hd (path u) = CHR ''/''"
    proof (cases q)
      case (Cons x t)
      then have "\<not> authority_char x" using vq(2) dropWhile_head_false by metis
      then show ?thesis using qpath Cons tails by (cases "path u") (auto simp: authority_char_def)
    qed (use qne in simp)
    ultimately show ?thesis
      using at schok tails sel vq ui ho
      by (auto simp: url_ok_def split: option.splits)
  next
    case False
    then have vq: "v = empty_url\<lparr>scheme := sch\<rparr>" "q = r" using v by (simp_all add: read_authority_def)
    have pre: "prefix (path u) r" using d1 d2 sel(6) vq(2) by (auto split: option.splits)
    then have "\<not> prefix ''//'' (path u)" using False prefix_order.trans by blast
    moreover have "\<not> looks_schemed (path u)" if "scheme u = []"
    proof -
      have ns: "\<not> looks_schemed s" and "r = s"
        using that sch sel(1) by (auto simp: read_scheme_eq looks_schemed_def Let_def split: if_splits)
      show ?thesis
      proof
        assume "looks_schemed (path u)"
        then obtain a b where "path u = a @ CHR '':'' # b" "a \<noteq> []" "is_scheme_start (hd a)" "list_all is_scheme_char a"
          by (rule looks_schemedE)
        with pre \<open>r = s\<close> have "looks_schemed s"
          using looks_schemed_split by (auto simp: prefix_def)
        with ns show False by simp
      qed
    qed
    ultimately show ?thesis
      using schok tails sel vq by (auto simp: url_ok_def empty_url_def split: option.splits)
  qed
qed

section \<open>Dot segments on segment lists\<close>

definition seg_ok :: "string \<Rightarrow> bool" where
  "seg_ok s \<longleftrightarrow> CHR ''/'' \<notin> set s"

definition path_of :: "string list \<Rightarrow> string" where
  "path_of ss = concat (map (\<lambda>s. CHR ''/'' # s) ss)"

text \<open>The segments of a path; the first one is what precedes the first slash.\<close>

fun segments :: "string \<Rightarrow> string list" where
  "segments [] = [[]]"
| "segments (c # s) = (if c = CHR ''/'' then [] # segments s
     else (c # hd (segments s)) # tl (segments s))"

lemma segments_nonempty [simp]: "segments s \<noteq> []"
  by (cases s) auto

lemma segments_join: "hd (segments s) @ path_of (tl (segments s)) = s"
proof (induction s)
  case (Cons c s)
  then show ?case by (cases "segments s") (auto simp: path_of_def)
qed (simp add: path_of_def)

lemma segments_ok: "list_all seg_ok (segments s)"
proof (induction s)
  case (Cons c s)
  then show ?case by (cases "segments s") (auto simp: seg_ok_def)
qed (simp add: seg_ok_def)

lemma segments_slash: "seg_ok h \<Longrightarrow> segments (h @ CHR ''/'' # t) = h # segments t"
  by (induction h) (auto simp: seg_ok_def)

lemma segments_single: "seg_ok h \<Longrightarrow> segments h = [h]"
  by (induction h) (auto simp: seg_ok_def)

lemma segments_path: "seg_ok h \<Longrightarrow> list_all seg_ok ss \<Longrightarrow> segments (h @ path_of ss) = h # ss"
proof (induction ss arbitrary: h)
  case Nil
  then show ?case by (simp add: path_of_def segments_single)
next
  case (Cons s ss)
  then have "segments (h @ CHR ''/'' # s @ path_of ss) = h # segments (s @ path_of ss)"
    by (intro segments_slash) simp
  with Cons show ?case by (simp add: path_of_def)
qed

text \<open>
  The reference: the segments resolved so far are \<open>h\<close>, which no slash precedes, and \<open>out\<close>; a dot is
  dropped, a double dot drops the last segment, and either of them at the end leaves a slash.
\<close>

fun resolve_dots :: "string \<Rightarrow> string list \<Rightarrow> string list \<Rightarrow> string \<times> string list" where
  "resolve_dots h out [] = (h, out)"
| "resolve_dots h out (s # ss) =
     (if s = ''.'' then (if ss = [] then (h, out @ [[]]) else resolve_dots h out ss)
      else if s = ''..'' then
        (let (h', out') = (if out = [] then ([], []) else (h, butlast out))
         in if ss = [] then (h', out' @ [[]]) else resolve_dots h' out' ss)
      else resolve_dots h (out @ [s]) ss)"

lemma path_of_simps [simp]: "path_of [] = []" "path_of (s # ss) = CHR ''/'' # s @ path_of ss"
  "path_of (ss @ ts) = path_of ss @ path_of ts"
  by (simp_all add: path_of_def)

lemma drop_last_segment_path:
  assumes "seg_ok h" and "list_all seg_ok out"
  shows "drop_last_segment (h @ path_of out) = (if out = [] then [] else h @ path_of (butlast out))"
proof (cases out rule: rev_cases)
  case Nil
  with assms show ?thesis by (simp add: drop_last_segment_def find_last_char_none seg_ok_def)
next
  case (snoc ys y)
  then have "CHR ''/'' \<notin> set y" using assms by (simp add: seg_ok_def)
  from find_last_char_append [OF this, of "h @ path_of ys"] snoc show ?thesis
    by (simp add: drop_last_segment_def)
qed

lemma seg_prefix:
  assumes "seg_ok s" and "seg_ok d"
  shows "prefix (d @ ''/'') (s @ path_of ss) \<longleftrightarrow> s = d \<and> ss \<noteq> []"
    and "s @ path_of ss = d \<longleftrightarrow> s = d \<and> ss = []"
proof -
  show "s @ path_of ss = d \<longleftrightarrow> s = d \<and> ss = []"
    using assms(2) by (cases ss) (auto simp: seg_ok_def)
  show "prefix (d @ ''/'') (s @ path_of ss) \<longleftrightarrow> s = d \<and> ss \<noteq> []"
  proof
    assume "prefix (d @ ''/'') (s @ path_of ss)"
    then obtain t where t: "s @ path_of ss = d @ CHR ''/'' # t" by (auto simp: prefix_def)
    have "takeWhile (\<lambda>c. c \<noteq> CHR ''/'') (d @ CHR ''/'' # t) = d"
      using assms(2) by (intro takeWhile_stop) (auto simp: seg_ok_def)
    moreover have "takeWhile (\<lambda>c. c \<noteq> CHR ''/'') (s @ path_of ss) = s"
      using assms(1) by (cases ss) (auto simp: seg_ok_def takeWhile_eq_all_conv intro!: takeWhile_stop)
    moreover have "ss \<noteq> []" using t assms(1) by (auto simp: seg_ok_def)
    ultimately show "s = d \<and> ss \<noteq> []" using t by simp
  next
    assume "s = d \<and> ss \<noteq> []"
    then show "prefix (d @ ''/'') (s @ path_of ss)" by (cases ss) auto
  qed
qed

lemma seg_takeWhile: "seg_ok s \<Longrightarrow> takeWhile (\<lambda>c. c \<noteq> CHR ''/'') s = s"
  by (auto simp: takeWhile_eq_all_conv seg_ok_def)

lemma first_segment_path: "seg_ok s \<Longrightarrow> first_segment (CHR ''/'' # s @ path_of ss) = Suc (length s)"
  using seg_takeWhile [of s]
  by (cases ss) (simp_all add: first_segment_def seg_ok_def takeWhile_append del: takeWhile_eq_all_conv)

lemma dots_loop_Nil [simp]: "dots_loop out [] = out"
  by (subst dots_loop.simps) simp

lemma dots_loop_path:
  "seg_ok h \<Longrightarrow> list_all seg_ok out \<Longrightarrow> list_all seg_ok ss \<Longrightarrow>
   dots_loop (h @ path_of out) (path_of ss) = (case resolve_dots h out ss of (h', out') \<Rightarrow> h' @ path_of out')"
proof (induction h out ss rule: resolve_dots.induct)
  case (1 h out)
  then show ?case by (simp add: dots_loop.simps)
next
  case (2 h out s ss)
  let ?p = "CHR ''/'' # s @ path_of ss"
  have s: "seg_ok s" and dots: "seg_ok ''.''" "seg_ok ''..''" "seg_ok []" using "2.prems" by (auto simp: seg_ok_def)
  have c: "prefix ''/./'' ?p \<longleftrightarrow> s = ''.'' \<and> ss \<noteq> []" "?p = ''/.'' \<longleftrightarrow> s = ''.'' \<and> ss = []"
    "prefix ''/../'' ?p \<longleftrightarrow> s = ''..'' \<and> ss \<noteq> []" "?p = ''/..'' \<longleftrightarrow> s = ''..'' \<and> ss = []"
    using seg_prefix [OF s dots(1)] seg_prefix [OF s dots(2)] by simp_all
  have n: "\<not> prefix ''../'' ?p" "\<not> prefix ''./'' ?p" "?p \<noteq> ''.''" "?p \<noteq> ''..''" "?p \<noteq> []" by simp_all
  have slash: "dots_loop o' ''/'' = o' @ ''/''" for o'
    by (simp add: dots_loop.simps first_segment_def)
  have unf: "dots_loop o' ?p =
     (if s = ''.'' then (if ss \<noteq> [] then dots_loop o' (drop 2 ?p) else o' @ ''/'')
      else if s = ''..'' then (if ss \<noteq> [] then dots_loop (drop_last_segment o') (drop 3 ?p) else drop_last_segment o' @ ''/'')
      else dots_loop (o' @ CHR ''/'' # s) (path_of ss))" for o'
    unfolding dots_loop.simps [of o' ?p] c if_not_P [OF n(5)] if_not_P [OF n(1)] if_not_P [OF n(2)]
    using n first_segment_path [OF s, of ss] by (auto simp: slash)
  have bl: "list_all seg_ok (butlast out)"
    using "2.prems"(2) by (auto simp: list_all_iff dest: in_set_butlastD)
  show ?case
    using "2.prems" "2.IH" bl unf [of "h @ path_of out"] dots
    by (simp add: drop_last_segment_path Let_def split: if_splits)
qed

text \<open>The whole function: leading dot segments of a relative path are dropped first.\<close>

fun resolve_path :: "string list \<Rightarrow> string \<times> string list" where
  "resolve_path [] = ([], [])"
| "resolve_path (x # ss) =
     (if x = [] then resolve_dots [] [] ss
      else if x = ''.'' \<or> x = ''..'' then resolve_path ss
      else resolve_dots x [] ss)"

definition seg_good :: "string \<Rightarrow> bool" where
  "seg_good s \<longleftrightarrow> seg_ok s \<and> s \<noteq> ''.'' \<and> s \<noteq> ''..''"

lemma resolve_dots_good:
  "seg_good h \<Longrightarrow> list_all seg_good out \<Longrightarrow> list_all seg_ok ss \<Longrightarrow>
   seg_good (fst (resolve_dots h out ss)) \<and> list_all seg_good (snd (resolve_dots h out ss))"
proof (induction h out ss rule: resolve_dots.induct)
  case (2 h out s ss)
  have g: "list_all seg_good (butlast out)" "seg_good []"
    using "2.prems"(2) by (auto simp: list_all_iff seg_good_def seg_ok_def dest: in_set_butlastD)
  consider "s = ''.''" | "s = ''..''" | (other) "s \<noteq> ''.''" "s \<noteq> ''..''" by blast
  then show ?case
  proof cases
    case 1
    with 2 g show ?thesis by simp
  next
    case two: 2
    with 2 g show ?thesis by (simp add: Let_def)
  next
    case other
    then have "seg_good s" using "2.prems"(3) by (simp add: seg_good_def)
    with 2 other show ?thesis by simp
  qed
qed simp

lemma resolve_path_good:
  "list_all seg_ok ss \<Longrightarrow> seg_good (fst (resolve_path ss)) \<and> list_all seg_good (snd (resolve_path ss))"
proof (induction ss)
  case (Cons x ss)
  have "seg_good []" by (simp add: seg_good_def seg_ok_def)
  moreover have "seg_good x" if "x \<noteq> ''.''" "x \<noteq> ''..''" using that Cons.prems by (simp add: seg_good_def)
  ultimately show ?case
    using Cons resolve_dots_good [of "[]" "[]" ss] resolve_dots_good [of x "[]" ss] by simp
qed (simp add: seg_good_def seg_ok_def)

lemma resolve_dots_idem: "list_all seg_good ss \<Longrightarrow> resolve_dots h out ss = (h, out @ ss)"
  by (induction ss arbitrary: out) (auto simp: seg_good_def)

lemma dots_loop_relative:
  "seg_ok x \<Longrightarrow> list_all seg_ok ss \<Longrightarrow>
   dots_loop [] (x @ path_of ss) = (case resolve_path (x # ss) of (h, out) \<Rightarrow> h @ path_of out)"
proof (induction ss arbitrary: x)
  case Nil
  have "dots_loop [] x = x" if "x \<noteq> []" "x \<noteq> ''.''" "x \<noteq> ''..''"
  proof -
    have "\<not> prefix d x" if "CHR ''/'' \<in> set d" for d
      using that Nil.prems(1) set_mono_prefix by (auto simp: seg_ok_def)
    then have "\<not> prefix ''../'' x" "\<not> prefix ''./'' x" "\<not> prefix ''/./'' x" "\<not> prefix ''/../'' x" by simp_all
    moreover have "x \<noteq> ''/.''" "x \<noteq> ''/..''" using Nil.prems(1) by (auto simp: seg_ok_def)
    moreover have "hd x \<noteq> CHR ''/''" using Nil.prems(1) that(1) by (cases x) (auto simp: seg_ok_def)
    then have "first_segment x = length x"
      using seg_takeWhile [OF Nil.prems(1)] by (simp add: first_segment_def del: takeWhile_eq_all_conv)
    ultimately show ?thesis using that by (subst dots_loop.simps) simp
  qed
  moreover have "dots_loop [] ''.'' = []" "dots_loop [] ''..'' = []"
    by (subst dots_loop.simps, simp)+
  ultimately show ?case by auto
next
  case (Cons s ss)
  let ?p = "x @ CHR ''/'' # s @ path_of ss"
  have dots: "seg_ok ''.''" "seg_ok ''..''" by (simp_all add: seg_ok_def)
  have IH: "dots_loop [] (s @ path_of ss) = (case resolve_path (s # ss) of (h, out) \<Rightarrow> h @ path_of out)"
    using Cons by simp
  consider "x = []" | "x = ''.'' \<or> x = ''..''" | (seg) "x \<noteq> []" "x \<noteq> ''.''" "x \<noteq> ''..''" by blast
  then show ?case
  proof cases
    case 1
    have "seg_ok []" by (simp add: seg_ok_def)
    with 1 dots_loop_path [of "[]" "[]" "s # ss"] Cons.prems show ?thesis
      by (simp del: resolve_dots.simps)
  next
    case 2
    then have "dots_loop [] ?p = dots_loop [] (s @ path_of ss)" by (subst dots_loop.simps) auto
    with 2 IH show ?thesis by auto
  next
    case seg
    obtain c r where x: "x = c # r" and c: "c \<noteq> CHR ''/''" using seg(1) Cons.prems by (cases x) (auto simp: seg_ok_def)
    have "\<not> prefix ''../'' ?p" "\<not> prefix ''./'' ?p"
      using seg_prefix(1) [OF Cons.prems(1) dots(1), of "s # ss"] seg_prefix(1) [OF Cons.prems(1) dots(2), of "s # ss"] seg
      by simp_all
    moreover have "\<not> prefix ''/./'' ?p" "\<not> prefix ''/../'' ?p" "?p \<noteq> ''/.''" "?p \<noteq> ''/..''" "?p \<noteq> ''.''" "?p \<noteq> ''..''"
      using x c by (cases r; auto)+
    moreover have "first_segment ?p = length x"
      using x c Cons.prems(1) by (simp add: first_segment_def seg_ok_def takeWhile_append)
    ultimately have "dots_loop [] ?p = dots_loop x (path_of (s # ss))"
      by (subst dots_loop.simps) simp
    with seg dots_loop_path [of x "[]" "s # ss"] Cons.prems show ?thesis by simp
  qed
qed

lemma remove_dot_segments_eq:
  "remove_dot_segments p = (case resolve_path (segments p) of (h, out) \<Rightarrow> h @ path_of out)"
proof -
  obtain x ss where s: "segments p = x # ss" by (cases "segments p") auto
  then have "p = x @ path_of ss" "seg_ok x" "list_all seg_ok ss"
    using segments_join [of p] segments_ok [of p] by simp_all
  with dots_loop_relative [of x ss] s show ?thesis by (simp add: remove_dot_segments_def)
qed

lemma remove_dot_segments_good: "list_all seg_good (segments (remove_dot_segments p))"
proof -
  obtain h out where r: "resolve_path (segments p) = (h, out)" by fastforce
  from resolve_path_good [OF segments_ok, of p] r have "seg_good h" "list_all seg_good out" by simp_all
  moreover have "segments (h @ path_of out) = h # out"
    using calculation by (intro segments_path) (auto simp: seg_good_def list_all_iff)
  ultimately show ?thesis by (simp add: remove_dot_segments_eq r)
qed

lemma remove_dot_segments_good_id: "list_all seg_good (segments p) \<Longrightarrow> remove_dot_segments p = p"
proof -
  assume g: "list_all seg_good (segments p)"
  obtain x ss where s: "segments p = x # ss" by (cases "segments p") auto
  have "resolve_path (x # ss) = (x, ss)"
    using g s by (auto simp: resolve_dots_idem seg_good_def)
  with s segments_join [of p] show ?thesis by (simp add: remove_dot_segments_eq)
qed

lemma remove_dot_segments_idem: "remove_dot_segments (remove_dot_segments p) = remove_dot_segments p"
  by (rule remove_dot_segments_good_id [OF remove_dot_segments_good])

text \<open>
  C10: \<open>remove_dot_segments\<close>, which rewrites a string prefix by prefix, agrees for every path with
  the resolution of the list of its segments (a dot is dropped, a double dot drops the segment
  before it); its result contains no dot segment at all, and applying it again changes nothing.
\<close>

theorem remove_dot_segments_correct:
  "remove_dot_segments p = (case resolve_path (segments p) of (h, out) \<Rightarrow> h @ path_of out) \<and>
   ''.'' \<notin> set (segments (remove_dot_segments p)) \<and> ''..'' \<notin> set (segments (remove_dot_segments p)) \<and>
   remove_dot_segments (remove_dot_segments p) = remove_dot_segments p"
  using remove_dot_segments_good [of p] remove_dot_segments_idem [of p]
  by (auto simp: remove_dot_segments_eq [of p] seg_good_def list_all_iff)


definition sample_url :: url where
  "sample_url = empty_url\<lparr>scheme := ''http'', has_authority := True, userinfo := ''me'', host := ''ex.org'',
     port := ''8080'', path := ''/a'', has_query := True, query := ''q=1''\<rparr>"

lemmas url_eval = parse_url_def read_scheme_def read_authority_def split_userinfo_def split_host_def cut_at_def
  find_char_def authority_char_def is_scheme_start_def is_scheme_char_def lower_char_def byte_def char_class empty_url_def

lemma sample_url_parse: "parse_url ''http://me@ex.org:8080/a?q=1'' = Inr sample_url"
  by (simp add: url_eval sample_url_def)


section \<open>Normalization\<close>

lemma remove_dot_segments_chars: "set (remove_dot_segments p) \<subseteq> insert (CHR ''/'') (set p)"
proof -
  have h: "set (fst (resolve_dots h out ss)) \<union> \<Union> (set ` set (snd (resolve_dots h out ss)))
      \<subseteq> set h \<union> \<Union> (set ` set (out @ ss))" for h out ss
  proof (induction h out ss rule: resolve_dots.induct)
    case (2 h out s ss)
    have b: "\<Union> (set ` set (butlast out)) \<subseteq> \<Union> (set ` set out)" by (auto dest: in_set_butlastD)
    consider "s = ''.''" | "s = ''..''" "out = []" | "s = ''..''" "out \<noteq> []" | (other) "s \<noteq> ''.''" "s \<noteq> ''..''" by blast
    then show ?case
    proof cases
      case 1
      with "2.IH"(1) show ?thesis by auto
    next
      case two: 2
      with "2.IH"(2) [OF _ _ refl] show ?thesis by (cases "ss = []") auto
    next
      case 3
      with "2.IH"(2) [OF _ _ refl] b show ?thesis by (cases "ss = []") (simp_all, blast+)
    next
      case other
      with "2.IH"(3) show ?thesis by simp
    qed
  qed simp
  have "set (fst (resolve_path ss)) \<union> \<Union> (set ` set (snd (resolve_path ss))) \<subseteq> \<Union> (set ` set ss)" for ss
  proof (induction ss)
    case (Cons x ss)
    then show ?case using h [of "[]" "[]" ss] h [of x "[]" ss] by (auto split: if_splits)
  qed simp
  moreover have "set (path_of ss) \<subseteq> insert (CHR ''/'') (\<Union> (set ` set ss))" for ss
    by (induction ss) auto
  moreover have "\<Union> (set ` set (segments p)) \<subseteq> set p"
  proof (induction p)
    case (Cons c p)
    then show ?case by (cases "segments p") auto
  qed simp
  ultimately have "set (fst (resolve_path (segments p)) @ path_of (snd (resolve_path (segments p))))
      \<subseteq> insert (CHR ''/'') (set p)"
    unfolding set_append by (meson Un_least Un_subset_iff insert_mono order_trans subset_insertI2)
  then show ?thesis by (simp add: remove_dot_segments_eq case_prod_beta)
qed

lemma remove_dot_segments_abs:
  assumes "p = [] \<or> hd p = CHR ''/''"
  shows "remove_dot_segments p = [] \<or> hd (remove_dot_segments p) = CHR ''/''"
proof (cases p)
  case Nil
  then show ?thesis by (simp add: remove_dot_segments_eq)
next
  case (Cons c q)
  then have c: "c = CHR ''/''" using assms by simp
  have "fst (resolve_dots [] out ss) = []" for out ss
    by (induction "[] :: string" out ss rule: resolve_dots.induct) (auto simp: Let_def)
  with Cons c show ?thesis
    by (cases "snd (resolve_dots [] [] (segments q))") (auto simp: remove_dot_segments_eq case_prod_beta)
qed

lemma normalize_ok:
  assumes ok: "url_ok u" and auth: "has_authority u"
  shows "url_ok (normalize u)" "has_authority (normalize u)" "normalize (normalize u) = normalize u"
proof -
  have low: "to_lower (scheme u) = scheme u" "to_lower (host u) = host u"
    using ok auth by (auto simp: url_ok_def scheme_ok_def host_ok_def)
  let ?p = "remove_dot_segments (path u)"
  have abs: "?p = [] \<or> hd ?p = CHR ''/''"
    using ok auth by (intro remove_dot_segments_abs) (simp add: url_ok_def)
  have chars: "CHR ''?'' \<notin> set ?p" "CHR ''#'' \<notin> set ?p"
    using remove_dot_segments_chars [of "path u"] ok by (auto simp: url_ok_def)
  let ?port = "if scheme u = ''http'' \<and> port u = ''80'' \<or> scheme u = ''https'' \<and> port u = ''443'' then [] else port u"
  have eq: "normalize u = u\<lparr>path := if ?p = [] then ''/'' else ?p, port := ?port\<rparr>"
    by (rule url.equality) (simp_all add: normalize_def Let_def low auth)
  show "has_authority (normalize u)" by (simp add: eq auth)
  show "url_ok (normalize u)"
    using ok auth abs chars by (auto simp: eq url_ok_def)
  have "remove_dot_segments ''/'' = ''/''"
    by (rule remove_dot_segments_good_id) (simp add: seg_good_def seg_ok_def)
  then have path: "remove_dot_segments (path (normalize u)) = path (normalize u)" "path (normalize u) \<noteq> []"
    by (simp_all add: eq remove_dot_segments_idem)
  have port: "\<not> (scheme (normalize u) = ''http'' \<and> port (normalize u) = ''80'' \<or>
      scheme (normalize u) = ''https'' \<and> port (normalize u) = ''443'')"
    by (simp add: eq)
  have low': "to_lower (scheme (normalize u)) = scheme (normalize u)" "to_lower (host (normalize u)) = host (normalize u)"
    using low by (simp_all add: eq)
  show "normalize (normalize u) = normalize u"
    unfolding normalize_def [of "normalize u"] Let_def low' path(1) using port path(2) by simp
qed

text \<open>
  Normalization is idempotent on URLs with an authority: normalizing the normalized form
  changes nothing.
\<close>

theorem normalize_url_idempotent:
  assumes "parse_url s = Inr u" and "has_authority u"
    and "userinfo u \<noteq> [] \<or> CHR ''@'' \<notin> set (host u @ port u)"
  shows "\<exists>t. normalize_url s = Inr t \<and> normalize_url t = Inr t"
proof -
  have ok: "url_ok u" by (rule parse_url_ok [OF assms(1,3)])
  note n = normalize_ok [OF ok assms(2)]
  have "normalize_url s = Inr (to_string (normalize u))" by (simp add: normalize_url_def assms(1))
  moreover have "normalize_url (to_string (normalize u)) = Inr (to_string (normalize u))"
    by (simp add: normalize_url_def parse_print [OF n(1)] n(3))
  ultimately show ?thesis by blast
qed

theorem normalize_url_idempotent_witness:
  "\<exists>t. normalize_url ''http://me@ex.org:8080/a?q=1'' = Inr t \<and> normalize_url t = Inr t"
  using normalize_url_idempotent [OF sample_url_parse] by (simp add: sample_url_def)

text \<open>
  Without an authority normalization is not idempotent and not safe: removing dot segments can
  leave a path that starts with two slashes, which the printed form presents as an authority.
\<close>

theorem normalize_url_invents_authority:
  "(case parse_url ''x:/..//evil'' of Inl e \<Rightarrow> False | Inr u \<Rightarrow> \<not> has_authority u) \<and>
   normalize_url ''x:/..//evil'' = Inr ''x://evil'' \<and>
   (case parse_url ''x://evil'' of Inl e \<Rightarrow> False | Inr u \<Rightarrow> has_authority u \<and> host u = ''evil'')"
proof -
  have "remove_dot_segments ''/..//evil'' = ''//evil''"
    by (simp add: remove_dot_segments_eq)
  moreover have p: "parse_url ''x:/..//evil'' = Inr (empty_url\<lparr>scheme := ''x'', path := ''/..//evil''\<rparr>)"
    by (simp add: url_eval)
  moreover have "parse_url ''x://evil'' = Inr (empty_url\<lparr>scheme := ''x'', has_authority := True, host := ''evil''\<rparr>)"
    by (simp add: url_eval)
  ultimately show ?thesis
    by (simp add: normalize_url_def normalize_def to_string_def empty_url_def lower_char_def char_class)
qed

end
