(* ===== verification/Dom_Document.thy ===== *)
theory Dom_Document
  imports Dom_Element Html_Parser Url
begin

text \<open>
  The \<open>Document\<close> class of \<^verbatim>\<open>dom.cpp\<close>: a root handle with the URL of the document, and the discovery
  helpers on top of selector queries.  The second half runs the mutating operations of the two
  classes in any order: \<open>dom_step\<close> is one call on handles obtained before, and the store reached
  from a parsed document stays well-formed.
\<close>

record document =
  doc_root :: handle
  doc_url :: string
  doc_base_url :: string

definition document_query_selector :: "dom \<Rightarrow> document \<Rightarrow> string \<Rightarrow> handle result option" where
  "document_query_selector d doc sel =
     (case doc_root doc of None \<Rightarrow> Some (Inr None) | Some r \<Rightarrow> query_selector d r sel True)"

definition document_query_selector_all :: "dom \<Rightarrow> document \<Rightarrow> string \<Rightarrow> nat list result option" where
  "document_query_selector_all d doc sel =
     (case doc_root doc of None \<Rightarrow> Some (Inr []) | Some r \<Rightarrow> query_selector_all d r sel True)"

definition resolve_or :: "string \<Rightarrow> string \<Rightarrow> string" where
  "resolve_or base ref = (case resolve_url base ref of Inr u \<Rightarrow> u | Inl _ \<Rightarrow> ref)"

definition base_url :: "dom \<Rightarrow> document \<Rightarrow> string result option" where
  "base_url d doc =
     (if doc_base_url doc \<noteq> [] then Some (Inr (doc_base_url doc))
      else obind (document_query_selector d doc ''base[href]'') (\<lambda>base.
        let href = element_attribute d base ''href'' in
        if base \<noteq> None \<and> href \<noteq> []
        then Some (Inr (if doc_url doc = [] then href else resolve_or (doc_url doc) href))
        else Some (Inr (doc_url doc))))"

definition title :: "dom \<Rightarrow> document \<Rightarrow> string result option" where
  "title d doc =
     obind (document_query_selector d doc ''title'') (\<lambda>t.
       if t \<noteq> None then map_option Inr (element_text d t)
       else obind (document_query_selector d doc (''meta[property='' @ [CHR 0x27] @ ''og:title'' @ [CHR 0x27, CHR '']''])) (\<lambda>m.
         if m \<noteq> None then Some (Inr (element_attribute d m ''content'')) else Some (Inr [])))"

definition document_text :: "dom \<Rightarrow> document \<Rightarrow> string option" where
  "document_text d doc = (case doc_root doc of None \<Rightarrow> Some [] | Some r \<Rightarrow> text_content d r)"

definition document_html :: "dom \<Rightarrow> document \<Rightarrow> string option" where
  "document_html d doc = (case doc_root doc of None \<Rightarrow> Some [] | Some r \<Rightarrow> serialize d r)"

text \<open>The recursive scan of \<open>get_element_by_id\<close>, on the tree of the addresses it visits.\<close>

fun scan_id :: "dom \<Rightarrow> string \<Rightarrow> itree \<Rightarrow> handle" where
  "scan_id d nm (INode i ts) =
     (if is_element (node_at d i) \<and> attribute_of (node_at d i) ''id'' = Some nm then Some i
      else fold (\<lambda>t r. if r \<noteq> None then r else scan_id d nm t) ts None)"

definition get_element_by_id :: "dom \<Rightarrow> document \<Rightarrow> string \<Rightarrow> handle option" where
  "get_element_by_id d doc nm =
     (case doc_root doc of
        None \<Rightarrow> Some None
      | Some r \<Rightarrow> if nm = [] then Some None else map_option (scan_id d nm) (itree_at d r))"

definition get_elements_by_tag_name :: "dom \<Rightarrow> document \<Rightarrow> string \<Rightarrow> nat list result option" where
  "get_elements_by_tag_name d doc tg =
     (let nm = to_lower tg in
      obind (document_query_selector_all d doc ''*'') (\<lambda>es.
        Some (Inr (if nm \<noteq> ''*'' then filter (\<lambda>e. tag_name d (Some e) = nm) es else es))))"

definition document_links :: "dom \<Rightarrow> document \<Rightarrow> nat list result option" where
  "document_links d doc = document_query_selector_all d doc ''a[href], area[href]''"

definition forms :: "dom \<Rightarrow> document \<Rightarrow> nat list result option" where
  "forms d doc = document_query_selector_all d doc ''form''"

definition scripts :: "dom \<Rightarrow> document \<Rightarrow> nat list result option" where
  "scripts d doc = document_query_selector_all d doc ''script''"

definition resource_reference :: "dom \<Rightarrow> nat \<Rightarrow> string" where
  "resource_reference d e =
     (let src = element_attribute d (Some e) ''src'' in
      if src = [] then element_attribute d (Some e) ''href'' else src)"

text \<open>One round of the loop: a failing \<open>base_url\<close> and a failing resolution are both caught.\<close>

definition resource_url :: "dom \<Rightarrow> document \<Rightarrow> string \<Rightarrow> string option" where
  "resource_url d doc ref =
     (case base_url d doc of
        None \<Rightarrow> None
      | Some (Inl _) \<Rightarrow> Some ref
      | Some (Inr base) \<Rightarrow> Some (if base = [] then ref else resolve_or base ref))"

definition resource_urls :: "dom \<Rightarrow> document \<Rightarrow> string list result option" where
  "resource_urls d doc =
     obind (document_query_selector_all d doc
       ''script[src], link[href], img[src], source[src], iframe[src], video[src], audio[src]'') (\<lambda>es.
         map_option Inr (those (map (resource_url d doc) (filter (\<lambda>r. r \<noteq> []) (map (resource_reference d) es)))))"

definition meta_key :: "dom \<Rightarrow> nat \<Rightarrow> string" where
  "meta_key d m =
     (let k1 = element_attribute d (Some m) ''name'';
          k2 = (if k1 = [] then element_attribute d (Some m) ''property'' else k1)
      in if k2 = [] then element_attribute d (Some m) ''http-equiv'' else k2)"

definition add_meta :: "dom \<Rightarrow> nat \<Rightarrow> (string \<rightharpoonup> string) \<Rightarrow> (string \<rightharpoonup> string)" where
  "add_meta d m md =
     (let key = meta_key d m;
          content = element_attribute d (Some m) ''content'';
          md1 = (if key \<noteq> [] then md(key \<mapsto> content) else md);
          charset = element_attribute d (Some m) ''charset''
      in if charset \<noteq> [] then md1(''charset'' \<mapsto> charset) else md1)"

definition metadata :: "dom \<Rightarrow> document \<Rightarrow> (string \<rightharpoonup> string) result option" where
  "metadata d doc =
     obind (title d doc) (\<lambda>page_title.
       let md = (if page_title \<noteq> [] then Map.empty(''title'' \<mapsto> page_title) else Map.empty) in
       obind (document_query_selector_all d doc ''meta'') (\<lambda>ms.
         let md1 = fold (add_meta d) ms md in
         obind (document_query_selector d doc ''html'') (\<lambda>html.
           Some (Inr (if html \<noteq> None \<and> has_attribute d html ''lang''
             then md1(''lang'' \<mapsto> element_attribute d html ''lang'') else md1)))))"

definition create_element :: "string \<Rightarrow> dom \<Rightarrow> nat \<times> dom" where
  "create_element tg d =
     (let (i, d1) = make_node Element d in (i, update_node i (\<lambda>n. n\<lparr>nname := to_lower tg\<rparr>) d1))"

definition set_mutation_listener :: "document \<Rightarrow> bool \<Rightarrow> dom \<Rightarrow> dom" where
  "set_mutation_listener doc listener d =
     (case doc_root doc of None \<Rightarrow> d | Some r \<Rightarrow> update_node r (\<lambda>n. n\<lparr>has_sink := listener\<rparr>) d)"

definition parse_html :: "string \<Rightarrow> string \<Rightarrow> string \<Rightarrow> (dom \<times> document) result" where
  "parse_html html u b =
     rbind (parse_html_tree html) (\<lambda>d. Inr (d, \<lparr>doc_root = Some 0, doc_url = u, doc_base_url = b\<rparr>))"

section \<open>Finding elements\<close>

lemma fold_found: "fold (\<lambda>t r. if \<exists>y. r = Some y then r else f t) ts (Some a) = Some a"
  by (induction ts) auto

lemma find_concat_fold:
  "(\<And>t. t \<in> set ts \<Longrightarrow> f t = find P (g t)) \<Longrightarrow>
   fold (\<lambda>t r. if r \<noteq> None then r else f t) ts None = find P (concat (map g ts))"
proof (induction ts)
  case (Cons t ts)
  have "find P (xs @ ys) = (if find P xs \<noteq> None then find P xs else find P ys)" for xs ys
    by (induction xs) auto
  with Cons show ?case by (cases "f t") (auto simp: fold_found)
qed simp

lemma scan_id_preorder:
  "scan_id d nm t = find (\<lambda>i. is_element (node_at d i) \<and> attribute_of (node_at d i) ''id'' = Some nm) (preorder t)"
proof (induction t)
  case (INode i ts)
  let ?P = "\<lambda>i. is_element (node_at d i) \<and> attribute_of (node_at d i) ''id'' = Some nm"
  have "fold (\<lambda>t r. if r \<noteq> None then r else scan_id d nm t) ts None = find ?P (concat (map preorder ts))"
    by (rule find_concat_fold) (rule INode)
  then show ?case by simp
qed

lemma matches_universal: "matches d i [ComplexSelector [Compound True [] [] [] [] []] []] = Inr (is_element (node_at d i))"
  by (simp add: matches_def matches_with_def initial_budget_def match_simple_def match_ids_def match_classes_def)

lemma universal_query:
  assumes "dom_wf d" and "r < size_dom d"
  shows "\<exists>t. itree_at d r = Some t \<and> links d t \<and> iroot t = r \<and>
    query_selector_all d r ''*'' True = Some (Inr (filter (\<lambda>i. is_element (node_at d i)) (preorder t)))"
proof -
  let ?s = "[ComplexSelector [Compound True [] [] [] [] []] []]"
  obtain t where t: "itree_at d r = Some t" "links d t" "iroot t = r"
    and c: "collect d r ?s False True = Some (scan (selector_matches d ?s) False [] (preorder t))"
    using collect_preorder [OF assms, of ?s False True] by auto
  have "scan (selector_matches d ?s) False [] (preorder t) = Inr (filter (\<lambda>i. is_element (node_at d i)) (preorder t))"
    by (subst scan_no_error [of _ _ "\<lambda>i. is_element (node_at d i)"]) (simp_all add: selector_matches_def matches_universal)
  with t c show ?thesis by (simp add: query_selector_all_def parse_universal)
qed

text \<open>
  Looking elements up.  On a well-formed store with a root, let \<open>ns\<close> be the nodes below the
  root in document order.  \<open>get_element_by_id\<close> returns the first element of \<open>ns\<close> with that id (none for
  the empty id), and \<open>get_elements_by_tag_name\<close> returns, without ever exhausting the matching budget,
  exactly the elements of \<open>ns\<close> whose name is the lower-cased tag, all elements for the tag \<open>*\<close>.
\<close>

theorem element_lookup:
  assumes "dom_wf d" and "doc_root doc = Some r" and "r < size_dom d"
  shows "\<exists>ns. distinct ns \<and> set ns = {j. (r, j) \<in> (parent_rel d)\<^sup>*} \<and>
    (\<exists>t. itree_at d r = Some t \<and> ns = preorder t) \<and>
    get_element_by_id d doc nm = Some (if nm = [] then None
      else find (\<lambda>i. is_element (node_at d i) \<and> attribute_of (node_at d i) ''id'' = Some nm) ns) \<and>
    get_elements_by_tag_name d doc tg =
      Some (Inr (filter (\<lambda>i. is_element (node_at d i) \<and> (to_lower tg = ''*'' \<or> nname (node_at d i) = to_lower tg)) ns))"
proof -
  obtain t where t: "itree_at d r = Some t" "links d t" "iroot t = r"
    and all: "query_selector_all d r ''*'' True = Some (Inr (filter (\<lambda>i. is_element (node_at d i)) (preorder t)))"
    using universal_query [OF assms(1,3)] by blast
  have "get_elements_by_tag_name d doc tg = Some (Inr (filter (\<lambda>i. is_element (node_at d i) \<and>
      (to_lower tg = ''*'' \<or> nname (node_at d i) = to_lower tg)) (preorder t)))"
    using assms(2) all
    by (auto simp: get_elements_by_tag_name_def document_query_selector_all_def obind_def tag_name_def Let_def
        intro!: filter_cong)
  moreover have "get_element_by_id d doc nm = Some (if nm = [] then None
      else find (\<lambda>i. is_element (node_at d i) \<and> attribute_of (node_at d i) ''id'' = Some nm) (preorder t))"
    using assms(2) t(1) by (simp add: get_element_by_id_def scan_id_preorder)
  ultimately show ?thesis
    using t preorder_distinct [OF assms(1) t(2)] preorder_descendants [OF assms(1) t(2)]
    by (intro exI [of _ "preorder t"]) simp
qed

theorem element_lookup_witness:
  "\<exists>ns. set ns = {j. (0, j) \<in> (parent_rel sample_dom)\<^sup>*} \<and>
    get_elements_by_tag_name sample_dom \<lparr>doc_root = Some 0, doc_url = [], doc_base_url = []\<rparr> ''p'' =
      Some (Inr (filter (\<lambda>i. is_element (node_at sample_dom i) \<and> nname (node_at sample_dom i) = ''p'') ns))"
proof -
  have "0 < size_dom sample_dom" by (simp add: sample_dom_def)
  from element_lookup [OF sample_dom_wf _ this, of "\<lparr>doc_root = Some 0, doc_url = [], doc_base_url = []\<rparr>" _ "''p''"]
  show ?thesis by (auto simp: lower_char_def char_class)
qed

section \<open>Any sequence of calls keeps the store well-formed\<close>

datatype dom_op =
    SetAttribute handle string string
  | RemoveAttribute handle string
  | AppendChild handle handle
  | RemoveChild handle handle
  | SetText handle string
  | SetValue handle string
  | CreateElement string
  | SetMutationListener document bool

fun exec :: "dom_op \<Rightarrow> dom \<Rightarrow> dom option" where
  "exec (SetAttribute h nm v) d = element_set_attribute h nm v d"
| "exec (RemoveAttribute h nm) d = map_option snd (element_remove_attribute h nm d)"
| "exec (AppendChild h c) d = element_append_child h c d"
| "exec (RemoveChild h c) d = map_option snd (element_remove_child h c d)"
| "exec (SetText h v) d = set_text h v d"
| "exec (SetValue h v) d = set_value h v d"
| "exec (CreateElement tg) d = Some (snd (create_element tg d))"
| "exec (SetMutationListener doc l) d = Some (set_mutation_listener doc l d)"

text \<open>Handles name nodes that exist.\<close>

definition valid_handle :: "dom \<Rightarrow> handle \<Rightarrow> bool" where
  "valid_handle d h \<longleftrightarrow> (case h of None \<Rightarrow> True | Some i \<Rightarrow> i < size_dom d)"

fun valid_op :: "dom \<Rightarrow> dom_op \<Rightarrow> bool" where
  "valid_op d (SetAttribute h nm v) = valid_handle d h"
| "valid_op d (RemoveAttribute h nm) = valid_handle d h"
| "valid_op d (AppendChild h c) = (valid_handle d h \<and> valid_handle d c)"
| "valid_op d (RemoveChild h c) = (valid_handle d h \<and> valid_handle d c)"
| "valid_op d (SetText h v) = valid_handle d h"
| "valid_op d (SetValue h v) = valid_handle d h"
| "valid_op d (CreateElement tg) = True"
| "valid_op d (SetMutationListener doc l) = valid_handle d (doc_root doc)"

inductive dom_step :: "dom \<Rightarrow> dom \<Rightarrow> bool" where
  dom_step: "valid_op d op \<Longrightarrow> exec op d = Some d' \<Longrightarrow> dom_step d d'"

inductive reachable :: "string \<Rightarrow> dom \<Rightarrow> bool" for html where
  reach_parse: "parse_html html u b = Inr (d, doc) \<Longrightarrow> reachable html d"
| reach_step: "reachable html d \<Longrightarrow> dom_step d d' \<Longrightarrow> reachable html d'"

lemma create_element_wf:
  assumes "dom_wf d"
  shows "dom_wf (snd (create_element tg d))" "size_dom (snd (create_element tg d)) = Suc (size_dom d)"
proof -
  obtain i d1 where mk: "make_node Element d = (i, d1)" by fastforce
  note m = make_node_wf [OF mk assms]
  have "dom_wf (update_node i (\<lambda>n. n\<lparr>nname := to_lower tg\<rparr>) d1)"
    using m(1) by (subst dom_wf_cong [of _ d1]) auto
  with m(3) show "dom_wf (snd (create_element tg d))" "size_dom (snd (create_element tg d)) = Suc (size_dom d)"
    by (simp_all add: create_element_def mk)
qed

text \<open>Every operation on valid handles returns, keeps the invariant and never drops a node.\<close>

lemma exec_total:
  assumes wf: "dom_wf d" and v: "valid_op d op"
  shows "\<exists>d'. exec op d = Some d' \<and> dom_wf d' \<and> size_dom d \<le> size_dom d'"
proof (cases op)
  case (SetAttribute h nm x)
  with v wf show ?thesis using set_attribute_cases [OF wf]
    by (fastforce simp: element_set_attribute_def valid_handle_def split: option.splits)
next
  case (RemoveAttribute h nm)
  with v wf show ?thesis using remove_attribute_cases [OF wf]
    by (fastforce simp: element_remove_attribute_def valid_handle_def split: option.splits)
next
  case (AppendChild h c)
  show ?thesis
  proof (cases h; cases c)
    fix i k assume "h = Some i" "c = Some k"
    with AppendChild v append_child_cases [OF wf, of i k] show ?thesis
      by (auto simp: element_append_child_def valid_handle_def moved_def split: if_splits)
  qed (use AppendChild wf in \<open>simp_all add: element_append_child_def\<close>)
next
  case (RemoveChild h c)
  show ?thesis
  proof (cases h; cases c)
    fix i k assume "h = Some i" "c = Some k"
    with RemoveChild v remove_child_cases [OF wf, of i k] show ?thesis
      by (auto simp: element_remove_child_def valid_handle_def detached_def split: if_splits)
  qed (use RemoveChild wf in \<open>simp_all add: element_remove_child_def\<close>)
next
  case (SetText h x)
  with v wf set_text_cases [OF wf] show ?thesis
    by (cases h) (fastforce simp: set_text_def valid_handle_def text_replaced_def)+
next
  case (SetValue h x)
  show ?thesis
  proof (cases h)
    case (Some i)
    with SetValue v have i: "i < size_dom d" by (simp add: valid_handle_def)
    show ?thesis
      using set_text_cases [OF wf i, of x] set_attribute_cases [OF wf i, of "''value''" x] SetValue Some
      by (cases "nname (node_at d i) = ''textarea''") (auto simp: set_value_def text_replaced_def)
  qed (use SetValue wf in \<open>simp add: set_value_def\<close>)
next
  case (CreateElement tg)
  with create_element_wf [OF wf, of tg] show ?thesis by simp
next
  case (SetMutationListener doc l)
  have "dom_wf (set_mutation_listener doc l d)"
    using wf by (cases "doc_root doc") (simp_all add: set_mutation_listener_def, subst dom_wf_cong [of _ d], auto)
  moreover have "size_dom (set_mutation_listener doc l d) = size_dom d"
    by (simp add: set_mutation_listener_def split: option.split)
  ultimately show ?thesis using SetMutationListener by simp
qed

lemma parse_html_wf: "parse_html html u b = Inr (d, doc) \<Longrightarrow> dom_wf d"
  by (auto simp: parse_html_def rbind_Inr_iff dest: parse_html_tree_wf)

text \<open>
  C12: whatever sequence of mutating calls is made on a parsed document, with handles on existing
  nodes, the store stays well-formed: links agree in both directions, no node is listed twice and
  there is no cycle.  In every such state every further call returns and handles stay valid.
\<close>

theorem reachable_wf:
  assumes "reachable html d"
  shows "dom_wf d \<and> (\<forall>op. valid_op d op \<longrightarrow> (\<exists>d'. exec op d = Some d' \<and> dom_step d d' \<and> size_dom d \<le> size_dom d'))"
proof -
  from assms have "dom_wf d"
  proof induction
    case (reach_step d d')
    from reach_step.hyps(2) exec_total [OF reach_step.IH] show ?case
      by (fastforce elim!: dom_step.cases)
  qed (rule parse_html_wf)
  with exec_total show ?thesis by (blast intro: dom_step.intros)
qed

lemma parse_empty: "parse_html_tree [] = Inr (snd (make_node Document empty_dom))"
  by (simp add: parse_html_tree_def max_bytes_def make_node_def parse_loop.simps html_tokenizer_def next_token_def)

theorem reachable_wf_witness:
  "\<exists>d. reachable [] d \<and> dom_wf d \<and> size_dom d = 2"
proof -
  let ?d = "snd (create_element ''p'' (snd (make_node Document empty_dom)))"
  have "reachable [] ?d"
  proof (rule reach_step)
    show "reachable [] (snd (make_node Document empty_dom))"
      by (rule reach_parse) (simp add: parse_html_def parse_empty)
    show "dom_step (snd (make_node Document empty_dom)) ?d"
      by (rule dom_step [of _ "CreateElement ''p''"]) simp_all
  qed
  moreover have "size_dom ?d = 2" by (simp add: create_element_def make_node_def empty_dom_def)
  ultimately show ?thesis using reachable_wf by blast
qed

end
