(* ===== verification/Redaction.thy ===== *)
theory Redaction
  imports Url
begin

text \<open>
  \<^verbatim>\<open>redaction.cpp\<close>: which headers and query parameters are secret, and the rewriting of headers
  and URLs before they are logged.  A policy is the record of \<^verbatim>\<open>redaction.hpp\<close>; the loop of
  \<open>redact_url\<close> over the query is the recursion \<open>redact_pairs\<close> on its unread suffix.
\<close>

record redaction_policy =
  header_names :: "string list"
  query_parameter_names :: "string list"
  replacement :: string

definition contains_case_insensitive :: "string list \<Rightarrow> string \<Rightarrow> bool" where
  "contains_case_insensitive names candidate \<longleftrightarrow>
     (let lowered = to_lower candidate in list_ex (\<lambda>name. to_lower name = lowered) names)"

definition hex :: "char \<Rightarrow> nat option" where
  "hex c =
     (if CHR ''0'' \<le> c \<and> c \<le> CHR ''9'' then Some (byte c - byte (CHR ''0''))
      else if CHR ''a'' \<le> c \<and> c \<le> CHR ''f'' then Some (byte c - byte (CHR ''a'') + 10)
      else if CHR ''A'' \<le> c \<and> c \<le> CHR ''F'' then Some (byte c - byte (CHR ''A'') + 10)
      else None)"

definition plus_to_space :: "char \<Rightarrow> char" where
  "plus_to_space c = (if c = CHR ''+'' then CHR '' '' else c)"

fun decode_parameter_name :: "string \<Rightarrow> string" where
  "decode_parameter_name [] = []"
| "decode_parameter_name (c # h # l # t) =
     (if c = CHR ''%'' then
        (case (hex h, hex l) of
           (Some high, Some low) \<Rightarrow> char_of (16 * high + low) # decode_parameter_name t
         | _ \<Rightarrow> plus_to_space c # decode_parameter_name (h # l # t))
      else plus_to_space c # decode_parameter_name (h # l # t))"
| "decode_parameter_name (c # t) = plus_to_space c # decode_parameter_name t"

definition policy_defaults :: redaction_policy where
  "policy_defaults = \<lparr>
     header_names = [''authorization'', ''proxy-authorization'', ''cookie'', ''set-cookie'', ''x-api-key'',
       ''api-key'', ''x-auth-token'', ''x-csrf-token''],
     query_parameter_names = [''token'', ''access_token'', ''refresh_token'', ''id_token'', ''api_key'',
       ''apikey'', ''password'', ''passwd'', ''secret'', ''client_secret'', ''session'', ''sessionid'',
       ''auth'', ''signature'', ''sig''],
     replacement = ''[REDACTED]''\<rparr>"

definition is_sensitive_header :: "redaction_policy \<Rightarrow> string \<Rightarrow> bool" where
  "is_sensitive_header pol name = contains_case_insensitive (header_names pol) name"

definition is_sensitive_query_parameter :: "redaction_policy \<Rightarrow> string \<Rightarrow> bool" where
  "is_sensitive_query_parameter pol name = contains_case_insensitive (query_parameter_names pol) name"

definition redact_header :: "redaction_policy \<Rightarrow> string \<Rightarrow> string \<Rightarrow> string" where
  "redact_header pol name value = (if is_sensitive_header pol name then replacement pol else value)"

definition redact_headers :: "redaction_policy \<Rightarrow> (string \<times> string) list \<Rightarrow> (string \<times> string) list" where
  "redact_headers pol headers = map (\<lambda>(name, value). (name, redact_header pol name value)) headers"

text \<open>The name of a query pair: everything in front of its first equals sign.\<close>

definition pair_key :: "string \<Rightarrow> string" where
  "pair_key pair = (case find_char (CHR ''='') pair of None \<Rightarrow> pair | Some eq \<Rightarrow> take eq pair)"

definition redact_pair :: "redaction_policy \<Rightarrow> string \<Rightarrow> string" where
  "redact_pair pol pair =
     (if is_sensitive_query_parameter pol (decode_parameter_name (pair_key pair))
      then pair_key pair @ ''='' @ replacement pol else pair)"

function redact_pairs :: "redaction_policy \<Rightarrow> bool \<Rightarrow> string \<Rightarrow> string" where
  "redact_pairs pol first rest =
     (case find_char (CHR ''&'') rest of
        None \<Rightarrow> (if first then [] else ''&'') @ redact_pair pol rest
      | Some amp \<Rightarrow> (if first then [] else ''&'') @ redact_pair pol (take amp rest) @
          redact_pairs pol False (drop (amp + 1) rest))"
  by pat_completeness auto
termination
  by (relation "measure (\<lambda>(pol, first, rest). length rest)") (auto dest: find_char_Some(1))

declare redact_pairs.simps [simp del]

definition redact_url :: "redaction_policy \<Rightarrow> string \<Rightarrow> string" where
  "redact_url pol url =
     (case parse_url url of
        Inl _ \<Rightarrow> url
      | Inr parsed \<Rightarrow>
          let private_components = (userinfo parsed \<noteq> [] \<or> has_fragment parsed);
              parsed' = parsed\<lparr>userinfo := [], fragment := [], has_fragment := False\<rparr>
          in if \<not> has_query parsed' then (if private_components then to_string parsed' else url)
             else to_string (parsed'\<lparr>query := redact_pairs pol True (query parsed')\<rparr>))"

section \<open>Query strings as lists of pairs\<close>

fun pairs :: "string \<Rightarrow> string list" where
  "pairs [] = [[]]"
| "pairs (c # s) = (if c = CHR ''&'' then [] # pairs s
     else case pairs s of p # ps \<Rightarrow> (c # p) # ps | [] \<Rightarrow> [[c]])"

fun join_pairs :: "string list \<Rightarrow> string" where
  "join_pairs [] = []"
| "join_pairs [p] = p"
| "join_pairs (p # q # ps) = p @ ''&'' @ join_pairs (q # ps)"

definition pair_value :: "string \<Rightarrow> string" where
  "pair_value pair = drop (Suc (length (pair_key pair))) pair"

lemma pairs_nonempty [simp]: "pairs s \<noteq> []"
  by (induction s) (auto split: list.splits)

lemma pairs_plain: "CHR ''&'' \<notin> set p \<Longrightarrow> pairs p = [p]"
  by (induction p) auto

lemma pairs_split: "CHR ''&'' \<notin> set p \<Longrightarrow> pairs (p @ CHR ''&'' # s) = p # pairs s"
  by (induction p) auto

lemma pairs_no_amp: "list_all (\<lambda>p. CHR ''&'' \<notin> set p) (pairs s)"
  by (induction s) (auto split: list.splits)

lemma pairs_join:
  "ps \<noteq> [] \<Longrightarrow> list_all (\<lambda>p. CHR ''&'' \<notin> set p) ps \<Longrightarrow> pairs (join_pairs ps) = ps"
  by (induction ps rule: join_pairs.induct) (simp_all add: pairs_plain pairs_split)

lemma redact_pairs_join:
  "redact_pairs pol first s = (if first then [] else ''&'') @ join_pairs (map (redact_pair pol) (pairs s))"
proof (induction pol first s rule: redact_pairs.induct)
  case (1 pol first s)
  show ?case
  proof (cases "find_char (CHR ''&'') s")
    case None
    then have "redact_pairs pol first s = (if first then [] else ''&'') @ redact_pair pol s"
      by (subst redact_pairs.simps) simp
    with None show ?thesis by (simp add: find_char_None_iff pairs_plain)
  next
    case (Some n)
    note sp = find_char_Some [OF Some]
    have "pairs s = take n s # pairs (drop (Suc n) s)"
      using pairs_split [OF sp(3), of "drop (Suc n) s"] sp(2) by simp
    then show ?thesis using 1 [OF Some] Some
      by (subst redact_pairs.simps) (cases "pairs (drop (Suc n) s)", simp_all)
  qed
qed

lemma pair_key_takeWhile: "pair_key p = takeWhile (\<lambda>c. c \<noteq> CHR ''='') p"
proof (cases "CHR ''='' \<in> set p")
  case False
  then have "takeWhile (\<lambda>c. c \<noteq> CHR ''='') p = p" by (auto simp: takeWhile_eq_all_conv)
  with False show ?thesis by (simp add: pair_key_def find_char_takeWhile del: takeWhile_eq_all_conv)
qed (simp add: pair_key_def find_char_takeWhile)

lemma pair_key_no_eq: "CHR ''='' \<notin> set (pair_key p)"
  by (auto simp: pair_key_takeWhile dest: set_takeWhileD)

lemma pair_key_redact [simp]: "pair_key (redact_pair pol p) = pair_key p"
proof -
  have "pair_key (pair_key p @ CHR ''='' # r) = pair_key p" for r
    using pair_key_no_eq [of p] by (subst pair_key_def) simp
  then show ?thesis by (simp add: redact_pair_def)
qed

lemma pair_value_redact:
  "is_sensitive_query_parameter pol (decode_parameter_name (pair_key p)) \<Longrightarrow>
   pair_value (redact_pair pol p) = replacement pol"
  unfolding pair_value_def pair_key_redact by (simp add: redact_pair_def)

lemma redact_pair_chars: "set (redact_pair pol p) \<subseteq> set p \<union> set (''='' @ replacement pol)"
  by (auto simp: redact_pair_def pair_key_takeWhile dest: set_takeWhileD)

lemma join_pairs_chars: "set (join_pairs ps) \<subseteq> insert (CHR ''&'') (\<Union> (set ` set ps))"
  by (induction ps rule: join_pairs.induct) auto

lemma pairs_chars: "p \<in> set (pairs s) \<Longrightarrow> set p \<subseteq> set s"
proof (induction s arbitrary: p)
  case (Cons c s)
  then show ?case by (cases "pairs s") (auto split: if_splits, blast+)
qed simp

lemma redact_pairs_pairs:
  assumes "CHR ''&'' \<notin> set (replacement pol)"
  shows "pairs (redact_pairs pol True s) = map (redact_pair pol) (pairs s)"
proof -
  have "CHR ''&'' \<notin> set (redact_pair pol p)" if "p \<in> set (pairs s)" for p
    using redact_pair_chars [of pol p] that pairs_no_amp [of s] assms by (auto simp: list_all_iff)
  then show ?thesis by (simp add: redact_pairs_join pairs_join list_all_iff)
qed

lemma redact_pairs_chars:
  "set (redact_pairs pol True s) \<subseteq> set s \<union> set (''&='' @ replacement pol)"
  using join_pairs_chars [of "map (redact_pair pol) (pairs s)"] redact_pair_chars [of pol] pairs_chars [of _ s]
  by (fastforce simp: redact_pairs_join)

section \<open>What redaction guarantees\<close>

definition stripped :: "redaction_policy \<Rightarrow> url \<Rightarrow> url" where
  "stripped pol u = u\<lparr>userinfo := [], fragment := [], has_fragment := False,
     query := (if has_query u then redact_pairs pol True (query u) else [])\<rparr>"

lemma stripped_ok:
  assumes "url_ok u" and "CHR ''@'' \<notin> set (host u @ port u)" and "CHR ''#'' \<notin> set (replacement pol)"
  shows "url_ok (stripped pol u)"
proof -
  have "CHR ''#'' \<notin> set (redact_pairs pol True (query u))"
    using redact_pairs_chars [of pol "query u"] assms by (auto simp: url_ok_def)
  with assms show ?thesis by (auto simp: stripped_def url_ok_def)
qed

lemma redact_url_parse:
  assumes u: "parse_url s = Inr u" and at: "CHR ''@'' \<notin> set (host u @ port u)"
    and rep: "CHR ''#'' \<notin> set (replacement pol)"
  shows "parse_url (redact_url pol s) = Inr (stripped pol u)"
proof -
  have ok: "url_ok u" using parse_url_ok [OF u] at by blast
  note print = parse_print [OF stripped_ok [OF ok at rep]]
  have q: "query u = []" if "\<not> has_query u" using ok that by (simp add: url_ok_def)
  have f: "fragment u = []" if "\<not> has_fragment u" using ok that by (simp add: url_ok_def)
  consider (same) "\<not> has_query u" "userinfo u = []" "\<not> has_fragment u"
    | (strip) "\<not> has_query u" "userinfo u \<noteq> [] \<or> has_fragment u" | (rebuilt) "has_query u" by blast
  then show ?thesis
  proof cases
    case same
    then have "stripped pol u = u" using q f by (intro url.equality) (simp_all add: stripped_def)
    with same u show ?thesis by (simp add: redact_url_def)
  next
    case strip
    then have "u\<lparr>userinfo := [], fragment := [], has_fragment := False\<rparr> = stripped pol u"
      using q by (intro url.equality) (simp_all add: stripped_def)
    moreover have "\<not> has_query (stripped pol u)" using strip by (simp add: stripped_def)
    ultimately show ?thesis using strip(2) u print by (auto simp: redact_url_def Let_def)
  next
    case rebuilt
    with u print show ?thesis by (simp add: redact_url_def Let_def stripped_def)
  qed
qed



text \<open>
  Where redaction of a URL leaks.  An input \<open>parse_url\<close> rejects is returned as it is, whatever
  secrets it carries; and because the user info ends at the first \<open>@\<close>, the rest of a password
  that contains one stays in the output.
\<close>

theorem redact_url_leaks:
  "redact_url policy_defaults ''http://[x/?token=abc'' = ''http://[x/?token=abc'' \<and>
   redact_url policy_defaults ''http://user:p@ss@host/'' = ''http://ss@host/''"
proof -
  have "parse_url ''http://user:p@ss@host/'' = Inr (empty_url\<lparr>scheme := ''http'', has_authority := True,
     userinfo := ''user:p'', host := ''ss@host'', path := ''/''\<rparr>)"
    by (simp add: url_eval)
  moreover have "parse_url ''http://[x/?token=abc'' = Inl (Error InvalidUrl ''unterminated IPv6 host'')"
    by (simp add: url_eval)
  ultimately show ?thesis by (simp add: redact_url_def to_string_def empty_url_def)
qed

text \<open>
  Redaction of headers keeps their number, order and names; the value of every header whose
  name is on the policy's list, in any letter case, is the replacement, and every other value is kept.
\<close>

theorem redact_headers_correct:
  "list_all2 (\<lambda>(n, v) (n', v'). n' = n \<and>
     v' = (if \<exists>m\<in>set (header_names pol). to_lower m = to_lower n then replacement pol else v))
     headers (redact_headers pol headers)"
  by (auto simp: redact_headers_def redact_header_def is_sensitive_header_def contains_case_insensitive_def
      list_all2_conv_all_nth list_ex_iff Let_def split: prod.splits)

end
