(* ===== verification/Capability.thy ===== *)
theory Capability
  imports Interfaces
begin

text \<open>
  \<^verbatim>\<open>capability.cpp\<close>: the compatibility class every feature declares and the set of declarations,
  a vector whose entries are overwritten in place.
\<close>

datatype implementation_class =
    FullyImplemented | PartiallyImplemented | ImplementedWithRestrictions | DummyImplementation | UnsupportedClass

fun implementation_class_to_string :: "implementation_class \<Rightarrow> string" where
  "implementation_class_to_string FullyImplemented = ''fully-implemented''"
| "implementation_class_to_string PartiallyImplemented = ''partially-implemented''"
| "implementation_class_to_string ImplementedWithRestrictions = ''implemented-with-restrictions''"
| "implementation_class_to_string DummyImplementation = ''dummy-implementation''"
| "implementation_class_to_string UnsupportedClass = ''unsupported''"

record capability =
  cap_name :: string
  cap_class :: implementation_class
  cap_notes :: string

fun cap_set :: "string \<Rightarrow> implementation_class \<Rightarrow> string \<Rightarrow> capability list \<Rightarrow> capability list" where
  "cap_set name cls notes [] = [\<lparr>cap_name = name, cap_class = cls, cap_notes = notes\<rparr>]"
| "cap_set name cls notes (existing # rest) =
     (if cap_name existing = name then existing\<lparr>cap_class := cls, cap_notes := notes\<rparr> # rest
      else existing # cap_set name cls notes rest)"

definition cap_add :: "capability \<Rightarrow> capability list \<Rightarrow> capability list" where
  "cap_add c cs = cap_set (cap_name c) (cap_class c) (cap_notes c) cs"

definition cap_find :: "string \<Rightarrow> capability list \<Rightarrow> capability option" where
  "cap_find name cs = find (\<lambda>c. cap_name c = name) cs"

definition cap_has :: "string \<Rightarrow> capability list \<Rightarrow> bool" where
  "cap_has name cs =
     (case cap_find name cs of None \<Rightarrow> False | Some c \<Rightarrow> cap_class c \<noteq> UnsupportedClass)"

definition cap_classification :: "string \<Rightarrow> capability list \<Rightarrow> implementation_class" where
  "cap_classification name cs = (case cap_find name cs of Some c \<Rightarrow> cap_class c | None \<Rightarrow> UnsupportedClass)"

section \<open>The set as a keyed store\<close>

definition cap_put :: "string \<Rightarrow> implementation_class \<times> string \<Rightarrow> capability list \<Rightarrow> capability list" where
  "cap_put name v cs = cap_set name (fst v) (snd v) cs"

definition cap_get :: "string \<Rightarrow> capability list \<Rightarrow> (implementation_class \<times> string) option" where
  "cap_get name cs = map_option (\<lambda>c. (cap_class c, cap_notes c)) (cap_find name cs)"

definition cap_wf :: "capability list \<Rightarrow> bool" where
  "cap_wf cs \<longleftrightarrow> distinct (map cap_name cs)"

lemma cap_find_simps [simp]:
  "cap_find n [] = None"
  "cap_find n (c # cs) = (if cap_name c = n then Some c else cap_find n cs)"
  by (simp_all add: cap_find_def)

lemma cap_set_names:
  "map cap_name (cap_set n k t cs) = (if n \<in> set (map cap_name cs) then map cap_name cs else map cap_name cs @ [n])"
  by (induction cs) auto

interpretation caps: keyed_store cap_put cap_get cap_wf
proof
  fix k k' v and s :: "capability list"
  show "cap_get k (cap_put k v s) = Some v"
    by (induction s) (simp_all add: cap_get_def cap_put_def)
  show "k \<noteq> k' \<Longrightarrow> cap_get k (cap_put k' v s) = cap_get k s"
    by (induction s) (auto simp: cap_get_def cap_put_def)
  show "cap_wf s \<Longrightarrow> cap_wf (cap_put k v s)"
    by (auto simp: cap_wf_def cap_put_def cap_set_names simp del: set_map)
qed

lemma cap_class_get: "cap_classification n cs = (case cap_get n cs of Some (k, t) \<Rightarrow> k | None \<Rightarrow> UnsupportedClass)"
  by (simp add: cap_classification_def cap_get_def split: option.splits)

lemma cap_has_class: "cap_has n cs \<longleftrightarrow> cap_classification n cs \<noteq> UnsupportedClass"
  by (simp add: cap_has_def cap_classification_def split: option.splits)

lemma cap_add_fold:
  "fold cap_add ds cs = fold (\<lambda>(n, v). cap_put n v) (map (\<lambda>d. (cap_name d, cap_class d, cap_notes d)) ds) cs"
  by (induction ds arbitrary: cs) (simp_all add: cap_add_def cap_put_def)

text \<open>
  After any sequence of declarations, added to an empty set, a feature has the class it was
  declared with last (the unsupported class when it was never declared), it counts as available exactly when
  that class is not the unsupported one, and every name occurs once.
\<close>

theorem capability_last_declaration:
  "cap_classification n (fold cap_add ds []) =
     (case find (\<lambda>d. cap_name d = n) (rev ds) of Some d \<Rightarrow> cap_class d | None \<Rightarrow> UnsupportedClass) \<and>
   (cap_has n (fold cap_add ds []) \<longleftrightarrow>
     (\<exists>d. find (\<lambda>d. cap_name d = n) (rev ds) = Some d \<and> cap_class d \<noteq> UnsupportedClass)) \<and>
   distinct (map cap_name (fold cap_add ds []))"
proof -
  have m: "map_of (map (\<lambda>d. (cap_name d, cap_class d, cap_notes d)) xs) n =
      map_option (\<lambda>d. (cap_class d, cap_notes d)) (find (\<lambda>d. cap_name d = n) xs)" for xs
    by (induction xs) auto
  have 1: "cap_classification n (fold cap_add ds []) =
     (case find (\<lambda>d. cap_name d = n) (rev ds) of Some d \<Rightarrow> cap_class d | None \<Rightarrow> UnsupportedClass)"
    by (simp add: cap_class_get cap_add_fold caps.get_puts rev_map m)
       (simp add: cap_get_def split: option.splits)
  have "cap_wf (fold cap_add ds [])"
    unfolding cap_add_fold by (rule caps.inv_puts) (simp add: cap_wf_def)
  with 1 show ?thesis by (auto simp: cap_has_class cap_wf_def split: option.splits)
qed

end
