(* ===== verification/Ir_Layout.thy ===== *)
theory Ir_Layout
  imports Dom_Order Decimal
begin

text \<open>
  \<^verbatim>\<open>ir_layout.cpp\<close>: stable positions.  \<open>element_path\<close> walks from an element to the document and prints
  one segment \<open>/name[n]\<close> per element; in a store whose names contain no slash two different elements of one
  tree never share a path.
\<close>

definition is_renderable_text :: "string \<Rightarrow> bool" where
  "is_renderable_text s \<longleftrightarrow>
     list_ex (\<lambda>c. c \<noteq> CHR '' '' \<and> c \<noteq> CHR 0x09 \<and> c \<noteq> CHR 0x0A \<and> c \<noteq> CHR 0x0D) s"

fun elder_loop :: "dom \<Rightarrow> nat \<Rightarrow> nat list \<Rightarrow> nat \<Rightarrow> nat" where
  "elder_loop d i [] index = index"
| "elder_loop d i (c # cs) index =
     (if c = i then index
      else elder_loop d i cs
        (if is_element (node_at d c) \<and> nname (node_at d c) = nname (node_at d i) then index + 1 else index))"

definition same_tag_index :: "dom \<Rightarrow> nat \<Rightarrow> nat" where
  "same_tag_index d i =
     (case parent (node_at d i) of None \<Rightarrow> 1 | Some p \<Rightarrow> elder_loop d i (children (node_at d p)) 1)"

definition path_segment :: "dom \<Rightarrow> nat \<Rightarrow> string" where
  "path_segment d i = nname (node_at d i) @ ''['' @ decimal (same_tag_index d i) @ '']''"

partial_function (option) path_loop :: "dom \<Rightarrow> nat \<Rightarrow> string list \<Rightarrow> string list option" where
  "path_loop d current segments =
     (let segments' = (if is_element (node_at d current) then segments @ [path_segment d current] else segments) in
      case parent (node_at d current) of
        None \<Rightarrow> Some segments'
      | Some p \<Rightarrow> if ntype (node_at d p) = Document then Some segments' else path_loop d p segments')"

declare path_loop.simps [code]

definition element_path :: "dom \<Rightarrow> nat option \<Rightarrow> string option" where
  "element_path d h =
     (case h of
        None \<Rightarrow> Some []
      | Some i \<Rightarrow>
          if ntype (node_at d i) \<noteq> Element then Some []
          else map_option (\<lambda>segments. concat (map ((#) (CHR ''/'')) (rev segments))) (path_loop d i []))"

definition tag_from_path :: "string \<Rightarrow> string" where
  "tag_from_path path =
     (case find_last_char (CHR ''/'') path of
        None \<Rightarrow> []
      | Some slash \<Rightarrow>
          if slash + 1 \<ge> length path then []
          else let segment = drop (slash + 1) path in
               if prefix ''text()'' segment \<or> prefix ''@'' segment then []
               else case find_char (CHR ''['') segment of None \<Rightarrow> segment | Some n \<Rightarrow> take n segment)"

definition is_within_scope :: "string \<Rightarrow> string \<Rightarrow> bool" where
  "is_within_scope candidate scope \<longleftrightarrow>
     candidate = scope \<or>
     (length candidate > length scope \<and> take (length scope) candidate = scope \<and>
      candidate ! length scope = CHR ''/'')"

section \<open>The path of an element extends the path of its parent\<close>

lemma path_loop_acc:
  assumes "dom_wf d" and "i < size_dom d"
  shows "\<exists>ss. path_loop d i acc = Some (acc @ ss) \<and> path_loop d i [] = Some ss"
  using assms
proof (induction i arbitrary: acc rule: parent_induct)
  case (up i)
  show ?case
  proof (cases "parent (node_at d i)")
    case None
    then show ?thesis by (simp add: path_loop.simps Let_def)
  next
    case (Some p)
    have p: "p < size_dom d" using links_okD(3) [OF dom_wfD(1) [OF assms(1)] up(1) Some] by simp
    let ?s = "if is_element (node_at d i) then [path_segment d i] else []"
    obtain ss where ss: "path_loop d p [] = Some ss" using up(2) [OF Some p] by blast
    have all: "path_loop d p a = Some (a @ ss)" for a using up(2) [OF Some p, of a] ss by auto
    have step: "path_loop d i a = (if ntype (node_at d p) = Document then Some (a @ ?s) else Some (a @ ?s @ ss))" for a
      by (subst path_loop.simps) (simp add: Some all Let_def)
    show ?thesis by (simp add: step)
  qed
qed

text \<open>The path of the parent, empty at the top.\<close>

definition path_prefix :: "dom \<Rightarrow> nat \<Rightarrow> string" where
  "path_prefix d i =
     (case parent (node_at d i) of
        None \<Rightarrow> []
      | Some p \<Rightarrow> if ntype (node_at d p) = Document then [] else the (element_path d (Some p)))"

text \<open>Names without slashes; nodes hang below elements or below a document, which has no parent.\<close>

definition layout_ok :: "dom \<Rightarrow> bool" where
  "layout_ok d \<longleftrightarrow> (\<forall>i < size_dom d.
     (is_element (node_at d i) \<longrightarrow> CHR ''/'' \<notin> set (nname (node_at d i))) \<and>
     (ntype (node_at d i) = Document \<longrightarrow> parent (node_at d i) = None) \<and>
     (\<forall>p. parent (node_at d i) = Some p \<longrightarrow> ntype (node_at d p) = Document \<or> is_element (node_at d p)))"

lemma element_path_step:
  assumes wf: "dom_wf d" and lay: "layout_ok d" and i: "i < size_dom d" and el: "is_element (node_at d i)"
  shows "element_path d (Some i) = Some (path_prefix d i @ CHR ''/'' # path_segment d i)"
proof (cases "parent (node_at d i)")
  case None
  with el show ?thesis by (simp add: element_path_def path_prefix_def path_loop.simps Let_def is_element_def)
next
  case (Some p)
  have p: "p < size_dom d" using links_okD(3) [OF dom_wfD(1) [OF wf] i Some] by simp
  obtain ss where ss: "path_loop d p [] = Some ss" "path_loop d p [path_segment d i] = Some ([path_segment d i] @ ss)"
    using path_loop_acc [OF wf p, of "[path_segment d i]"] by blast
  have "path_loop d i [] = (if ntype (node_at d p) = Document then Some [path_segment d i] else Some (path_segment d i # ss))"
    using el ss by (subst path_loop.simps) (simp add: Some Let_def)
  moreover have "ntype (node_at d p) = Document \<or> is_element (node_at d p)" using lay i Some by (simp add: layout_ok_def)
  ultimately show ?thesis
    using el ss Some by (auto simp: element_path_def path_prefix_def is_element_def)
qed

lemma segment_no_slash:
  "layout_ok d \<Longrightarrow> i < size_dom d \<Longrightarrow> is_element (node_at d i) \<Longrightarrow> CHR ''/'' \<notin> set (path_segment d i)"
  by (auto simp: path_segment_def layout_ok_def char_class dest: decimal_digits)

lemma last_delimiter_unique:
  "a @ c # s = b @ c # t \<Longrightarrow> c \<notin> set s \<Longrightarrow> c \<notin> set t \<Longrightarrow> a = b \<and> s = t"
  by (auto simp: append_eq_append_conv2 Cons_eq_append_conv append_eq_Cons_conv)

lemma segment_inject:
  assumes "path_segment d i = path_segment d j"
  shows "nname (node_at d i) = nname (node_at d j) \<and> same_tag_index d i = same_tag_index d j"
proof -
  have no: "CHR ''['' \<notin> set (decimal k)" for k by (rule decimal_not_in) (simp add: char_class)
  have "nname (node_at d i) @ CHR ''['' # decimal (same_tag_index d i) =
      nname (node_at d j) @ CHR ''['' # decimal (same_tag_index d j)"
    using assms by (simp add: path_segment_def)
  from last_delimiter_unique [OF this no no] show ?thesis by simp
qed

section \<open>Siblings have different segments\<close>

lemma elder_loop_count:
  "i \<notin> set as \<Longrightarrow> elder_loop d i (as @ i # bs) k =
   k + length (filter (\<lambda>c. is_element (node_at d c) \<and> nname (node_at d c) = nname (node_at d i)) as)"
  by (induction as arbitrary: k) auto

lemma elder_loop_less:
  assumes "distinct (as @ i # bs @ j # cs)" and "is_element (node_at d i)" and "nname (node_at d i) = nname (node_at d j)"
  shows "elder_loop d i (as @ i # bs @ j # cs) k < elder_loop d j (as @ i # bs @ j # cs) k"
proof -
  have i: "i \<notin> set as" and j: "j \<notin> set (as @ i # bs)" using assms(1) by auto
  have "elder_loop d j ((as @ i # bs) @ j # cs) k = k + length (filter (\<lambda>c. is_element (node_at d c) \<and>
      nname (node_at d c) = nname (node_at d j)) (as @ i # bs))"
    using elder_loop_count [OF j, of d cs k] .
  then show ?thesis
    using elder_loop_count [OF i, of d "bs @ j # cs" k] assms(2,3) by simp
qed

lemma sibling_index_inject:
  assumes wf: "dom_wf d" and i: "i < size_dom d" and j: "j < size_dom d"
    and p: "parent (node_at d i) = Some p" "parent (node_at d j) = Some p"
    and el: "is_element (node_at d i)" "is_element (node_at d j)"
    and same: "nname (node_at d i) = nname (node_at d j)" "same_tag_index d i = same_tag_index d j"
  shows "i = j"
proof (rule ccontr)
  assume ne: "i \<noteq> j"
  note lk = dom_wfD(1) [OF wf]
  have "p < size_dom d" "i \<in> set (children (node_at d p))" "j \<in> set (children (node_at d p))"
    using links_okD(3) [OF lk i p(1)] links_okD(3) [OF lk j p(2)] by auto
  then have dist: "distinct (children (node_at d p))" using links_okD(1) [OF lk] by blast
  obtain as bs where ab: "children (node_at d p) = as @ i # bs" using \<open>i \<in> _\<close> by (meson split_list)
  then consider "j \<in> set as" | "j \<in> set bs" using \<open>j \<in> _\<close> ne by auto
  then show False
  proof cases
    case 1
    then obtain us vs where "as = us @ j # vs" by (meson split_list)
    with ab dist elder_loop_less [of us j vs i bs d 1] el same show False by (simp add: same_tag_index_def p)
  next
    case 2
    then obtain us vs where "bs = us @ j # vs" by (meson split_list)
    with ab dist elder_loop_less [of as i us j vs d 1] el same show False by (simp add: same_tag_index_def p)
  qed
qed

text \<open>Where an element hangs: at the top of a tree, or below an element.\<close>

lemma layout_parent_cases:
  assumes wf: "dom_wf d" and lay: "layout_ok d" and i: "i < size_dom d" and el: "is_element (node_at d i)"
  obtains (lone) "parent (node_at d i) = None" "path_prefix d i = []" "document_root d i = Some i"
  | (below_doc) p where "parent (node_at d i) = Some p" "path_prefix d i = []" "document_root d i = Some p"
      "ntype (node_at d p) = Document"
  | (below) p where "parent (node_at d i) = Some p" "p < size_dom d" "is_element (node_at d p)"
      "element_path d (Some p) = Some (path_prefix d i)" "path_prefix d i \<noteq> []" "document_root d i = document_root d p"
proof (cases "parent (node_at d i)")
  case None
  then have "document_root d i = Some i" by (subst document_root.simps) simp
  with None show ?thesis by (intro lone) (simp_all add: path_prefix_def)
next
  case (Some p)
  have p: "p < size_dom d" using links_okD(3) [OF dom_wfD(1) [OF wf] i Some] by simp
  have r: "document_root d i = document_root d p" by (subst document_root.simps) (simp add: Some)
  consider (doc) "ntype (node_at d p) = Document" | (element) "is_element (node_at d p)" "ntype (node_at d p) \<noteq> Document"
    using lay i Some by (auto simp: layout_ok_def is_element_def)
  then show ?thesis
  proof cases
    case doc
    then have "document_root d p = Some p" using lay p by (subst document_root.simps) (simp add: layout_ok_def)
    with doc Some r show ?thesis by (intro below_doc) (simp_all add: path_prefix_def)
  next
    case element
    with element_path_step [OF wf lay p] Some r p show ?thesis by (intro below) (simp_all add: path_prefix_def)
  qed
qed

lemma path_inject:
  assumes wf: "dom_wf d" and lay: "layout_ok d"
  shows "i < size_dom d \<Longrightarrow> j < size_dom d \<Longrightarrow> is_element (node_at d i) \<Longrightarrow> is_element (node_at d j) \<Longrightarrow>
    document_root d i = document_root d j \<Longrightarrow> element_path d (Some i) = element_path d (Some j) \<Longrightarrow> i = j"
proof (induction i arbitrary: j rule: parent_induct [OF wf, consumes 1, case_names up])
  case (up i)
  have "path_prefix d i @ CHR ''/'' # path_segment d i = path_prefix d j @ CHR ''/'' # path_segment d j"
    using element_path_step [OF wf lay up(1,4)] element_path_step [OF wf lay up(3,5)] up(7) by simp
  then have pre: "path_prefix d i = path_prefix d j" and seg: "path_segment d i = path_segment d j"
    using last_delimiter_unique segment_no_slash [OF lay up(1,4)] segment_no_slash [OF lay up(3,5)] by metis+
  note idx = segment_inject [OF seg]
  note sib = sibling_index_inject [OF wf up(1,3) _ _ up(4,5)]
  show ?case
  proof (cases rule: layout_parent_cases [OF wf lay up(1,4), case_names lone below_doc below])
    case lone
    note i = this
    show ?thesis
      by (cases rule: layout_parent_cases [OF wf lay up(3,5), case_names lone below_doc below]) (use i pre up(4,6) in \<open>auto simp: is_element_def\<close>)
  next
    case (below_doc p)
    note i = this
    show ?thesis
    proof (cases rule: layout_parent_cases [OF wf lay up(3,5), case_names lone below_doc below])
      case (below_doc q)
      with i up(6) have "p = q" by simp
      then show ?thesis using below_doc(1) idx by (intro sib [OF i(1)]) simp_all
    qed (use i pre up(5,6) in \<open>auto simp: is_element_def\<close>)
  next
    case (below p)
    note i = this
    show ?thesis
    proof (cases rule: layout_parent_cases [OF wf lay up(3,5), case_names lone below_doc below])
      case (below q)
      have "document_root d p = document_root d q" using up(6) i(6) below(6) by metis
      moreover have "element_path d (Some p) = element_path d (Some q)" using i(4) below(4) pre by metis
      ultimately have "p = q" by (rule up(2) [OF i(1,2) below(2) i(3) below(3)])
      then show ?thesis using below(1) idx by (intro sib [OF i(1)]) simp_all
    qed (use i pre in simp_all)
  qed
qed

lemma tag_from_element_path:
  assumes "dom_wf d" and "layout_ok d" and "i < size_dom d" and "is_element (node_at d i)"
    and p: "element_path d (Some i) = Some p" and nm: "CHR ''['' \<notin> set (nname (node_at d i))"
      "\<not> prefix ''text()'' (path_segment d i)" "\<not> prefix ''@'' (path_segment d i)"
  shows "tag_from_path p = nname (node_at d i)"
proof -
  have p: "p = path_prefix d i @ CHR ''/'' # path_segment d i"
    using element_path_step [OF assms(1-4)] p by simp
  have last: "find_last_char c (a @ c # s) = Some (length a)" if "c \<notin> set s" for c a s
    using that by (simp add: find_last_char_def takeWhile_append Let_def)
  have "find_last_char (CHR ''/'') p = Some (length (path_prefix d i))"
    using last segment_no_slash [OF assms(2-4)] p by simp
  moreover have "path_segment d i \<noteq> []" by (simp add: path_segment_def)
  moreover have "find_char (CHR ''['') (path_segment d i) = Some (length (nname (node_at d i)))"
    using nm(1) by (simp add: path_segment_def)
  moreover have "take (length (nname (node_at d i))) (path_segment d i) = nname (node_at d i)"
    by (simp add: path_segment_def)
  ultimately show ?thesis
    using nm(2,3) p by (simp add: tag_from_path_def Let_def)
qed

text \<open>
  Positions are stable names: two elements of the same tree that have the same path are the
  same element, in every well-formed store whose element names contain no slash and whose nodes
  hang below elements or a document.
\<close>

theorem element_path_injective:
  assumes "dom_wf d" and "layout_ok d" and "i < size_dom d" and "j < size_dom d"
    and "is_element (node_at d i)" and "is_element (node_at d j)"
    and "document_root d i = document_root d j"
  shows "element_path d (Some i) = element_path d (Some j) \<longleftrightarrow> i = j"
  using path_inject [OF assms] by blast

definition sample_page :: dom where
  "sample_page = \<lparr>nodes = [(fresh_node Document)\<lparr>children := [1, 2]\<rparr>,
     (fresh_node Element)\<lparr>nname := ''p'', parent := Some 0\<rparr>,
     (fresh_node Element)\<lparr>nname := ''p'', parent := Some 0\<rparr>], mutations = []\<rparr>"

lemma sample_page_wf: "dom_wf sample_page" "layout_ok sample_page"
proof -
  have "parent_rel sample_page = {(0, 1), (0, 2)}"
    by (auto simp: parent_rel_def sample_page_def less_Suc_eq fresh_node_def numeral_2_eq_2)
  then have "parent_rel sample_page \<subseteq> less_than" by simp
  then have "acyclic (parent_rel sample_page)"
    using acyclic_subset [OF wf_acyclic [OF wf_less_than]] by blast
  moreover have "links_ok sample_page"
    by (auto simp: links_ok_def sample_page_def less_Suc_eq fresh_node_def numeral_2_eq_2)
  ultimately show "dom_wf sample_page" by (simp add: dom_wf_def)
  show "layout_ok sample_page"
    by (auto simp: layout_ok_def sample_page_def less_Suc_eq fresh_node_def is_element_def numeral_2_eq_2)
qed

theorem element_path_injective_witness:
  "element_path sample_page (Some 1) \<noteq> element_path sample_page (Some 2)"
proof -
  have "1 < size_dom sample_page" "2 < size_dom sample_page" "is_element (node_at sample_page 1)"
    "is_element (node_at sample_page 2)"
    by (simp_all add: sample_page_def is_element_def fresh_node_def)
  moreover have "document_root sample_page i = document_root sample_page 0" if "i = 1 \<or> i = 2" for i
    using that by (subst document_root.simps) (auto simp: sample_page_def)
  ultimately show ?thesis using element_path_injective [OF sample_page_wf, of 1 2] by simp
qed

end
