(* ===== verification/Event_Stream.thy ===== *)
theory Event_Stream
  imports Html_Syntax Interfaces
begin

text \<open>
  \<^verbatim>\<open>event_stream.cpp\<close> and the event record of \<^verbatim>\<open>event.hpp\<close>: the canonical page events, the budget that
  bounds how many records, attributes and bytes a stream may hold, and the reader that replays a
  bounded stream to a callback.  The counters are \<open>std::size_t\<close>; \<open>budget_ok\<close> shows that the
  subtractions of the guards never wrap.
\<close>

record prowse_event =
  ev_kind :: string
  ev_xpath :: string
  ev_tag :: string
  ev_name :: string
  ev_value :: string
  ev_depth :: nat
  ev_attributes :: "attribute list"
  ev_subtree_text :: string

definition max_event_stream_events :: nat where "max_event_stream_events = 400000"
definition max_event_stream_bytes :: nat where "max_event_stream_bytes = 32 * 1024 * 1024"

record budget =
  b_events :: nat
  b_attributes :: nat
  b_bytes :: nat

definition empty_budget :: budget where
  "empty_budget = \<lparr>b_events = 0, b_attributes = 0, b_bytes = 0\<rparr>"

definition record_error :: error where
  "record_error = Error ResourceLimit ''event stream exceeds record bound''"

definition byte_error :: error where
  "byte_error = Error ResourceLimit ''event stream exceeds byte bound''"

definition charge :: "nat \<Rightarrow> budget \<Rightarrow> budget result" where
  "charge n b = (if n > max_event_stream_bytes - b_bytes b then Inl byte_error else Inr (b\<lparr>b_bytes := b_bytes b + n\<rparr>))"

fun charge_all :: "nat list \<Rightarrow> budget \<Rightarrow> budget result" where
  "charge_all [] b = Inr b"
| "charge_all (n # ns) b = rbind (charge n b) (charge_all ns)"

text \<open>The sizes \<open>consume\<close> charges, in its order.\<close>

definition event_sizes :: "prowse_event \<Rightarrow> nat list" where
  "event_sizes e =
     [length (ev_kind e), length (ev_xpath e), length (ev_tag e), length (ev_name e), length (ev_value e),
      length (ev_subtree_text e)] @
     concat (map (\<lambda>a. [length (attr_name a), length (attr_value a)]) (ev_attributes e))"

definition consume :: "prowse_event \<Rightarrow> budget \<Rightarrow> budget result" where
  "consume e b0 =
     (let b = b0\<lparr>b_events := b_events b0 + 1\<rparr> in
      if b_events b > max_event_stream_events \<or> length (ev_attributes e) > max_event_stream_events - b_attributes b
      then Inl record_error
      else charge_all (event_sizes e) (b\<lparr>b_attributes := b_attributes b + length (ev_attributes e)\<rparr>))"

fun consume_all :: "prowse_event list \<Rightarrow> budget \<Rightarrow> budget result" where
  "consume_all [] b = Inr b"
| "consume_all (e # es) b = rbind (consume e b) (consume_all es)"

definition event_stream_reader :: "prowse_event list \<Rightarrow> prowse_event list result" where
  "event_stream_reader events =
     (if length events > max_event_stream_events
      then Inl (Error ResourceLimit ''event stream exceeds event bound'')
      else rbind (consume_all events empty_budget) (\<lambda>_. Inr events))"

datatype event_stream_action = Continue | Stop

text \<open>A callback runs on a state of its own and may fail; its failure propagates.\<close>

type_synonym 's callback = "prowse_event \<Rightarrow> 's \<Rightarrow> (event_stream_action \<times> 's) result"

fun replay_loop :: "'s callback \<Rightarrow> prowse_event list \<Rightarrow> 's \<Rightarrow> 's result" where
  "replay_loop f [] s = Inr s"
| "replay_loop f (e # es) s =
     rbind (f e s) (\<lambda>(a, s'). if a = Stop then Inr s' else replay_loop f es s')"

definition replay :: "'s callback option \<Rightarrow> nat \<Rightarrow> prowse_event list \<Rightarrow> 's \<Rightarrow> (bool \<times> 's) result" where
  "replay callback max_events events s =
     (case callback of
        None \<Rightarrow> Inl (Error InvalidArgument ''event stream callback must not be empty'')
      | Some f \<Rightarrow>
          if max_events > max_event_stream_events
          then Inl (Error InvalidArgument ''event stream limit exceeds bound'')
          else if length events > max_events then Inr (False, s)
          else rbind (replay_loop f events s) (\<lambda>s'. Inr (True, s')))"

section \<open>What fits\<close>

definition event_bytes :: "prowse_event \<Rightarrow> nat" where
  "event_bytes e = sum_list (event_sizes e)"

definition budget_ok :: "budget \<Rightarrow> bool" where
  "budget_ok b \<longleftrightarrow> b_events b \<le> max_event_stream_events \<and> b_attributes b \<le> max_event_stream_events \<and>
     b_bytes b \<le> max_event_stream_bytes"

definition stream_attributes :: "prowse_event list \<Rightarrow> nat" where
  "stream_attributes es = sum_list (map (\<lambda>e. length (ev_attributes e)) es)"

definition stream_bytes :: "prowse_event list \<Rightarrow> nat" where
  "stream_bytes es = sum_list (map event_bytes es)"

text \<open>A budget after a stream has been charged to it.\<close>

definition spent :: "prowse_event list \<Rightarrow> budget \<Rightarrow> budget" where
  "spent es b = \<lparr>b_events = b_events b + length es, b_attributes = b_attributes b + stream_attributes es,
     b_bytes = b_bytes b + stream_bytes es\<rparr>"

lemma spent_simps [simp]:
  "spent [] b = b" "spent (es @ fs) b = spent fs (spent es b)"
  by (simp_all add: spent_def stream_attributes_def stream_bytes_def)

lemma charge_all_eq:
  "b_bytes b \<le> max_event_stream_bytes \<Longrightarrow>
   charge_all ns b = (if b_bytes b + sum_list ns \<le> max_event_stream_bytes
     then Inr (b\<lparr>b_bytes := b_bytes b + sum_list ns\<rparr>) else Inl byte_error)"
  by (induction ns arbitrary: b) (auto simp: charge_def add.assoc)

lemma consume_eq:
  assumes "budget_ok b"
  shows "consume e b =
    (if budget_ok (spent [e] b) then Inr (spent [e] b)
     else Inl (if b_events b < max_event_stream_events \<and>
       b_attributes b + length (ev_attributes e) \<le> max_event_stream_events then byte_error else record_error))"
  using assms
  by (auto simp: consume_def Let_def charge_all_eq budget_ok_def spent_def stream_attributes_def stream_bytes_def event_bytes_def)

lemma spent_mono: "budget_ok (spent es b) \<Longrightarrow> budget_ok b"
  by (simp add: budget_ok_def spent_def)

lemma consume_all_eq:
  "budget_ok b \<Longrightarrow>
   (budget_ok (spent es b) \<longrightarrow> consume_all es b = Inr (spent es b)) \<and>
   (\<not> budget_ok (spent es b) \<longrightarrow> (\<exists>e\<in>{record_error, byte_error}. consume_all es b = Inl e))"
proof (induction es arbitrary: b)
  case (Cons e es)
  have s: "spent (e # es) b = spent es (spent [e] b)" using spent_simps(2) [of "[e]" es b] by simp
  show ?case
  proof (cases "budget_ok (spent [e] b)")
    case True
    with Cons.IH [OF this] Cons.prems show ?thesis by (simp only: consume_all.simps consume_eq s if_True rbind_simps)
  next
    case False
    then have "\<not> budget_ok (spent es (spent [e] b))" using spent_mono by blast
    with False Cons.prems show ?thesis by (simp add: consume_eq s)
  qed
qed simp

text \<open>
  The stream reader accepts exactly the streams with at most 400000 events, at most 400000
  attributes and at most 32 MiB of text in all, returns them unchanged, and reports a resource
  limit for every other one; no counter of the budget ever exceeds its bound.
\<close>

theorem event_stream_bounds:
  "(event_stream_reader es = Inr es \<longleftrightarrow>
      length es \<le> 400000 \<and> sum_list (map (\<lambda>e. length (ev_attributes e)) es) \<le> 400000 \<and>
      sum_list (map event_bytes es) \<le> 33554432) \<and>
   (case event_stream_reader es of Inl e \<Rightarrow> code e = ResourceLimit | Inr es' \<Rightarrow> es' = es)"
proof -
  have ok: "budget_ok empty_budget" by (simp add: budget_ok_def empty_budget_def)
  have fits: "budget_ok (spent es empty_budget) \<longleftrightarrow> length es \<le> 400000 \<and>
      sum_list (map (\<lambda>e. length (ev_attributes e)) es) \<le> 400000 \<and> sum_list (map event_bytes es) \<le> 33554432"
    by (simp add: budget_ok_def spent_def empty_budget_def stream_attributes_def stream_bytes_def
        max_event_stream_events_def max_event_stream_bytes_def)
  show ?thesis
  proof (cases "budget_ok (spent es empty_budget)")
    case True
    with consume_all_eq [OF ok, of es] fits show ?thesis
      by (simp add: event_stream_reader_def max_event_stream_events_def)
  next
    case False
    then have r: "length es \<le> max_event_stream_events \<Longrightarrow>
        \<exists>e\<in>{record_error, byte_error}. event_stream_reader es = Inl e"
      using consume_all_eq [OF ok, of es] by (auto simp: event_stream_reader_def)
    have "\<exists>e. event_stream_reader es = Inl e \<and> code e = ResourceLimit"
    proof (cases "length es \<le> max_event_stream_events")
      case True
      from r [OF this] show ?thesis by (auto simp: record_error_def byte_error_def)
    next
      case False
      then show ?thesis by (simp add: event_stream_reader_def)
    qed
    with False fits show ?thesis by auto
  qed
qed

section \<open>Replay\<close>

text \<open>The events up to and including the first one that stops the replay.\<close>

fun delivered :: "(prowse_event \<Rightarrow> event_stream_action) \<Rightarrow> prowse_event list \<Rightarrow> prowse_event list" where
  "delivered act [] = []"
| "delivered act (e # es) = e # (if act e = Stop then [] else delivered act es)"

lemma replay_loop_delivered:
  "replay_loop (\<lambda>e log. Inr (act e, f e log)) es log = Inr (fold f (delivered act es) log)"
  by (induction es arbitrary: log) auto

lemma replay_loop_stateful:
  "replay_loop (\<lambda>e s. rbind (f e s) (\<lambda>s'. Inr (Continue, s'))) es s = fold (\<lambda>e r. rbind r (f e)) es (Inr s)"
proof (induction es arbitrary: s)
  case (Cons e es)
  have "fold (\<lambda>e r. rbind r (f e)) es (Inl x) = Inl x" for x by (induction es) simp_all
  with Cons show ?case by (cases "f e s") simp_all
qed simp

text \<open>
  C20: replaying a stream within the limit calls the callback on its events in order, stops after
  the first one for which the callback asks to stop, and reports success either way; a stream
  longer than the caller's limit is refused before the first call, a missing callback or a limit
  above the bound is an invalid argument.
\<close>

theorem replay_correct:
  "replay None n es s = Inl (Error InvalidArgument ''event stream callback must not be empty'') \<and>
   replay (Some (\<lambda>e log. Inr (act e, log @ [e]))) n es [] =
     (if 400000 < n then Inl (Error InvalidArgument ''event stream limit exceeds bound'')
      else if n < length es then Inr (False, []) else Inr (True, delivered act es))"
proof -
  have "fold (\<lambda>e log. log @ [e]) xs ys = ys @ xs" for xs ys :: "prowse_event list"
    by (induction xs arbitrary: ys) simp_all
  then show ?thesis
    using replay_loop_delivered [of act "\<lambda>e log. log @ [e]" es "[]"]
    by (simp add: replay_def max_event_stream_events_def)
qed

end
