(* ===== verification/Ir_Model.thy ===== *)
theory Ir_Model
  imports Ir_Layout Event_Stream Dom_Document
begin

text \<open>
  \<^verbatim>\<open>ir_model.cpp\<close>: lowering the DOM to the canonical event stream.  The walk charges every event to the
  budget before it keeps it and remembers the path of every element.  \<open>events_of\<close> is the stream as
  a function of the tree; \<open>walk_tree\<close> refines it: it emits exactly those events, or reports a resource limit
  when the tree is too deep or the stream does not fit.
\<close>

record ir_build =
  ib_budget :: budget
  ib_events :: "prowse_event list"
  ib_paths :: "nat \<rightharpoonup> string"

definition empty_build :: ir_build where
  "empty_build = \<lparr>ib_budget = empty_budget, ib_events = [], ib_paths = Map.empty\<rparr>"

definition push_event :: "prowse_event \<Rightarrow> ir_build \<Rightarrow> ir_build result" where
  "push_event e out =
     rbind (consume e (ib_budget out)) (\<lambda>b. Inr (out\<lparr>ib_budget := b, ib_events := ib_events out @ [e]\<rparr>))"

fun push_events :: "prowse_event list \<Rightarrow> ir_build \<Rightarrow> ir_build result" where
  "push_events [] out = Inr out"
| "push_events (e # es) out = rbind (push_event e out) (push_events es)"

definition make_event :: "string \<Rightarrow> string \<Rightarrow> string \<Rightarrow> string \<Rightarrow> string \<Rightarrow> nat \<Rightarrow> prowse_event" where
  "make_event kind xpath tg nm v depth =
     \<lparr>ev_kind = kind, ev_xpath = xpath, ev_tag = tg, ev_name = nm, ev_value = v, ev_depth = depth,
      ev_attributes = [], ev_subtree_text = []\<rparr>"

definition start_event :: "node \<Rightarrow> string \<Rightarrow> string \<Rightarrow> nat \<Rightarrow> prowse_event" where
  "start_event n xp txt depth =
     (make_event ''start'' xp (nname n) [] [] depth)\<lparr>ev_subtree_text := txt, ev_attributes := attributes n\<rparr>"

definition attribute_event :: "node \<Rightarrow> string \<Rightarrow> nat \<Rightarrow> attribute \<Rightarrow> prowse_event" where
  "attribute_event n xp depth a =
     make_event ''attribute'' xp (nname n) (attr_name a) (attr_value a) depth"

definition text_event :: "node \<Rightarrow> string \<Rightarrow> nat \<Rightarrow> nat \<Rightarrow> string \<Rightarrow> prowse_event" where
  "text_event n xp depth index txt =
     make_event ''text'' (xp @ ''/text()['' @ decimal index @ '']'') (nname n) [] txt (depth + 1)"

definition end_event :: "node \<Rightarrow> string \<Rightarrow> nat \<Rightarrow> prowse_event" where
  "end_event n xp depth = make_event ''end'' xp (nname n) [] [] depth"

definition bounds_error :: error where
  "bounds_error = Error ResourceLimit ''page event model exceeds bounds''"

text \<open>
  \<open>walk_tree\<close>, \<open>walk_all\<close> for the loop over the children of a document and \<open>walk_children\<close> for the
  loop over the children of an element, with its counter of text nodes.
\<close>

fun walk_tree :: "dom \<Rightarrow> nat \<Rightarrow> itree \<Rightarrow> ir_build \<Rightarrow> ir_build result option"
  and walk_all :: "dom \<Rightarrow> nat \<Rightarrow> itree list \<Rightarrow> ir_build \<Rightarrow> ir_build result option"
  and walk_children :: "dom \<Rightarrow> nat \<Rightarrow> node \<Rightarrow> string \<Rightarrow> nat \<Rightarrow> itree list \<Rightarrow> ir_build \<Rightarrow> ir_build result option" where
  "walk_tree d depth (INode i ts) out =
     (let n = node_at d i in
      if ntype n = Document then walk_all d depth ts out
      else if ntype n \<noteq> Element then Some (Inr out)
      else if depth \<ge> 256 \<or> length (attributes n) > max_event_stream_events then Some (Inl bounds_error)
      else case element_path d (Some i) of
          None \<Rightarrow> None
        | Some xp \<Rightarrow>
            (case text_content d i of
               None \<Rightarrow> None
             | Some txt \<Rightarrow>
                 obind (Some (push_events (start_event n xp txt depth # map (attribute_event n xp depth) (attributes n))
                          (out\<lparr>ib_paths := (ib_paths out)(i \<mapsto> xp)\<rparr>))) (\<lambda>out1.
                   obind (walk_children d depth n xp 0 ts out1) (\<lambda>out2.
                     Some (push_event (end_event n xp depth) out2)))))"
| "walk_all d depth [] out = Some (Inr out)"
| "walk_all d depth (t # ts) out = obind (walk_tree d depth t out) (walk_all d depth ts)"
| "walk_children d depth n xp k [] out = Some (Inr out)"
| "walk_children d depth n xp k (t # ts) out =
     (let c = node_at d (iroot t) in
      if ntype c = Text \<and> is_renderable_text (ntext c) then
        obind (Some (push_event (text_event n xp depth (k + 1) (ntext c)) out)) (walk_children d depth n xp (k + 1) ts)
      else if ntype c = Element then
        obind (walk_tree d (depth + 1) t out) (walk_children d depth n xp k ts)
      else walk_children d depth n xp k ts out)"

definition build_ir :: "dom \<Rightarrow> document \<Rightarrow> ir_build result option" where
  "build_ir d doc =
     (case doc_root doc of
        None \<Rightarrow> Some (Inr empty_build)
      | Some r \<Rightarrow> (case itree_at d r of None \<Rightarrow> None | Some t \<Rightarrow> walk_tree d 0 t empty_build))"

definition emit_prowse_events :: "dom \<Rightarrow> document \<Rightarrow> prowse_event list result option" where
  "emit_prowse_events d doc = obind (build_ir d doc) (\<lambda>b. Some (Inr (ib_events b)))"

record prowse_dom_node =
  pd_xpath :: string
  pd_tag :: string
  pd_text :: string
  pd_attributes :: "attribute list"
  pd_depth :: nat

definition emit_prowse_dom :: "dom \<Rightarrow> document \<Rightarrow> prowse_dom_node list result option" where
  "emit_prowse_dom d doc =
     obind (emit_prowse_events d doc) (\<lambda>es.
       Some (Inr (map (\<lambda>e. \<lparr>pd_xpath = ev_xpath e, pd_tag = ev_tag e, pd_text = ev_subtree_text e,
                            pd_attributes = ev_attributes e, pd_depth = ev_depth e\<rparr>)
                  (filter (\<lambda>e. ev_kind e = ''start'') es))))"

section \<open>The stream as a function of the tree\<close>

definition node_path :: "dom \<Rightarrow> nat \<Rightarrow> string" where
  "node_path d i = the (element_path d (Some i))"

fun events_of :: "dom \<Rightarrow> nat \<Rightarrow> itree \<Rightarrow> prowse_event list"
  and child_events :: "dom \<Rightarrow> nat \<Rightarrow> node \<Rightarrow> string \<Rightarrow> nat \<Rightarrow> itree list \<Rightarrow> prowse_event list" where
  "events_of d depth (INode i ts) =
     (let n = node_at d i; xp = node_path d i in
      if ntype n = Document then concat (map (events_of d depth) ts)
      else if ntype n \<noteq> Element then []
      else start_event n xp (the (text_content d i)) depth # map (attribute_event n xp depth) (attributes n) @
           child_events d depth n xp 0 ts @ [end_event n xp depth])"
| "child_events d depth n xp k [] = []"
| "child_events d depth n xp k (t # ts) =
     (let c = node_at d (iroot t) in
      if ntype c = Text \<and> is_renderable_text (ntext c)
      then text_event n xp depth (k + 1) (ntext c) # child_events d depth n xp (k + 1) ts
      else if ntype c = Element then events_of d (depth + 1) t @ child_events d depth n xp k ts
      else child_events d depth n xp k ts)"

text \<open>The elements the walk reaches, and whether all of them are less than 256 levels deep.\<close>

fun visited :: "dom \<Rightarrow> itree \<Rightarrow> nat set" where
  "visited d (INode i ts) =
     (if ntype (node_at d i) = Document then \<Union> (visited d ` set ts)
      else if ntype (node_at d i) \<noteq> Element then {}
      else insert i (\<Union>t\<in>set ts. if ntype (node_at d (iroot t)) = Element then visited d t else {}))"

fun within :: "dom \<Rightarrow> nat \<Rightarrow> itree \<Rightarrow> bool" where
  "within d depth (INode i ts) =
     (if ntype (node_at d i) = Document then list_all (within d depth) ts
      else if ntype (node_at d i) \<noteq> Element then True
      else depth < 256 \<and> list_all (\<lambda>t. ntype (node_at d (iroot t)) = Element \<longrightarrow> within d (depth + 1) t) ts)"

section \<open>The walk refines it\<close>

definition emitted :: "dom \<Rightarrow> prowse_event list \<Rightarrow> nat set \<Rightarrow> ir_build \<Rightarrow> ir_build" where
  "emitted d es V b = \<lparr>ib_budget = spent es (ib_budget b), ib_events = ib_events b @ es,
     ib_paths = (\<lambda>j. if j \<in> V then element_path d (Some j) else ib_paths b j)\<rparr>"

text \<open>
  A step that, unless it hits a resource limit, adds \<open>es\<close> to the stream and the paths of \<open>V\<close> to the
  map; it succeeds exactly when \<open>P\<close> holds and the events fit.
\<close>

definition emits :: "dom \<Rightarrow> (ir_build \<Rightarrow> ir_build result option) \<Rightarrow> prowse_event list \<Rightarrow> nat set \<Rightarrow> bool \<Rightarrow> bool" where
  "emits d f es V P \<longleftrightarrow> (\<forall>b. budget_ok (ib_budget b) \<longrightarrow>
     (if P \<and> budget_ok (spent es (ib_budget b)) then f b = Some (Inr (emitted d es V b))
      else \<exists>e. f b = Some (Inl e) \<and> code e = ResourceLimit))"

lemma emits_return: "emits d (\<lambda>b. Some (Inr b)) [] {} True"
  by (simp add: emits_def emitted_def)

lemma emitted_append: "emitted d fs W (emitted d es V b) = emitted d (es @ fs) (V \<union> W) b"
  by (auto simp: emitted_def)

lemma emits_bind:
  assumes "emits d f es V P" and "emits d g fs W Q"
  shows "emits d (\<lambda>b. obind (f b) g) (es @ fs) (V \<union> W) (P \<and> Q)"
  unfolding emits_def
proof (intro allI impI)
  fix b :: ir_build assume ok: "budget_ok (ib_budget b)"
  have sp: "ib_budget (emitted d es V b) = spent es (ib_budget b)" by (simp add: emitted_def)
  show "if (P \<and> Q) \<and> budget_ok (spent (es @ fs) (ib_budget b)) then obind (f b) g = Some (Inr (emitted d (es @ fs) (V \<union> W) b))
      else \<exists>e. obind (f b) g = Some (Inl e) \<and> code e = ResourceLimit"
  proof (cases "P \<and> budget_ok (spent es (ib_budget b))")
    case True
    then have "f b = Some (Inr (emitted d es V b))" using assms(1) ok unfolding emits_def by metis
    moreover have "if Q \<and> budget_ok (spent fs (spent es (ib_budget b))) then g (emitted d es V b) = Some (Inr (emitted d fs W (emitted d es V b)))
        else \<exists>e. g (emitted d es V b) = Some (Inl e) \<and> code e = ResourceLimit"
      using assms(2) True sp unfolding emits_def by metis
    ultimately show ?thesis using True by (simp add: obind_def emitted_append)
  next
    case False
    then obtain e where "f b = Some (Inl e)" "code e = ResourceLimit" using assms(1) ok unfolding emits_def by metis
    moreover have "\<not> ((P \<and> Q) \<and> budget_ok (spent (es @ fs) (ib_budget b)))" using False spent_mono by auto
    ultimately show ?thesis by (simp add: obind_def)
  qed
qed

lemma emits_push: "emits d (\<lambda>b. Some (push_event e b)) [e] {} True"
  by (auto simp: emits_def push_event_def consume_eq emitted_def record_error_def byte_error_def)

lemma emits_pushes: "emits d (\<lambda>b. Some (push_events es b)) es {} True"
proof (induction es)
  case (Cons e es)
  have eq: "(\<lambda>b. obind (Some (push_event e b)) (\<lambda>b. Some (push_events es b))) = (\<lambda>b. Some (push_events (e # es) b))"
  proof
    show "obind (Some (push_event e b)) (\<lambda>b. Some (push_events es b)) = Some (push_events (e # es) b)" for b
      by (cases "push_event e b") (simp_all add: obind_def)
  qed
  from emits_bind [OF emits_push Cons, of e] show ?case unfolding eq by simp
qed (use emits_return in simp)

lemma emits_path:
  assumes "element_path d (Some i) = Some p"
  shows "emits d (\<lambda>b. Some (Inr (b\<lparr>ib_paths := (ib_paths b)(i \<mapsto> p)\<rparr>))) [] {i} True"
proof -
  have "emitted d [] {i} b = b\<lparr>ib_paths := (ib_paths b)(i \<mapsto> p)\<rparr>" for b
  proof -
    have "(\<lambda>j. if j \<in> {i} then element_path d (Some j) else ib_paths b j) = (ib_paths b)(i \<mapsto> p)"
      using assms by (simp add: fun_eq_iff)
    then show ?thesis unfolding emitted_def by (cases b) simp
  qed
  then show ?thesis by (simp add: emits_def)
qed

lemma emits_fail: "code e = ResourceLimit \<Longrightarrow> emits d (\<lambda>b. Some (Inl e)) es V False"
  by (simp add: emits_def)

lemma emits_cong:
  assumes "emits d f es V P" and "\<And>b. f b = g b" and "es = fs" and "V = W" and "P = Q"
  shows "emits d g fs W Q"
proof -
  have "f = g" using assms(2) by (rule ext)
  with assms show ?thesis by simp
qed

text \<open>More attributes than a stream can hold never fit.\<close>

lemma too_many_attributes:
  assumes "length (ev_attributes e) > max_event_stream_events"
  shows "\<not> budget_ok (spent (e # es) b)"
  using assms by (simp add: budget_ok_def spent_def stream_attributes_def)

lemma emits_too_many:
  assumes "length (ev_attributes e) > max_event_stream_events" and "code err = ResourceLimit"
  shows "emits d (\<lambda>b. Some (Inl err)) (e # es) V P"
  using too_many_attributes [OF assms(1)] assms(2) by (simp add: emits_def)

lemma emits_element:
  assumes path: "element_path d (Some i) = Some xp" and content: "text_content d i = Some tx"
    and el: "ntype (node_at d i) = Element"
    and kids: "emits d (walk_children d depth (node_at d i) xp 0 ts) es V P"
  shows "emits d (walk_tree d depth (INode i ts))
    (start_event (node_at d i) xp tx depth # map (attribute_event (node_at d i) xp depth) (attributes (node_at d i)) @
      es @ [end_event (node_at d i) xp depth]) (insert i V) (depth < 256 \<and> P)"
proof -
  let ?n = "node_at d i"
  let ?head = "start_event ?n xp tx depth # map (attribute_event ?n xp depth) (attributes ?n)"
  let ?go = "\<lambda>b. obind (Some (Inr (b\<lparr>ib_paths := (ib_paths b)(i \<mapsto> xp)\<rparr>)))
     (\<lambda>b. obind (Some (push_events ?head b)) (\<lambda>b. obind (walk_children d depth ?n xp 0 ts b)
        (\<lambda>b. Some (push_event (end_event ?n xp depth) b))))"
  have "emits d ?go ([] @ ?head @ es @ [end_event ?n xp depth]) ({i} \<union> ({} \<union> (V \<union> {}))) (True \<and> True \<and> P \<and> True)"
    by (intro emits_bind emits_path emits_pushes emits_push path kids)
  then have go: "emits d ?go (?head @ es @ [end_event ?n xp depth]) (insert i V) P" by simp
  show ?thesis
  proof (cases "depth \<ge> 256 \<or> length (attributes ?n) > max_event_stream_events")
    case True
    then have step: "walk_tree d depth (INode i ts) b = Some (Inl bounds_error)" for b
      using el by (simp add: Let_def)
    show ?thesis
    proof (cases "depth \<ge> 256")
      case True
      then show ?thesis
        by (intro emits_cong [OF emits_fail [of bounds_error]]) (use True el in \<open>simp_all add: bounds_error_def Let_def\<close>)
    next
      case False
      then have "length (ev_attributes (start_event ?n xp tx depth)) > max_event_stream_events"
        using \<open>_ \<or> _\<close> by (simp add: start_event_def)
      from emits_too_many [OF this, of bounds_error] show ?thesis
        by (rule emits_cong) (use step in \<open>simp_all add: bounds_error_def del: walk_tree.simps\<close>)
    qed
  next
    case False
    then have "walk_tree d depth (INode i ts) b = ?go b" for b
      using el path content by (simp add: obind_def Let_def)
    with go False show ?thesis by (elim emits_cong) simp_all
  qed
qed

lemma walk_all_emits:
  "(\<And>t. t \<in> set ts \<Longrightarrow> emits d (walk_tree d depth t) (events_of d depth t) (visited d t) (within d depth t)) \<Longrightarrow>
   emits d (walk_all d depth ts) (concat (map (events_of d depth) ts)) (\<Union> (visited d ` set ts)) (list_all (within d depth) ts)"
proof (induction ts)
  case Nil
  show ?case by (rule emits_cong [OF emits_return]) simp_all
next
  case (Cons t ts)
  then have "emits d (walk_tree d depth t) (events_of d depth t) (visited d t) (within d depth t)"
    "emits d (walk_all d depth ts) (concat (map (events_of d depth) ts)) (\<Union> (visited d ` set ts)) (list_all (within d depth) ts)"
    by simp_all
  from emits_bind [OF this] show ?case by (rule emits_cong) simp_all
qed

lemma walk_children_emits:
  "(\<And>t. t \<in> set ts \<Longrightarrow> ntype (node_at d (iroot t)) = Element \<Longrightarrow>
      emits d (walk_tree d (depth + 1) t) (events_of d (depth + 1) t) (visited d t) (within d (depth + 1) t)) \<Longrightarrow>
   emits d (walk_children d depth n xp k ts) (child_events d depth n xp k ts)
     (\<Union>t\<in>set ts. if ntype (node_at d (iroot t)) = Element then visited d t else {})
     (list_all (\<lambda>t. ntype (node_at d (iroot t)) = Element \<longrightarrow> within d (depth + 1) t) ts)"
proof (induction ts arbitrary: k)
  case Nil
  show ?case by (rule emits_cong [OF emits_return]) simp_all
next
  case (Cons t ts)
  let ?c = "node_at d (iroot t)"
  have IH: "emits d (walk_children d depth n xp k ts) (child_events d depth n xp k ts)
     (\<Union>t\<in>set ts. if ntype (node_at d (iroot t)) = Element then visited d t else {})
     (list_all (\<lambda>t. ntype (node_at d (iroot t)) = Element \<longrightarrow> within d (depth + 1) t) ts)" for k
    by (rule Cons.IH) (rule Cons.prems, simp_all)
  consider (text_node) "ntype ?c = Text" "is_renderable_text (ntext ?c)" | (el) "ntype ?c = Element"
    | (other) "ntype ?c \<noteq> Element" "\<not> (ntype ?c = Text \<and> is_renderable_text (ntext ?c))" by blast
  then show ?case
  proof cases
    case text_node
    from emits_bind [OF emits_push IH [of "k + 1"], of "text_event n xp depth (k + 1) (ntext ?c)"]
    show ?thesis by (rule emits_cong) (use text_node in \<open>simp_all add: Let_def\<close>)
  next
    case el
    have "emits d (walk_tree d (depth + 1) t) (events_of d (depth + 1) t) (visited d t) (within d (depth + 1) t)"
      by (rule Cons.prems) (simp_all add: el)
    from emits_bind [OF this IH [of k]] show ?thesis
      by (rule emits_cong) (use el in \<open>simp_all add: Let_def\<close>)
  next
    case other
    from IH [of k] show ?thesis by (rule emits_cong) (use other in \<open>auto simp: Let_def\<close>)
  qed
qed

lemma links_element_path:
  assumes "dom_wf d" and "i < size_dom d"
  shows "\<exists>p. element_path d (Some i) = Some p"
  using path_loop_acc [OF assms, of "[]"] by (auto simp: element_path_def)

lemma walk_emits:
  assumes wf: "dom_wf d"
  shows "links d t \<Longrightarrow> emits d (walk_tree d depth t) (events_of d depth t) (visited d t) (within d depth t)"
proof (induction t arbitrary: depth)
  case (INode i ts)
  have i: "i < size_dom d" and lk: "\<And>t. t \<in> set ts \<Longrightarrow> links d t" using INode.prems by auto
  consider (doc) "ntype (node_at d i) = Document" | (el) "ntype (node_at d i) = Element"
    | (other) "ntype (node_at d i) \<noteq> Document" "ntype (node_at d i) \<noteq> Element" by blast
  then show ?case
  proof cases
    case doc
    have "emits d (walk_all d depth ts) (concat (map (events_of d depth) ts)) (\<Union> (visited d ` set ts)) (list_all (within d depth) ts)"
      by (rule walk_all_emits) (rule INode.IH [OF _ lk])
    then show ?thesis by (rule emits_cong) (use doc in \<open>simp_all add: Let_def\<close>)
  next
    case el
    obtain xp where xp: "element_path d (Some i) = Some xp" using links_element_path [OF wf i] by blast
    obtain tx where tx: "text_content d i = Some tx" using tree_at_total [OF wf i] by (auto simp: text_content_def)
    have "emits d (walk_children d depth (node_at d i) xp 0 ts) (child_events d depth (node_at d i) xp 0 ts)
       (\<Union>t\<in>set ts. if ntype (node_at d (iroot t)) = Element then visited d t else {})
       (list_all (\<lambda>t. ntype (node_at d (iroot t)) = Element \<longrightarrow> within d (depth + 1) t) ts)"
      by (rule walk_children_emits) (rule INode.IH [OF _ lk])
    from emits_element [OF xp tx el this] show ?thesis
      by (rule emits_cong) (use el xp tx in \<open>simp_all add: Let_def node_path_def\<close>)
  next
    case other
    show ?thesis by (rule emits_cong [OF emits_return]) (use other in \<open>simp_all add: Let_def\<close>)
  qed
qed

text \<open>
  C22: lowering a document refines the specification of its event stream.  For a well-formed store
  the walk always returns; it yields exactly the events of the tree in document order when no
  element is 256 or more levels deep and the stream fits the budget, with the path of every visited
  element recorded, and a resource-limit error otherwise.
\<close>

theorem build_ir_refines:
  assumes "dom_wf d" and "doc_root doc = Some r" and "r < size_dom d"
  shows "\<exists>t. itree_at d r = Some t \<and>
    (if within d 0 t \<and> length (events_of d 0 t) \<le> 400000 \<and>
        sum_list (map (\<lambda>e. length (ev_attributes e)) (events_of d 0 t)) \<le> 400000 \<and>
        sum_list (map event_bytes (events_of d 0 t)) \<le> 33554432
     then emit_prowse_events d doc = Some (Inr (events_of d 0 t)) \<and>
       (\<exists>b. build_ir d doc = Some (Inr b) \<and> ib_paths b = (\<lambda>j. if j \<in> visited d t then element_path d (Some j) else None))
     else \<exists>e. emit_prowse_events d doc = Some (Inl e) \<and> code e = ResourceLimit)"
proof -
  obtain t where t: "itree_at d r = Some t" "links d t" using itree_at_total [OF assms(1,3)] by blast
  have ok: "budget_ok (ib_budget empty_build)" by (simp add: empty_build_def budget_ok_def empty_budget_def)
  have fits: "budget_ok (spent es (ib_budget empty_build)) \<longleftrightarrow> length es \<le> 400000 \<and>
      sum_list (map (\<lambda>e. length (ev_attributes e)) es) \<le> 400000 \<and> sum_list (map event_bytes es) \<le> 33554432" for es
    by (simp add: budget_ok_def spent_def empty_build_def empty_budget_def stream_attributes_def stream_bytes_def
        max_event_stream_events_def max_event_stream_bytes_def)
  have b: "build_ir d doc = walk_tree d 0 t empty_build" using assms(2) t(1) by (simp add: build_ir_def)
  have w: "if within d 0 t \<and> budget_ok (spent (events_of d 0 t) (ib_budget empty_build))
     then build_ir d doc = Some (Inr (emitted d (events_of d 0 t) (visited d t) empty_build))
     else \<exists>e. build_ir d doc = Some (Inl e) \<and> code e = ResourceLimit"
    using walk_emits [OF assms(1) t(2), of 0] ok unfolding emits_def b by blast
  have e: "ib_events (emitted d es V empty_build) = es" "ib_paths (emitted d es V empty_build) = (\<lambda>j. if j \<in> V then element_path d (Some j) else None)" for es V
    by (simp_all add: emitted_def empty_build_def cong: if_cong)
  show ?thesis
  proof (intro exI [of _ t] conjI t(1))
    show "if within d 0 t \<and> length (events_of d 0 t) \<le> 400000 \<and>
        sum_list (map (\<lambda>e. length (ev_attributes e)) (events_of d 0 t)) \<le> 400000 \<and>
        sum_list (map event_bytes (events_of d 0 t)) \<le> 33554432
     then emit_prowse_events d doc = Some (Inr (events_of d 0 t)) \<and>
       (\<exists>b. build_ir d doc = Some (Inr b) \<and> ib_paths b = (\<lambda>j. if j \<in> visited d t then element_path d (Some j) else None))
     else \<exists>e. emit_prowse_events d doc = Some (Inl e) \<and> code e = ResourceLimit"
      using w unfolding fits by (auto simp: emit_prowse_events_def obind_def e split: if_splits)
  qed
qed

theorem build_ir_refines_witness:
  "\<exists>t. itree_at sample_page 0 = Some t \<and>
     (emit_prowse_events sample_page \<lparr>doc_root = Some 0, doc_url = [], doc_base_url = []\<rparr> = Some (Inr (events_of sample_page 0 t)) \<or>
      (\<exists>e. emit_prowse_events sample_page \<lparr>doc_root = Some 0, doc_url = [], doc_base_url = []\<rparr> = Some (Inl e) \<and> code e = ResourceLimit))"
proof -
  have "0 < size_dom sample_page" by (simp add: sample_page_def)
  from build_ir_refines [OF sample_page_wf(1) _ this, of "\<lparr>doc_root = Some 0, doc_url = [], doc_base_url = []\<rparr>"]
  show ?thesis by (auto split: if_splits)
qed

end
