(* ===== verification/Wire.thy ===== *)
theory Wire
  imports Utf8 Interfaces
begin

text \<open>
  Little-endian words and length-prefixed strings, the alphabet of the two binary formats
  (\<^verbatim>\<open>ir_vtd.cpp\<close> and \<^verbatim>\<open>gfx_encoding.cpp\<close>).  A \<open>std::uint8_t\<close> of a byte vector is a \<open>char\<close>, as a byte of a
  string is; a reader takes the unread suffix and returns the rest, \<open>None\<close> for its \<open>false\<close>.
\<close>

definition write_u32 :: "u32 \<Rightarrow> string" where
  "write_u32 v =
     [to_char (v AND 0xff), to_char (drop_bit 8 v AND 0xff), to_char (drop_bit 16 v AND 0xff),
      to_char (drop_bit 24 v AND 0xff)]"

definition from_byte :: "char \<Rightarrow> u32" where
  "from_byte c = of_nat (byte c)"

fun read_u32 :: "string \<Rightarrow> (u32 \<times> string) option" where
  "read_u32 (a # b # c # d # rest) =
     Some (from_byte a OR push_bit 8 (from_byte b) OR push_bit 16 (from_byte c) OR push_bit 24 (from_byte d), rest)"
| "read_u32 _ = None"

definition write_bytes :: "string \<Rightarrow> string" where
  "write_bytes s = write_u32 (of_nat (length s)) @ s"

definition read_vtd_string :: "string \<Rightarrow> (string \<times> string) option" where
  "read_vtd_string bytes =
     (case read_u32 bytes of
        None \<Rightarrow> None
      | Some (len, rest) \<Rightarrow>
          if length rest < unat len then None else Some (take (unat len) rest, drop (unat len) rest))"

section \<open>The words round-trip\<close>

text \<open>Bit \<open>n\<close> of a word lives in byte \<open>n div 8\<close>; the four bytes are disjoint.\<close>

lemma mask_ff: "(0xff :: u32) = mask 8"
  by (simp add: mask_eq_exp_minus_1)

lemma from_byte_bit: "bit (from_byte c) n \<longleftrightarrow> n < 8 \<and> bit (byte c) n"
proof -
  have "take_bit 8 (byte c) = byte c" by (simp add: take_bit_nat_eq_self)
  then have "bit (byte c) n \<longleftrightarrow> n < 8 \<and> bit (byte c) n" by (metis bit_take_bit_iff)
  then show ?thesis by (auto simp: from_byte_def bit_simps)
qed

lemma unat_from_byte: "unat (from_byte c) = byte c"
proof -
  have "byte c < 2 ^ 32" by (rule less_trans [OF byte_less]) simp
  then show ?thesis by (simp add: from_byte_def unat_of_nat)
qed

lemma to_char_from_byte: "to_char (from_byte c) = c"
  by (simp add: to_char_def unat_from_byte)

lemma from_to_char: "from_byte (to_char (w AND 0xff)) = w AND 0xff"
proof -
  have "w AND 0xff \<le> 0xff" by (rule word_and_le1)
  then have "unat (w AND 0xff) \<le> 0xff" by (simp only: word_le_nat_alt) simp
  then have "unat (w AND 0xff) mod 256 = unat (w AND 0xff)" by (intro mod_less) (simp del: unat_and32)
  then have "of_nat (unat (w AND 0xff) mod 256) = w AND 0xff" by (simp only: of_nat_unat ucast_id)
  then show ?thesis by (simp only: from_byte_def to_char_def byte_char_of)
qed

lemma byte_cases:
  fixes n :: nat
  assumes "n < 32"
  obtains "n < 8" | m where "n = 8 + m" "m < 8" | m where "n = 16 + m" "m < 8" | m where "n = 24 + m" "m < 8"
proof -
  consider "n < 8" | "8 \<le> n" "n < 16" | "16 \<le> n" "n < 24" | "24 \<le> n" by linarith
  then show ?thesis
    using that(1) that(2) [of "n - 8"] that(3) [of "n - 16"] that(4) [of "n - 24"] assms
    by cases simp_all
qed

lemma u32_reassemble:
  fixes v :: u32
  shows "(v AND 0xff) OR push_bit 8 (drop_bit 8 v AND 0xff) OR push_bit 16 (drop_bit 16 v AND 0xff) OR
     push_bit 24 (drop_bit 24 v AND 0xff) = v"
proof (rule bit_eqI)
  fix n assume "possible_bit TYPE(u32) n"
  then have "n < 32" by simp
  then show "bit ((v AND 0xff) OR push_bit 8 (drop_bit 8 v AND 0xff) OR push_bit 16 (drop_bit 16 v AND 0xff) OR
     push_bit 24 (drop_bit 24 v AND 0xff)) n = bit v n"
    unfolding mask_ff by (cases rule: byte_cases) (simp_all add: bit_simps)
qed

lemma read_write_u32 [simp]: "read_u32 (write_u32 v @ rest) = Some (v, rest)"
  unfolding write_u32_def append.simps read_u32.simps from_to_char u32_reassemble ..

lemma length_write_u32 [simp]: "length (write_u32 v) = 4"
  by (simp add: write_u32_def)

lemma read_u32_bytes:
  assumes "v = from_byte a OR push_bit 8 (from_byte b) OR push_bit 16 (from_byte c) OR push_bit 24 (from_byte d)"
  shows "v AND 0xff = from_byte a" "drop_bit 8 v AND 0xff = from_byte b"
    "drop_bit 16 v AND 0xff = from_byte c" "drop_bit 24 v AND 0xff = from_byte d"
  unfolding assms mask_ff by (rule bit_eqI; auto simp: bit_simps from_byte_bit)+

lemma write_read_u32: "read_u32 bs = Some (v, rest) \<Longrightarrow> bs = write_u32 v @ rest"
proof (cases bs rule: read_u32.cases)
  case (1 a b c d r)
  assume "read_u32 bs = Some (v, rest)"
  with 1 have "v = from_byte a OR push_bit 8 (from_byte b) OR push_bit 16 (from_byte c) OR push_bit 24 (from_byte d)"
    and r: "r = rest" by (simp_all only: read_u32.simps option.inject prod.inject)
  from read_u32_bytes [OF this(1)] have "write_u32 v = [a, b, c, d]"
    unfolding write_u32_def by (simp only: to_char_from_byte)
  with 1 r show ?thesis by simp
qed simp_all

lemma length_read_u32: "read_u32 bs = Some (v, rest) \<Longrightarrow> length bs = 4 + length rest"
  by (drule write_read_u32) simp

interpretation word_codec: codec write_u32 read_u32 "\<lambda>_. True"
  by unfold_locales simp

lemma unat_of_nat_small: "n < 2 ^ 32 \<Longrightarrow> unat (of_nat n :: u32) = n"
  by (simp add: unat_of_nat)

interpretation string_codec: codec write_bytes read_vtd_string "\<lambda>s. length s < 2 ^ 32"
  by unfold_locales (simp add: write_bytes_def read_vtd_string_def unat_of_nat_small del: of_nat_unat)

lemma length_read_vtd_string: "read_vtd_string bs = Some (s, rest) \<Longrightarrow> length bs = 4 + length s + length rest"
  by (auto simp: read_vtd_string_def dest!: length_read_u32 split: option.splits if_splits)

end
