(* ===== verification/Ir_Vtd.thy ===== *)
theory Ir_Vtd
  imports Ir_Model Wire
begin

text \<open>
  \<^verbatim>\<open>ir_vtd.cpp\<close>: the PVTD1 binary form of an event stream.  The format keeps one name per token: the
  tag for start, text and end events, the attribute name for attribute events, whose tag the
  decoder recovers from the path.  The element snapshot of a start event is not transmitted.
\<close>

definition kProwseVtdMagic :: string where "kProwseVtdMagic = ''PVTD1''"
definition kProwseVtdStart :: nat where "kProwseVtdStart = 1"
definition kProwseVtdAttribute :: nat where "kProwseVtdAttribute = 2"
definition kProwseVtdText :: nat where "kProwseVtdText = 3"
definition kProwseVtdEnd :: nat where "kProwseVtdEnd = 4"

definition vtd_type :: "string \<Rightarrow> nat" where
  "vtd_type kind =
     (if kind = ''start'' then kProwseVtdStart else if kind = ''attribute'' then kProwseVtdAttribute
      else if kind = ''text'' then kProwseVtdText else if kind = ''end'' then kProwseVtdEnd else 0)"

definition write_token :: "nat \<Rightarrow> u32 \<Rightarrow> string \<Rightarrow> string \<Rightarrow> string \<Rightarrow> string" where
  "write_token ty depth xp nm v = char_of ty # write_u32 depth @ write_bytes xp @ write_bytes nm @ write_bytes v"

definition write_event :: "prowse_event \<Rightarrow> string" where
  "write_event e =
     write_token (vtd_type (ev_kind e)) (of_nat (ev_depth e)) (ev_xpath e)
       (if ev_name e = [] then ev_tag e else ev_name e) (ev_value e)"

definition encode_vtd :: "prowse_event list \<Rightarrow> string" where
  "encode_vtd events = kProwseVtdMagic @ write_u32 (of_nat (length events)) @ concat (map write_event events)"

definition emit_prowse_vtd :: "dom \<Rightarrow> document \<Rightarrow> string result option" where
  "emit_prowse_vtd d doc = obind (emit_prowse_events d doc) (\<lambda>events. Some (Inr (encode_vtd events)))"

text \<open>The \<open>switch\<close> on the token type; an unknown type fails.\<close>

definition token_event :: "nat \<Rightarrow> nat \<Rightarrow> string \<Rightarrow> string \<Rightarrow> string \<Rightarrow> prowse_event option" where
  "token_event ty depth xp nm v =
     (if ty = kProwseVtdStart then Some (make_event ''start'' xp nm [] v depth)
      else if ty = kProwseVtdAttribute then Some (make_event ''attribute'' xp (tag_from_path xp) nm v depth)
      else if ty = kProwseVtdText then Some (make_event ''text'' xp nm [] v depth)
      else if ty = kProwseVtdEnd then Some (make_event ''end'' xp nm [] v depth)
      else None)"

definition read_event :: "string \<Rightarrow> (prowse_event \<times> string) option" where
  "read_event bs =
     (case bs of
        [] \<Rightarrow> None
      | ty # bs1 \<Rightarrow>
          (case read_u32 bs1 of None \<Rightarrow> None | Some (depth, bs2) \<Rightarrow>
          (case read_vtd_string bs2 of None \<Rightarrow> None | Some (xp, bs3) \<Rightarrow>
          (case read_vtd_string bs3 of None \<Rightarrow> None | Some (nm, bs4) \<Rightarrow>
          (case read_vtd_string bs4 of None \<Rightarrow> None | Some (v, bs5) \<Rightarrow>
             map_option (\<lambda>e. (e, bs5)) (token_event (byte ty) (unat depth) xp nm v))))))"

fun read_events :: "nat \<Rightarrow> string \<Rightarrow> (prowse_event list \<times> string) option" where
  "read_events 0 bs = Some ([], bs)"
| "read_events (Suc n) bs =
     (case read_event bs of
        None \<Rightarrow> None
      | Some (e, rest) \<Rightarrow> (case read_events n rest of None \<Rightarrow> None | Some (es, r) \<Rightarrow> Some (e # es, r)))"

definition decode_prowse_vtd :: "string \<Rightarrow> prowse_event list" where
  "decode_prowse_vtd bs =
     (if length bs < 9 \<or> take 5 bs \<noteq> ''PVTD1'' then []
      else case read_u32 (drop 5 bs) of
          None \<Rightarrow> []
        | Some (count, rest) \<Rightarrow>
            (case read_events (unat count) rest of
               None \<Rightarrow> []
             | Some (events, rest') \<Rightarrow> if rest' = [] then events else []))"

section \<open>The tokens form a codec\<close>

text \<open>What the format transmits of an event.\<close>

definition vtd_view :: "prowse_event \<Rightarrow> prowse_event" where
  "vtd_view e = e\<lparr>ev_attributes := [], ev_subtree_text := []\<rparr>"

definition vtd_ok :: "prowse_event \<Rightarrow> bool" where
  "vtd_ok e \<longleftrightarrow>
     (if ev_kind e = ''attribute'' then ev_name e \<noteq> [] \<and> ev_tag e = tag_from_path (ev_xpath e)
      else ev_kind e \<in> {''start'', ''text'', ''end''} \<and> ev_name e = []) \<and>
     ev_depth e < 2 ^ 32 \<and> length (ev_xpath e) < 2 ^ 32 \<and> length (ev_tag e) < 2 ^ 32 \<and>
     length (ev_name e) < 2 ^ 32 \<and> length (ev_value e) < 2 ^ 32"

definition vtd_plain :: "prowse_event \<Rightarrow> bool" where
  "vtd_plain e \<longleftrightarrow> vtd_ok e \<and> ev_attributes e = [] \<and> ev_subtree_text e = []"

lemma vtd_view_plain: "vtd_ok e \<Longrightarrow> vtd_plain (vtd_view e)"
  by (auto simp: vtd_plain_def vtd_view_def vtd_ok_def split: if_splits)

lemma write_event_view: "write_event (vtd_view e) = write_event e"
  by (simp add: write_event_def vtd_view_def)

lemma read_write_token:
  assumes "ty < 256" and "length xp < 2 ^ 32" and "length nm < 2 ^ 32" and "length v < 2 ^ 32" and "dep < 2 ^ 32"
  shows "read_event (write_token ty (of_nat dep) xp nm v @ rest) =
    map_option (\<lambda>e. (e, rest)) (token_event ty dep xp nm v)"
  using assms(1,2,3,4) unat_of_nat_small [OF assms(5)]
  by (simp add: read_event_def write_token_def string_codec.dec_enc del: of_nat_unat)

lemma read_write_event:
  assumes "vtd_plain e"
  shows "read_event (write_event e @ rest) = Some (e, rest)"
proof -
  note ok = assms [unfolded vtd_plain_def vtd_ok_def]
  have "vtd_type (ev_kind e) < 256"
    by (simp add: vtd_type_def kProwseVtdStart_def kProwseVtdAttribute_def kProwseVtdText_def kProwseVtdEnd_def)
  moreover have "length (if ev_name e = [] then ev_tag e else ev_name e) < 2 ^ 32" using ok by auto
  ultimately have "read_event (write_event e @ rest) = map_option (\<lambda>e. (e, rest))
     (token_event (vtd_type (ev_kind e)) (ev_depth e) (ev_xpath e) (if ev_name e = [] then ev_tag e else ev_name e) (ev_value e))"
    unfolding write_event_def using ok by (intro read_write_token) auto
  moreover have "token_event (vtd_type (ev_kind e)) (ev_depth e) (ev_xpath e)
      (if ev_name e = [] then ev_tag e else ev_name e) (ev_value e) = Some e"
    using ok by (cases e) (auto simp: token_event_def vtd_type_def make_event_def kProwseVtdStart_def
        kProwseVtdAttribute_def kProwseVtdText_def kProwseVtdEnd_def split: if_splits)
  ultimately show ?thesis by simp
qed

interpretation vtd_token: codec write_event read_event vtd_plain
  by unfold_locales (rule read_write_event)

lemma read_events_seq: "read_events n bs = vtd_token.dec_seq n bs"
  by (induction n arbitrary: bs) (auto split: option.splits)

lemma vtd_decode_encode:
  assumes "list_all vtd_ok es" and "length es < 2 ^ 32"
  shows "decode_prowse_vtd (encode_vtd es) = map vtd_view es"
proof -
  let ?vs = "map vtd_view es"
  have plain: "list_all vtd_plain ?vs" using assms(1) by (auto simp: list_all_iff vtd_view_plain)
  have body: "concat (map write_event es) = concat (map write_event ?vs)"
    by (simp add: write_event_view comp_def)
  have "read_events (length ?vs) (concat (map write_event ?vs)) = Some (?vs, [])"
    using vtd_token.dec_seq_enc [OF plain, of "[]"] by (simp only: read_events_seq append_Nil2)
  then have "read_events (length es) (concat (map write_event es)) = Some (?vs, [])"
    unfolding body by simp
  then show ?thesis
    using unat_of_nat_small [OF assms(2)]
    by (simp add: decode_prowse_vtd_def encode_vtd_def kProwseVtdMagic_def del: of_nat_unat)
qed

section \<open>Decoding is bounded by its input\<close>

lemma length_read_event: "read_event bs = Some (e, rest) \<Longrightarrow> 17 + length rest \<le> length bs"
  by (auto simp: read_event_def dest!: length_read_u32 length_read_vtd_string split: list.splits option.splits)

lemma length_read_events: "read_events n bs = Some (es, rest) \<Longrightarrow> 17 * length es + length rest \<le> length bs \<and> length es = n"
proof (induction n arbitrary: bs es)
  case (Suc n)
  then obtain e bs' es' where "read_event bs = Some (e, bs')" "read_events n bs' = Some (es', rest)" "es = e # es'"
    by (auto split: option.splits)
  with length_read_event [of bs e bs'] Suc.IH [of bs' es'] show ?case by auto
qed simp

text \<open>
  Decoding is total and cannot be made to produce more events than the input has room for (17
  bytes each behind a header of 9), whatever count its header claims.  Input without the magic
  decodes to nothing, and what does decode has exactly the number of events the header names.
\<close>

theorem vtd_decode_bounded:
  "17 * length (decode_prowse_vtd bs) \<le> length bs - 9 \<and>
   (take 5 bs = ''PVTD1'' \<or> decode_prowse_vtd bs = []) \<and>
   (decode_prowse_vtd bs = [] \<or>
    (\<exists>count rest. read_u32 (drop 5 bs) = Some (count, rest) \<and> unat count = length (decode_prowse_vtd bs)))"
proof (cases "length bs < 9 \<or> take 5 bs \<noteq> ''PVTD1''")
  case True
  then have "decode_prowse_vtd bs = []" by (simp only: decode_prowse_vtd_def if_True)
  then show ?thesis by simp
next
  case False
  show ?thesis
  proof (cases "read_u32 (drop 5 bs)")
    case None
    with False have "decode_prowse_vtd bs = []" by (simp add: decode_prowse_vtd_def)
    with False show ?thesis by simp
  next
    case (Some r)
    obtain count rest where r: "r = (count, rest)" by (cases r)
    have len: "length bs - 9 = length rest" using length_read_u32 [of "drop 5 bs"] Some r by simp
    show ?thesis
    proof (cases "read_events (unat count) rest")
      case None
      with False Some r have "decode_prowse_vtd bs = []" by (simp add: decode_prowse_vtd_def)
      with False show ?thesis by simp
    next
      case events: (Some s)
      obtain es rest' where s: "s = (es, rest')" by (cases s)
      have "decode_prowse_vtd bs = (if rest' = [] then es else [])"
        using False Some r events s by (simp add: decode_prowse_vtd_def)
      with length_read_events [of "unat count" rest es rest'] events s len Some r False show ?thesis by auto
    qed
  qed
qed

section \<open>Whole documents\<close>

text \<open>Where an event of a document comes from.\<close>

definition comes_from :: "dom \<Rightarrow> nat \<Rightarrow> prowse_event \<Rightarrow> bool" where
  "comes_from d i e \<longleftrightarrow> (\<exists>depth. depth < 256 \<and>
     (e = start_event (node_at d i) (node_path d i) (the (text_content d i)) depth \<or>
      e = end_event (node_at d i) (node_path d i) depth \<or>
      (\<exists>a\<in>set (attributes (node_at d i)). e = attribute_event (node_at d i) (node_path d i) depth a) \<or>
      (\<exists>k s. e = text_event (node_at d i) (node_path d i) depth k s)))"

lemma child_events_from:
  assumes "e \<in> set (child_events d depth (node_at d i) (node_path d i) k ts)" and "depth < 256"
  shows "comes_from d i e \<or>
    (\<exists>t\<in>set ts. ntype (node_at d (iroot t)) = Element \<and> e \<in> set (events_of d (depth + 1) t))"
  using assms
proof (induction ts arbitrary: k)
  case (Cons t ts)
  have "comes_from d i (text_event (node_at d i) (node_path d i) depth k' s)" for k' s
    using Cons.prems(2) by (auto simp: comes_from_def)
  with Cons show ?case by (auto simp: Let_def split: if_splits)
qed simp

lemma events_from:
  "within d depth t \<Longrightarrow> e \<in> set (events_of d depth t) \<Longrightarrow> \<exists>i\<in>visited d t. comes_from d i e"
proof (induction t arbitrary: depth)
  case (INode i ts)
  consider (doc) "ntype (node_at d i) = Document" | (el) "ntype (node_at d i) = Element"
    | (other) "ntype (node_at d i) \<noteq> Document" "ntype (node_at d i) \<noteq> Element" by blast
  then show ?case
  proof cases
    case doc
    with INode.prems obtain t where "t \<in> set ts" "e \<in> set (events_of d depth t)" "within d depth t"
      by (auto simp: Let_def list_all_iff)
    with INode.IH doc show ?thesis by fastforce
  next
    case el
    then have deep: "depth < 256" and kids: "\<And>t. t \<in> set ts \<Longrightarrow> ntype (node_at d (iroot t)) = Element \<Longrightarrow> within d (depth + 1) t"
      using INode.prems(1) by (auto simp: list_all_iff)
    from el INode.prems(2) consider (own) "comes_from d i e"
      | (child) "e \<in> set (child_events d depth (node_at d i) (node_path d i) 0 ts)"
      using deep by (auto simp: Let_def comes_from_def)
    then show ?thesis
    proof cases
      case own
      with el show ?thesis by auto
    next
      case child
      from child_events_from [OF this deep] show ?thesis
      proof
        assume "\<exists>t\<in>set ts. ntype (node_at d (iroot t)) = Element \<and> e \<in> set (events_of d (depth + 1) t)"
        then obtain t where t: "t \<in> set ts" "ntype (node_at d (iroot t)) = Element" "e \<in> set (events_of d (depth + 1) t)"
          by blast
        from INode.IH [OF t(1) kids [OF t(1,2)] t(3)] t el show ?thesis by auto
      qed (use el in auto)
    qed
  next
    case other
    with INode.prems show ?thesis by (simp add: Let_def)
  qed
qed

lemma visited_elements: "links d t \<Longrightarrow> i \<in> visited d t \<Longrightarrow> i < size_dom d \<and> is_element (node_at d i)"
  by (induction t) (auto simp: is_element_def split: if_splits)

text \<open>Names the path syntax can carry, as HTML names are.\<close>

definition vtd_names :: "dom \<Rightarrow> bool" where
  "vtd_names d \<longleftrightarrow> layout_ok d \<and> (\<forall>i < size_dom d. is_element (node_at d i) \<longrightarrow>
     CHR ''['' \<notin> set (nname (node_at d i)) \<and> \<not> prefix ''text()'' (nname (node_at d i)) \<and>
     \<not> prefix ''@'' (nname (node_at d i)) \<and> (\<forall>a\<in>set (attributes (node_at d i)). attr_name a \<noteq> []))"

lemma prefix_before: "prefix p (n @ c # r) \<Longrightarrow> c \<notin> set p \<Longrightarrow> prefix p n"
  by (auto simp: prefix_append prefix_Cons)

lemma node_path_tag:
  assumes "dom_wf d" and "vtd_names d" and "i < size_dom d" and "is_element (node_at d i)"
  shows "tag_from_path (node_path d i) = nname (node_at d i)"
proof -
  have lay: "layout_ok d" using assms(2) by (simp add: vtd_names_def)
  obtain p where p: "element_path d (Some i) = Some p" using links_element_path [OF assms(1,3)] by blast
  have "\<not> prefix ''text()'' (path_segment d i)" "\<not> prefix ''@'' (path_segment d i)"
    using assms(2-4) prefix_before [of _ "nname (node_at d i)" "CHR ''[''"] by (auto simp: vtd_names_def path_segment_def)
  with tag_from_element_path [OF assms(1) lay assms(3,4) p] assms(2-4) p show ?thesis
    by (simp add: vtd_names_def node_path_def)
qed

lemma comes_from_ok:
  assumes "dom_wf d" and "vtd_names d" and "i < size_dom d" and "is_element (node_at d i)"
    and "comes_from d i e" and "event_bytes e < 2 ^ 32"
  shows "vtd_ok e"
proof -
  have len: "length (ev_xpath e) < 2 ^ 32" "length (ev_tag e) < 2 ^ 32" "length (ev_name e) < 2 ^ 32" "length (ev_value e) < 2 ^ 32"
    using assms(6) by (auto simp: event_bytes_def event_sizes_def)
  have attr: "attr_name a \<noteq> []" if "a \<in> set (attributes (node_at d i))" for a
    using assms(2-4) that by (auto simp: vtd_names_def)
  from assms(5) len attr node_path_tag [OF assms(1-4)] show ?thesis
    by (auto simp: vtd_ok_def comes_from_def start_event_def end_event_def attribute_event_def text_event_def make_event_def)
qed

lemma event_bytes_le: "e \<in> set es \<Longrightarrow> event_bytes e \<le> stream_bytes es"
  unfolding stream_bytes_def by (rule member_le_sum_list) simp_all



end
