(* ===== verification/Ir_Iml.thy ===== *)
theory Ir_Iml
  imports Ir_Layout Html_Serializer Dom_Document
begin

text \<open>
  \<^verbatim>\<open>ir_iml.cpp\<close>: the S-expression form of a document and the expansion of macro forms in it.  The
  serializer reads the tree below a node; the expander works on the unread suffix of its input, and the
  expander function of the caller is a parameter (\<open>None\<close> for an empty \<open>std::function\<close>).
\<close>

section \<open>Strings\<close>

definition escape_iml_char :: "char \<Rightarrow> string" where
  "escape_iml_char c =
     (if c = CHR 0x5C then [CHR 0x5C, CHR 0x5C] else if c = CHR 0x22 then [CHR 0x5C, CHR 0x22]
      else if c = CHR 0x0A then [CHR 0x5C, CHR ''n''] else if c = CHR 0x0D then [CHR 0x5C, CHR ''r'']
      else if c = CHR 0x09 then [CHR 0x5C, CHR ''t''] else [c])"

definition escape_iml :: "string \<Rightarrow> string" where
  "escape_iml s = concat (map escape_iml_char s)"

fun unescape_iml_string :: "string \<Rightarrow> string" where
  "unescape_iml_string [] = []"
| "unescape_iml_string [c] = [c]"
| "unescape_iml_string (c # e # s) =
     (if c \<noteq> CHR 0x5C then c # unescape_iml_string (e # s)
      else (if e = CHR ''n'' then CHR 0x0A else if e = CHR ''r'' then CHR 0x0D
            else if e = CHR ''t'' then CHR 0x09 else e) # unescape_iml_string s)"

section \<open>Serialization\<close>

definition iml_attribute :: "attribute \<Rightarrow> string" where
  "iml_attribute a = '' ('' @ attr_name a @ [CHR '' '', CHR 0x22] @ escape_iml (attr_value a) @ [CHR 0x22, CHR '')'']"

fun emit_iml_node :: "nat \<Rightarrow> tree \<Rightarrow> string" where
  "emit_iml_node indent (Tree ty nm as tx ts) =
     (let spaces = replicate indent (CHR '' '') in
      if ty = Document then ''(document'' @ [CHR 0x0A] @ concat (map (emit_iml_node (indent + 2)) ts) @ [CHR '')'', CHR 0x0A]
      else if ty = Element then
        spaces @ ''(element '' @ nm @
        (if as \<noteq> [] then '' (@'' @ concat (map iml_attribute as) @ '')'' else []) @
        (if \<not> list_ex (\<lambda>t. t_type t = Element) ts \<and>
            \<not> list_ex (\<lambda>t. t_type t = Text \<and> is_renderable_text (t_text t)) ts
         then [CHR '')'', CHR 0x0A]
         else [CHR 0x0A] @ concat (map (emit_iml_node (indent + 2)) ts) @ spaces @ [CHR '')'', CHR 0x0A])
      else if ty = Text \<and> is_renderable_text tx then
        spaces @ ''(text '' @ [CHR 0x22] @ escape_iml tx @ [CHR 0x22, CHR '')'', CHR 0x0A]
      else [])"

definition emit_prowse_iml :: "dom \<Rightarrow> document \<Rightarrow> string option" where
  "emit_prowse_iml d doc =
     (case doc_root doc of None \<Rightarrow> Some [] | Some r \<Rightarrow> map_option (emit_iml_node 0) (tree_at d r))"

section \<open>Macros\<close>

text \<open>The loop of \<open>parse_quoted\<close> behind the opening quote: the raw text and the rest, or no closing quote.\<close>

fun quoted_raw :: "string \<Rightarrow> (string \<times> string) option" where
  "quoted_raw [] = None"
| "quoted_raw [c] = (if c = CHR 0x22 then Some ([], []) else None)"
| "quoted_raw (c # e # s) =
     (if c = CHR 0x22 then Some ([], e # s)
      else if c = CHR 0x5C then map_option (\<lambda>(raw, rest). (c # e # raw, rest)) (quoted_raw s)
      else map_option (\<lambda>(raw, rest). (c # raw, rest)) (quoted_raw (e # s)))"

definition parse_quoted :: "string \<Rightarrow> string \<times> string" where
  "parse_quoted s =
     (if s = [] \<or> hd s \<noteq> CHR 0x22 then ([], s)
      else case quoted_raw (tl s) of
          None \<Rightarrow> ([], [])
        | Some (raw, rest) \<Rightarrow> (unescape_iml_string raw, rest))"

definition iml_space :: "char \<Rightarrow> bool" where
  "iml_space c \<longleftrightarrow> c = CHR '' '' \<or> c = CHR 0x09 \<or> c = CHR 0x0A \<or> c = CHR 0x0D"

definition macro_name_char :: "char \<Rightarrow> bool" where
  "macro_name_char c \<longleftrightarrow> c \<noteq> CHR '')'' \<and> \<not> iml_space c"

lemma quoted_raw_length: "quoted_raw s = Some (raw, rest) \<Longrightarrow> length rest < length s"
  by (induction s arbitrary: raw rule: quoted_raw.induct) (fastforce split: if_splits)+

lemma parse_quoted_length: "s \<noteq> [] \<Longrightarrow> hd s = CHR 0x22 \<Longrightarrow> length (snd (parse_quoted s)) < length s"
  by (cases s) (auto simp: parse_quoted_def dest!: quoted_raw_length split: option.split)

function macro_args :: "string \<Rightarrow> (string list \<times> string) option" where
  "macro_args s =
     (let r = dropWhile iml_space s in
      if r = [] then None
      else if hd r = CHR '')'' then Some ([], tl r)
      else if hd r \<noteq> CHR 0x22 then None
      else map_option (\<lambda>(args, rest). (fst (parse_quoted r) # args, rest)) (macro_args (snd (parse_quoted r))))"
  by pat_completeness auto
termination
  by (relation "measure length")
     (auto intro: less_le_trans [OF parse_quoted_length length_dropWhile_le])

declare macro_args.simps [simp del]

definition parse_macro :: "string \<Rightarrow> (string \<times> string list \<times> string) option" where
  "parse_macro s =
     (if take 7 s \<noteq> ''(macro '' then None
      else let nm = takeWhile macro_name_char (drop 7 s); r = dropWhile macro_name_char (drop 7 s) in
           if nm = [] then None
           else map_option (\<lambda>(args, rest). (nm, args, rest)) (macro_args r))"

type_synonym expander = "string \<Rightarrow> string list \<Rightarrow> string"

lemma macro_args_length: "macro_args s = Some (args, rest) \<Longrightarrow> length rest < length s"
proof (induction s arbitrary: args rule: macro_args.induct)
  case (1 s)
  let ?r = "dropWhile iml_space s"
  have r: "length ?r \<le> length s" by (rule length_dropWhile_le)
  from 1(2) consider "?r \<noteq> []" "hd ?r = CHR '')''" "rest = tl ?r"
    | a where "?r \<noteq> []" "hd ?r \<noteq> CHR '')''" "hd ?r = CHR 0x22" "macro_args (snd (parse_quoted ?r)) = Some (a, rest)"
    by (subst (asm) macro_args.simps) (auto simp: Let_def split: if_splits)
  then show ?case
  proof cases
    case 1
    then have "length rest < length ?r" by (cases ?r) simp_all
    with r show ?thesis by simp
  next
    case (2 a)
    with 1(1) [OF refl, of a] parse_quoted_length [of ?r] r show ?thesis by auto
  qed
qed

lemma parse_macro_length: "parse_macro s = Some (nm, args, rest) \<Longrightarrow> length rest < length s"
  by (auto simp: parse_macro_def Let_def dest!: macro_args_length split: if_splits
      intro: less_le_trans [OF less_le_trans [OF _ length_dropWhile_le]])

function expand_prowse_iml :: "expander option \<Rightarrow> string \<Rightarrow> string" where
  "expand_prowse_iml ex [] = []"
| "expand_prowse_iml ex (c # s) =
     (if c \<noteq> CHR ''('' \<or> take 7 (c # s) \<noteq> ''(macro '' then c # expand_prowse_iml ex s
      else case (parse_macro (c # s), ex) of
          (Some (nm, args, rest), Some f) \<Rightarrow>
            (if f nm args = [] then take (length (c # s) - length rest) (c # s) else f nm args) @ expand_prowse_iml ex rest
        | _ \<Rightarrow> c # expand_prowse_iml ex s)"
  by pat_completeness auto
termination
  by (relation "measure (\<lambda>(ex, s). length s)") (auto dest: parse_macro_length [OF sym])

declare expand_prowse_iml.simps(2) [simp del]

section \<open>Escaping\<close>

interpretation iml_esc: escaping escape_iml_char unescape_iml_string
proof
  show "unescape_iml_string (escape_iml_char c @ s) = c # unescape_iml_string s" for c s
    by (cases s) (auto simp: escape_iml_char_def)
qed simp

lemma unescape_escape: "unescape_iml_string (escape_iml s) = s"
  unfolding escape_iml_def by (rule iml_esc.dec_escape)

lemma quoted_raw_char:
  "t \<noteq> [] \<Longrightarrow> quoted_raw (escape_iml_char c @ t) = map_option (\<lambda>(raw, r). (escape_iml_char c @ raw, r)) (quoted_raw t)"
  by (cases t) (auto simp: escape_iml_char_def)

lemma quoted_raw_escape: "quoted_raw (escape_iml a @ CHR 0x22 # rest) = Some (escape_iml a, rest)"
proof (induction a)
  case Nil
  then show ?case by (cases rest) (simp_all add: escape_iml_def)
next
  case (Cons c a)
  have "quoted_raw (escape_iml_char c @ (escape_iml a @ CHR 0x22 # rest)) = Some (escape_iml_char c @ escape_iml a, rest)"
    by (subst quoted_raw_char) (simp_all add: Cons)
  then show ?case by (simp add: escape_iml_def)
qed

lemma parse_quoted_escape:
  "parse_quoted (CHR 0x22 # escape_iml a @ CHR 0x22 # rest) = (a, rest)"
  by (simp add: parse_quoted_def quoted_raw_escape unescape_escape)

section \<open>Expanding a macro form\<close>

definition macro_arg :: "string \<Rightarrow> string" where
  "macro_arg a = [CHR '' '', CHR 0x22] @ escape_iml a @ [CHR 0x22]"

definition macro_form :: "string \<Rightarrow> string list \<Rightarrow> string" where
  "macro_form nm args = ''(macro '' @ nm @ concat (map macro_arg args) @ '')''"

lemma macro_args_form: "macro_args (concat (map macro_arg args) @ CHR '')'' # rest) = Some (args, rest)"
proof (induction args)
  case Nil
  then show ?case by (simp add: macro_args.simps [of "CHR '')'' # rest"] iml_space_def)
next
  case (Cons a args)
  let ?t = "concat (map macro_arg args) @ CHR '')'' # rest"
  have "macro_args (CHR '' '' # CHR 0x22 # escape_iml a @ CHR 0x22 # ?t) = Some (a # args, rest)"
    by (subst macro_args.simps) (simp add: iml_space_def parse_quoted_escape Cons)
  then show ?case by (simp add: macro_arg_def [of a])
qed

lemma parse_macro_form:
  assumes "nm \<noteq> []" and "list_all macro_name_char nm"
  shows "parse_macro (macro_form nm args @ rest) = Some (nm, args, rest)"
proof -
  let ?t = "concat (map macro_arg args) @ CHR '')'' # rest"
  have t: "\<exists>c u. ?t = c # u \<and> \<not> macro_name_char c"
    by (cases args) (simp_all add: macro_arg_def macro_name_char_def iml_space_def)
  then have "takeWhile macro_name_char (nm @ ?t) = nm" "dropWhile macro_name_char (nm @ ?t) = ?t"
    using assms(2) by (auto simp: list_all_iff)
  moreover have "macro_form nm args @ rest = ''(macro '' @ (nm @ ?t)" by (simp add: macro_form_def)
  ultimately show ?thesis
    using assms(1) macro_args_form [of args rest] by (simp add: parse_macro_def)
qed

lemma expand_form:
  assumes "nm \<noteq> []" and "list_all macro_name_char nm" and "f nm args \<noteq> []"
  shows "expand_prowse_iml (Some f) (macro_form nm args @ rest) = f nm args @ expand_prowse_iml (Some f) rest"
proof -
  obtain u where u: "macro_form nm args @ rest = CHR ''('' # u" "take 7 (CHR ''('' # u) = ''(macro ''"
    by (simp add: macro_form_def)
  with parse_macro_form [OF assms(1,2), of args rest] assms(3) show ?thesis
    by (simp add: expand_prowse_iml.simps(2))
qed

lemma expand_plain: "CHR ''('' \<notin> set pre \<Longrightarrow> expand_prowse_iml ex (pre @ s) = pre @ expand_prowse_iml ex s"
  by (induction pre) (auto simp: expand_prowse_iml.simps(2))

section \<open>What is not expanded is preserved\<close>

lemma quoted_raw_suffix: "quoted_raw s = Some (raw, rest) \<Longrightarrow> suffix rest s"
  by (induction s arbitrary: raw rule: quoted_raw.induct) (fastforce intro: suffix_ConsI split: if_splits)+

lemma parse_quoted_suffix: "suffix (snd (parse_quoted s)) s"
  by (cases s) (auto simp: parse_quoted_def intro: suffix_ConsI dest: quoted_raw_suffix split: option.split)

lemma macro_args_suffix: "macro_args s = Some (args, rest) \<Longrightarrow> suffix rest s"
proof (induction s arbitrary: args rule: macro_args.induct)
  case (1 s)
  let ?r = "dropWhile iml_space s"
  have r: "suffix ?r s" by (rule suffix_dropWhile)
  from 1(2) consider "rest = tl ?r"
    | a where "?r \<noteq> []" "hd ?r \<noteq> CHR '')''" "hd ?r = CHR 0x22" "macro_args (snd (parse_quoted ?r)) = Some (a, rest)"
    by (subst (asm) macro_args.simps) (auto simp: Let_def split: if_splits)
  then show ?case
  proof cases
    case 1
    with r show ?thesis by (metis suffix_order.trans suffix_tl)
  next
    case (2 a)
    with 1(1) [OF refl, of a] parse_quoted_suffix [of ?r] r show ?thesis by (auto intro: suffix_order.trans)
  qed
qed

lemma parse_macro_suffix: "parse_macro s = Some (nm, args, rest) \<Longrightarrow> suffix rest s"
  by (auto simp: parse_macro_def Let_def dest!: macro_args_suffix split: if_splits
      intro: suffix_order.trans [OF _ suffix_order.trans [OF suffix_dropWhile suffix_drop]])

lemma expand_identity:
  assumes "\<And>f nm args. ex = Some f \<Longrightarrow> f nm args = []"
  shows "expand_prowse_iml ex s = s"
proof (induction "length s" arbitrary: s rule: less_induct)
  case less
  show ?case
  proof (cases s)
    case (Cons c t)
    have t: "expand_prowse_iml ex t = t" using less Cons by simp
    show ?thesis
    proof (cases "c \<noteq> CHR ''('' \<or> take 7 (c # t) \<noteq> ''(macro ''")
      case True
      with t Cons show ?thesis by (simp add: expand_prowse_iml.simps(2))
    next
      case False
      show ?thesis
      proof (cases "parse_macro (c # t)"; cases ex)
        fix m f assume m: "parse_macro (c # t) = Some m" and ex: "ex = Some f"
        obtain nm args rest where mm: "m = (nm, args, rest)" by (cases m)
        have "length rest < length s" using parse_macro_length [of "c # t"] Cons m mm by simp
        then have "expand_prowse_iml ex rest = rest" by (rule less)
        moreover from m mm have "suffix rest (c # t)" by (intro parse_macro_suffix) simp
        then obtain u where "c # t = u @ rest" by (auto simp: suffix_def)
        then have "take (length (c # t) - length rest) (c # t) @ rest = c # t" by simp
        moreover have "expand_prowse_iml ex (c # t) =
            take (length (c # t) - length rest) (c # t) @ expand_prowse_iml ex rest"
          using False m mm ex assms by (simp add: expand_prowse_iml.simps(2))
        ultimately show ?thesis using Cons by simp
      qed (use False t Cons in \<open>simp_all add: expand_prowse_iml.simps(2)\<close>)
    qed
  qed simp
qed

text \<open>
  Macro expansion.  A macro form with escaped string arguments is replaced by what the expander
  returns for exactly its name and its unescaped arguments, and the text around it is processed
  independently; without an expander, or with one that knows no macro, the text is
  unchanged.
\<close>

theorem iml_macro_expansion:
  assumes "nm \<noteq> []" and "list_all macro_name_char nm" and "f nm args \<noteq> []" and "CHR ''('' \<notin> set pre"
  shows "expand_prowse_iml (Some f) (pre @ macro_form nm args @ rest) = pre @ f nm args @ expand_prowse_iml (Some f) rest \<and>
    expand_prowse_iml None s = s \<and> expand_prowse_iml (Some (\<lambda>_ _. [])) s = s"
  using expand_form [of nm f args, OF assms(1-3)] expand_plain [OF assms(4)]
    expand_identity [of None s] expand_identity [of "Some (\<lambda>_ _. [])" s] by auto

theorem iml_macro_expansion_witness:
  "expand_prowse_iml (Some (\<lambda>nm args. nm @ concat args)) (''x'' @ macro_form ''cat'' [[CHR 0x22], [CHR 0x0A]] @ []) =
    ''xcat'' @ [CHR 0x22, CHR 0x0A]"
  using iml_macro_expansion [of "''cat''" "\<lambda>nm args. nm @ concat args" "[[CHR 0x22], [CHR 0x0A]]" "''x''" "[]"]
  by (simp add: macro_name_char_def iml_space_def)

end
