(* ===== verification/Ir_Events.thy ===== *)
theory Ir_Events
  imports Event_Stream Decimal
begin

text \<open>\<^verbatim>\<open>ir_events.cpp\<close>: the event stream as newline-delimited JSON.\<close>

definition hex_digit :: "nat \<Rightarrow> char" where
  "hex_digit n = ''0123456789abcdef'' ! n"

definition json_char :: "char \<Rightarrow> string" where
  "json_char c =
     (if c = CHR 0x22 then [CHR 0x5C, CHR 0x22] else if c = CHR 0x5C then [CHR 0x5C, CHR 0x5C]
      else if c = CHR 0x08 then [CHR 0x5C, CHR ''b''] else if c = CHR 0x0C then [CHR 0x5C, CHR ''f'']
      else if c = CHR 0x0A then [CHR 0x5C, CHR ''n''] else if c = CHR 0x0D then [CHR 0x5C, CHR ''r'']
      else if c = CHR 0x09 then [CHR 0x5C, CHR ''t'']
      else if byte c < 0x20 then
        [CHR 0x5C] @ ''u00'' @ [hex_digit (drop_bit 4 (byte c) AND 0x0f), hex_digit (byte c AND 0x0f)]
      else [c])"

definition json_string :: "string \<Rightarrow> string" where
  "json_string s = [CHR 0x22] @ concat (map json_char s) @ [CHR 0x22]"

definition json_key :: "string \<Rightarrow> string" where
  "json_key k = json_string k @ '':''"

definition ndjson_attribute :: "attribute \<Rightarrow> string" where
  "ndjson_attribute a =
     ''{'' @ json_key ''name'' @ json_string (attr_name a) @ '','' @ json_key ''value'' @ json_string (attr_value a) @ ''}''"

text \<open>The elements of a list with commas between them.\<close>

fun commas :: "string list \<Rightarrow> string" where
  "commas [] = []"
| "commas [x] = x"
| "commas (x # y # zs) = x @ '','' @ commas (y # zs)"

definition ndjson_event :: "prowse_event \<Rightarrow> string" where
  "ndjson_event e =
     ''{'' @ json_key ''kind'' @ json_string (ev_kind e) @ '','' @ json_key ''xpath'' @ json_string (ev_xpath e) @ '','' @
     json_key ''tag'' @ json_string (ev_tag e) @ '','' @ json_key ''name'' @ json_string (ev_name e) @ '','' @
     json_key ''value'' @ json_string (ev_value e) @ '','' @ json_key ''depth'' @ decimal (ev_depth e) @
     (if ev_kind e = ''start''
      then '','' @ json_key ''text'' @ json_string (ev_subtree_text e) @
           '','' @ json_key ''attributes'' @ ''['' @ commas (map ndjson_attribute (ev_attributes e)) @ '']''
      else []) @
     ''}'' @ [CHR 0x0A]"

definition encode_prowse_events_ndjson :: "prowse_event list \<Rightarrow> string" where
  "encode_prowse_events_ndjson events = concat (map ndjson_event events)"

section \<open>One line per event\<close>

lemma hex_digit_no_newline: "n < 16 \<Longrightarrow> hex_digit n \<noteq> CHR 0x0A"
  by (auto simp: hex_digit_def less_Suc_eq numeral_eq_Suc)

lemma and_15_less: "(n :: nat) AND 15 < 16"
  using take_bit_eq_mask [of 4 n] take_bit_nat_less_exp [of 4 n] by (simp add: mask_eq_exp_minus_1)

lemma json_char_newline: "CHR 0x0A \<notin> set (json_char c)"
  by (auto simp: json_char_def hex_digit_no_newline and_15_less dest: sym)

lemma json_string_newline [simp]: "CHR 0x0A \<notin> set (json_string s)"
  using json_char_newline by (auto simp: json_string_def)

lemma commas_newline: "\<forall>x\<in>set xs. CHR 0x0A \<notin> set x \<Longrightarrow> CHR 0x0A \<notin> set (commas xs)"
  by (induction xs rule: commas.induct) auto

lemma ndjson_line: "\<exists>l. ndjson_event e = l @ [CHR 0x0A] \<and> CHR 0x0A \<notin> set l"
proof -
  have "CHR 0x0A \<notin> set (decimal n)" for n by (rule decimal_not_in) (simp add: char_class)
  moreover have "CHR 0x0A \<notin> set (commas (map ndjson_attribute as))" for as
    by (rule commas_newline) (simp add: ndjson_attribute_def json_key_def)
  ultimately show ?thesis by (simp add: ndjson_event_def json_key_def)
qed

end
