(* ===== verification/Ir_Registry.thy ===== *)
theory Ir_Registry
  imports Interfaces "HOL-Library.AList" "HOL-Library.List_Lexorder"
begin

text \<open>
  \<^verbatim>\<open>ir_registry.cpp\<close>: named emitters.  The two \<open>std::unordered_map\<close>s are association lists; an emitter is
  a function of the document (a parameter type here, since plugins supply them), and an empty
  \<open>std::function\<close> is \<open>None\<close>.  Every method holds the mutex for its whole access to the maps, so
  methods are atomic steps.
\<close>

record ('d, 'b) registry =
  reg_text :: "(string \<times> ('d \<Rightarrow> string)) list"
  reg_binary :: "(string \<times> ('d \<Rightarrow> 'b)) list"

text \<open>The constructor installs the built-in emitters, given here as arguments.\<close>

definition new_registry :: "('d \<Rightarrow> string) \<Rightarrow> ('d \<Rightarrow> string) \<Rightarrow> ('d \<Rightarrow> 'b) \<Rightarrow> ('d, 'b) registry" where
  "new_registry events iml vtd = \<lparr>reg_text = [(''events'', events), (''iml'', iml)], reg_binary = [(''vtd'', vtd)]\<rparr>"

definition register_text :: "string \<Rightarrow> ('d \<Rightarrow> string) option \<Rightarrow> ('d, 'b) registry \<Rightarrow> bool \<times> ('d, 'b) registry" where
  "register_text name emitter r =
     (case emitter of
        None \<Rightarrow> (False, r)
      | Some e \<Rightarrow> if name = [] then (False, r) else (True, r\<lparr>reg_text := AList.update name e (reg_text r)\<rparr>))"

definition register_binary :: "string \<Rightarrow> ('d \<Rightarrow> 'b) option \<Rightarrow> ('d, 'b) registry \<Rightarrow> bool \<times> ('d, 'b) registry" where
  "register_binary name emitter r =
     (case emitter of
        None \<Rightarrow> (False, r)
      | Some e \<Rightarrow> if name = [] then (False, r) else (True, r\<lparr>reg_binary := AList.update name e (reg_binary r)\<rparr>))"

definition unregister :: "string \<Rightarrow> ('d, 'b) registry \<Rightarrow> bool \<times> ('d, 'b) registry" where
  "unregister name r =
     (map_of (reg_text r) name \<noteq> None \<or> map_of (reg_binary r) name \<noteq> None,
      r\<lparr>reg_text := AList.delete name (reg_text r), reg_binary := AList.delete name (reg_binary r)\<rparr>)"

definition clear_custom :: "('d, 'b) registry \<Rightarrow> ('d, 'b) registry" where
  "clear_custom r =
     r\<lparr>reg_text := filter (\<lambda>(n, e). n = ''events'' \<or> n = ''iml'') (reg_text r),
       reg_binary := filter (\<lambda>(n, e). n = ''vtd'') (reg_binary r)\<rparr>"

definition contains :: "string \<Rightarrow> ('d, 'b) registry \<Rightarrow> bool" where
  "contains name r \<longleftrightarrow> map_of (reg_text r) name \<noteq> None \<or> map_of (reg_binary r) name \<noteq> None"

definition names :: "('d, 'b) registry \<Rightarrow> string list" where
  "names r = sort (map fst (reg_text r) @ map fst (reg_binary r))"

definition emit_text :: "'d \<Rightarrow> string \<Rightarrow> ('d, 'b) registry \<Rightarrow> string option" where
  "emit_text document name r = (case map_of (reg_text r) name of None \<Rightarrow> None | Some e \<Rightarrow> Some (e document))"

definition emit_binary :: "'d \<Rightarrow> string \<Rightarrow> ('d, 'b) registry \<Rightarrow> 'b option" where
  "emit_binary document name r = (case map_of (reg_binary r) name of None \<Rightarrow> None | Some e \<Rightarrow> Some (e document))"

section \<open>The maps as keyed stores\<close>

interpretation emitters: keyed_store_del AList.update "\<lambda>k m. map_of m k" "\<lambda>m. distinct (map fst m)" AList.delete
  by unfold_locales (auto simp: update_conv' delete_conv' distinct_update distinct_delete)

text \<open>One call that changes the registry.\<close>

inductive reg_step :: "('d, 'b) registry \<Rightarrow> ('d, 'b) registry \<Rightarrow> bool" where
  step_text: "reg_step r (snd (register_text n e r))"
| step_binary: "reg_step r (snd (register_binary n f r))"
| step_unregister: "reg_step r (snd (unregister n r))"
| step_clear: "reg_step r (clear_custom r)"

inductive reg_reachable :: "('d, 'b) registry \<Rightarrow> bool" where
  reg_new: "reg_reachable (new_registry ev iml vtd)"
| reg_next: "reg_reachable r \<Longrightarrow> reg_step r r' \<Longrightarrow> reg_reachable r'"

definition reg_ok :: "('d, 'b) registry \<Rightarrow> bool" where
  "reg_ok r \<longleftrightarrow> distinct (map fst (reg_text r)) \<and> distinct (map fst (reg_binary r)) \<and>
     [] \<notin> fst ` set (reg_text r) \<and> [] \<notin> fst ` set (reg_binary r)"

lemma reg_step_ok: "reg_step r r' \<Longrightarrow> reg_ok r \<Longrightarrow> reg_ok r'"
proof (induction rule: reg_step.induct)
  case (step_text r n e)
  then show ?case by (auto simp: reg_ok_def register_text_def distinct_update dom_update split: option.splits)
next
  case (step_binary r n f)
  then show ?case by (auto simp: reg_ok_def register_binary_def distinct_update dom_update split: option.splits)
next
  case (step_unregister r n)
  then show ?case by (auto simp: reg_ok_def unregister_def distinct_map_filter AList.delete_eq)
next
  case (step_clear r)
  then show ?case by (auto simp: reg_ok_def clear_custom_def distinct_map_filter)
qed

lemma reg_reachable_ok: "reg_reachable r \<Longrightarrow> reg_ok r"
proof (induction rule: reg_reachable.induct)
  case (reg_new ev iml vtd)
  then show ?case by (simp add: reg_ok_def new_registry_def)
qed (rule reg_step_ok)



text \<open>The names of the two kinds are independent: one name can be registered as both and is then listed twice.\<close>

lemma registry_name_twice:
  "names (snd (register_binary ''iml'' (Some f) (new_registry ev iml vtd))) = [''events'', ''iml'', ''iml'', ''vtd''] \<and>
   emit_text d ''iml'' (snd (register_binary ''iml'' (Some f) (new_registry ev iml vtd))) = Some (iml d)"
  by (simp add: names_def new_registry_def register_binary_def emit_text_def)

end
