(* ===== verification/Gfx_Encoding.thy ===== *)
theory Gfx_Encoding
  imports Wire
begin

text \<open>
  \<^verbatim>\<open>gfx_encoding.cpp\<close>: the PGFX1 bytecode of drawing commands.  Encoding and decoding check the same
  bounds, so that each is the exact inverse of the other.
\<close>

definition max_gfx_bytes :: nat where "max_gfx_bytes = 4 * 1024 * 1024"
definition max_gfx_commands :: nat where "max_gfx_commands = 50000"
definition max_gfx_text_bytes :: nat where "max_gfx_text_bytes = 4096"
definition max_gfx_dimension :: u32 where "max_gfx_dimension = 16384"
definition max_gfx_content_height :: u32 where "max_gfx_content_height = 1000000"

record gfx_options =
  g_width :: u32
  g_height :: u32

record gfx_text =
  g_x :: u32
  g_y :: u32
  g_text :: string

record gfx_frame =
  g_surface :: gfx_options
  g_commands :: "gfx_text list"

definition invalid :: error where
  "invalid = Error ParseError ''invalid GFX bytecode''"

definition dimensions :: "gfx_options \<Rightarrow> unit result" where
  "dimensions opts =
     (if g_width opts = 0 \<or> g_height opts = 0 \<or> g_width opts > max_gfx_dimension \<or> g_height opts > max_gfx_dimension
      then Inl (Error InvalidArgument ''invalid GFX surface dimensions'') else Inr ())"

text \<open>The number of continuation bytes a lead byte announces.\<close>

definition continuation :: "nat \<Rightarrow> nat" where
  "continuation c =
     (if 0xc2 \<le> c \<and> c \<le> 0xdf then 1 else if 0xe0 \<le> c \<and> c \<le> 0xef then 2
      else if 0xf0 \<le> c \<and> c \<le> 0xf4 then 3 else 0)"

definition bad_first :: "nat \<Rightarrow> nat \<Rightarrow> bool" where
  "bad_first c first \<longleftrightarrow>
     c = 0xe0 \<and> first < 0xa0 \<or> c = 0xed \<and> first \<ge> 0xa0 \<or> c = 0xf0 \<and> first < 0x90 \<or> c = 0xf4 \<and> first \<ge> 0x90"

definition is_continuation :: "char \<Rightarrow> bool" where
  "is_continuation c \<longleftrightarrow> byte c AND 0xc0 = 0x80"

function valid_text :: "string \<Rightarrow> bool" where
  "valid_text [] = True"
| "valid_text (b # rest) =
     (let c = byte b; n = continuation c in
      if c < 32 \<or> c = 127 then False
      else if c < 128 then valid_text rest
      else if n = 0 \<or> length rest < n then False
      else if bad_first c (byte (hd rest)) then False
      else if \<not> list_all is_continuation (take n rest) then False
      else valid_text (drop n rest))"
  by pat_completeness auto
termination by (relation "measure length") auto

definition check :: "gfx_text \<Rightarrow> gfx_options \<Rightarrow> unit result" where
  "check c surface =
     (if g_x c \<ge> g_width surface \<or> g_y c > max_gfx_content_height \<or> length (g_text c) > max_gfx_text_bytes \<or>
         \<not> valid_text (g_text c)
      then Inl invalid else Inr ())"

text \<open>\<open>u32\<close>: one byte per shift.\<close>

definition gfx_u32 :: "u32 \<Rightarrow> string" where
  "gfx_u32 v = map (\<lambda>shift. to_char (drop_bit shift v)) [0, 8, 16, 24]"

fun measure_frame :: "gfx_options \<Rightarrow> gfx_text list \<Rightarrow> nat \<Rightarrow> nat result" where
  "measure_frame surface [] sz = Inr sz"
| "measure_frame surface (c # cs) sz =
     rbind (check c surface) (\<lambda>_.
       if 13 + length (g_text c) > max_gfx_bytes - sz
       then Inl (Error ResourceLimit ''GFX byte limit exceeded'')
       else measure_frame surface cs (sz + (13 + length (g_text c))))"

definition encode_command :: "gfx_text \<Rightarrow> string" where
  "encode_command c =
     char_of (1 :: nat) # gfx_u32 (g_x c) @ gfx_u32 (g_y c) @ gfx_u32 (of_nat (length (g_text c))) @ g_text c"

definition encode_gfx_frame :: "gfx_frame \<Rightarrow> string result" where
  "encode_gfx_frame frame =
     rbind (dimensions (g_surface frame)) (\<lambda>_.
       if length (g_commands frame) > max_gfx_commands
       then Inl (Error ResourceLimit ''GFX command limit exceeded'')
       else rbind (measure_frame (g_surface frame) (g_commands frame) 17) (\<lambda>_.
         Inr (''PGFX1'' @ gfx_u32 (g_width (g_surface frame)) @ gfx_u32 (g_height (g_surface frame)) @
              gfx_u32 (of_nat (length (g_commands frame))) @ concat (map encode_command (g_commands frame)))))"

text \<open>The lambda \<open>read\<close> of the decoder: four bytes or the error.\<close>

definition read_word :: "string \<Rightarrow> (u32 \<times> string) result" where
  "read_word bs = (case read_u32 bs of None \<Rightarrow> Inl invalid | Some r \<Rightarrow> Inr r)"

definition read_command :: "gfx_options \<Rightarrow> string \<Rightarrow> (gfx_text \<times> string) result" where
  "read_command surface bs =
     (case bs of
        [] \<Rightarrow> Inl invalid
      | op # bs1 \<Rightarrow>
          if byte op \<noteq> 1 then Inl invalid
          else rbind (read_word bs1) (\<lambda>(x, bs2). rbind (read_word bs2) (\<lambda>(y, bs3). rbind (read_word bs3) (\<lambda>(len, bs4).
            if unat len > max_gfx_text_bytes \<or> unat len > length bs4 then Inl invalid
            else let c = \<lparr>g_x = x, g_y = y, g_text = take (unat len) bs4\<rparr>
                 in rbind (check c surface) (\<lambda>_. Inr (c, drop (unat len) bs4))))))"

fun read_commands :: "nat \<Rightarrow> gfx_options \<Rightarrow> string \<Rightarrow> (gfx_text list \<times> string) result" where
  "read_commands 0 surface bs = Inr ([], bs)"
| "read_commands (Suc n) surface bs =
     rbind (read_command surface bs) (\<lambda>(c, bs'). rbind (read_commands n surface bs') (\<lambda>(cs, r). Inr (c # cs, r)))"

definition decode_gfx_frame :: "string \<Rightarrow> gfx_frame result" where
  "decode_gfx_frame bs =
     (if length bs < 17 \<or> length bs > max_gfx_bytes \<or> take 5 bs \<noteq> ''PGFX1'' then Inl invalid
      else rbind (read_word (drop 5 bs)) (\<lambda>(w, bs1). rbind (read_word bs1) (\<lambda>(h, bs2).
        case dimensions \<lparr>g_width = w, g_height = h\<rparr> of
          Inl _ \<Rightarrow> Inl invalid
        | Inr _ \<Rightarrow>
            rbind (read_word bs2) (\<lambda>(count, bs3).
              if unat count > max_gfx_commands \<or> unat count > length bs3 div 13 then Inl invalid
              else rbind (read_commands (unat count) \<lparr>g_width = w, g_height = h\<rparr> bs3) (\<lambda>(cs, rest).
                if rest \<noteq> [] then Inl invalid
                else Inr \<lparr>g_surface = \<lparr>g_width = w, g_height = h\<rparr>, g_commands = cs\<rparr>)))))"

section \<open>Commands\<close>

lemma record_eta [simp]:
  "\<lparr>g_width = g_width s, g_height = g_height s\<rparr> = s"
  "\<lparr>g_x = g_x c, g_y = g_y c, g_text = g_text c\<rparr> = c"
  "\<lparr>g_surface = g_surface f, g_commands = g_commands f\<rparr> = f"
  by simp_all

lemma to_char_low: "to_char (w AND 0xff) = to_char w"
proof -
  have "unat (w AND 0xff) = take_bit 8 (unat w)"
    by (simp add: take_bit_eq_mask mask_eq_exp_minus_1)
  then have "unat (w AND 0xff) = unat w mod 256" by (simp add: take_bit_eq_mod)
  then show ?thesis by (simp add: to_char_def char_of_mod_256 del: unat_and32)
qed

lemma gfx_u32_eq [simp]: "gfx_u32 v = write_u32 v"
  by (simp add: gfx_u32_def write_u32_def to_char_low)

lemma read_word_write [simp]: "read_word (write_u32 v @ rest) = Inr (v, rest)"
  by (simp add: read_word_def)

lemma read_word_Inr: "read_word bs = Inr (v, rest) \<longleftrightarrow> bs = write_u32 v @ rest"
  by (auto simp: read_word_def split: option.splits dest: write_read_u32)

definition command_ok :: "gfx_options \<Rightarrow> gfx_text \<Rightarrow> bool" where
  "command_ok surface c \<longleftrightarrow> check c surface = Inr ()"

lemma check_text: "check c surface = Inr () \<Longrightarrow> length (g_text c) \<le> 4096"
  by (simp add: check_def max_gfx_text_bytes_def split: if_splits)

lemma command_length: "length (encode_command c) = 13 + length (g_text c)"
  by (simp add: encode_command_def)

lemma byte_one: "byte b = Suc 0 \<longleftrightarrow> b = char_of (Suc 0)"
  by (metis byte_char_of char_of_byte mod_less Suc_1 less_2_cases_iff numeral_One Suc_less_eq zero_less_numeral
      one_less_numeral_iff semiring_norm(76) One_nat_def)

lemma read_encode_command:
  assumes "command_ok surface c"
  shows "read_command surface (encode_command c @ rest) = Inr (c, rest)"
proof -
  have len: "length (g_text c) \<le> 4096" using assms check_text by (simp add: command_ok_def)
  then have "unat (of_nat (length (g_text c)) :: u32) = length (g_text c)"
    by (intro unat_of_nat_small) simp
  with assms len show ?thesis
    by (simp add: read_command_def encode_command_def command_ok_def max_gfx_text_bytes_def Let_def del: of_nat_unat)
qed

lemma read_command_encode:
  assumes "read_command surface bs = Inr (c, rest)"
  shows "bs = encode_command c @ rest \<and> command_ok surface c"
proof -
  obtain op bs1 where bs: "bs = op # bs1" and op: "byte op = 1"
    using assms by (auto simp: read_command_def split: list.splits if_splits)
  from assms op obtain x bs2 y bs3 len bs4 where
    w: "read_word bs1 = Inr (x, bs2)" "read_word bs2 = Inr (y, bs3)" "read_word bs3 = Inr (len, bs4)"
    and l: "unat len \<le> length bs4" and c: "c = \<lparr>g_x = x, g_y = y, g_text = take (unat len) bs4\<rparr>"
    and ok: "check c surface = Inr ()" and r: "rest = drop (unat len) bs4"
    by (auto simp: read_command_def bs rbind_Inr_iff Let_def split: if_splits)
  have "length (g_text c) = unat len" using l c by simp
  then have "of_nat (length (g_text c)) = len" by simp
  then show ?thesis
    using w op l r ok c unfolding bs read_word_Inr by (simp add: encode_command_def byte_one command_ok_def)
qed

interpretation gfx_command: codec encode_command "\<lambda>bs. case read_command surface bs of Inl _ \<Rightarrow> None | Inr r \<Rightarrow> Some r"
  "command_ok surface" for surface
  by unfold_locales (simp add: read_encode_command)

lemma read_encode_commands:
  "list_all (command_ok surface) cs \<Longrightarrow>
   read_commands (length cs) surface (concat (map encode_command cs) @ rest) = Inr (cs, rest)"
  by (induction cs) (simp_all add: read_encode_command)

lemma read_commands_encode:
  "read_commands n surface bs = Inr (cs, rest) \<Longrightarrow>
   bs = concat (map encode_command cs) @ rest \<and> list_all (command_ok surface) cs \<and> length cs = n"
proof (induction n arbitrary: bs cs)
  case (Suc n)
  then obtain c bs' cs' where "read_command surface bs = Inr (c, bs')" "read_commands n surface bs' = Inr (cs', rest)"
    "cs = c # cs'" by (auto simp: rbind_Inr_iff)
  with read_command_encode Suc.IH show ?case by fastforce
qed simp

section \<open>Frames\<close>

definition commands_bytes :: "gfx_text list \<Rightarrow> nat" where
  "commands_bytes cs = sum_list (map (\<lambda>c. 13 + length (g_text c)) cs)"

lemma length_commands: "length (concat (map encode_command cs)) = commands_bytes cs"
  by (induction cs) (simp_all add: commands_bytes_def command_length)

lemma measure_frame_Inr:
  "sz \<le> max_gfx_bytes \<Longrightarrow>
   measure_frame surface cs sz = Inr n \<longleftrightarrow>
     list_all (command_ok surface) cs \<and> sz + commands_bytes cs \<le> max_gfx_bytes \<and> n = sz + commands_bytes cs"
proof (induction cs arbitrary: sz)
  case (Cons c cs)
  then show ?case
    by (cases "check c surface") (auto simp: command_ok_def commands_bytes_def)
qed (auto simp: commands_bytes_def)

definition frame_ok :: "gfx_frame \<Rightarrow> bool" where
  "frame_ok f \<longleftrightarrow> dimensions (g_surface f) = Inr () \<and> length (g_commands f) \<le> max_gfx_commands \<and>
     list_all (command_ok (g_surface f)) (g_commands f) \<and> 17 + commands_bytes (g_commands f) \<le> max_gfx_bytes"

definition frame_bytes :: "gfx_frame \<Rightarrow> string" where
  "frame_bytes f = ''PGFX1'' @ write_u32 (g_width (g_surface f)) @ write_u32 (g_height (g_surface f)) @
     write_u32 (of_nat (length (g_commands f))) @ concat (map encode_command (g_commands f))"

lemma encode_gfx_frame_Inr: "encode_gfx_frame f = Inr bs \<longleftrightarrow> frame_ok f \<and> bs = frame_bytes f"
proof -
  have "17 \<le> max_gfx_bytes" by (simp add: max_gfx_bytes_def)
  then show ?thesis
    by (auto simp: encode_gfx_frame_def frame_ok_def frame_bytes_def rbind_Inr_iff measure_frame_Inr not_less)
qed

lemma commands_bytes_ge: "13 * length cs \<le> commands_bytes cs"
  by (induction cs) (simp_all add: commands_bytes_def)

lemma decode_frame_bytes:
  assumes "frame_ok f"
  shows "decode_gfx_frame (frame_bytes f) = Inr f"
proof -
  let ?cs = "g_commands f"
  have n: "unat (of_nat (length ?cs) :: u32) = length ?cs"
    using assms by (intro unat_of_nat_small) (simp add: frame_ok_def max_gfx_commands_def)
  have len: "length (frame_bytes f) = 17 + commands_bytes ?cs"
    by (simp add: frame_bytes_def flip: length_commands)
  have fit: "length ?cs \<le> length (concat (map encode_command ?cs)) div 13"
    using commands_bytes_ge [of ?cs] by (simp add: length_commands less_eq_div_iff_mult_less_eq mult.commute)
  have "read_commands (length ?cs) (g_surface f) (concat (map encode_command ?cs)) = Inr (?cs, [])"
    using read_encode_commands [of "g_surface f" ?cs "[]"] assms by (simp add: frame_ok_def)
  then show ?thesis
    using assms len n fit
    by (simp add: decode_gfx_frame_def frame_bytes_def frame_ok_def del: of_nat_unat)
qed

lemma dimensions_case: "(case dimensions s of Inl _ \<Rightarrow> Inl e | Inr _ \<Rightarrow> r) = Inr x \<longleftrightarrow> dimensions s = Inr () \<and> r = Inr x"
  by (cases "dimensions s") auto

lemma decode_gfx_frame_bytes:
  assumes "decode_gfx_frame bs = Inr f"
  shows "frame_ok f \<and> bs = frame_bytes f"
proof -
  from assms have bound: "length bs \<le> max_gfx_bytes" "take 5 bs = ''PGFX1''"
    by (auto simp: decode_gfx_frame_def split: if_splits)
  from assms obtain w bs1 h bs2 count bs3 cs where
    r: "read_word (drop 5 bs) = Inr (w, bs1)" "read_word bs1 = Inr (h, bs2)" "read_word bs2 = Inr (count, bs3)"
    and dim: "dimensions \<lparr>g_width = w, g_height = h\<rparr> = Inr ()" and n: "unat count \<le> max_gfx_commands"
    and cs: "read_commands (unat count) \<lparr>g_width = w, g_height = h\<rparr> bs3 = Inr (cs, [])"
    and f: "f = \<lparr>g_surface = \<lparr>g_width = w, g_height = h\<rparr>, g_commands = cs\<rparr>"
    by (auto simp: decode_gfx_frame_def rbind_Inr_iff dimensions_case not_less split: if_splits)
  note cmds = read_commands_encode [OF cs]
  have "drop 5 bs = write_u32 w @ write_u32 h @ write_u32 count @ concat (map encode_command cs)"
    using r cmds by (simp add: read_word_Inr)
  moreover have "of_nat (length cs) = count" using cmds by (metis of_nat_unat ucast_id)
  ultimately have bs: "bs = frame_bytes f"
    using append_take_drop_id [of 5 bs] bound(2) f by (simp add: frame_bytes_def)
  moreover have "length (frame_bytes f) = 17 + commands_bytes cs"
    using f by (simp add: frame_bytes_def length_commands)
  ultimately show ?thesis
    using bound(1) dim n cmds f by (simp add: frame_ok_def)
qed

text \<open>
  C21: the bytecode is canonical: bytes decode to a frame exactly when that frame encodes to those
  bytes.  In particular decoding what was encoded gives the frame back, no two byte strings decode
  to the same frame, and whatever decodes satisfies the bounds on size, commands, coordinates and text.
\<close>

theorem gfx_frame_canonical:
  "(decode_gfx_frame bs = Inr f \<longleftrightarrow> encode_gfx_frame f = Inr bs) \<and>
   (decode_gfx_frame bs = Inr f \<longleftrightarrow> bs = frame_bytes f \<and> length bs \<le> 4194304 \<and> length (g_commands f) \<le> 50000 \<and>
      dimensions (g_surface f) = Inr () \<and> list_all (\<lambda>c. check c (g_surface f) = Inr ()) (g_commands f))"
proof -
  have "length (frame_bytes f) = 17 + commands_bytes (g_commands f)"
    by (simp add: frame_bytes_def length_commands)
  moreover have "decode_gfx_frame bs = Inr f \<longleftrightarrow> frame_ok f \<and> bs = frame_bytes f"
    using decode_frame_bytes decode_gfx_frame_bytes by blast
  ultimately show ?thesis
    unfolding encode_gfx_frame_Inr frame_ok_def command_ok_def [abs_def]
    by (auto simp: max_gfx_bytes_def max_gfx_commands_def)
qed

end
