(* ===== verification/Gfx_Ir.thy ===== *)
theory Gfx_Ir
  imports Gfx_Encoding Ir_Vtd
begin

text \<open>
  \<^verbatim>\<open>gfx_ir.cpp\<close>: lowering an event stream to a text preview.  The lambdas of \<open>emit_gfx_ir\<close> capture its
  locals by reference; here they are the record \<open>preview\<close>, passed through the replay of the event reader.
\<close>

definition block :: "string \<Rightarrow> bool" where
  "block tg \<longleftrightarrow>
     tg \<in> {''p'', ''div'', ''section'', ''article'', ''main'', ''li'', ''tr'', ''pre'', ''blockquote''} \<or>
     (length tg = 2 \<and> tg ! 0 = CHR ''h'' \<and> CHR ''1'' \<le> tg ! 1 \<and> tg ! 1 \<le> CHR ''6'')"

definition contains_str :: "string \<Rightarrow> string \<Rightarrow> bool" where
  "contains_str p s \<longleftrightarrow> find_str p s \<noteq> None"

definition attribute_hides :: "attribute \<Rightarrow> bool" where
  "attribute_hides a \<longleftrightarrow>
     attr_name a = ''hidden'' \<or>
     (attr_name a = ''style'' \<and>
      (let style = to_lower (filter (\<lambda>c. \<not> isspace c) (attr_value a))
       in contains_str ''display:none'' style \<or> contains_str ''visibility:hidden'' style))"

definition hidden :: "prowse_event \<Rightarrow> bool" where
  "hidden e \<longleftrightarrow>
     ev_tag e \<in> {''head'', ''script'', ''style'', ''template'', ''textarea'', ''select''} \<or>
     list_ex attribute_hides (ev_attributes e)"

record scope =
  sc_tag :: string
  sc_path :: string
  sc_hide :: bool

record preview =
  pv_frame :: gfx_frame
  pv_stack :: "scope list"
  pv_line :: string
  pv_columns :: nat
  pv_space :: bool
  pv_bytes :: nat

definition preview_limit :: error where
  "preview_limit = Error ResourceLimit ''GFX preview limit exceeded''"

definition preview_text_error :: error where
  "preview_text_error = Error ParseError ''invalid GFX preview text''"

definition stream_error :: error where
  "stream_error = Error ParseError ''invalid GFX event stream''"

definition line_width :: "gfx_options \<Rightarrow> nat" where
  "line_width opts = max 1 ((if unat (g_width opts) > 32 then unat (g_width opts) - 32 else 8) div 8)"

text \<open>\<open>options.width - 1\<close> does not wrap: the dimensions have been checked before.\<close>

definition newline :: "gfx_options \<Rightarrow> preview \<Rightarrow> preview result" where
  "newline opts pv =
     (if pv_line pv \<noteq> [] then
        (let cs = g_commands (pv_frame pv) in
         if length cs \<ge> max_gfx_commands \<or> 16 + length cs * 18 > unat max_gfx_content_height \<or>
            13 + length (pv_line pv) > max_gfx_bytes - pv_bytes pv
         then Inl preview_limit
         else Inr (pv\<lparr>pv_bytes := pv_bytes pv + (13 + length (pv_line pv)),
           pv_frame := (pv_frame pv)\<lparr>g_commands := cs @ [\<lparr>g_x = min 16 (g_width opts - 1),
              g_y = of_nat (16 + length cs * 18), g_text = pv_line pv\<rparr>]\<rparr>,
           pv_line := [], pv_columns := 0, pv_space := False\<rparr>))
      else Inr (pv\<lparr>pv_space := False\<rparr>))"

definition char_bytes :: "nat \<Rightarrow> nat" where
  "char_bytes c =
     (if c < 128 then 1 else if 0xc2 \<le> c \<and> c \<le> 0xdf then 2 else if 0xe0 \<le> c \<and> c \<le> 0xef then 3
      else if 0xf0 \<le> c \<and> c \<le> 0xf4 then 4 else 0)"

function append_text :: "gfx_options \<Rightarrow> string \<Rightarrow> preview \<Rightarrow> preview result" where
  "append_text opts [] pv = Inr pv"
| "append_text opts (b # rest) pv =
     (let c = byte b; n = char_bytes c in
      if c \<le> 32 \<or> c = 127 then append_text opts rest (pv\<lparr>pv_space := (pv_line pv \<noteq> [])\<rparr>)
      else if n = 0 \<or> n > length (b # rest) then Inl preview_text_error
      else rbind (if pv_columns pv + (if pv_space pv then 1 else 0) \<ge> line_width opts \<or>
                     length (pv_line pv) + n + 1 > max_gfx_text_bytes
                  then newline opts pv else Inr pv) (\<lambda>pv1.
        let pv2 = (if pv_space pv1 then pv1\<lparr>pv_line := pv_line pv1 @ '' '', pv_columns := pv_columns pv1 + 1, pv_space := False\<rparr>
                   else pv1)
        in append_text opts (drop n (b # rest))
             (pv2\<lparr>pv_line := pv_line pv2 @ take n (b # rest), pv_columns := pv_columns pv2 + 1\<rparr>)))"
  by pat_completeness auto
termination
  by (relation "measure (\<lambda>(opts, s, pv). length s)") auto

declare append_text.simps [simp del]

text \<open>The events, one function per branch of the callback; the top of the stack is the end of the vector.\<close>

definition top_scope :: "preview \<Rightarrow> scope" where
  "top_scope pv = last (pv_stack pv)"

definition on_start :: "gfx_options \<Rightarrow> prowse_event \<Rightarrow> preview \<Rightarrow> preview result" where
  "on_start opts e pv =
     (if length (pv_stack pv) \<ge> 256 \<or> ev_depth e \<noteq> length (pv_stack pv) \<or> ev_tag e = [] then Inl stream_error
      else
        let hide = (pv_stack pv \<noteq> [] \<and> sc_hide (top_scope pv)) \<or> hidden e;
            pv1 = pv\<lparr>pv_stack := pv_stack pv @ [\<lparr>sc_tag = ev_tag e, sc_path = ev_xpath e, sc_hide = hide\<rparr>]\<rparr>
        in if hide then Inr pv1
           else rbind (if block (ev_tag e) \<or> ev_tag e = ''br'' then newline opts pv1 else Inr pv1) (\<lambda>pv2.
             rbind (if ev_tag e = ''li'' then append_text opts ''* '' pv2 else Inr pv2) (\<lambda>pv3.
             rbind (if ev_tag e = ''input'' then append_text opts ''[input]'' pv3 else Inr pv3) (\<lambda>pv4.
               if ev_tag e = ''img'' then append_text opts ''[image]'' pv4 else Inr pv4))))"

definition on_end :: "gfx_options \<Rightarrow> prowse_event \<Rightarrow> preview \<Rightarrow> preview result" where
  "on_end opts e pv =
     (if pv_stack pv = [] \<or> ev_depth e \<noteq> length (pv_stack pv) - 1 \<or> ev_tag e \<noteq> sc_tag (top_scope pv) \<or>
         ev_xpath e \<noteq> sc_path (top_scope pv)
      then Inl stream_error
      else rbind (if \<not> sc_hide (top_scope pv) \<and> block (ev_tag e) then newline opts pv else Inr pv) (\<lambda>pv1.
        Inr (pv1\<lparr>pv_stack := butlast (pv_stack pv1)\<rparr>)))"

definition on_text :: "gfx_options \<Rightarrow> prowse_event \<Rightarrow> preview \<Rightarrow> preview result" where
  "on_text opts e pv =
     (if pv_stack pv = [] \<or> ev_depth e \<noteq> length (pv_stack pv) \<or> ev_tag e \<noteq> sc_tag (top_scope pv) then Inl stream_error
      else if \<not> sc_hide (top_scope pv) then append_text opts (ev_value e) pv else Inr pv)"

definition on_attribute :: "prowse_event \<Rightarrow> preview \<Rightarrow> preview result" where
  "on_attribute e pv =
     (if pv_stack pv = [] \<or> ev_depth e \<noteq> length (pv_stack pv) - 1 \<or> ev_tag e \<noteq> sc_tag (top_scope pv) \<or>
         ev_xpath e \<noteq> sc_path (top_scope pv)
      then Inl stream_error else Inr pv)"

definition on_event :: "gfx_options \<Rightarrow> prowse_event \<Rightarrow> preview \<Rightarrow> preview result" where
  "on_event opts e pv =
     (if ev_kind e = ''start'' then on_start opts e pv
      else if ev_kind e = ''end'' then on_end opts e pv
      else if ev_kind e = ''text'' then on_text opts e pv
      else if ev_kind e = ''attribute'' then on_attribute e pv
      else Inl stream_error)"

definition empty_preview :: "gfx_options \<Rightarrow> preview" where
  "empty_preview opts = \<lparr>pv_frame = \<lparr>g_surface = opts, g_commands = []\<rparr>, pv_stack = [], pv_line = [],
     pv_columns = 0, pv_space = False, pv_bytes = 17\<rparr>"

definition emit_gfx_ir :: "prowse_event list \<Rightarrow> gfx_options \<Rightarrow> string result" where
  "emit_gfx_ir events opts =
     (if length events > max_event_stream_events
      then Inl (Error ResourceLimit ''GFX source event limit exceeded'')
      else rbind (consume_all events empty_budget) (\<lambda>_.
        rbind (event_stream_reader events) (\<lambda>reader.
        rbind (encode_gfx_frame \<lparr>g_surface = opts, g_commands = []\<rparr>) (\<lambda>_.
        rbind (replay (Some (\<lambda>e pv. rbind (on_event opts e pv) (\<lambda>pv'. Inr (Continue, pv'))))
                 max_event_stream_events reader (empty_preview opts)) (\<lambda>(done, pv).
          if pv_stack pv \<noteq> [] then Inl (Error ParseError ''incomplete GFX event stream'')
          else rbind (newline opts pv) (\<lambda>pv'. encode_gfx_frame (pv_frame pv')))))))"

section \<open>The lines of a preview\<close>

text \<open>A line is a sequence of characters, each announced by its lead byte.\<close>

definition chunk :: "string \<Rightarrow> bool" where
  "chunk s \<longleftrightarrow> s \<noteq> [] \<and> char_bytes (byte (hd s)) = length s"

definition line_ok :: "gfx_options \<Rightarrow> string \<Rightarrow> nat \<Rightarrow> bool" where
  "line_ok opts s k \<longleftrightarrow> (\<exists>cs. s = concat cs \<and> list_all chunk cs \<and> k = length cs \<and> (cs = [] \<or> hd cs \<noteq> '' '')) \<and>
     k \<le> line_width opts"

definition command_shape :: "gfx_options \<Rightarrow> gfx_text \<Rightarrow> bool" where
  "command_shape opts c \<longleftrightarrow> g_x c = min 16 (g_width opts - 1) \<and> g_text c \<noteq> [] \<and> (\<exists>k. line_ok opts (g_text c) k)"

text \<open>What every step of the lowering keeps.\<close>

definition preview_ok :: "gfx_options \<Rightarrow> preview \<Rightarrow> bool" where
  "preview_ok opts pv \<longleftrightarrow>
     g_surface (pv_frame pv) = opts \<and> line_ok opts (pv_line pv) (pv_columns pv) \<and> (pv_space pv \<longrightarrow> pv_line pv \<noteq> []) \<and>
     (let cs = g_commands (pv_frame pv) in
      list_all (command_shape opts) cs \<and> map g_y cs = map (\<lambda>i. of_nat (16 + 18 * i)) [0..<length cs] \<and>
      length cs \<le> max_gfx_commands \<and> pv_bytes pv = 17 + commands_bytes cs \<and> pv_bytes pv \<le> max_gfx_bytes)"

lemma line_ok_Nil [simp]: "line_ok opts [] k \<longleftrightarrow> k = 0"
proof -
  have "concat cs = [] \<Longrightarrow> list_all chunk cs \<Longrightarrow> cs = []" for cs by (cases cs) (auto simp: chunk_def)
  then show ?thesis by (fastforce simp: line_ok_def)
qed

lemma chunk_space [simp]: "chunk '' ''"
  by (simp add: chunk_def char_bytes_def byte_def)

lemma line_width_pos: "1 \<le> line_width opts"
  by (simp add: line_width_def)

lemma line_ok_snoc:
  assumes "line_ok opts s k" and "chunk c" and "k < line_width opts" and "s = [] \<Longrightarrow> c \<noteq> '' ''"
  shows "line_ok opts (s @ c) (Suc k)"
proof -
  obtain cs where cs: "s = concat cs" "list_all chunk cs" "k = length cs" "cs = [] \<or> hd cs \<noteq> '' ''"
    using assms(1) by (auto simp: line_ok_def)
  then have "hd (cs @ [c]) \<noteq> '' ''" using assms(4) by (cases cs) auto
  with cs assms(2,3) show ?thesis unfolding line_ok_def by (intro conjI exI [of _ "cs @ [c]"]) auto
qed

lemma newline_Inr:
  assumes "newline opts pv = Inr pv'" and "preview_ok opts pv"
  shows "preview_ok opts pv' \<and> pv_stack pv' = pv_stack pv \<and> pv_line pv' = [] \<and> pv_columns pv' = 0 \<and> \<not> pv_space pv'"
proof (cases "pv_line pv = []")
  case True
  with assms show ?thesis by (auto simp: newline_def preview_ok_def)
next
  case False
  let ?cs = "g_commands (pv_frame pv)"
  let ?c = "\<lparr>g_x = min 16 (g_width opts - 1), g_y = of_nat (16 + length ?cs * 18), g_text = pv_line pv\<rparr>"
  have n: "length ?cs < max_gfx_commands" "13 + length (pv_line pv) \<le> max_gfx_bytes - pv_bytes pv"
    and pv': "pv' = pv\<lparr>pv_bytes := pv_bytes pv + (13 + length (pv_line pv)),
      pv_frame := (pv_frame pv)\<lparr>g_commands := ?cs @ [?c]\<rparr>, pv_line := [], pv_columns := 0, pv_space := False\<rparr>"
    using assms(1) False by (auto simp: newline_def Let_def split: if_splits)
  have "command_shape opts ?c" using assms(2) False by (auto simp: command_shape_def preview_ok_def)
  with n assms(2) show ?thesis
    unfolding pv' by (auto simp: preview_ok_def Let_def commands_bytes_def mult.commute)
qed

lemma newline_Inl: "newline opts pv = Inl e \<Longrightarrow> e = preview_limit"
  by (auto simp: newline_def Let_def split: if_splits)

lemma char_bytes_chunk:
  "char_bytes (byte b) = n \<Longrightarrow> n \<noteq> 0 \<Longrightarrow> n \<le> length (b # rest) \<Longrightarrow> chunk (take n (b # rest))"
  by (cases n) (auto simp: chunk_def)

text \<open>A step keeps the invariant and the stack, or fails with an error of the layout.\<close>

definition layout_step :: "gfx_options \<Rightarrow> preview \<Rightarrow> preview result \<Rightarrow> bool" where
  "layout_step opts pv r \<longleftrightarrow> (case r of
     Inl e \<Rightarrow> e \<in> {preview_limit, preview_text_error} | Inr pv' \<Rightarrow> preview_ok opts pv' \<and> pv_stack pv' = pv_stack pv)"

lemma layout_step_simps [simp]:
  "layout_step opts pv (Inl e) \<longleftrightarrow> e \<in> {preview_limit, preview_text_error}"
  "layout_step opts pv (Inr pv') \<longleftrightarrow> preview_ok opts pv' \<and> pv_stack pv' = pv_stack pv"
  by (simp_all add: layout_step_def)

lemma layout_step_bind:
  assumes "layout_step opts pv r" and "\<And>pv'. preview_ok opts pv' \<Longrightarrow> r = Inr pv' \<Longrightarrow> layout_step opts pv' (f pv')"
  shows "layout_step opts pv (rbind r f)"
proof (cases r)
  case (Inr pv')
  with assms show ?thesis by (cases "f pv'") (fastforce simp: layout_step_def)+
qed (use assms in auto)

lemma layout_step_trans: "layout_step opts pv' r \<Longrightarrow> pv_stack pv' = pv_stack pv \<Longrightarrow> layout_step opts pv r"
  by (cases r) simp_all

lemma newline_step: "preview_ok opts pv \<Longrightarrow> layout_step opts pv (newline opts pv)"
  using newline_Inr newline_Inl by (cases "newline opts pv") fastforce+

text \<open>The body of the loop after the line has been broken where it had to be.\<close>

definition put_char :: "string \<Rightarrow> preview \<Rightarrow> preview" where
  "put_char c pv =
     (let pv2 = (if pv_space pv then pv\<lparr>pv_line := pv_line pv @ '' '', pv_columns := pv_columns pv + 1, pv_space := False\<rparr> else pv)
      in pv2\<lparr>pv_line := pv_line pv2 @ c, pv_columns := pv_columns pv2 + 1\<rparr>)"

lemma put_char_ok:
  assumes ok: "preview_ok opts pv" and fits: "pv_columns pv + (if pv_space pv then 1 else 0) < line_width opts"
    and c: "chunk c" "c \<noteq> '' ''"
  shows "preview_ok opts (put_char c pv) \<and> pv_stack (put_char c pv) = pv_stack pv"
proof (cases "pv_space pv")
  case True
  then have l: "line_ok opts (pv_line pv @ '' '') (Suc (pv_columns pv))"
    using ok fits by (intro line_ok_snoc) (auto simp: preview_ok_def)
  have "line_ok opts ((pv_line pv @ '' '') @ c) (Suc (Suc (pv_columns pv)))"
    using fits True by (intro line_ok_snoc [OF l c(1)]) auto
  with ok True show ?thesis by (simp add: put_char_def preview_ok_def)
next
  case False
  have "line_ok opts (pv_line pv @ c) (Suc (pv_columns pv))"
    using ok fits False c by (intro line_ok_snoc) (auto simp: preview_ok_def)
  with ok False show ?thesis by (simp add: put_char_def preview_ok_def)
qed

lemma append_step: "preview_ok opts pv \<Longrightarrow> layout_step opts pv (append_text opts s pv)"
proof (induction "length s" arbitrary: s pv rule: less_induct)
  case less
  show ?case
  proof (cases s)
    case Nil
    with less.prems show ?thesis by (simp add: append_text.simps)
  next
    case (Cons b rest)
    let ?c = "byte b" and ?n = "char_bytes (byte b)"
    let ?brk = "if pv_columns pv + (if pv_space pv then 1 else 0) \<ge> line_width opts \<or>
       length (pv_line pv) + ?n + 1 > max_gfx_text_bytes then newline opts pv else Inr pv"
    consider (space) "?c \<le> 32 \<or> ?c = 127" | (bad) "\<not> (?c \<le> 32 \<or> ?c = 127)" "?n = 0 \<or> ?n > length (b # rest)"
      | (char) "\<not> (?c \<le> 32 \<or> ?c = 127)" "\<not> (?n = 0 \<or> ?n > length (b # rest))" by blast
    then show ?thesis
    proof cases
      case space
      have "preview_ok opts (pv\<lparr>pv_space := (pv_line pv \<noteq> [])\<rparr>)" using less.prems by (simp add: preview_ok_def)
      from layout_step_trans [OF less.hyps [OF _ this, of rest], of pv] show ?thesis
        using space unfolding Cons by (simp add: Let_def append_text.simps(2))
    next
      case bad
      then show ?thesis unfolding Cons by (simp add: Let_def append_text.simps(2))
    next
      case char
      have "chunk (take ?n (b # rest))" using char_bytes_chunk [OF refl] char by simp
      moreover have "take ?n (b # rest) \<noteq> '' ''"
      proof
        assume "take ?n (b # rest) = '' ''"
        then have "b = CHR '' ''" using char(2) by (cases ?n) auto
        with char(1) show False by (simp add: byte_def)
      qed
      ultimately have put: "preview_ok opts (put_char (take ?n (b # rest)) q) \<and> pv_stack (put_char (take ?n (b # rest)) q) = pv_stack q"
        if "preview_ok opts q" "pv_columns q + (if pv_space q then 1 else 0) < line_width opts" for q
        using put_char_ok that by blast
      have eq: "append_text opts s pv = rbind ?brk (\<lambda>pv1. append_text opts (drop ?n (b # rest)) (put_char (take ?n (b # rest)) pv1))"
        unfolding Cons append_text.simps Let_def put_char_def using char by (simp cong: if_cong)
      have fits: "pv_columns pv1 + (if pv_space pv1 then 1 else 0) < line_width opts" if "?brk = Inr pv1" for pv1
      proof (cases "pv_columns pv + (if pv_space pv then 1 else 0) \<ge> line_width opts \<or> length (pv_line pv) + ?n + 1 > max_gfx_text_bytes")
        case True
        then have "newline opts pv = Inr pv1" using that by simp
        from newline_Inr [OF this less.prems] line_width_pos [of opts] show ?thesis by simp
      qed (use that in auto)
      show ?thesis unfolding eq
      proof (rule layout_step_bind)
        show "layout_step opts pv ?brk" using newline_step [OF less.prems] less.prems by simp
        fix pv1 assume "preview_ok opts pv1" "?brk = Inr pv1"
        then have p: "preview_ok opts (put_char (take ?n (b # rest)) pv1) \<and> pv_stack (put_char (take ?n (b # rest)) pv1) = pv_stack pv1"
          by (intro put fits)
        have "length (drop ?n (b # rest)) < length s" using char(2) Cons by simp
        from layout_step_trans [OF less.hyps [OF this conjunct1 [OF p]] conjunct2 [OF p]]
        show "layout_step opts pv1 (append_text opts (drop ?n (b # rest)) (put_char (take ?n (b # rest)) pv1))" .
      qed
    qed
  qed
qed

section \<open>Events\<close>

lemma preview_ok_stack [simp]: "preview_ok opts (pv\<lparr>pv_stack := st\<rparr>) = preview_ok opts pv"
  by (simp add: preview_ok_def)

definition scope_of :: "prowse_event \<Rightarrow> bool \<Rightarrow> scope" where
  "scope_of e hide = \<lparr>sc_tag = ev_tag e, sc_path = ev_xpath e, sc_hide = hide\<rparr>"

lemma on_start_step:
  assumes "preview_ok opts pv" and "length (pv_stack pv) < 256" and "ev_depth e = length (pv_stack pv)" and "ev_tag e \<noteq> []"
  shows "\<exists>hide. layout_step opts (pv\<lparr>pv_stack := pv_stack pv @ [scope_of e hide]\<rparr>) (on_start opts e pv)"
proof -
  let ?hide = "(pv_stack pv \<noteq> [] \<and> sc_hide (top_scope pv)) \<or> hidden e"
  let ?pv = "pv\<lparr>pv_stack := pv_stack pv @ [scope_of e ?hide]\<rparr>"
  have step: "layout_step opts pv' (if b then append_text opts s pv' else Inr pv')" if "preview_ok opts pv'" for b s pv'
    using that append_step by simp
  have "layout_step opts ?pv (if block (ev_tag e) \<or> ev_tag e = ''br'' then newline opts ?pv else Inr ?pv)"
    using assms(1) newline_step by simp
  then have "layout_step opts ?pv (rbind (if block (ev_tag e) \<or> ev_tag e = ''br'' then newline opts ?pv else Inr ?pv) (\<lambda>pv2.
       rbind (if ev_tag e = ''li'' then append_text opts ''* '' pv2 else Inr pv2) (\<lambda>pv3.
       rbind (if ev_tag e = ''input'' then append_text opts ''[input]'' pv3 else Inr pv3) (\<lambda>pv4.
         if ev_tag e = ''img'' then append_text opts ''[image]'' pv4 else Inr pv4))))"
    by (intro layout_step_bind step)
  moreover have "\<not> (length (pv_stack pv) \<ge> 256 \<or> ev_depth e \<noteq> length (pv_stack pv) \<or> ev_tag e = [])" using assms by simp
  ultimately have "layout_step opts ?pv (on_start opts e pv)"
    using assms(1) unfolding on_start_def Let_def scope_of_def by (cases ?hide) (simp_all only: if_False if_True layout_step_simps preview_ok_stack)
  then show ?thesis ..
qed

lemma on_end_step:
  assumes "preview_ok opts pv" and "pv_stack pv = st @ [scope_of s hide]" and "ev_depth e = length st"
    and "ev_tag e = ev_tag s" and "ev_xpath e = ev_xpath s"
  shows "layout_step opts (pv\<lparr>pv_stack := st\<rparr>) (on_end opts e pv)"
proof -
  have "layout_step opts pv (newline opts pv)" by (rule newline_step [OF assms(1)])
  with assms show ?thesis
    by (cases "newline opts pv") (auto simp: on_end_def top_scope_def scope_of_def)
qed

lemma on_text_step:
  assumes "preview_ok opts pv" and "pv_stack pv = st @ [scope_of s hide]" and "ev_depth e = length st + 1" and "ev_tag e = ev_tag s"
  shows "layout_step opts pv (on_text opts e pv)"
  using assms append_step by (auto simp: on_text_def top_scope_def scope_of_def)

lemma on_attribute_step:
  assumes "preview_ok opts pv" and "pv_stack pv = st @ [scope_of s hide]" and "ev_depth e = length st"
    and "ev_tag e = ev_tag s" and "ev_xpath e = ev_xpath s"
  shows "layout_step opts pv (on_attribute e pv)"
  using assms by (auto simp: on_attribute_def top_scope_def scope_of_def)

text \<open>Every event keeps the invariant, whatever the stream.\<close>

lemma on_event_ok:
  assumes "preview_ok opts pv" and "on_event opts e pv = Inr pv'"
  shows "preview_ok opts pv'"
proof -
  have nl: "preview_ok opts q \<Longrightarrow> newline opts q = Inr q' \<Longrightarrow> preview_ok opts q'" for q q'
    using newline_Inr by blast
  have ap: "preview_ok opts q \<Longrightarrow> append_text opts s q = Inr q' \<Longrightarrow> preview_ok opts q'" for q q' s
    using append_step [of opts q s] by simp
  show ?thesis
  proof (cases "ev_kind e = ''start''")
    case True
    then have "length (pv_stack pv) < 256" "ev_depth e = length (pv_stack pv)" "ev_tag e \<noteq> []"
      using assms(2) by (auto simp: on_event_def on_start_def split: if_splits)
    from on_start_step [OF assms(1) this] True assms(2) show ?thesis by (auto simp: on_event_def)
  next
    case False
    with assms(1) assms(2) show ?thesis
      by (auto simp: on_event_def on_end_def on_text_def on_attribute_def rbind_Inr_iff
          intro: nl ap split: if_splits)
  qed
qed

definition lower :: "gfx_options \<Rightarrow> prowse_event list \<Rightarrow> preview result \<Rightarrow> preview result" where
  "lower opts es r = fold (\<lambda>e r. rbind r (on_event opts e)) es r"

lemma lower_simps [simp]:
  "lower opts [] r = r" "lower opts (e # es) r = lower opts es (rbind r (on_event opts e))"
  "lower opts (es @ fs) r = lower opts fs (lower opts es r)" "lower opts es (Inl x) = Inl x"
  by (simp_all add: lower_def) (induction es, simp_all)

lemma lower_ok: "preview_ok opts pv \<Longrightarrow> lower opts es (Inr pv) = Inr pv' \<Longrightarrow> preview_ok opts pv'"
proof (induction es arbitrary: pv)
  case (Cons e es)
  then show ?case by (cases "on_event opts e pv") (auto dest: on_event_ok)
qed simp

lemma empty_preview_ok: "preview_ok opts (empty_preview opts)"
  by (simp add: preview_ok_def empty_preview_def commands_bytes_def max_gfx_bytes_def)

lemma emit_gfx_ir_lower:
  "emit_gfx_ir events opts =
     (if length events > max_event_stream_events then Inl (Error ResourceLimit ''GFX source event limit exceeded'')
      else rbind (consume_all events empty_budget) (\<lambda>_.
        rbind (encode_gfx_frame \<lparr>g_surface = opts, g_commands = []\<rparr>) (\<lambda>_.
        rbind (lower opts events (Inr (empty_preview opts))) (\<lambda>pv.
          if pv_stack pv \<noteq> [] then Inl (Error ParseError ''incomplete GFX event stream'')
          else rbind (newline opts pv) (\<lambda>pv'. encode_gfx_frame (pv_frame pv'))))))"
proof -
  have "rbind (replay (Some (\<lambda>e pv. rbind (on_event opts e pv) (\<lambda>pv'. Inr (Continue, pv')))) max_event_stream_events events s) f =
      rbind (lower opts events (Inr s)) (\<lambda>pv. f (True, pv))" if "length events \<le> max_event_stream_events" for s and f :: "bool \<times> preview \<Rightarrow> string result"
    using that by (cases "lower opts events (Inr s)") (simp_all add: replay_def replay_loop_stateful lower_def)
  then show ?thesis
    by (cases "consume_all events empty_budget") (simp_all add: emit_gfx_ir_def event_stream_reader_def)
qed

section \<open>The layout\<close>

text \<open>The characters of a valid text, counted by their lead bytes.\<close>

definition code_points :: "string \<Rightarrow> nat" where
  "code_points s = length (filter (\<lambda>c. \<not> is_continuation c) s)"

lemma continuation_range: "is_continuation c \<longleftrightarrow> 128 \<le> byte c \<and> byte c < 192"
  unfolding is_continuation_def by (rule continuation_byte)

lemma valid_text_chunk:
  assumes "chunk c" and "valid_text (c @ s)"
  shows "code_points c = 1 \<and> valid_text s"
proof -
  obtain b r where c: "c = b # r" using assms(1) by (cases c) (auto simp: chunk_def)
  have n: "char_bytes (byte b) = Suc (length r)" using assms(1) by (simp add: chunk_def c)
  show ?thesis
  proof (cases "byte b < 128")
    case True
    then have "r = []" using n by (simp add: char_bytes_def)
    with True assms(2) show ?thesis
      by (auto simp: c Let_def code_points_def continuation_range split: if_splits)
  next
    case False
    then have k: "continuation (byte b) = length r" "192 \<le> byte b"
      using n by (auto simp: char_bytes_def continuation_def split: if_splits)
    with assms(2) False have "list_all is_continuation r" "valid_text s"
      by (auto simp: c Let_def split: if_splits)
    with k show ?thesis
      by (auto simp: c code_points_def continuation_range list_all_iff filter_empty_conv)
  qed
qed

lemma valid_text_line: "valid_text (concat cs) \<Longrightarrow> list_all chunk cs \<Longrightarrow> code_points (concat cs) = length cs"
proof (induction cs)
  case (Cons c cs)
  then have "code_points c = 1" "valid_text (concat cs)" using valid_text_chunk [of c "concat cs"] by auto
  with Cons show ?case by (simp add: code_points_def)
qed (simp add: code_points_def)

lemma chunk_hd_space: "chunk c \<Longrightarrow> hd c = CHR '' '' \<Longrightarrow> c = '' ''"
  by (cases c) (auto simp: chunk_def char_bytes_def byte_def)

lemma command_shape_valid:
  assumes "command_shape opts c" and "valid_text (g_text c)"
  shows "g_x c = min 16 (g_width opts - 1) \<and> g_text c \<noteq> [] \<and> hd (g_text c) \<noteq> CHR '' '' \<and>
    code_points (g_text c) \<le> line_width opts"
proof -
  obtain cs where cs: "g_text c = concat cs" "list_all chunk cs" "cs = [] \<or> hd cs \<noteq> '' ''" "length cs \<le> line_width opts"
    and c: "g_x c = min 16 (g_width opts - 1)" "g_text c \<noteq> []"
    using assms(1) by (auto simp: command_shape_def line_ok_def)
  obtain x xs where x: "cs = x # xs" using c cs by (cases cs) auto
  with cs have "hd (concat cs) \<noteq> CHR '' ''" using chunk_hd_space [of x] by (auto simp: chunk_def)
  with c cs valid_text_line [of cs] assms(2) show ?thesis by simp
qed

lemma emit_gfx_ir_Inr:
  assumes "emit_gfx_ir events opts = Inr bytes"
  shows "\<exists>pv. preview_ok opts pv \<and> frame_ok (pv_frame pv) \<and> bytes = frame_bytes (pv_frame pv)"
proof -
  from assms obtain pv pv' where "lower opts events (Inr (empty_preview opts)) = Inr pv" "newline opts pv = Inr pv'"
    "encode_gfx_frame (pv_frame pv') = Inr bytes"
    by (auto simp: emit_gfx_ir_lower rbind_Inr_iff split: if_splits)
  with lower_ok [OF empty_preview_ok] newline_Inr show ?thesis
    unfolding encode_gfx_frame_Inr by blast
qed

text \<open>
  Whatever the event stream, a preview that is produced decodes to a frame with the requested
  surface in which the lines lie 18 pixels apart from the top, each at the left margin, non-empty,
  not starting with a space and of at most as many characters as the surface is wide; every other
  outcome is an error.
\<close>

theorem gfx_preview_layout:
  "case emit_gfx_ir events opts of
     Inl e \<Rightarrow> True
   | Inr bytes \<Rightarrow> \<exists>frame. decode_gfx_frame bytes = Inr frame \<and> g_surface frame = opts \<and>
       map g_y (g_commands frame) = map (\<lambda>i. of_nat (16 + 18 * i)) [0..<length (g_commands frame)] \<and>
       list_all (\<lambda>c. g_x c = min 16 (g_width opts - 1) \<and> g_text c \<noteq> [] \<and> hd (g_text c) \<noteq> CHR '' '' \<and>
         code_points (g_text c) \<le> line_width opts) (g_commands frame)"
proof (cases "emit_gfx_ir events opts")
  case (Inr bytes)
  then obtain pv where pv: "preview_ok opts pv" "frame_ok (pv_frame pv)" "bytes = frame_bytes (pv_frame pv)"
    using emit_gfx_ir_Inr by blast
  let ?cs = "g_commands (pv_frame pv)"
  have s: "list_all (command_shape opts) ?cs" "list_all (\<lambda>c. valid_text (g_text c)) ?cs"
    using pv by (auto simp: preview_ok_def Let_def frame_ok_def command_ok_def check_def list_all_iff split: if_splits)
  then have "list_all (\<lambda>c. g_x c = min 16 (g_width opts - 1) \<and> g_text c \<noteq> [] \<and> hd (g_text c) \<noteq> CHR '' '' \<and>
      code_points (g_text c) \<le> line_width opts) ?cs"
    using command_shape_valid unfolding list_all_iff by blast
  with pv Inr decode_frame_bytes [OF pv(2)] show ?thesis by (auto simp: preview_ok_def Let_def)
qed simp

section \<open>Pages\<close>

text \<open>A stretch of events that runs to the end, or fails with an error of the layout, and leaves the stack as it was.\<close>

definition balanced :: "gfx_options \<Rightarrow> prowse_event list \<Rightarrow> preview \<Rightarrow> bool" where
  "balanced opts es pv \<longleftrightarrow> layout_step opts pv (lower opts es (Inr pv))"

lemma lower_step:
  assumes "layout_step opts pv r" and "\<And>pv'. preview_ok opts pv' \<Longrightarrow> pv_stack pv' = pv_stack pv \<Longrightarrow> layout_step opts pv0 (lower opts es (Inr pv'))"
  shows "layout_step opts pv0 (lower opts es r)"
  using assms by (cases r) simp_all

lemma kinds [simp]:
  "ev_kind (start_event n xp tx d) = ''start''" "ev_kind (attribute_event n xp d a) = ''attribute''"
  "ev_kind (text_event n xp d k s) = ''text''" "ev_kind (end_event n xp d) = ''end''"
  "ev_tag (start_event n xp tx d) = nname n" "ev_tag (attribute_event n xp d a) = nname n"
  "ev_tag (text_event n xp d k s) = nname n" "ev_tag (end_event n xp d) = nname n"
  "ev_depth (start_event n xp tx d) = d" "ev_depth (attribute_event n xp d a) = d"
  "ev_depth (text_event n xp d k s) = Suc d" "ev_depth (end_event n xp d) = d"
  "ev_xpath (start_event n xp tx d) = xp" "ev_xpath (attribute_event n xp d a) = xp" "ev_xpath (end_event n xp d) = xp"
  by (simp_all add: start_event_def attribute_event_def text_event_def end_event_def make_event_def)

lemma balanced_Cons:
  assumes "layout_step opts pv (on_event opts e pv)"
    and "\<And>pv'. preview_ok opts pv' \<Longrightarrow> pv_stack pv' = pv_stack pv \<Longrightarrow> balanced opts es pv'"
  shows "balanced opts (e # es) pv"
  unfolding balanced_def lower_simps rbind_simps
  by (rule lower_step [OF assms(1)]) (rule layout_step_trans [OF assms(2) [unfolded balanced_def]])

lemma balanced_append:
  assumes "balanced opts es pv" and "\<And>pv'. preview_ok opts pv' \<Longrightarrow> pv_stack pv' = pv_stack pv \<Longrightarrow> balanced opts fs pv'"
  shows "balanced opts (es @ fs) pv"
  unfolding balanced_def lower_simps
  by (rule lower_step [OF assms(1) [unfolded balanced_def]]) (rule layout_step_trans [OF assms(2) [unfolded balanced_def]])

lemma attributes_balanced:
  assumes "preview_ok opts pv" and "pv_stack pv = st @ [scope_of (start_event n xp tx depth) hide]" and "length st = depth"
  shows "balanced opts (map (attribute_event n xp depth) as) pv"
  using assms
proof (induction as arbitrary: pv)
  case (Cons a as)
  then have "layout_step opts pv (on_attribute (attribute_event n xp depth a) pv)"
    by (intro on_attribute_step) auto
  then have "layout_step opts pv (on_event opts (attribute_event n xp depth a) pv)" by (simp add: on_event_def)
  with Cons show ?case by (auto intro!: balanced_Cons)
qed (simp add: balanced_def)

lemma element_balanced:
  assumes pv: "preview_ok opts pv" and d: "length (pv_stack pv) = depth" "depth < 256" and n: "nname n \<noteq> []"
    and kids: "\<And>pv' hide. preview_ok opts pv' \<Longrightarrow> pv_stack pv' = pv_stack pv @ [scope_of (start_event n xp tx depth) hide] \<Longrightarrow>
      balanced opts es pv'"
  shows "balanced opts (start_event n xp tx depth # map (attribute_event n xp depth) as @ es @ [end_event n xp depth]) pv"
proof -
  let ?s = "start_event n xp tx depth"
  obtain hide where start: "layout_step opts (pv\<lparr>pv_stack := pv_stack pv @ [scope_of ?s hide]\<rparr>) (on_start opts ?s pv)"
    using on_start_step [OF pv, of ?s] d n by auto
  let ?body = "map (attribute_event n xp depth) as @ es"
  show ?thesis
    unfolding balanced_def lower_simps(2) rbind_simps
  proof (rule lower_step)
    show "layout_step opts (pv\<lparr>pv_stack := pv_stack pv @ [scope_of ?s hide]\<rparr>) (on_event opts ?s pv)"
      using start by (simp add: on_event_def)
    fix pv' assume pv': "preview_ok opts pv'" "pv_stack pv' = pv_stack (pv\<lparr>pv_stack := pv_stack pv @ [scope_of ?s hide]\<rparr>)"
    then have "balanced opts (map (attribute_event n xp depth) as @ es) pv'"
      using d by (intro balanced_append attributes_balanced kids) auto
    then have body: "layout_step opts pv' (lower opts (map (attribute_event n xp depth) as @ es) (Inr pv'))"
      by (simp only: balanced_def)
    show "layout_step opts pv (lower opts (map (attribute_event n xp depth) as @ es @ [end_event n xp depth]) (Inr pv'))"
      unfolding append_assoc [symmetric] lower_simps(3) [of _ _ "[end_event n xp depth]"]
    proof (rule lower_step [OF body])
      fix pv2 assume "preview_ok opts pv2" "pv_stack pv2 = pv_stack pv'"
      with on_end_step [of opts pv2 "pv_stack pv" ?s hide "end_event n xp depth"] pv'(2) d(1)
      show "layout_step opts pv (lower opts [end_event n xp depth] (Inr pv2))"
        by (auto simp: on_event_def intro: layout_step_trans [of opts "pv2\<lparr>pv_stack := pv_stack pv\<rparr>"])
    qed
  qed
qed

text \<open>The events of a tree are balanced.\<close>

definition named :: "dom \<Rightarrow> bool" where
  "named d \<longleftrightarrow> (\<forall>i < size_dom d. is_element (node_at d i) \<longrightarrow> nname (node_at d i) \<noteq> [])"

lemma child_events_balanced:
  assumes "\<And>t pv. t \<in> set ts \<Longrightarrow> ntype (node_at d (iroot t)) = Element \<Longrightarrow> preview_ok opts pv \<Longrightarrow>
      length (pv_stack pv) = Suc depth \<Longrightarrow> balanced opts (events_of d (Suc depth) t) pv"
    and "preview_ok opts pv" and "pv_stack pv = st @ [scope_of (start_event n xp tx depth) hide]" and "length st = depth"
  shows "balanced opts (child_events d depth n xp k ts) pv"
  using assms
proof (induction ts arbitrary: pv k)
  case (Cons t ts)
  let ?c = "node_at d (iroot t)"
  have IH: "balanced opts (child_events d depth n xp k ts) pv'" if "preview_ok opts pv'" "pv_stack pv' = pv_stack pv" for pv' k
    by (rule Cons.IH) (use Cons.prems that in auto)
  consider (text_node) "ntype ?c = Text" "is_renderable_text (ntext ?c)" | (el) "ntype ?c = Element"
    | (other) "ntype ?c \<noteq> Element" "\<not> (ntype ?c = Text \<and> is_renderable_text (ntext ?c))" by blast
  then show ?case
  proof cases
    case text_node
    have "layout_step opts pv (on_event opts (text_event n xp depth (Suc k) (ntext ?c)) pv)"
      using on_text_step [OF Cons.prems(2,3)] Cons.prems(4) by (simp add: on_event_def)
    with IH text_node show ?thesis by (auto simp: Let_def intro: balanced_Cons)
  next
    case el
    have "balanced opts (events_of d (Suc depth) t) pv" using Cons.prems el by simp
    with IH el show ?thesis by (auto simp: Let_def intro: balanced_append)
  next
    case other
    with IH [OF Cons.prems(2) refl] show ?thesis by (auto simp: Let_def)
  qed
qed (simp add: balanced_def)

lemma events_balanced:
  assumes "named d"
  shows "links d t \<Longrightarrow> within d depth t \<Longrightarrow> preview_ok opts pv \<Longrightarrow> length (pv_stack pv) = depth \<Longrightarrow>
    balanced opts (events_of d depth t) pv"
proof (induction t arbitrary: depth pv)
  case (INode i ts)
  let ?n = "node_at d i"
  have lk: "\<And>t. t \<in> set ts \<Longrightarrow> links d t" using INode.prems by auto
  consider (doc) "ntype ?n = Document" | (el) "ntype ?n = Element" | (other) "ntype ?n \<noteq> Document" "ntype ?n \<noteq> Element" by blast
  then show ?case
  proof cases
    case doc
    have "set us \<subseteq> set ts \<Longrightarrow> preview_ok opts pv' \<Longrightarrow> length (pv_stack pv') = depth \<Longrightarrow>
        balanced opts (concat (map (events_of d depth) us)) pv'" for us pv'
    proof (induction us arbitrary: pv')
      case (Cons u us)
      have "within d depth u" using INode.prems(2) doc Cons.prems(1) by (auto simp: list_all_iff)
      then have "balanced opts (events_of d depth u) pv'" using INode.IH [of u] lk Cons.prems by auto
      with Cons show ?case by (auto intro!: balanced_append)
    qed (simp add: balanced_def)
    with doc INode.prems show ?thesis by (simp add: Let_def)
  next
    case el
    have kids: "balanced opts (events_of d (Suc depth) t) pv'" if "t \<in> set ts" "ntype (node_at d (iroot t)) = Element"
      "preview_ok opts pv'" "length (pv_stack pv') = Suc depth" for t pv'
      using INode.IH [OF that(1) lk] that INode.prems(2) el by (auto simp: list_all_iff)
    have "nname ?n \<noteq> []" "depth < 256" using INode.prems assms el by (auto simp: named_def is_element_def)
    then have "balanced opts (start_event ?n (node_path d i) (the (text_content d i)) depth #
        map (attribute_event ?n (node_path d i) depth) (attributes ?n) @
        child_events d depth ?n (node_path d i) 0 ts @ [end_event ?n (node_path d i) depth]) pv"
      using INode.prems(3,4) by (intro element_balanced child_events_balanced kids) auto
    with el show ?thesis by (simp add: Let_def)
  next
    case other
    with INode.prems show ?thesis by (simp add: Let_def balanced_def)
  qed
qed

text \<open>Within the limits the invariant guarantees, encoding fails only on a text that is not valid.\<close>

lemma encode_preview:
  assumes "preview_ok opts pv" and "dimensions opts = Inr ()"
  shows "case encode_gfx_frame (pv_frame pv) of Inl e \<Rightarrow> e = invalid | Inr bytes \<Rightarrow> True"
proof -
  have m: "sz + commands_bytes cs \<le> max_gfx_bytes \<Longrightarrow> measure_frame opts cs sz = Inl e \<Longrightarrow> e = invalid" for cs sz e
  proof (induction cs arbitrary: sz)
    case (Cons c cs)
    show ?case
    proof (cases "check c opts")
      case (Inr u)
      with Cons.prems have "measure_frame opts cs (sz + (13 + length (g_text c))) = Inl e"
        by (auto simp: commands_bytes_def split: if_splits)
      with Cons.prems(1) show ?thesis by (intro Cons.IH) (simp_all add: commands_bytes_def)
    qed (use Cons.prems in \<open>auto simp: check_def split: if_splits\<close>)
  qed simp
  from assms have "g_surface (pv_frame pv) = opts" "length (g_commands (pv_frame pv)) \<le> max_gfx_commands"
    "17 + commands_bytes (g_commands (pv_frame pv)) \<le> max_gfx_bytes" by (auto simp: preview_ok_def Let_def)
  with m [OF this(3)] assms(2) show ?thesis
    by (cases "measure_frame opts (g_commands (pv_frame pv)) 17") (auto simp: encode_gfx_frame_def)
qed

lemma encode_empty: "dimensions opts = Inr () \<Longrightarrow> \<exists>bytes. encode_gfx_frame \<lparr>g_surface = opts, g_commands = []\<rparr> = Inr bytes"
  by (simp add: encode_gfx_frame_def)

lemma page_events:
  assumes "dom_wf d" and "doc_root doc = Some r" and "r < size_dom d" and "emit_prowse_events d doc = Some (Inr es)"
  shows "\<exists>t. links d t \<and> es = events_of d 0 t \<and> within d 0 t \<and> budget_ok (spent es empty_budget)"
proof -
  obtain t where t: "itree_at d r = Some t" "links d t" using itree_at_total [OF assms(1,3)] by blast
  have ok: "budget_ok (ib_budget empty_build)" by (simp add: empty_build_def budget_ok_def empty_budget_def)
  have b: "build_ir d doc = walk_tree d 0 t empty_build" using assms(2) t(1) by (simp add: build_ir_def)
  have w: "if within d 0 t \<and> budget_ok (spent (events_of d 0 t) (ib_budget empty_build))
     then build_ir d doc = Some (Inr (emitted d (events_of d 0 t) (visited d t) empty_build))
     else \<exists>e. build_ir d doc = Some (Inl e) \<and> code e = ResourceLimit"
    using walk_emits [OF assms(1) t(2), of 0] ok unfolding emits_def b by blast
  with assms(4) have "within d 0 t" "budget_ok (spent (events_of d 0 t) empty_budget)" "es = events_of d 0 t"
    by (auto simp: emit_prowse_events_def obind_def emitted_def empty_build_def split: if_splits)
  with t(2) show ?thesis by blast
qed

lemma page_lowered:
  assumes "dom_wf d" and "named d" and "doc_root doc = Some r" and "r < size_dom d"
    and "emit_prowse_events d doc = Some (Inr es)" and "dimensions opts = Inr ()"
  shows "layout_step opts (empty_preview opts) (lower opts es (Inr (empty_preview opts))) \<and>
    emit_gfx_ir es opts = rbind (lower opts es (Inr (empty_preview opts))) (\<lambda>pv.
      if pv_stack pv \<noteq> [] then Inl (Error ParseError ''incomplete GFX event stream'')
      else rbind (newline opts pv) (\<lambda>pv'. encode_gfx_frame (pv_frame pv')))"
proof -
  obtain t where t: "links d t" "es = events_of d 0 t" "within d 0 t" "budget_ok (spent es empty_budget)"
    using page_events [OF assms(1,3,4,5)] by blast
  have "balanced opts es (empty_preview opts)"
    unfolding t(2) by (intro events_balanced assms(2) t empty_preview_ok) (simp add: empty_preview_def)
  moreover have "budget_ok empty_budget" by (simp add: budget_ok_def empty_budget_def)
  with t(4) have "length es \<le> max_event_stream_events" "consume_all es empty_budget = Inr (spent es empty_budget)"
    using consume_all_eq [of empty_budget es] by (auto simp: budget_ok_def spent_def empty_budget_def)
  moreover obtain bs where "encode_gfx_frame \<lparr>g_surface = opts, g_commands = []\<rparr> = Inr bs" using encode_empty [OF assms(6)] by blast
  ultimately show ?thesis by (simp add: balanced_def emit_gfx_ir_lower)
qed

text \<open>
  The preview of a page.  The event stream of a well-formed document whose elements have names
  is never rejected as malformed or incomplete: on a legal surface the preview is produced, or fails
  because the page is too large for one, or because its text is not valid UTF-8.
\<close>

theorem gfx_page_preview:
  assumes "dom_wf d" and "named d" and "doc_root doc = Some r" and "r < size_dom d"
    and "emit_prowse_events d doc = Some (Inr es)" and "dimensions opts = Inr ()"
  shows "case emit_gfx_ir es opts of Inr bytes \<Rightarrow> True | Inl e \<Rightarrow> e \<in> {preview_limit, preview_text_error, invalid}"
proof -
  from page_lowered [OF assms] have low: "layout_step opts (empty_preview opts) (lower opts es (Inr (empty_preview opts)))"
    and eq: "emit_gfx_ir es opts = rbind (lower opts es (Inr (empty_preview opts))) (\<lambda>pv.
      if pv_stack pv \<noteq> [] then Inl (Error ParseError ''incomplete GFX event stream'')
      else rbind (newline opts pv) (\<lambda>pv'. encode_gfx_frame (pv_frame pv')))" by blast+
  show ?thesis
  proof (cases "lower opts es (Inr (empty_preview opts))")
    case (Inr pv)
    with low have pv: "preview_ok opts pv" "pv_stack pv = []" by (simp_all add: empty_preview_def)
    show ?thesis
    proof (cases "newline opts pv")
      case (Inr pv')
      have "case encode_gfx_frame (pv_frame pv') of Inl e \<Rightarrow> e = invalid | Inr bytes \<Rightarrow> True"
        using newline_Inr [OF Inr pv(1)] by (intro encode_preview [OF _ assms(6)]) blast
      with Inr pv \<open>lower _ _ _ = _\<close> show ?thesis
        by (cases "encode_gfx_frame (pv_frame pv')") (auto simp: eq)
    next
      case (Inl e)
      with newline_Inl pv \<open>lower _ _ _ = _\<close> show ?thesis by (auto simp: eq)
    qed
  qed (use low eq in auto)
qed

lemma sample_nodes:
  "node_at sample_page 0 = (fresh_node Document)\<lparr>children := [1, 2]\<rparr>"
  "node_at sample_page (Suc 0) = (fresh_node Element)\<lparr>nname := ''p'', parent := Some 0\<rparr>"
  "node_at sample_page 2 = (fresh_node Element)\<lparr>nname := ''p'', parent := Some 0\<rparr>"
  "size_dom sample_page = 3"
  by (simp_all add: sample_page_def)

lemma sample_paths:
  "element_path sample_page (Some (Suc 0)) = Some ''/p[1]''" "element_path sample_page (Some 2) = Some ''/p[2]''"
  by (simp_all add: element_path_def path_loop.simps path_segment_def same_tag_index_def sample_nodes fresh_node_def
    is_element_def decimal.simps digit_char_def char_of_def bit_0 Let_def)

lemma sample_texts: "text_content sample_page (Suc 0) = Some []" "text_content sample_page 2 = Some []"
  by (simp_all add: text_content_def tree_at_def sample_nodes numeral_3_eq_3 fresh_node_def node_tree_def)

lemma sample_page_named: "named sample_page"
  by (auto simp: named_def sample_page_def less_Suc_eq fresh_node_def is_element_def numeral_2_eq_2)

lemma sample_page_events:
  "\<exists>es. emit_prowse_events sample_page \<lparr>doc_root = Some 0, doc_url = [], doc_base_url = []\<rparr> = Some (Inr es) \<and>
     map ev_kind es = [''start'', ''end'', ''start'', ''end''] \<and> map ev_value es = [[], [], [], []]"
  by (simp add: emit_prowse_events_def build_ir_def itree_at_def sample_nodes numeral_3_eq_3 fresh_node_def sample_paths
    sample_texts Let_def obind_def push_event_def consume_def start_event_def end_event_def make_event_def event_sizes_def charge_def
    max_event_stream_events_def max_event_stream_bytes_def empty_build_def empty_budget_def)

theorem gfx_page_preview_witness:
  "\<exists>es. emit_prowse_events sample_page \<lparr>doc_root = Some 0, doc_url = [], doc_base_url = []\<rparr> = Some (Inr es) \<and>
     (case emit_gfx_ir es \<lparr>g_width = 640, g_height = 480\<rparr> of
        Inr bytes \<Rightarrow> True | Inl e \<Rightarrow> e \<in> {preview_limit, preview_text_error, invalid})"
proof -
  obtain es where es: "emit_prowse_events sample_page \<lparr>doc_root = Some 0, doc_url = [], doc_base_url = []\<rparr> = Some (Inr es)"
    using sample_page_events by blast
  have "0 < size_dom sample_page" by (simp add: sample_page_def)
  moreover have "dimensions \<lparr>g_width = 640, g_height = 480\<rparr> = Inr ()" by (simp add: dimensions_def max_gfx_dimension_def)
  ultimately show ?thesis using gfx_page_preview [OF sample_page_wf(1) sample_page_named _ _ es] es by auto
qed
end
