(* ===== verification/Gfx_Live.thy ===== *)
theory Gfx_Live
  imports Gfx_Ir
begin

text \<open>
  When the preview of \<^verbatim>\<open>gfx_ir.cpp\<close> is produced: a page whose visible text is valid UTF-8 and short enough
  never meets a limit of the encoder.  \<open>room u\<close> is the state after at most \<open>u\<close> bytes of text.
\<close>

text \<open>Valid UTF-8, control characters allowed: the lowering turns them into spaces.\<close>

definition blank :: "char \<Rightarrow> char" where
  "blank c = (if byte c \<le> 32 \<or> byte c = 127 then CHR '' '' else c)"

definition text_ok :: "string \<Rightarrow> bool" where
  "text_ok s \<longleftrightarrow> valid_text (map blank s)"

definition room :: "gfx_options \<Rightarrow> nat \<Rightarrow> preview \<Rightarrow> bool" where
  "room opts u pv \<longleftrightarrow> preview_ok opts pv \<and> valid_text (pv_line pv) \<and> length (pv_line pv) \<le> max_gfx_text_bytes \<and>
     (let cs = g_commands (pv_frame pv) in
      list_all (command_ok opts) cs \<and> length cs + (if pv_line pv = [] then 0 else 1) \<le> u \<and>
      commands_bytes cs + length (pv_line pv) \<le> 13 * length cs + 2 * u)"

lemma valid_text_append: "valid_text s \<Longrightarrow> valid_text (s @ t) = valid_text t"
proof (induction s rule: valid_text.induct)
  case (2 b rest)
  show ?case
  proof (cases "byte b < 128")
    case True
    with 2 show ?thesis by (auto simp: Let_def split: if_splits)
  next
    case False
    let ?n = "continuation (byte b)"
    from 2(3) False have n: "?n \<noteq> 0" "?n \<le> length rest" "\<not> bad_first (byte b) (byte (hd rest))"
      "list_all is_continuation (take ?n rest)" "valid_text (drop ?n rest)"
      by (auto simp: Let_def split: if_splits)
    then have "valid_text (drop ?n rest @ t) = valid_text t" using 2(2) False by simp
    moreover have "hd (rest @ t) = hd rest" using n by (cases rest) auto
    ultimately show ?thesis using n False by (simp add: Let_def)
  qed
qed simp

lemma room_mono: "room opts u pv \<Longrightarrow> u \<le> v \<Longrightarrow> room opts v pv"
  by (fastforce simp: room_def Let_def)

lemma line_command_ok:
  assumes "dimensions opts = Inr ()" and "n \<le> 50000" and "valid_text s" and "length s \<le> max_gfx_text_bytes"
  shows "command_ok opts \<lparr>g_x = min 16 (g_width opts - 1), g_y = of_nat (16 + n * 18), g_text = s\<rparr>"
proof -
  have w: "g_width opts \<noteq> 0" using assms(1) by (auto simp: dimensions_def split: if_splits)
  then have "unat (g_width opts - 1) < unat (g_width opts)"
    by (metis unat_minus_one diff_less unat_gt_0 zero_less_one)
  then have "g_width opts - 1 < g_width opts" by (simp add: word_less_nat_alt)
  then have x: "16 < g_width opts \<or> g_width opts - 1 < g_width opts" ..
  have "unat (of_nat (16 + n * 18) :: u32) = 16 + n * 18" using assms(2) by (intro unat_of_nat_small) simp
  then have "(of_nat (16 + n * 18) :: u32) \<le> max_gfx_content_height"
    using assms(2) unfolding word_le_nat_alt max_gfx_content_height_def by simp
  with x assms(3,4) show ?thesis by (simp add: command_ok_def check_def not_le not_less min_less_iff_disj del: of_nat_add of_nat_mult)
qed

lemma newline_room:
  assumes dim: "dimensions opts = Inr ()" and r: "room opts u pv" and u: "u \<le> 50000"
  shows "\<exists>pv'. newline opts pv = Inr pv' \<and> room opts u pv' \<and> pv_line pv' = [] \<and> pv_columns pv' = 0 \<and> \<not> pv_space pv'"
proof (cases "pv_line pv = []")
  case True
  with r show ?thesis by (simp add: newline_def room_def preview_ok_def)
next
  case False
  let ?cs = "g_commands (pv_frame pv)"
  let ?c = "\<lparr>g_x = min 16 (g_width opts - 1), g_y = of_nat (16 + length ?cs * 18), g_text = pv_line pv\<rparr>"
  let ?pv = "pv\<lparr>pv_bytes := pv_bytes pv + (13 + length (pv_line pv)), pv_frame := (pv_frame pv)\<lparr>g_commands := ?cs @ [?c]\<rparr>,
     pv_line := [], pv_columns := 0, pv_space := False\<rparr>"
  from r False have n: "length ?cs + 1 \<le> u" "commands_bytes ?cs + length (pv_line pv) \<le> 13 * length ?cs + 2 * u"
    "pv_bytes pv = 17 + commands_bytes ?cs" "valid_text (pv_line pv)" "length (pv_line pv) \<le> max_gfx_text_bytes"
    by (auto simp: room_def preview_ok_def Let_def)
  have "\<not> (length ?cs \<ge> max_gfx_commands \<or> 16 + length ?cs * 18 > unat max_gfx_content_height \<or>
      13 + length (pv_line pv) > max_gfx_bytes - pv_bytes pv)"
    using n u by (simp add: max_gfx_commands_def max_gfx_content_height_def max_gfx_bytes_def)
  then have nl: "newline opts pv = Inr ?pv" unfolding newline_def Let_def using False by (simp only: if_False) simp
  have "command_ok opts ?c" using n u by (intro line_command_ok [OF dim]) simp_all
  moreover have "preview_ok opts ?pv" using newline_Inr [OF nl] r by (simp add: room_def)
  ultimately have "room opts u ?pv" using r n False by (simp add: room_def Let_def commands_bytes_def)
  with nl show ?thesis by (intro exI [of _ ?pv]) simp
qed

text \<open>The first character of a valid text.\<close>

lemma text_ok_Cons:
  assumes "text_ok (b # rest)"
  shows "byte b \<le> 32 \<or> byte b = 127 \<Longrightarrow> text_ok rest"
    and "\<not> (byte b \<le> 32 \<or> byte b = 127) \<Longrightarrow> char_bytes (byte b) \<noteq> 0 \<and> char_bytes (byte b) \<le> length (b # rest) \<and>
      valid_text (take (char_bytes (byte b)) (b # rest)) \<and> text_ok (drop (char_bytes (byte b)) (b # rest))"
proof -
  have sp: "byte (CHR '' '') = 32" by (simp add: byte_def)
  show "byte b \<le> 32 \<or> byte b = 127 \<Longrightarrow> text_ok rest"
    using assms by (auto simp: text_ok_def blank_def sp Let_def)
  assume b: "\<not> (byte b \<le> 32 \<or> byte b = 127)"
  show "char_bytes (byte b) \<noteq> 0 \<and> char_bytes (byte b) \<le> length (b # rest) \<and>
      valid_text (take (char_bytes (byte b)) (b # rest)) \<and> text_ok (drop (char_bytes (byte b)) (b # rest))"
  proof (cases "byte b < 128")
    case True
    with b assms show ?thesis by (auto simp: text_ok_def blank_def Let_def char_bytes_def)
  next
    case False
    let ?n = "continuation (byte b)"
    from b False assms have n: "?n \<noteq> 0" "?n \<le> length rest" "\<not> bad_first (byte b) (byte (hd (map blank rest)))"
      "list_all is_continuation (take ?n (map blank rest))" "valid_text (drop ?n (map blank rest))"
      by (auto simp: text_ok_def blank_def Let_def split: if_splits)
    have bl: "is_continuation (blank c) \<Longrightarrow> blank c = c" for c
      by (auto simp: blank_def continuation_range sp)
    have t: "map blank (take ?n rest) = take ?n rest"
      using n(4) bl by (intro map_idI) (auto simp: list_all_iff take_map)
    moreover have "hd (take ?n (map blank rest)) = hd (map blank rest)" using n(1) by (cases rest; cases ?n) auto
    moreover have "char_bytes (byte b) = Suc ?n"
      using n(1) False by (auto simp: char_bytes_def continuation_def split: if_splits)
    ultimately show ?thesis
      using n False b by (auto simp: text_ok_def Let_def take_map drop_map)
  qed
qed

lemma put_char_room:
  assumes r: "room opts u pv" and fits: "pv_columns pv + (if pv_space pv then 1 else 0) < line_width opts"
    and c: "chunk c" "c \<noteq> '' ''" "valid_text c" and len: "length (pv_line pv) + length c + 1 \<le> max_gfx_text_bytes"
  shows "room opts (u + length c) (put_char c pv)"
proof -
  have "preview_ok opts (put_char c pv)" using put_char_ok [OF _ fits c(1,2)] r by (simp add: room_def)
  moreover have "pv_frame (put_char c pv) = pv_frame pv"
    "pv_line (put_char c pv) = pv_line pv @ (if pv_space pv then '' '' else []) @ c"
    by (simp_all add: put_char_def)
  moreover have "valid_text (pv_line pv @ (if pv_space pv then '' '' else []) @ c)"
    using r c by (simp add: room_def valid_text_append Let_def byte_def)
  moreover have "1 \<le> length c" using c(1) by (cases c) (auto simp: chunk_def)
  ultimately show ?thesis using r len by (auto simp: room_def Let_def)
qed

lemma append_room:
  assumes dim: "dimensions opts = Inr ()"
  shows "room opts u pv \<Longrightarrow> u + length s \<le> 50000 \<Longrightarrow> text_ok s \<Longrightarrow>
    \<exists>pv'. append_text opts s pv = Inr pv' \<and> room opts (u + length s) pv'"
proof (induction "length s" arbitrary: s pv u rule: less_induct)
  case less
  show ?case
  proof (cases s)
    case Nil
    with less.prems show ?thesis by (simp add: append_text.simps)
  next
    case (Cons b rest)
    let ?c = "byte b" and ?n = "char_bytes (byte b)"
    let ?ch = "take ?n (b # rest)"
    let ?brk = "if pv_columns pv + (if pv_space pv then 1 else 0) \<ge> line_width opts \<or>
       length (pv_line pv) + ?n + 1 > max_gfx_text_bytes then newline opts pv else Inr pv"
    show ?thesis
    proof (cases "?c \<le> 32 \<or> ?c = 127")
      case True
      have "room opts (u + 1) (pv\<lparr>pv_space := (pv_line pv \<noteq> [])\<rparr>)"
        using less.prems(1) by (auto simp: room_def preview_ok_def Let_def)
      with less.hyps [of rest "u + 1"] less.prems True text_ok_Cons(1) [of b rest] Cons show ?thesis
        by (auto simp: append_text.simps(2) Let_def)
    next
      case False
      note ch = text_ok_Cons(2) [OF less.prems(3) [unfolded Cons] False]
      have chunk: "chunk ?ch" using char_bytes_chunk [OF refl] ch by blast
      have nsp: "?ch \<noteq> '' ''" using ch False by (cases ?n) (auto simp: byte_def)
      have eq: "append_text opts s pv = rbind ?brk (\<lambda>pv1. append_text opts (drop ?n (b # rest)) (put_char ?ch pv1))"
        unfolding Cons append_text.simps Let_def put_char_def using False ch by (simp cong: if_cong)
      obtain pv1 where pv1: "?brk = Inr pv1" "room opts u pv1" "length (pv_line pv1) + ?n + 1 \<le> max_gfx_text_bytes"
        "pv_columns pv1 + (if pv_space pv1 then 1 else 0) < line_width opts"
      proof (cases "pv_columns pv + (if pv_space pv then 1 else 0) \<ge> line_width opts \<or> length (pv_line pv) + ?n + 1 > max_gfx_text_bytes")
        case True
        obtain pv1 where "newline opts pv = Inr pv1" "room opts u pv1" "pv_line pv1 = []" "pv_columns pv1 = 0" "\<not> pv_space pv1"
          using newline_room [OF dim less.prems(1)] less.prems(2) by auto
        moreover have "?n \<le> 4" by (simp add: char_bytes_def)
        ultimately show ?thesis using True line_width_pos [of opts] by (intro that [of pv1]) (simp_all add: max_gfx_text_bytes_def)
      next
        case False
        with less.prems(1) show ?thesis by (intro that [of pv]) simp_all
      qed
      have n: "length ?ch = ?n" using ch by simp
      have "room opts (u + length ?ch) (put_char ?ch pv1)"
        using pv1 ch n by (intro put_char_room chunk nsp) simp_all
      moreover have "u + length ?ch + length (drop ?n (b # rest)) = u + length s" using ch Cons by simp
      moreover have "length (drop ?n (b # rest)) < length s" using ch Cons by simp
      ultimately have "\<exists>pv'. append_text opts (drop ?n (b # rest)) (put_char ?ch pv1) = Inr pv' \<and> room opts (u + length s) pv'"
        using less.hyps [of "drop ?n (b # rest)" "u + length ?ch" "put_char ?ch pv1"] less.prems(2) ch by simp
      then show ?thesis unfolding eq pv1(1) by simp
    qed
  qed
qed

text \<open>The text an event can add, and events that show only valid text.\<close>

definition weight :: "prowse_event \<Rightarrow> nat" where
  "weight e = (if ev_kind e = ''start'' then 7 else if ev_kind e = ''text'' then length (ev_value e) else 0)"

lemma room_stack [simp]: "room opts u (pv\<lparr>pv_stack := st\<rparr>) = room opts u pv"
  by (simp add: room_def)

lemma marks_ok: "text_ok ''* ''" "text_ok ''[input]''" "text_ok ''[image]''"
  by (simp_all add: text_ok_def blank_def byte_def Let_def)

definition goes_on :: "gfx_options \<Rightarrow> nat \<Rightarrow> preview result \<Rightarrow> bool" where
  "goes_on opts u r \<longleftrightarrow> r = Inl stream_error \<or> (\<exists>pv. r = Inr pv \<and> room opts u pv)"

lemma goes_on_bind:
  assumes "goes_on opts u r" and "\<And>pv. room opts u pv \<Longrightarrow> goes_on opts v (f pv)"
  shows "goes_on opts v (rbind r f)"
  using assms(1) unfolding goes_on_def [of _ _ r] by (elim disjE exE conjE) (simp_all add: assms(2), simp add: goes_on_def)

lemma goes_on_append:
  assumes "dimensions opts = Inr ()" and "room opts u pv" and "text_ok s" and "u + length s \<le> v" and "v \<le> 50000"
  shows "goes_on opts v (append_text opts s pv)"
  using append_room [OF assms(1,2) _ assms(3)] assms(4,5) room_mono by (fastforce simp: goes_on_def)

lemma goes_on_newline:
  assumes "dimensions opts = Inr ()" and "room opts u pv" and "u \<le> 50000"
  shows "goes_on opts u (newline opts pv)"
  using newline_room [OF assms] by (auto simp: goes_on_def)

lemma goes_on_return: "room opts u pv \<Longrightarrow> u \<le> v \<Longrightarrow> goes_on opts v (Inr pv)"
  using room_mono by (auto simp: goes_on_def)

lemma on_start_goes_on:
  assumes dim: "dimensions opts = Inr ()" and r: "room opts u pv" and w: "u + 7 \<le> 50000"
  shows "goes_on opts (u + 7) (on_start opts e pv)"
proof -
  have nl: "goes_on opts u (if b then newline opts q else Inr q)" if "room opts u q" for b q
    using goes_on_newline [OF dim that] goes_on_return [OF that] w by simp
  have marks: "goes_on opts (u + 7) (rbind (if ev_tag e = ''li'' then append_text opts ''* '' q else Inr q) (\<lambda>pv3.
       rbind (if ev_tag e = ''input'' then append_text opts ''[input]'' pv3 else Inr pv3) (\<lambda>pv4.
         if ev_tag e = ''img'' then append_text opts ''[image]'' pv4 else Inr pv4)))" if q: "room opts u q" for q
  proof -
    have ap: "goes_on opts (u + 7) (append_text opts s q)" if "text_ok s" "length s \<le> 7" for s
      using goes_on_append [OF dim q that(1)] that(2) w by simp
    have ret: "rbind x Inr = x" for x :: "preview result" by (cases x) simp_all
    consider "ev_tag e = ''li''" | "ev_tag e = ''input''" | "ev_tag e = ''img''" |
      (other) "ev_tag e \<noteq> ''li''" "ev_tag e \<noteq> ''input''" "ev_tag e \<noteq> ''img''" by blast
    then show ?thesis
      by cases (use ap marks_ok goes_on_return [OF q] in \<open>simp_all add: ret\<close>)
  qed
  have "goes_on opts (u + 7) (if h then Inr q else rbind (if b then newline opts q else Inr q) (\<lambda>pv2.
       rbind (if ev_tag e = ''li'' then append_text opts ''* '' pv2 else Inr pv2) (\<lambda>pv3.
       rbind (if ev_tag e = ''input'' then append_text opts ''[input]'' pv3 else Inr pv3) (\<lambda>pv4.
         if ev_tag e = ''img'' then append_text opts ''[image]'' pv4 else Inr pv4))))" if q: "room opts u q" for h b q
  proof (cases h)
    case True
    with goes_on_return [OF q] show ?thesis by simp
  next
    case False
    from goes_on_bind [OF nl [OF q] marks] show ?thesis unfolding if_not_P [OF False] .
  qed
  then have "goes_on opts (u + 7) (if g then Inl stream_error else if h then Inr q else rbind (if b then newline opts q else Inr q) (\<lambda>pv2.
       rbind (if ev_tag e = ''li'' then append_text opts ''* '' pv2 else Inr pv2) (\<lambda>pv3.
       rbind (if ev_tag e = ''input'' then append_text opts ''[input]'' pv3 else Inr pv3) (\<lambda>pv4.
         if ev_tag e = ''img'' then append_text opts ''[image]'' pv4 else Inr pv4))))" if q: "room opts u q" for g h b q
    using that by (cases g) (simp_all add: goes_on_def)
  then show ?thesis unfolding on_start_def Let_def using r by simp
qed

lemma on_event_goes_on:
  assumes dim: "dimensions opts = Inr ()" and r: "room opts u pv" and w: "u + weight e \<le> 50000"
    and vt: "ev_kind e = ''text'' \<Longrightarrow> text_ok (ev_value e)"
  shows "goes_on opts (u + weight e) (on_event opts e pv)"
proof -
  have fail: "goes_on opts v (Inl stream_error)" for v by (simp add: goes_on_def)
  consider "ev_kind e = ''start''" | (end_) "ev_kind e = ''end''" | (chars) "ev_kind e = ''text''" | "ev_kind e = ''attribute''"
    | "ev_kind e \<notin> {''start'', ''end'', ''text'', ''attribute''}" by blast
  then show ?thesis
  proof cases
    case 1
    with on_start_goes_on [OF dim r] w show ?thesis by (simp add: on_event_def weight_def)
  next
    case end_
    have "goes_on opts u (if b then newline opts pv else Inr pv)" for b
      using goes_on_newline [OF dim r] goes_on_return [OF r] w by simp
    then have "goes_on opts u (rbind (if b then newline opts pv else Inr pv) (\<lambda>pv1. Inr (pv1\<lparr>pv_stack := butlast (pv_stack pv1)\<rparr>)))" for b
      by (rule goes_on_bind) (simp add: goes_on_return)
    with end_ fail show ?thesis by (simp add: on_event_def weight_def on_end_def)
  next
    case chars
    then have "goes_on opts (u + weight e) (append_text opts (ev_value e) pv)"
      using w by (intro goes_on_append [OF dim r]) (simp_all add: vt weight_def)
    with chars fail goes_on_return [OF r] show ?thesis by (simp add: on_event_def on_text_def)
  next
    case 4
    with fail goes_on_return [OF r] show ?thesis by (simp add: on_event_def weight_def on_attribute_def)
  next
    case 5
    with fail show ?thesis by (simp add: on_event_def)
  qed
qed

lemma lower_goes_on:
  assumes dim: "dimensions opts = Inr ()"
  shows "room opts u pv \<Longrightarrow> u + sum_list (map weight es) \<le> 50000 \<Longrightarrow>
    list_all (\<lambda>e. text_ok (ev_value e)) (filter (\<lambda>e. ev_kind e = ''text'') es) \<Longrightarrow>
    goes_on opts (u + sum_list (map weight es)) (lower opts es (Inr pv))"
proof (induction es arbitrary: u pv)
  case Nil
  then show ?case by (simp add: goes_on_return)
next
  case (Cons e es)
  have "goes_on opts (u + weight e) (on_event opts e pv)"
    using Cons.prems by (intro on_event_goes_on [OF dim]) auto
  then consider "on_event opts e pv = Inl stream_error" | pv' where "on_event opts e pv = Inr pv'" "room opts (u + weight e) pv'"
    by (auto simp: goes_on_def)
  then show ?case
  proof cases
    case 1
    then show ?thesis by (simp add: goes_on_def)
  next
    case 2
    with Cons.IH [OF this(2)] Cons.prems show ?thesis by (auto simp: add.assoc split: if_splits)
  qed
qed



end
