(* ===== verification/Binary64.thy ===== *)
theory Binary64
  imports Decimal "HOL-Library.Log_Nat"
begin

text \<open>
  What the JSON module uses of \<open>double\<close>: finite values as a sign and a rational magnitude, rounding of a
  rational to the nearest value (ties to even), \<open>std::from_chars\<close> and the shortest round-trip form of
  \<open>std::to_chars\<close>.  A result out of range, also a nonzero one that rounds to zero, is an error.
\<close>

datatype f64 = F64 (f_neg: bool) (f_mag: rat) | Nonfinite

section \<open>Rounding\<close>

definition round_even :: "rat \<Rightarrow> int" where
  "round_even q =
     (let f = \<lfloor>q\<rfloor>; r = q - of_int f in
      if r < 1 / 2 then f else if r > 1 / 2 then f + 1 else if even f then f else f + 1)"

text \<open>The binary exponent of a positive rational.\<close>

definition exponent2 :: "rat \<Rightarrow> int" where
  "exponent2 q =
     (let (n, d) = quotient_of q; k = int (floorlog 2 (nat n)) - int (floorlog 2 (nat d))
      in if 2 powi k \<le> q then k else k - 1)"

definition round64 :: "rat \<Rightarrow> rat option" where
  "round64 q =
     (let ulp = 2 powi (max (exponent2 q) (- 1022) - 52); r = of_int (round_even (q / ulp)) * ulp
      in if r = 0 \<or> r \<ge> 2 ^ 1024 then None else Some r)"

section \<open>Reading\<close>

definition scan_exponent :: "string \<Rightarrow> int \<times> string" where
  "scan_exponent s =
     (case s of
        [] \<Rightarrow> (0, [])
      | c # r \<Rightarrow>
          if c = CHR ''e'' \<or> c = CHR ''E'' then
            (let neg = (r \<noteq> [] \<and> hd r = CHR ''-'');
                 r1 = (if r \<noteq> [] \<and> (hd r = CHR ''-'' \<or> hd r = CHR ''+'') then tl r else r);
                 ds = takeWhile is_digit r1
             in if ds = [] then (0, s)
                else (if neg then - int (digits_value ds) else int (digits_value ds), dropWhile is_digit r1))
          else (0, s))"

definition scan_fraction :: "string \<Rightarrow> string \<times> string" where
  "scan_fraction s =
     (case s of
        [] \<Rightarrow> ([], [])
      | c # r \<Rightarrow> if c = CHR ''.'' then (takeWhile is_digit r, dropWhile is_digit r) else ([], s))"

text \<open>The magnitude a decimal denotes.\<close>

definition decimal_value :: "string \<Rightarrow> string \<Rightarrow> int \<Rightarrow> rat" where
  "decimal_value ip fp e = of_nat (digits_value (ip @ fp)) * 10 powi (e - int (length fp))"

record scanned =
  sn_neg :: bool
  sn_int :: string
  sn_frac :: string
  sn_exp :: int
  sn_rest :: string

definition scan_number :: "string \<Rightarrow> scanned option" where
  "scan_number s =
     (let neg = (s \<noteq> [] \<and> hd s = CHR ''-''); s1 = (if neg then tl s else s);
          ip = takeWhile is_digit s1; (fp, s3) = scan_fraction (dropWhile is_digit s1); (e, rest) = scan_exponent s3
      in if ip = [] \<and> fp = [] then None
         else Some \<lparr>sn_neg = neg, sn_int = ip, sn_frac = fp, sn_exp = e, sn_rest = rest\<rparr>)"

definition from_chars :: "string \<Rightarrow> (f64 \<times> string) option" where
  "from_chars s =
     (case scan_number s of
        None \<Rightarrow> None
      | Some n \<Rightarrow>
          let v = decimal_value (sn_int n) (sn_frac n) (sn_exp n) in
          if v = 0 then Some (F64 (sn_neg n) 0, sn_rest n)
          else case round64 v of None \<Rightarrow> None | Some r \<Rightarrow> Some (F64 (sn_neg n) r, sn_rest n))"

section \<open>Printing\<close>

definition exponent10 :: "rat \<Rightarrow> int" where
  "exponent10 q =
     (let (n, d) = quotient_of q; k = int (length (decimal (nat n))) - int (length (decimal (nat d)))
      in if 10 powi k \<le> q then k else k - 1)"

text \<open>The integer of \<open>k\<close> digits that, scaled, is closest to \<open>q\<close> among those that round to \<open>q\<close>.\<close>

definition closest :: "rat \<Rightarrow> int \<Rightarrow> nat option" where
  "closest q scale =
     (let lo = nat \<lfloor>q / 10 powi scale\<rfloor>; hi = lo + 1;
          good = (\<lambda>m. round64 (of_nat m * 10 powi scale) = Some q);
          below = q - of_nat lo * 10 powi scale; above = of_nat hi * 10 powi scale - q
      in if good lo \<and> (\<not> good hi \<or> below < above \<or> below = above \<and> even lo) then Some lo
         else if good hi then Some hi else None)"

fun shortest :: "rat \<Rightarrow> int \<Rightarrow> nat list \<Rightarrow> (nat \<times> int) option" where
  "shortest q e [] = None"
| "shortest q e (k # ks) =
     (let scale = e - int k + 1 in
      case closest q scale of None \<Rightarrow> shortest q e ks | Some m \<Rightarrow> Some (m, scale))"

function strip_zeros :: "nat \<Rightarrow> int \<Rightarrow> nat \<times> int" where
  "strip_zeros m e = (if m \<noteq> 0 \<and> m mod 10 = 0 then strip_zeros (m div 10) (e + 1) else (m, e))"
  by pat_completeness auto
termination by (relation "measure fst") auto

declare strip_zeros.simps [simp del]

definition two_digits :: "nat \<Rightarrow> string" where
  "two_digits n = (if n < 10 then CHR ''0'' # decimal n else decimal n)"

definition sci_form :: "nat \<Rightarrow> int \<Rightarrow> string" where
  "sci_form m e =
     (let ds = decimal m; x = e + int (length ds) - 1 in
      hd ds # (if tl ds = [] then [] else CHR ''.'' # tl ds) @ CHR ''e'' #
      (if x < 0 then CHR ''-'' else CHR ''+'') # two_digits (nat \<bar>x\<bar>))"

definition fixed_form :: "rat \<Rightarrow> nat \<Rightarrow> int \<Rightarrow> string" where
  "fixed_form q m e =
     (let ds = decimal m; x = e + int (length ds) - 1 in
      if e \<ge> 0 then decimal (nat \<lfloor>q\<rfloor>)
      else if x \<ge> 0 then take (nat x + 1) ds @ CHR ''.'' # drop (nat x + 1) ds
      else ''0.'' @ replicate (nat (- x - 1)) (CHR ''0'') @ ds)"

definition print_magnitude :: "rat \<Rightarrow> string option" where
  "print_magnitude q =
     (if q = 0 then Some ''0''
      else case shortest q (exponent10 q) [1..<18] of
          None \<Rightarrow> None
        | Some (m0, e0) \<Rightarrow>
            let (m, e) = strip_zeros m0 e0
            in Some (if length (fixed_form q m e) \<le> length (sci_form m e) then fixed_form q m e else sci_form m e))"

definition to_chars :: "f64 \<Rightarrow> string option" where
  "to_chars v =
     (case v of
        Nonfinite \<Rightarrow> None
      | F64 neg q \<Rightarrow> map_option (\<lambda>s. (if neg then ''-'' else []) @ s) (print_magnitude q))"

section \<open>Integers are exact\<close>

lemma round_even_int [simp]: "round_even (of_int i) = i"
  by (simp add: round_even_def)

lemma exponent2_nat:
  assumes "0 < n"
  shows "exponent2 (of_nat n) = int (floorlog 2 n) - 1" and "2 ^ (floorlog 2 n - 1) \<le> n" and "n < 2 ^ floorlog 2 n"
    and "1 \<le> floorlog 2 n"
proof -
  have q: "quotient_of (of_nat n) = (int n, 1)" using quotient_of_int [of "int n"] by simp
  show b: "2 ^ (floorlog 2 n - 1) \<le> n" "n < 2 ^ floorlog 2 n" using floorlog_bounds [of n 2] assms by auto
  show l: "1 \<le> floorlog 2 n" using assms by (simp add: Suc_le_eq floorlog_def)
  have one: "floorlog 2 (Suc 0) = 1" by (simp add: floorlog_def)
  have "(2 :: rat) powi (int (floorlog 2 n) - 1) = of_nat (2 ^ (floorlog 2 n - 1))"
    using l by (simp add: power_int_def nat_diff_distrib)
  also have "\<dots> \<le> of_nat n" using b(1) by (simp only: of_nat_le_iff)
  finally show "exponent2 (of_nat n) = int (floorlog 2 n) - 1" by (simp add: exponent2_def q one Let_def)
qed

lemma round64_nat:
  assumes "0 < n" and "n \<le> 2 ^ 53"
  shows "round64 (of_nat n) = Some (of_nat n)"
proof -
  let ?b = "floorlog 2 n"
  note e = exponent2_nat [OF assms(1)]
  have b: "?b \<le> 54" using assms(2) by (intro floorlog_leI) auto
  let ?u = "int ?b - 53"
  have ulp: "max (exponent2 (of_nat n)) (- 1022) - 52 = ?u" using e by simp
  obtain i where i: "of_nat n / (2 :: rat) powi ?u = of_int i"
  proof (cases "?b = 54")
    case True
    then have "n = 2 ^ 53" using assms(2) e(2) by simp
    then show ?thesis using True by (intro that [of "2 ^ 52"]) (simp add: power_int_def)
  next
    case False
    then have "(2 :: rat) powi ?u = inverse (2 ^ (53 - ?b))" using b
      by (simp add: power_int_def nat_diff_distrib power_one_over inverse_eq_divide)
    then show ?thesis by (intro that [of "int n * 2 ^ (53 - ?b)"]) (simp add: field_simps)
  qed
  then have "of_int (round_even (of_nat n / (2 :: rat) powi ?u)) * (2 :: rat) powi ?u = of_nat n"
  proof -
    have "of_int i * (2 :: rat) powi ?u = of_nat n" using i by (simp add: field_simps)
    then show ?thesis unfolding i round_even_int .
  qed
  moreover have "(of_nat n :: rat) < 2 ^ 1024"
  proof -
    have "(of_nat n :: rat) \<le> of_nat (2 ^ 53)" using assms(2) by (simp only: of_nat_le_iff)
    also have "\<dots> < 2 ^ 1024" by simp
    finally show ?thesis .
  qed
  ultimately show ?thesis using assms(1) unfolding round64_def ulp Let_def by simp
qed

section \<open>What is printed is read back\<close>

lemma strip_zeros_value: "strip_zeros m e = (m', e') \<Longrightarrow> of_nat m' * 10 powi e' = (of_nat m * 10 powi e :: rat) \<and> e \<le> e' \<and> (m \<noteq> 0 \<longrightarrow> m' \<noteq> 0)"
proof (induction m e rule: strip_zeros.induct)
  case (1 m e)
  show ?case
  proof (cases "m \<noteq> 0 \<and> m mod 10 = 0")
    case True
    then have m: "m = 10 * (m div 10)" by auto
    have "of_nat (m div 10) * 10 powi (e + 1) = (of_nat m * 10 powi e :: rat)"
      by (subst (2) m) (simp add: power_int_add)
    with 1 True show ?thesis by (auto simp: strip_zeros.simps [of m])
  next
    case False
    with 1(2) show ?thesis by (auto simp: strip_zeros.simps [of m])
  qed
qed

lemma shortest_Some: "shortest q e ks = Some (m, scale) \<Longrightarrow> round64 (of_nat m * 10 powi scale) = Some q \<and> (\<exists>k\<in>set ks. scale = e - int k + 1)"
  by (induction ks) (auto simp: closest_def Let_def split: option.splits if_splits)

lemma scan_exponent_none: "s = [] \<or> hd s \<notin> {CHR ''e'', CHR ''E''} \<Longrightarrow> scan_exponent s = (0, s)"
  by (cases s) (auto simp: scan_exponent_def)

lemma digits_takeWhile: "\<forall>c\<in>set ds. is_digit c \<Longrightarrow> r = [] \<or> \<not> is_digit (hd r) \<Longrightarrow>
   takeWhile is_digit (ds @ r) = ds \<and> dropWhile is_digit (ds @ r) = r"
  by (cases r) (auto simp: takeWhile_append dropWhile_append)

lemma digit_not: "is_digit c \<Longrightarrow> c \<noteq> CHR ''-'' \<and> c \<noteq> CHR ''+'' \<and> c \<noteq> CHR ''.'' \<and> c \<noteq> CHR ''e'' \<and> c \<noteq> CHR ''E''"
  by (auto simp: is_digit_byte byte_def)

lemma not_digit [simp]: "\<not> is_digit (CHR ''.'')" "\<not> is_digit (CHR ''e'')" "\<not> is_digit (CHR ''E'')" "\<not> is_digit (CHR ''-'')"
  "\<not> is_digit (CHR ''+'')" "is_digit (CHR ''0'')"
  by (simp_all add: is_digit_byte byte_def)

text \<open>Scanning the parts of a decimal: sign, integer digits, fraction and exponent, each written in the way of the printer.\<close>

lemma scan_number_parts:
  assumes "ip \<noteq> []" and "\<forall>c\<in>set ip. is_digit c" and "\<forall>c\<in>set fp. is_digit c"
    and "scan_exponent ex = (e, [])" and "ex = [] \<or> hd ex = CHR ''e'' \<or> hd ex = CHR ''E''"
  shows "scan_number ((if neg then ''-'' else []) @ ip @ (if fp = [] then [] else CHR ''.'' # fp) @ ex) =
    Some \<lparr>sn_neg = neg, sn_int = ip, sn_frac = fp, sn_exp = e, sn_rest = []\<rparr>"
proof -
  have nd: "ex = [] \<or> \<not> is_digit (hd ex)" using assms(5) by auto
  have "hd ip \<noteq> CHR ''-''" using assms(1,2) digit_not by (cases ip) auto
  then have h: "(((if neg then ''-'' else []) @ ip @ x) \<noteq> [] \<and> hd ((if neg then ''-'' else []) @ ip @ x) = CHR ''-'') = neg" for x
    using assms(1) by auto
  have fr: "scan_fraction ((if fp = [] then [] else CHR ''.'' # fp) @ ex) = (fp, ex)"
    using digits_takeWhile [OF assms(3) nd] assms(5) by (auto simp: scan_fraction_def split: list.splits)
  have "takeWhile is_digit (ip @ (if fp = [] then [] else CHR ''.'' # fp) @ ex) = ip \<and>
      dropWhile is_digit (ip @ (if fp = [] then [] else CHR ''.'' # fp) @ ex) = (if fp = [] then [] else CHR ''.'' # fp) @ ex"
    using nd by (intro digits_takeWhile assms(2)) auto
  then show ?thesis
    unfolding scan_number_def h Let_def using assms(1,4) fr by (cases neg) auto
qed

lemma two_digits_value: "(\<forall>c\<in>set (two_digits n). is_digit c) \<and> two_digits n \<noteq> [] \<and> digits_value (two_digits n) = n"
proof -
  have "digits_value (CHR ''0'' # ds) = digits_value ds" for ds by (simp add: digits_value_def byte_def)
  then show ?thesis using decimal_digits [of _ n] by (auto simp: two_digits_def)
qed

lemma scan_exponent_printed:
  "scan_exponent (CHR ''e'' # (if x < 0 then CHR ''-'' else CHR ''+'') # two_digits (nat \<bar>x\<bar>)) = (x, [])"
proof -
  have d: "takeWhile is_digit (two_digits n) = two_digits n" "dropWhile is_digit (two_digits n) = []" for n
    using two_digits_value [of n] by (auto simp: takeWhile_eq_all_conv dropWhile_eq_Nil_conv)
  show ?thesis using two_digits_value [of "nat \<bar>x\<bar>"] by (auto simp: scan_exponent_def d)
qed

lemma digits_value_zeros: "digits_value (replicate n (CHR ''0'') @ ds) = digits_value ds"
proof -
  have "foldl (\<lambda>n c. n * 10 + (byte c - 48)) 0 (replicate n (CHR ''0'')) = 0" by (induction n) (simp_all add: byte_def)
  then show ?thesis by (simp add: digits_value_def)
qed

lemma decimal_split: "decimal m = hd (decimal m) # tl (decimal m)"
  by (simp add: list.collapse)

text \<open>Both forms scan to digits with the printed value.\<close>

definition denotes :: "string \<Rightarrow> rat \<Rightarrow> bool" where
  "denotes s v \<longleftrightarrow> (\<forall>neg. \<exists>ip fp e. scan_number ((if neg then ''-'' else []) @ s) =
     Some \<lparr>sn_neg = neg, sn_int = ip, sn_frac = fp, sn_exp = e, sn_rest = []\<rparr> \<and> decimal_value ip fp e = v)"

lemma denotes_parts:
  assumes "ip \<noteq> []" and "\<forall>c\<in>set ip. is_digit c" and "\<forall>c\<in>set fp. is_digit c"
    and "scan_exponent ex = (e, [])" and "ex = [] \<or> hd ex = CHR ''e'' \<or> hd ex = CHR ''E''"
  shows "denotes (ip @ (if fp = [] then [] else CHR ''.'' # fp) @ ex) (decimal_value ip fp e)"
  using scan_number_parts [OF assms] by (auto simp: denotes_def)

lemma denotes_decimal: "denotes (decimal n) (of_nat n)"
  using denotes_parts [of "decimal n" "[]" "[]" 0] decimal_digits by (auto simp: decimal_value_def scan_exponent_def)

lemma denotes_sci: "denotes (sci_form m e) (of_nat m * 10 powi e)"
proof -
  let ?ds = "decimal m" and ?x = "e + int (length (decimal m)) - 1"
  have l: "length ?ds = Suc (length (tl ?ds))" by (subst decimal_split) simp
  have "denotes ([hd ?ds] @ (if tl ?ds = [] then [] else CHR ''.'' # tl ?ds) @
      (CHR ''e'' # (if ?x < 0 then CHR ''-'' else CHR ''+'') # two_digits (nat \<bar>?x\<bar>))) (decimal_value [hd ?ds] (tl ?ds) ?x)"
    using decimal_digits [of _ m] by (intro denotes_parts scan_exponent_printed) (auto simp: list.set_sel(2))
  moreover have "decimal_value [hd ?ds] (tl ?ds) ?x = of_nat m * 10 powi e"
  proof -
    have "int (length ?ds) = int (length (tl ?ds)) + 1" using l by linarith
    then have "?x - int (length (tl ?ds)) = e" by linarith
    moreover have "[hd ?ds] @ tl ?ds = ?ds" by (simp add: list.collapse)
    ultimately show ?thesis unfolding decimal_value_def by (simp only: digits_value_decimal)
  qed
  ultimately show ?thesis by (simp add: sci_form_def Let_def)
qed

lemma denotes_fixed:
  assumes "e < 0"
  shows "denotes (fixed_form q m e) (of_nat m * 10 powi e)"
proof -
  let ?ds = "decimal m" and ?x = "e + int (length (decimal m)) - 1"
  show ?thesis
  proof (cases "?x \<ge> 0")
    case True
    let ?k = "nat ?x + 1"
    have k: "?k < length ?ds" using True assms by linarith
    have "denotes (take ?k ?ds @ (if drop ?k ?ds = [] then [] else CHR ''.'' # drop ?k ?ds) @ []) (decimal_value (take ?k ?ds) (drop ?k ?ds) 0)"
      using decimal_digits [of _ m] by (intro denotes_parts) (auto simp: scan_exponent_def dest: in_set_takeD in_set_dropD)
    moreover have "decimal_value (take ?k ?ds) (drop ?k ?ds) 0 = of_nat m * 10 powi e"
      using True k by (simp add: decimal_value_def of_nat_diff)
    ultimately show ?thesis using True assms k by (simp add: fixed_form_def Let_def)
  next
    case False
    let ?fp = "replicate (nat (- ?x - 1)) (CHR ''0'') @ ?ds"
    have "denotes (''0'' @ (if ?fp = [] then [] else CHR ''.'' # ?fp) @ []) (decimal_value ''0'' ?fp 0)"
      using decimal_digits [of _ m] by (intro denotes_parts) (auto simp: scan_exponent_def)
    moreover have "decimal_value ''0'' ?fp 0 = of_nat m * 10 powi e"
      using False digits_value_zeros [of "Suc (nat (- ?x - 1))" ?ds] by (simp add: decimal_value_def)
    ultimately show ?thesis using False assms by (simp add: fixed_form_def Let_def)
  qed
qed

text \<open>A value the format can hold; integers up to \<open>2^53\<close> are.\<close>

definition f64_ok :: "f64 \<Rightarrow> bool" where
  "f64_ok v \<longleftrightarrow> (case v of Nonfinite \<Rightarrow> True | F64 _ q \<Rightarrow> q = 0 \<or> round64 q = Some q)"

lemma from_chars_denotes:
  assumes "denotes s v" and "v = 0 \<and> q = 0 \<or> v \<noteq> 0 \<and> round64 v = Some q"
  shows "from_chars ((if neg then ''-'' else []) @ s) = Some (F64 neg q, [])"
proof -
  obtain ip fp e where "scan_number ((if neg then ''-'' else []) @ s) =
     Some \<lparr>sn_neg = neg, sn_int = ip, sn_frac = fp, sn_exp = e, sn_rest = []\<rparr>" "decimal_value ip fp e = v"
    using assms(1) unfolding denotes_def by blast
  with assms(2) show ?thesis unfolding from_chars_def by auto
qed

lemma round64_nonzero: "round64 v = Some q \<Longrightarrow> q \<noteq> 0"
  by (auto simp: round64_def Let_def split: if_splits)

lemma round64_zero: "round64 0 = None"
  by (simp add: round64_def round_even_def Let_def)

lemma from_to_chars:
  assumes "to_chars (F64 neg q) = Some s" and "q = of_nat n" and "n = 0 \<or> round64 q = Some q"
  shows "from_chars s = Some (F64 neg q, [])"
proof (cases "q = 0")
  case True
  then have "s = (if neg then ''-'' else []) @ decimal 0"
    using assms(1) by (auto simp: to_chars_def print_magnitude_def decimal.simps digit_char_def char_of_def bit_0)
  with True from_chars_denotes [OF denotes_decimal, of 0 0] show ?thesis by simp
next
  case False
  obtain m0 e0 m e where sh: "shortest q (exponent10 q) [1..<18] = Some (m0, e0)" "strip_zeros m0 e0 = (m, e)"
    and s: "s = (if neg then ''-'' else []) @ (if length (fixed_form q m e) \<le> length (sci_form m e) then fixed_form q m e else sci_form m e)"
    using assms(1) False by (auto simp: to_chars_def print_magnitude_def split: option.splits prod.splits)
  have v: "round64 (of_nat m * 10 powi e) = Some q" using shortest_Some [OF sh(1)] strip_zeros_value [OF sh(2)] by simp
  then have nz: "of_nat m * 10 powi e \<noteq> (0 :: rat)" using round64_zero by (metis option.distinct(1))
  have "from_chars ((if neg then ''-'' else []) @ fixed_form q m e) = Some (F64 neg q, [])"
  proof (cases "e < 0")
    case True
    from from_chars_denotes [OF denotes_fixed [OF True]] v nz show ?thesis by blast
  next
    case False
    then have "fixed_form q m e = decimal n" using assms(2) by (simp add: fixed_form_def Let_def)
    with from_chars_denotes [OF denotes_decimal, of n q] assms(2,3) \<open>q \<noteq> 0\<close> show ?thesis by auto
  qed
  moreover have "from_chars ((if neg then ''-'' else []) @ sci_form m e) = Some (F64 neg q, [])"
    using from_chars_denotes [OF denotes_sci] v nz by blast
  ultimately show ?thesis unfolding s by simp
qed

lemma decimal_bounds: "0 < n \<Longrightarrow> 10 ^ (length (decimal n) - 1) \<le> n \<and> n < 10 ^ length (decimal n)"
proof (induction n rule: decimal.induct)
  case (1 n)
  show ?case
  proof (cases "n < 10")
    case True
    with 1(2) show ?thesis by (simp add: decimal.simps [of n])
  next
    case False
    let ?k = "length (decimal (n div 10))"
    have IH: "10 ^ (?k - 1) \<le> n div 10" "n div 10 < 10 ^ ?k" using 1(1) False by auto
    have l: "length (decimal n) = Suc ?k" using False by (simp add: decimal.simps [of n])
    have "(10 :: nat) ^ ?k = 10 * 10 ^ (?k - 1)" by (cases ?k) auto
    moreover have "10 * (n div 10) \<le> n" by simp
    ultimately have "10 ^ ?k \<le> n" using IH(1) by linarith
    moreover have "n < 10 * 10 ^ ?k" using IH(2) by (simp add: div_less_iff_less_mult mult.commute)
    ultimately show ?thesis by (simp add: l)
  qed
qed

lemma shortest_exists:
  "k \<in> set ks \<Longrightarrow> closest q (e - int k + 1) \<noteq> None \<Longrightarrow> shortest q e ks \<noteq> None"
  by (induction ks) (auto simp: Let_def split: option.splits)

lemma exponent10_nat: "0 < n \<Longrightarrow> exponent10 (of_nat n) = int (length (decimal n)) - 1"
proof -
  assume n: "0 < n"
  have q: "quotient_of (of_nat n) = (int n, 1)" using quotient_of_int [of "int n"] by simp
  have l: "1 \<le> length (decimal n)" by (cases "decimal n") simp_all
  have "(10 :: rat) powi (int (length (decimal n)) - 1) = of_nat (10 ^ (length (decimal n) - 1))"
    using l by (simp add: power_int_def nat_diff_distrib)
  also have "\<dots> \<le> of_nat n" using decimal_bounds [OF n] by (simp only: of_nat_le_iff)
  finally have "(10 :: rat) powi (int (length (decimal n)) - 1) \<le> of_nat n" .
  moreover have "length (decimal (Suc 0)) = 1" by (simp add: decimal.simps)
  ultimately show ?thesis by (simp add: exponent10_def q Let_def)
qed

text \<open>Every integer up to \<open>2^53\<close> is printed, and read back as itself.\<close>

lemma to_chars_nat:
  assumes "n \<le> 2 ^ 53"
  shows "\<exists>s. to_chars (F64 neg (of_nat n)) = Some s \<and> from_chars s = Some (F64 neg (of_nat n), [])"
proof -
  have "print_magnitude (of_nat n) \<noteq> None"
  proof (cases "n = 0")
    case False
    let ?k = "length (decimal n)"
    have r: "round64 (of_nat n) = Some (of_nat n)" using round64_nat False assms by simp
    have "?k \<noteq> 0" by simp
    moreover have "?k < 18"
    proof (rule ccontr)
      assume "\<not> ?k < 18"
      then have "(10 :: nat) ^ 17 \<le> 10 ^ (?k - 1)" by (intro power_increasing) auto
      with decimal_bounds [of n] False assms show False by simp
    qed
    ultimately have "?k \<in> set [1..<18]" by (simp add: Suc_le_eq)
    moreover have "closest (of_nat n) (exponent10 (of_nat n) - int ?k + 1) \<noteq> None"
      using r False by (simp add: exponent10_nat closest_def Let_def)
    ultimately have "shortest (of_nat n) (exponent10 (of_nat n)) [1..<18] \<noteq> None" by (rule shortest_exists)
    then show ?thesis using False by (auto simp: print_magnitude_def split: prod.splits)
  qed (simp add: print_magnitude_def)
  then obtain s where "to_chars (F64 neg (of_nat n)) = Some s" by (auto simp: to_chars_def)
  moreover have "n = 0 \<or> round64 (of_nat n) = Some (of_nat n)" using round64_nat assms by blast
  ultimately show ?thesis using from_to_chars by blast
qed

end
