(* ===== verification/Rpc_Json.thy ===== *)
theory Rpc_Json
  imports Binary64 Utf8
begin

text \<open>
  \<^verbatim>\<open>json.cpp\<close>, \<^verbatim>\<open>json_encoder.cpp\<close> and \<^verbatim>\<open>json_parser.cpp\<close> of the JSON-RPC module: the value model, the bounded
  encoder and the bounded recursive-descent parser.  A \<open>Failure\<close> exception is the left injection
  with its status.  The parser's \<open>position_\<close> is the unread rest of the source, its \<open>values_\<close> a
  counter passed along.
\<close>

datatype flatworm_status = Status_Ok | Status_Error | Status_Invalid_Argument | Status_Resource_Limit

type_synonym 'a outcome = "flatworm_status + 'a"

definition fail_invalid :: "'a outcome" where "fail_invalid = Inl Status_Invalid_Argument"
definition fail_limit :: "'a outcome" where "fail_limit = Inl Status_Resource_Limit"

lemma fail_simps [simp]:
  "rbind fail_invalid f = fail_invalid" "rbind fail_limit f = fail_limit" "fail_invalid \<noteq> Inr x" "fail_limit \<noteq> Inr x"
  by (simp_all add: fail_invalid_def fail_limit_def)

definition max_json_depth :: nat where "max_json_depth = 64"
definition max_json_values :: nat where "max_json_values = 16384"
definition max_value_bytes :: nat where "max_value_bytes = 1024 * 1024"

datatype json =
    JNull
  | JBool bool
  | JNumber f64 string
  | JString string
  | JArray "json list"
  | JObject "(string \<times> json) list"

section \<open>UTF-8\<close>

fun continue_scalar :: "nat \<Rightarrow> nat \<Rightarrow> string \<Rightarrow> (nat \<times> string) outcome" where
  "continue_scalar 0 v s = Inr (v, s)"
| "continue_scalar (Suc n) v [] = fail_invalid"
| "continue_scalar (Suc n) v (c # s) =
     (if byte c AND 0xc0 \<noteq> 0x80 then fail_invalid
      else continue_scalar n (push_bit 6 v OR (byte c AND 0x3f)) s)"

text \<open>The count of continuation bytes, the leading bits and the smallest legal value behind a lead byte.\<close>

definition scalar_lead :: "nat \<Rightarrow> (nat \<times> nat \<times> nat) option" where
  "scalar_lead first =
     (if 0xc2 \<le> first \<and> first \<le> 0xdf then Some (1, first AND 0x1f, 0x80)
      else if 0xe0 \<le> first \<and> first \<le> 0xef then Some (2, first AND 0x0f, 0x800)
      else if 0xf0 \<le> first \<and> first \<le> 0xf4 then Some (3, first AND 0x07, 0x10000)
      else None)"

definition utf8_scalar :: "string \<Rightarrow> (nat \<times> string) outcome" where
  "utf8_scalar s =
     (case s of
        [] \<Rightarrow> fail_invalid
      | b # r \<Rightarrow>
          if byte b < 0x80 then Inr (byte b, r)
          else case scalar_lead (byte b) of
              None \<Rightarrow> fail_invalid
            | Some (count, v, least) \<Rightarrow>
                if count > length r then fail_invalid
                else rbind (continue_scalar count v r) (\<lambda>(v', r').
                  if v' < least \<or> v' > 0x10ffff \<or> (0xd800 \<le> v' \<and> v' \<le> 0xdfff) then fail_invalid
                  else Inr (v', r')))"

definition append_scalar :: "nat \<Rightarrow> string" where
  "append_scalar v =
     (if v < 0x80 then [char_of v]
      else if v < 0x800 then [char_of (0xc0 OR drop_bit 6 v), char_of (0x80 OR (v AND 0x3f))]
      else if v < 0x10000 then
        [char_of (0xe0 OR drop_bit 12 v), char_of (0x80 OR (drop_bit 6 v AND 0x3f)), char_of (0x80 OR (v AND 0x3f))]
      else
        [char_of (0xf0 OR drop_bit 18 v), char_of (0x80 OR (drop_bit 12 v AND 0x3f)),
         char_of (0x80 OR (drop_bit 6 v AND 0x3f)), char_of (0x80 OR (v AND 0x3f))])"

lemma continue_scalar_length: "continue_scalar n v s = Inr (w, r) \<Longrightarrow> length s = length r + n"
  by (induction n v s rule: continue_scalar.induct) (auto simp: fail_invalid_def split: if_splits)

lemma utf8_scalar_length: "utf8_scalar s = Inr (v, r) \<Longrightarrow> length r < length s"
  by (auto simp: utf8_scalar_def fail_invalid_def rbind_Inr_iff dest!: continue_scalar_length split: list.splits if_splits option.splits)

function validate_utf8 :: "string \<Rightarrow> unit outcome" where
  "validate_utf8 s = (if s = [] then Inr () else rbind (utf8_scalar s) (\<lambda>(_, r). validate_utf8 r))"
  by pat_completeness auto
termination by (relation "measure length") (auto dest: utf8_scalar_length)

declare validate_utf8.simps [simp del]

section \<open>Values\<close>

definition number_value :: "f64 \<Rightarrow> json outcome" where
  "number_value v =
     (if v = Nonfinite then fail_invalid
      else case to_chars v of None \<Rightarrow> fail_invalid | Some s \<Rightarrow> Inr (JNumber v s))"

definition parsed_number :: "string \<Rightarrow> json outcome" where
  "parsed_number token =
     (case from_chars token of
        None \<Rightarrow> fail_invalid
      | Some (v, rest) \<Rightarrow> if rest \<noteq> [] \<or> v = Nonfinite then fail_invalid else Inr (JNumber v token))"

definition string_value :: "string \<Rightarrow> json outcome" where
  "string_value s = rbind (validate_utf8 s) (\<lambda>_. Inr (JString s))"

definition find_member :: "string \<Rightarrow> json \<Rightarrow> json option" where
  "find_member key v = (case v of JObject ms \<Rightarrow> map_of ms key | _ \<Rightarrow> None)"

section \<open>The encoder\<close>

definition append_out :: "string \<Rightarrow> string \<Rightarrow> string outcome" where
  "append_out bs out = (if length bs > max_value_bytes - length out then fail_limit else Inr (out @ bs))"

definition nibble :: "nat \<Rightarrow> char" where
  "nibble n = ''0123456789abcdef'' ! n"

definition quoted_char :: "char \<Rightarrow> string" where
  "quoted_char c =
     (if c = CHR 0x22 then [CHR 0x5C, CHR 0x22]
      else if c = CHR 0x5C then [CHR 0x5C, CHR 0x5C]
      else if byte c < 0x20 then [CHR 0x5C, CHR ''u'', CHR ''0'', CHR ''0'', nibble (drop_bit 4 (byte c)), nibble (byte c AND 15)]
      else [c])"

fun append_all :: "string list \<Rightarrow> string \<Rightarrow> string outcome" where
  "append_all [] out = Inr out"
| "append_all (b # bs) out = rbind (append_out b out) (append_all bs)"

definition quoted :: "string \<Rightarrow> string \<Rightarrow> string outcome" where
  "quoted s out =
     rbind (validate_utf8 s) (\<lambda>_. append_all ([[CHR 0x22]] @ map quoted_char s @ [[CHR 0x22]]) out)"

text \<open>\<open>write\<close>, and its loops over the items of an array and the members of an object.\<close>

fun write_json :: "nat \<Rightarrow> json \<Rightarrow> string \<times> nat \<Rightarrow> (string \<times> nat) outcome"
  and write_items :: "nat \<Rightarrow> bool \<Rightarrow> json list \<Rightarrow> string \<times> nat \<Rightarrow> (string \<times> nat) outcome"
  and write_members :: "nat \<Rightarrow> bool \<Rightarrow> (string \<times> json) list \<Rightarrow> string \<times> nat \<Rightarrow> (string \<times> nat) outcome" where
  "write_json depth v (out, n) =
     (if depth > max_json_depth \<or> n + 1 > max_json_values then fail_limit
      else case v of
          JNull \<Rightarrow> rbind (append_out ''null'' out) (\<lambda>o1. Inr (o1, n + 1))
        | JBool b \<Rightarrow> rbind (append_out (if b then ''true'' else ''false'') out) (\<lambda>o1. Inr (o1, n + 1))
        | JNumber x s \<Rightarrow> rbind (append_out s out) (\<lambda>o1. Inr (o1, n + 1))
        | JString s \<Rightarrow> rbind (quoted s out) (\<lambda>o1. Inr (o1, n + 1))
        | JArray vs \<Rightarrow>
            rbind (append_out ''['' out) (\<lambda>o1. rbind (write_items depth True vs (o1, n + 1)) (\<lambda>(o2, m).
              rbind (append_out '']'' o2) (\<lambda>o3. Inr (o3, m))))
        | JObject ms \<Rightarrow>
            rbind (append_out ''{'' out) (\<lambda>o1. rbind (write_members depth True ms (o1, n + 1)) (\<lambda>(o2, m).
              rbind (append_out ''}'' o2) (\<lambda>o3. Inr (o3, m)))))"
| "write_items depth first [] st = Inr st"
| "write_items depth first (v # vs) (out, n) =
     rbind (if first then Inr out else append_out '','' out) (\<lambda>o1.
       rbind (write_json (depth + 1) v (o1, n)) (write_items depth False vs))"
| "write_members depth first [] st = Inr st"
| "write_members depth first ((k, v) # ms) (out, n) =
     rbind (if first then Inr out else append_out '','' out) (\<lambda>o1.
       rbind (quoted k o1) (\<lambda>o2. rbind (append_out '':'' o2) (\<lambda>o3.
         rbind (write_json (depth + 1) v (o3, n)) (write_members depth False ms))))"

definition encode_json :: "json \<Rightarrow> string outcome" where
  "encode_json v = rbind (write_json 0 v ([], 0)) (\<lambda>(out, n). Inr out)"

end
