(* ===== verification/Rpc_Parser.thy ===== *)
theory Rpc_Parser
  imports Rpc_Json
begin

text \<open>
  The class \<open>Parser\<close> of \<^verbatim>\<open>json_parser.cpp\<close>.  \<open>read_json\<close> takes the number of levels left, \<open>65\<close> minus the
  depth; its loops take a bound on their iterations, the length of the source, which the locale
  \<open>json_reader\<close> shows is never reached.
\<close>

definition peek :: "string \<Rightarrow> char" where
  "peek s = (case s of [] \<Rightarrow> CHR 0x00 | c # _ \<Rightarrow> c)"

definition take_char :: "string \<Rightarrow> (char \<times> string) outcome" where
  "take_char s = (case s of [] \<Rightarrow> fail_invalid | c # r \<Rightarrow> Inr (c, r))"

definition expect :: "char \<Rightarrow> string \<Rightarrow> string outcome" where
  "expect c s = rbind (take_char s) (\<lambda>(d, r). if d \<noteq> c then fail_invalid else Inr r)"

definition json_space :: "char \<Rightarrow> bool" where
  "json_space c \<longleftrightarrow> c = CHR '' '' \<or> c = CHR 0x09 \<or> c = CHR 0x0D \<or> c = CHR 0x0A"

definition whitespace :: "string \<Rightarrow> string" where
  "whitespace s = dropWhile json_space s"

definition literal :: "string \<Rightarrow> string \<Rightarrow> string outcome" where
  "literal word s = (if take (length word) s \<noteq> word then fail_invalid else Inr (drop (length word) s))"

definition hex_part :: "char \<Rightarrow> nat option" where
  "hex_part c =
     (if is_digit c then Some (byte c - 48)
      else if CHR ''a'' \<le> c \<and> c \<le> CHR ''f'' then Some (byte c - 97 + 10)
      else if CHR ''A'' \<le> c \<and> c \<le> CHR ''F'' then Some (byte c - 65 + 10)
      else None)"

fun hex_digits :: "nat \<Rightarrow> nat \<Rightarrow> string \<Rightarrow> (nat \<times> string) outcome" where
  "hex_digits 0 v s = Inr (v, s)"
| "hex_digits (Suc n) v s =
     rbind (take_char s) (\<lambda>(c, r).
       case hex_part c of None \<Rightarrow> fail_invalid | Some part \<Rightarrow> hex_digits n (push_bit 4 v OR part) r)"

definition hex4 :: "string \<Rightarrow> (nat \<times> string) outcome" where
  "hex4 s = hex_digits 4 0 s"

text \<open>The scalar behind \<open>\\u\<close>, a pair of surrogates being one scalar.\<close>

definition unicode_escape :: "string \<Rightarrow> (string \<times> string) outcome" where
  "unicode_escape s =
     rbind (hex4 s) (\<lambda>(v, r).
       if 0xd800 \<le> v \<and> v \<le> 0xdbff then
         rbind (expect (CHR 0x5C) r) (\<lambda>r1. rbind (expect (CHR ''u'') r1) (\<lambda>r2. rbind (hex4 r2) (\<lambda>(low, r3).
           if low < 0xdc00 \<or> low > 0xdfff then fail_invalid
           else Inr (append_scalar (0x10000 + push_bit 10 (v - 0xd800) + (low - 0xdc00)), r3))))
       else if 0xdc00 \<le> v \<and> v \<le> 0xdfff then fail_invalid
       else Inr (append_scalar v, r))"

definition escape_sequence :: "string \<Rightarrow> (string \<times> string) outcome" where
  "escape_sequence s =
     rbind (take_char s) (\<lambda>(c, r).
       if c = CHR 0x22 then Inr ([CHR 0x22], r)
       else if c = CHR 0x5C then Inr ([CHR 0x5C], r)
       else if c = CHR ''/'' then Inr (''/'', r)
       else if c = CHR ''b'' then Inr ([CHR 0x08], r)
       else if c = CHR ''f'' then Inr ([CHR 0x0C], r)
       else if c = CHR ''n'' then Inr ([CHR 0x0A], r)
       else if c = CHR ''r'' then Inr ([CHR 0x0D], r)
       else if c = CHR ''t'' then Inr ([CHR 0x09], r)
       else if c = CHR ''u'' then unicode_escape r
       else fail_invalid)"

lemma take_char_Inr [simp]: "take_char s = Inr (c, r) \<longleftrightarrow> s = c # r"
  by (auto simp: take_char_def fail_invalid_def split: list.splits)

lemma expect_Inr [simp]: "expect c s = Inr r \<longleftrightarrow> s = c # r"
  by (auto simp: expect_def rbind_Inr_iff fail_invalid_def split: if_splits)

lemma hex_digits_length: "hex_digits n v s = Inr (w, r) \<Longrightarrow> length s = length r + n"
proof (induction n arbitrary: v s)
  case (Suc n)
  from Suc.prems obtain c r1 part where "s = c # r1" "hex_digits n (push_bit 4 v OR part) r1 = Inr (w, r)"
    by (auto simp: rbind_Inr_iff fail_invalid_def split: option.splits)
  with Suc.IH show ?case by fastforce
qed simp

lemma hex4_length: "hex4 s = Inr (v, r) \<Longrightarrow> length s = length r + 4"
  unfolding hex4_def by (rule hex_digits_length)

lemma unicode_escape_length:
  assumes "unicode_escape s = Inr (x, r)"
  shows "length r < length s"
proof -
  obtain v r1 where h: "hex4 s = Inr (v, r1)" using assms by (auto simp: unicode_escape_def rbind_Inr_iff)
  show ?thesis
  proof (cases "0xd800 \<le> v \<and> v \<le> 0xdbff")
    case True
    with assms obtain r2 r3 low where "r1 = CHR 0x5C # r2" "r2 = CHR ''u'' # r3" "hex4 r3 = Inr (low, r)"
      unfolding unicode_escape_def h rbind_simps prod.case if_P [OF True] rbind_Inr_iff expect_Inr
      by (auto simp: fail_invalid_def split: if_splits)
    with hex4_length [OF h] hex4_length [of r3 low r] show ?thesis by simp
  next
    case False
    with assms have "r = r1"
      unfolding unicode_escape_def h rbind_simps prod.case if_not_P [OF False] by (simp add: fail_invalid_def split: if_splits)
    with hex4_length [OF h] show ?thesis by simp
  qed
qed

lemma escape_sequence_length: "escape_sequence s = Inr (x, r) \<Longrightarrow> length r < length s"
  by (auto simp: escape_sequence_def rbind_Inr_iff fail_invalid_def dest!: unicode_escape_length split: if_splits)

function string_loop :: "string \<Rightarrow> string \<Rightarrow> (string \<times> string) outcome" where
  "string_loop out s =
     (if peek s = CHR 0x22 then Inr (out, s)
      else rbind (take_char s) (\<lambda>(c, r).
        if byte c < 0x20 then fail_invalid
        else if byte c \<ge> 0x80 then
          rbind (utf8_scalar s) (\<lambda>(v, r'). string_loop (out @ take (length s - length r') s) r')
        else if c \<noteq> CHR 0x5C then string_loop (out @ [c]) r
        else rbind (escape_sequence r) (\<lambda>(x, r'). string_loop (out @ x) r')))"
  by pat_completeness auto
termination
  by (relation "measure (\<lambda>(out, s). length s)") (auto dest: utf8_scalar_length escape_sequence_length)

declare string_loop.simps [simp del]

definition read_string :: "string \<Rightarrow> (string \<times> string) outcome" where
  "read_string s =
     rbind (expect (CHR 0x22) s) (\<lambda>r. rbind (string_loop [] r) (\<lambda>(out, r').
       rbind (expect (CHR 0x22) r') (\<lambda>r''. Inr (out, r''))))"

section \<open>Numbers\<close>

definition skip_digits :: "string \<Rightarrow> string" where
  "skip_digits s = dropWhile is_digit s"

definition skip_integer :: "string \<Rightarrow> string outcome" where
  "skip_integer s =
     (if peek s = CHR ''0'' then Inr (tl s)
      else if peek s < CHR ''1'' \<or> peek s > CHR ''9'' then fail_invalid
      else Inr (skip_digits s))"

definition skip_fraction :: "string \<Rightarrow> string outcome" where
  "skip_fraction s =
     (if peek s = CHR ''.'' then
        (if \<not> is_digit (peek (tl s)) then fail_invalid else Inr (skip_digits (tl s)))
      else Inr s)"

definition skip_exponent :: "string \<Rightarrow> string outcome" where
  "skip_exponent s =
     (if peek s = CHR ''e'' \<or> peek s = CHR ''E'' then
        (let s1 = tl s; s2 = (if peek s1 = CHR ''+'' \<or> peek s1 = CHR ''-'' then tl s1 else s1) in
         if \<not> is_digit (peek s2) then fail_invalid else Inr (skip_digits s2))
      else Inr s)"

definition number_end :: "string \<Rightarrow> string outcome" where
  "number_end s =
     rbind (skip_integer (if peek s = CHR ''-'' then tl s else s)) (\<lambda>s2.
       rbind (skip_fraction s2) skip_exponent)"

definition read_number :: "string \<Rightarrow> (json \<times> string) outcome" where
  "read_number s =
     rbind (number_end s) (\<lambda>r.
       rbind (parsed_number (take (length s - length r) s)) (\<lambda>v. Inr (v, r)))"

section \<open>Values\<close>

type_synonym reader = "string \<Rightarrow> nat \<Rightarrow> (json \<times> string \<times> nat) outcome"

fun read_items :: "nat \<Rightarrow> reader \<Rightarrow> string \<Rightarrow> nat \<Rightarrow> (json list \<times> string \<times> nat) outcome" where
  "read_items 0 rv s n = fail_invalid"
| "read_items (Suc f) rv s n =
     rbind (rv s n) (\<lambda>(v, r, m). rbind (take_char (whitespace r)) (\<lambda>(c, r1).
       if c = CHR '']'' then Inr ([v], r1, m)
       else if c \<noteq> CHR '','' then fail_invalid
       else rbind (read_items f rv r1 m) (\<lambda>(vs, r2, m2). Inr (v # vs, r2, m2))))"

fun read_members :: "nat \<Rightarrow> reader \<Rightarrow> string list \<Rightarrow> string \<Rightarrow> nat \<Rightarrow> ((string \<times> json) list \<times> string \<times> nat) outcome" where
  "read_members 0 rv names s n = fail_invalid"
| "read_members (Suc f) rv names s n =
     rbind (read_string (whitespace s)) (\<lambda>(key, r).
       if key \<in> set names then fail_invalid
       else rbind (expect (CHR '':'') (whitespace r)) (\<lambda>r1. rbind (rv r1 n) (\<lambda>(v, r2, m).
         rbind (take_char (whitespace r2)) (\<lambda>(c, r3).
           if c = CHR ''}'' then Inr ([(key, v)], r3, m)
           else if c \<noteq> CHR '','' then fail_invalid
           else rbind (read_members f rv (key # names) r3 m) (\<lambda>(ms, r4, m4). Inr ((key, v) # ms, r4, m4))))))"

fun read_json :: "nat \<Rightarrow> reader" where
  "read_json 0 s n = fail_limit"
| "read_json (Suc k) s n =
     (if n + 1 > max_json_values then fail_limit
      else let s1 = whitespace s; c = peek s1 in
        if c = CHR ''n'' then rbind (literal ''null'' s1) (\<lambda>r. Inr (JNull, r, n + 1))
        else if c = CHR ''t'' then rbind (literal ''true'' s1) (\<lambda>r. Inr (JBool True, r, n + 1))
        else if c = CHR ''f'' then rbind (literal ''false'' s1) (\<lambda>r. Inr (JBool False, r, n + 1))
        else if c = CHR 0x22 then
          rbind (read_string s1) (\<lambda>(x, r). rbind (string_value x) (\<lambda>v. Inr (v, r, n + 1)))
        else if c = CHR ''['' then
          (let s2 = whitespace (tl s1) in
           if peek s2 = CHR '']'' then Inr (JArray [], tl s2, n + 1)
           else rbind (read_items (length s) (read_json k) s2 (n + 1)) (\<lambda>(vs, r, m). Inr (JArray vs, r, m)))
        else if c = CHR ''{'' then
          (let s2 = whitespace (tl s1) in
           if peek s2 = CHR ''}'' then Inr (JObject [], tl s2, n + 1)
           else rbind (read_members (length s) (read_json k) [] s2 (n + 1)) (\<lambda>(ms, r, m). Inr (JObject ms, r, m)))
        else rbind (read_number s1) (\<lambda>(v, r). Inr (v, r, n + 1)))"

definition parse_json :: "string \<Rightarrow> json outcome" where
  "parse_json source =
     (if length source > max_value_bytes then fail_limit
      else rbind (read_json (Suc max_json_depth) source 0) (\<lambda>(v, r, n).
        if whitespace r \<noteq> [] then fail_invalid else Inr v))"

end
