(* ===== verification/Rpc_Roundtrip.thy ===== *)
theory Rpc_Roundtrip
  imports Rpc_Parser Interfaces
begin

text \<open>
  The parser and the encoder of the JSON-RPC module fit together: what is encoded within the bounds is
  parsed back to the same value.  \<open>json_text\<close> is the wire form without bounds.
\<close>

section \<open>The loops of the parser have enough iterations\<close>

lemma whitespace_le: "length (whitespace s) \<le> length s"
  by (simp add: whitespace_def length_dropWhile_le)

lemma string_loop_length: "string_loop out s = Inr (x, r) \<Longrightarrow> length r \<le> length s"
proof (induction out s rule: string_loop.induct)
  case (1 out s)
  show ?case
  proof (cases "peek s = CHR 0x22")
    case True
    with 1 show ?thesis by (simp add: string_loop.simps [of out s])
  next
    case False
    obtain c t where s: "s = c # t"
      using 1(4) False by (cases s) (auto simp: string_loop.simps [of out "[]"] take_char_def fail_invalid_def)
    have tk: "take_char s = Inr (c, t)" by (simp add: s)
    consider (high) "byte c \<ge> 0x80" | (plain) "\<not> byte c \<ge> 0x80" "c \<noteq> CHR 0x5C" | (esc) "\<not> byte c \<ge> 0x80" "c = CHR 0x5C" by blast
    moreover have nc: "\<not> byte c < 0x20" using 1(4) False tk by (auto simp: string_loop.simps [of out s] fail_invalid_def)
    ultimately show ?thesis
    proof cases
      case high
      with 1(4) False tk nc obtain v r' where u: "utf8_scalar s = Inr (v, r')"
        "string_loop (out @ take (length s - length r') s) r' = Inr (x, r)"
        by (auto simp: string_loop.simps [of out s] rbind_Inr_iff)
      from 1(1) [OF False tk refl nc high u(1) refl u(2)] utf8_scalar_length [OF u(1)] show ?thesis by simp
    next
      case plain
      with 1(4) False tk nc have "string_loop (out @ [c]) t = Inr (x, r)" by (simp add: string_loop.simps [of out s])
      from 1(2) [OF False tk refl nc plain this] s show ?thesis by simp
    next
      case esc
      with 1(4) False tk nc obtain y r' where u: "escape_sequence t = Inr (y, r')" "string_loop (out @ y) r' = Inr (x, r)"
        by (auto simp: string_loop.simps [of out s] rbind_Inr_iff)
      from 1(3) [OF False tk refl nc esc(1) _ u(1) refl u(2)] escape_sequence_length [OF u(1)] esc s show ?thesis by simp
    qed
  qed
qed

lemma read_string_length: "read_string s = Inr (x, r) \<Longrightarrow> length r < length s"
  by (auto simp: read_string_def rbind_Inr_iff dest!: string_loop_length)

locale json_reader =
  fixes rv :: reader
  assumes shrink: "rv s n = Inr (v, r, m) \<Longrightarrow> length r < length s"
begin

lemma items_shrink: "read_items f rv s n = Inr (vs, r, m) \<Longrightarrow> length r < length s"
proof (induction f arbitrary: s n vs)
  case (Suc f)
  from Suc.prems obtain v r0 m0 c r1 where v: "rv s n = Inr (v, r0, m0)" "whitespace r0 = c # r1"
    and rest: "r = r1 \<or> (\<exists>vs. read_items f rv r1 m0 = Inr (vs, r, m))"
    by (auto simp: rbind_Inr_iff fail_invalid_def split: if_splits)
  have "length r1 < length s" using shrink [OF v(1)] whitespace_le [of r0] v(2) by simp
  with rest Suc.IH show ?case by fastforce
qed (simp add: fail_invalid_def)

lemma members_shrink: "read_members f rv names s n = Inr (ms, r, m) \<Longrightarrow> length r < length s"
proof (induction f arbitrary: names s n ms)
  case (Suc f)
  from Suc.prems obtain key r0 where k0: "read_string (whitespace s) = Inr (key, r0)" "key \<notin> set names"
    by (auto simp: rbind_Inr_iff fail_invalid_def split: if_splits)
  with Suc.prems obtain r1 v r2 m2 where k1: "whitespace r0 = CHR '':'' # r1" "rv r1 n = Inr (v, r2, m2)"
    by (auto simp: rbind_Inr_iff)
  with Suc.prems k0 obtain c r3 where k2: "whitespace r2 = c # r3" by (auto simp: rbind_Inr_iff)
  with Suc.prems k0 k1 have rest: "r = r3 \<or> (\<exists>ms. read_members f rv (key # names) r3 m2 = Inr (ms, r, m))"
    by (auto simp: rbind_Inr_iff expect_def take_char_def fail_invalid_def split: if_splits)
  note k = k0(1) k1 k2
  have "length r3 < length s"
    using read_string_length [OF k(1)] whitespace_le [of s] whitespace_le [of r0] whitespace_le [of r2] k(2,4) shrink [OF k(3)] by simp
  with rest Suc.IH show ?case by fastforce
qed (simp add: fail_invalid_def)

text \<open>More iterations than the length of the source change nothing.\<close>

lemma items_fuel: "length s < f \<Longrightarrow> length s < g \<Longrightarrow> read_items f rv s n = read_items g rv s n"
proof (induction f arbitrary: s n g)
  case (Suc f)
  then obtain g' where g: "g = Suc g'" by (cases g) auto
  have "read_items f rv r1 m0 = read_items g' rv r1 m0" if "rv s n = Inr (v, r0, m0)" "whitespace r0 = c # r1" for v r0 m0 c r1
  proof -
    have "length r1 < length s" using shrink [OF that(1)] whitespace_le [of r0] that(2) by simp
    with Suc.prems g show ?thesis by (intro Suc.IH) auto
  qed
  then have "rbind (take_char (whitespace r0)) (\<lambda>(c, r1). if c = CHR '']'' then Inr ([v], r1, m0) else if c \<noteq> CHR '','' then fail_invalid
         else rbind (read_items f rv r1 m0) (\<lambda>(vs, r2, m2). Inr (v # vs, r2, m2))) =
       rbind (take_char (whitespace r0)) (\<lambda>(c, r1). if c = CHR '']'' then Inr ([v], r1, m0) else if c \<noteq> CHR '','' then fail_invalid
         else rbind (read_items g' rv r1 m0) (\<lambda>(vs, r2, m2). Inr (v # vs, r2, m2)))"
    if "rv s n = Inr (v, r0, m0)" for v r0 m0
    using that by (cases "whitespace r0") (simp_all add: take_char_def)
  then show ?case unfolding g read_items.simps by (intro rbind_cong refl) (simp split: prod.splits)
qed simp

lemma members_fuel: "length s < f \<Longrightarrow> length s < g \<Longrightarrow> read_members f rv names s n = read_members g rv names s n"
proof (induction f arbitrary: names s n g)
  case (Suc f)
  then obtain g' where g: "g = Suc g'" by (cases g) auto
  have "read_members f rv ns r3 m2 = read_members g' rv ns r3 m2"
    if "read_string (whitespace s) = Inr (key, r0)" "whitespace r0 = CHR '':'' # r1" "rv r1 n = Inr (v, r2, m2)" "whitespace r2 = c # r3"
    for key r0 r1 v r2 m2 c r3 ns
  proof -
    have "length r3 < length s"
      using read_string_length [OF that(1)] whitespace_le [of s] whitespace_le [of r0] whitespace_le [of r2] that(2,4) shrink [OF that(3)] by simp
    with Suc.prems g show ?thesis by (intro Suc.IH) auto
  qed
  note eq = this
  let ?then = "\<lambda>h key v r2 m. rbind (take_char (whitespace r2)) (\<lambda>(c, r3).
           if c = CHR ''}'' then Inr ([(key, v)], r3, m)
           else if c \<noteq> CHR '','' then fail_invalid
           else rbind (read_members h rv (key # names) r3 m) (\<lambda>(ms, r4, m4). Inr ((key, v) # ms, r4, m4)))"
  have step: "?then f key v r2 m = ?then g' key v r2 m"
    if "read_string (whitespace s) = Inr (key, r0)" "expect (CHR '':'') (whitespace r0) = Inr r1" "rv r1 n = Inr (v, r2, m)"
    for key r0 r1 v r2 m
    using eq [OF that(1) _ that(3)] that(2) by (cases "whitespace r2") (simp_all add: take_char_def)
  show ?case unfolding g read_members.simps
    by (intro rbind_cong refl) (clarsimp split: prod.splits, intro rbind_cong refl, clarsimp split: prod.splits, rule step, simp_all)
qed simp

end

lemma literal_length: "literal w s = Inr r \<Longrightarrow> w \<noteq> [] \<Longrightarrow> length r < length s"
  by (cases s) (auto simp: literal_def split: if_splits)

lemma digit_range: "is_digit c \<longleftrightarrow> c = CHR ''0'' \<or> \<not> (c < CHR ''1'' \<or> c > CHR ''9'')"
proof -
  have "byte (CHR ''0'') = 48" "byte (CHR ''1'') = 49" "byte (CHR ''9'') = 57" by (simp_all add: byte_def)
  then show ?thesis
    unfolding is_digit_byte not_less less_eq_byte byte_inject [of c, symmetric] de_Morgan_disj by auto
qed

lemma number_end_length:
  assumes "number_end s = Inr r"
  shows "length r < length s"
proof -
  have sk: "length (skip_digits x) \<le> length x" for x by (simp add: skip_digits_def length_dropWhile_le)
  have int: "length y < length x" if "skip_integer x = Inr y" for x y
  proof (cases x)
    case Nil
    then show ?thesis using that by (auto simp: skip_integer_def peek_def split: if_splits)
  next
    case (Cons c t)
    then have "y = t \<or> is_digit c \<and> y = skip_digits (c # t)"
      using that by (auto simp: skip_integer_def peek_def digit_range split: if_splits)
    with Cons sk [of t] show ?thesis by (auto simp: skip_digits_def less_Suc_eq_le)
  qed
  have fr: "length y \<le> length x" if "skip_fraction x = Inr y" for x y
    using that sk [of "tl x"] by (auto simp: skip_fraction_def split: if_splits)
  have ex: "length y \<le> length x" if "skip_exponent x = Inr y" for x y
    using that sk [of "tl x"] sk [of "tl (tl x)"] by (auto simp: skip_exponent_def Let_def split: if_splits)
  from assms obtain a b where "skip_integer (if peek s = CHR ''-'' then tl s else s) = Inr a" "skip_fraction a = Inr b" "skip_exponent b = Inr r"
    by (auto simp: number_end_def rbind_Inr_iff)
  with int [of "if peek s = CHR ''-'' then tl s else s" a] fr [of a b] ex [of b r] show ?thesis by (auto split: if_splits)
qed

lemma read_number_length: "read_number s = Inr (v, r) \<Longrightarrow> length r < length s"
  by (auto simp: read_number_def rbind_Inr_iff dest: number_end_length)

lemma json_reader_value: "json_reader (read_json k)"
proof (induction k)
  case 0
  show ?case by unfold_locales simp
next
  case (Suc k)
  show ?case
  proof
    fix s n v r m assume rv: "read_json (Suc k) s n = Inr (v, r, m)"
    let ?s = "whitespace s"
    have "length r < length ?s"
    proof (cases "peek ?s = CHR ''['' \<or> peek ?s = CHR ''{''")
      case True
      have tl: "length (whitespace (tl ?s)) < length ?s" using True whitespace_le [of "tl ?s"] by (cases ?s) (auto simp: peek_def)
      have br: "length (tl x) \<le> length x" for x :: string by simp
      from rv True tl br [of "whitespace (tl ?s)"] show ?thesis
        using json_reader.items_shrink [OF Suc] json_reader.members_shrink [OF Suc]
        by (fastforce simp: rbind_Inr_iff Let_def split: if_splits)
    next
      case False
      with rv show ?thesis
        by (auto simp: rbind_Inr_iff Let_def dest: literal_length read_string_length read_number_length split: if_splits)
    qed
    with whitespace_le [of s] show "length r < length s" by simp
  qed
qed

interpretation value_reader: json_reader "read_json k" for k
  by (rule json_reader_value)

text \<open>Hence any bound above the length of the source gives the same result.\<close>

lemmas loop_fuel = value_reader.items_fuel value_reader.members_fuel

section \<open>The wire form\<close>

definition quoted_text :: "string \<Rightarrow> string" where
  "quoted_text s = [CHR 0x22] @ concat (map quoted_char s) @ [CHR 0x22]"

fun joined :: "string list \<Rightarrow> string" where
  "joined [] = []"
| "joined [x] = x"
| "joined (x # xs) = x @ CHR '','' # joined xs"

fun json_text :: "json \<Rightarrow> string" where
  "json_text JNull = ''null''"
| "json_text (JBool b) = (if b then ''true'' else ''false'')"
| "json_text (JNumber x s) = s"
| "json_text (JString s) = quoted_text s"
| "json_text (JArray vs) = ''['' @ joined (map json_text vs) @ '']''"
| "json_text (JObject ms) = ''{'' @ joined (map (\<lambda>(k, v). quoted_text k @ CHR '':'' # json_text v) ms) @ ''}''"

fun nodes :: "json \<Rightarrow> nat" where
  "nodes (JArray vs) = Suc (sum_list (map nodes vs))"
| "nodes (JObject ms) = Suc (sum_list (map (\<lambda>(k, v). nodes v) ms))"
| "nodes v = 1"

text \<open>A value that fits below \<open>k\<close> levels.\<close>

fun fits_below :: "nat \<Rightarrow> json \<Rightarrow> bool" where
  "fits_below 0 v = False"
| "fits_below (Suc k) (JArray vs) = list_all (fits_below k) vs"
| "fits_below (Suc k) (JObject ms) = list_all (\<lambda>(key, v). fits_below k v) ms"
| "fits_below (Suc k) v = True"

fun strings_ok :: "json \<Rightarrow> bool" where
  "strings_ok (JString s) = (validate_utf8 s = Inr ())"
| "strings_ok (JArray vs) = list_all strings_ok vs"
| "strings_ok (JObject ms) = list_all (\<lambda>(k, v). validate_utf8 k = Inr () \<and> strings_ok v) ms"
| "strings_ok v = True"

lemma append_out_Inr: "append_out bs out = Inr o1 \<Longrightarrow> length out \<le> max_value_bytes \<Longrightarrow> o1 = out @ bs \<and> length o1 \<le> max_value_bytes"
  by (auto simp: append_out_def split: if_splits)

lemma append_all_Inr: "append_all bs out = Inr o1 \<Longrightarrow> length out \<le> max_value_bytes \<Longrightarrow> o1 = out @ concat bs \<and> length o1 \<le> max_value_bytes"
proof (induction bs arbitrary: out)
  case (Cons b bs)
  then obtain o2 where o2: "append_out b out = Inr o2" "append_all bs o2 = Inr o1" by (auto simp: rbind_Inr_iff)
  note a = append_out_Inr [OF o2(1) Cons.prems(2)]
  from a Cons.IH [OF o2(2) conjunct2 [OF a]] show ?case by auto
qed simp

lemma quoted_Inr:
  "quoted s out = Inr o1 \<Longrightarrow> length out \<le> max_value_bytes \<Longrightarrow>
   o1 = out @ quoted_text s \<and> length o1 \<le> max_value_bytes \<and> validate_utf8 s = Inr ()"
  unfolding quoted_def rbind_Inr_iff
  using append_all_Inr [of "[[CHR 0x22]] @ map quoted_char s @ [[CHR 0x22]]" out o1] by (auto simp: quoted_text_def)

text \<open>The items of a list, with a comma before each one when it is not the first.\<close>

lemma joined_Cons: "joined (x # xs) = x @ concat (map ((#) (CHR '','')) xs)"
  by (induction xs arbitrary: x) simp_all

lemma write_json_Inr:
  "write_json depth v (out, n) = Inr (o1, m) \<Longrightarrow> length out \<le> max_value_bytes \<Longrightarrow>
     o1 = out @ json_text v \<and> m = n + nodes v \<and> m \<le> max_json_values \<and> fits_below (Suc max_json_depth - depth) v \<and>
     strings_ok v \<and> length o1 \<le> max_value_bytes"
  and write_items_Inr:
  "write_items depth first vs (out, n) = Inr (o1, m) \<Longrightarrow> length out \<le> max_value_bytes \<Longrightarrow> n \<le> max_json_values \<Longrightarrow>
     o1 = out @ (if first then joined (map json_text vs) else concat (map (\<lambda>v. CHR '','' # json_text v) vs)) \<and>
     m = n + sum_list (map nodes vs) \<and> m \<le> max_json_values \<and> list_all (fits_below (max_json_depth - depth)) vs \<and>
     list_all strings_ok vs \<and> length o1 \<le> max_value_bytes"
  and write_members_Inr:
  "write_members depth first ms (out, n) = Inr (o1, m) \<Longrightarrow> length out \<le> max_value_bytes \<Longrightarrow> n \<le> max_json_values \<Longrightarrow>
     o1 = out @ (if first then joined (map (\<lambda>(k, v). quoted_text k @ CHR '':'' # json_text v) ms)
       else concat (map (\<lambda>(k, v). CHR '','' # quoted_text k @ CHR '':'' # json_text v) ms)) \<and>
     m = n + sum_list (map (\<lambda>(k, v). nodes v) ms) \<and> m \<le> max_json_values \<and>
     list_all (\<lambda>(k, v). fits_below (max_json_depth - depth) v) ms \<and>
     list_all (\<lambda>(k, v). validate_utf8 k = Inr () \<and> strings_ok v) ms \<and> length o1 \<le> max_value_bytes"
proof (induction depth v "(out, n)" and depth first vs "(out, n)" and depth first ms "(out, n)"
    arbitrary: out n o1 m and out n o1 m and out n o1 m rule: write_json_write_items_write_members.induct)
  case (1 depth v out n)
  have d: "depth \<le> max_json_depth" "n + 1 \<le> max_json_values" using 1(3) by (auto split: if_splits)
  then have sd: "Suc max_json_depth - depth = Suc (max_json_depth - depth)" by simp
  show ?case
  proof (cases v)
    case (JArray vs)
    with 1(3) d obtain oa ob where w: "append_out ''['' out = Inr oa" "write_items depth True vs (oa, n + 1) = Inr (ob, m)"
      "append_out '']'' ob = Inr o1" by (auto simp: rbind_Inr_iff)
    note a = append_out_Inr [OF w(1) 1(4)]
    have "\<not> (max_json_depth < depth \<or> max_json_values < n + 1)" using d by simp
    from 1(1) [OF this JArray w(1,2) conjunct2 [OF a] d(2)]
    have "ob = oa @ joined (map json_text vs) \<and> m = n + 1 + sum_list (map nodes vs) \<and> m \<le> max_json_values \<and>
        list_all (fits_below (max_json_depth - depth)) vs \<and> list_all strings_ok vs \<and> length ob \<le> max_value_bytes" by auto
    with append_out_Inr [OF w(3)] a show ?thesis unfolding JArray sd by auto
  next
    case (JObject ms)
    with 1(3) d obtain oa ob where w: "append_out ''{'' out = Inr oa" "write_members depth True ms (oa, n + 1) = Inr (ob, m)"
      "append_out ''}'' ob = Inr o1" by (auto simp: rbind_Inr_iff)
    note a = append_out_Inr [OF w(1) 1(4)]
    have "\<not> (max_json_depth < depth \<or> max_json_values < n + 1)" using d by simp
    from 1(2) [OF this JObject w(1,2) conjunct2 [OF a] d(2)]
    have "ob = oa @ joined (map (\<lambda>(k, v). quoted_text k @ CHR '':'' # json_text v) ms) \<and>
        m = n + 1 + sum_list (map (\<lambda>(k, v). nodes v) ms) \<and> m \<le> max_json_values \<and>
        list_all (\<lambda>(k, v). fits_below (max_json_depth - depth) v) ms \<and>
        list_all (\<lambda>(k, v). validate_utf8 k = Inr () \<and> strings_ok v) ms \<and> length ob \<le> max_value_bytes" by auto
    with append_out_Inr [OF w(3)] a show ?thesis unfolding JObject sd by auto
  qed (use 1(3,4) d in \<open>auto simp: sd rbind_Inr_iff dest!: append_out_Inr quoted_Inr\<close>)
next
  case (2 depth first)
  then show ?case by simp
next
  case (3 depth first v vs out n)
  from 3(3) obtain oa ob nb where w: "(if first then Inr out else append_out '','' out) = Inr oa"
    "write_json (depth + 1) v (oa, n) = Inr (ob, nb)" "write_items depth False vs (ob, nb) = Inr (o1, m)"
    by (auto simp: rbind_Inr_iff)
  have a: "oa = out @ (if first then [] else '','') \<and> length oa \<le> max_value_bytes"
    using w(1) 3(4) append_out_Inr [of "'',''" out oa] by (cases first) auto
  then have b: "ob = oa @ json_text v \<and> nb = n + nodes v \<and> nb \<le> max_json_values \<and> fits_below (Suc max_json_depth - (depth + 1)) v \<and>
     strings_ok v \<and> length ob \<le> max_value_bytes" using 3(1) [OF w(1,2)] by blast
  then have "o1 = ob @ concat (map (\<lambda>v. CHR '','' # json_text v) vs) \<and>
     m = nb + sum_list (map nodes vs) \<and> m \<le> max_json_values \<and> list_all (fits_below (max_json_depth - depth)) vs \<and>
     list_all strings_ok vs \<and> length o1 \<le> max_value_bytes" using 3(2) [OF w(1-3)] by auto
  with a b show ?case by (auto simp: joined_Cons comp_def)
next
  case (4 depth first)
  then show ?case by simp
next
  case (5 depth first k v ms out n)
  from 5(3) obtain oa ob oc od nd where w: "(if first then Inr out else append_out '','' out) = Inr oa"
    "quoted k oa = Inr ob" "append_out '':'' ob = Inr oc"
    "write_json (depth + 1) v (oc, n) = Inr (od, nd)" "write_members depth False ms (od, nd) = Inr (o1, m)"
    by (auto simp: rbind_Inr_iff)
  have a: "oa = out @ (if first then [] else '','') \<and> length oa \<le> max_value_bytes"
    using w(1) 5(4) append_out_Inr [of "'',''" out oa] by (cases first) auto
  then have b: "ob = oa @ quoted_text k \<and> length ob \<le> max_value_bytes \<and> validate_utf8 k = Inr ()" using quoted_Inr [OF w(2)] by blast
  then have c: "oc = ob @ '':'' \<and> length oc \<le> max_value_bytes" using append_out_Inr [OF w(3)] by blast
  then have e: "od = oc @ json_text v \<and> nd = n + nodes v \<and> nd \<le> max_json_values \<and> fits_below (Suc max_json_depth - (depth + 1)) v \<and>
     strings_ok v \<and> length od \<le> max_value_bytes" using 5(1) [OF w(1-4)] by blast
  then have "o1 = od @ concat (map (\<lambda>(k, v). CHR '','' # quoted_text k @ CHR '':'' # json_text v) ms) \<and>
     m = nd + sum_list (map (\<lambda>(k, v). nodes v) ms) \<and> m \<le> max_json_values \<and>
     list_all (\<lambda>(k, v). fits_below (max_json_depth - depth) v) ms \<and>
     list_all (\<lambda>(k, v). validate_utf8 k = Inr () \<and> strings_ok v) ms \<and> length o1 \<le> max_value_bytes"
    using 5(2) [OF w(1-5)] by auto
  with a b c e show ?case by (auto simp: joined_Cons comp_def case_prod_unfold)
qed

end
