(* ===== verification/Rpc_Json_Correct.thy ===== *)
theory Rpc_Json_Correct
  imports Rpc_Roundtrip
begin

text \<open>
  Reading back what the encoder of the JSON-RPC module wrote: strings, numbers, arrays and objects, and the
  well-formedness of every parsed value.
\<close>

section \<open>Strings are read back\<close>

lemma push4: "p < 16 \<Longrightarrow> push_bit 4 v OR p = v * 16 + (p :: nat)"
  using or_disjoint_nat [of p 4 v] by (simp add: push_bit_eq_mult)

lemma nibble_part: "n < 16 \<Longrightarrow> hex_part (nibble n) = Some n"
proof -
  have "list_all (\<lambda>n. hex_part (nibble n) = Some n) [0..<16]" by code_simp
  then show "n < 16 \<Longrightarrow> ?thesis" by (simp add: list_all_iff)
qed

lemma control_escape:
  assumes "byte c < 32"
  shows "escape_sequence ([CHR ''u'', CHR ''0'', CHR ''0'', nibble (drop_bit 4 (byte c)), nibble (byte c AND 15)] @ t) = Inr ([c], t)"
proof -
  have low: "byte c AND 15 = byte c mod 16"
    using take_bit_eq_mask [of 4 "byte c"] by (simp add: mask_eq_exp_minus_1 take_bit_eq_mod)
  have hi: "drop_bit 4 (byte c) = byte c div 16" by (simp add: drop_bit_eq_div)
  have p: "hex_part (nibble (byte c div 16)) = Some (byte c div 16)" "hex_part (nibble (byte c mod 16)) = Some (byte c mod 16)"
    "hex_part (CHR ''0'') = Some 0"
    using assms by (auto intro!: nibble_part) (simp add: hex_part_def is_digit_byte byte_def)
  have "hex4 ([CHR ''0'', CHR ''0'', nibble (byte c div 16), nibble (byte c mod 16)] @ t) = Inr (byte c, t)"
  proof -
    have four: "hex_digits 4 = hex_digits (Suc (Suc (Suc (Suc 0))))" by (simp add: numeral_eq_Suc)
    have "byte c div 16 * 16 + byte c mod 16 = byte c" by simp
    moreover have "byte c div 16 < 16" using assms by simp
    ultimately show ?thesis unfolding hex4_def four by (simp add: take_char_def p push4)
  qed
  then have "unicode_escape ([CHR ''0'', CHR ''0'', nibble (byte c div 16), nibble (byte c mod 16)] @ t) = Inr ([c], t)"
    using assms by (simp add: unicode_escape_def append_scalar_def)
  then show ?thesis unfolding low hi by (simp add: escape_sequence_def take_char_def)
qed

lemma continue_scalar_chunk:
  "continue_scalar n v s = Inr (w, r) \<Longrightarrow>
   \<exists>x. s = x @ r \<and> length x = n \<and> (\<forall>c\<in>set x. byte c \<ge> 128) \<and> (\<forall>t. continue_scalar n v (x @ t) = Inr (w, t))"
proof (induction n v s rule: continue_scalar.induct)
  case (3 n v c s)
  have h: "byte c AND 192 = 128" using 3(2) by (auto split: if_splits)
  have "byte c \<ge> 128" using h continuation_byte by blast
  moreover obtain x where "s = x @ r" "length x = n" "\<forall>c\<in>set x. byte c \<ge> 128"
    "\<forall>t. continue_scalar n (push_bit 6 v OR (byte c AND 63)) (x @ t) = Inr (w, t)"
    using 3(1) 3(2) h by auto
  ultimately show ?case using h by (intro exI [of _ "c # x"]) auto
qed auto

text \<open>A scalar is read from its own bytes alone.\<close>

lemma utf8_scalar_chunk:
  assumes "utf8_scalar (b # s) = Inr (v, r)" and "byte b \<ge> 128"
  shows "\<exists>x. b # s = (b # x) @ r \<and> (\<forall>c\<in>set (b # x). byte c \<ge> 128) \<and> (\<forall>t. utf8_scalar ((b # x) @ t) = Inr (v, t))"
proof -
  from assms obtain count v0 least where l: "scalar_lead (byte b) = Some (count, v0, least)"
    by (auto simp: utf8_scalar_def split: option.splits)
  with assms have c: "continue_scalar count v0 s = Inr (v, r)" and ok: "\<not> (v < least \<or> v > 0x10ffff \<or> (0xd800 \<le> v \<and> v \<le> 0xdfff))"
    by (auto simp: utf8_scalar_def rbind_Inr_iff split: if_splits)
  from continue_scalar_chunk [OF c] obtain x where x: "s = x @ r" "length x = count" "\<forall>c\<in>set x. byte c \<ge> 128"
    "\<And>t. continue_scalar count v0 (x @ t) = Inr (v, t)" by blast
  then have "utf8_scalar ((b # x) @ t) = Inr (v, t)" for t
    using l ok assms(2) by (simp add: utf8_scalar_def)
  with x assms(2) show ?thesis by (intro exI [of _ x]) auto
qed

lemma quoted_char_high: "byte c \<ge> 128 \<Longrightarrow> quoted_char c = [c]"
  by (auto simp: quoted_char_def byte_def)

lemma concat_quoted_high: "\<forall>c\<in>set x. byte c \<ge> 128 \<Longrightarrow> concat (map quoted_char x) = x"
  by (induction x) (auto simp: quoted_char_high)

lemma validate_utf8_Cons:
  "validate_utf8 (b # s) = Inr () \<longleftrightarrow> (\<exists>v r. utf8_scalar (b # s) = Inr (v, r) \<and> validate_utf8 r = Inr ())"
  by (subst validate_utf8.simps) (auto simp: rbind_Inr_iff)

lemma string_loop_quoted:
  "validate_utf8 s = Inr () \<Longrightarrow> string_loop out (concat (map quoted_char s) @ CHR 0x22 # rest) = Inr (out @ s, CHR 0x22 # rest)"
proof (induction "length s" arbitrary: s out rule: less_induct)
  case less
  show ?case
  proof (cases s)
    case Nil
    then show ?thesis by (subst string_loop.simps) (simp add: peek_def)
  next
    case (Cons b t)
    obtain v r where u: "utf8_scalar (b # t) = Inr (v, r)" "validate_utf8 r = Inr ()"
      using less.prems Cons validate_utf8_Cons by blast
    show ?thesis
    proof (cases "byte b \<ge> 128")
      case True
      from utf8_scalar_chunk [OF u(1) True] obtain x where x: "b # t = (b # x) @ r" "\<forall>c\<in>set (b # x). byte c \<ge> 128"
        "\<And>t. utf8_scalar ((b # x) @ t) = Inr (v, t)" by blast
      let ?rest = "concat (map quoted_char r) @ CHR 0x22 # rest"
      have src: "concat (map quoted_char s) @ CHR 0x22 # rest = (b # x) @ ?rest"
        using concat_quoted_high [OF x(2)] x(1) Cons by (metis append_assoc concat_append map_append)
      have "b \<noteq> CHR 0x22" "\<not> byte b < 32" using True by (auto simp: byte_def)
      then have "string_loop out ((b # x) @ ?rest) = string_loop (out @ b # x) ?rest"
        using True x(3) [of ?rest] by (subst string_loop.simps) (simp add: peek_def take_char_def)
      also have "\<dots> = Inr ((out @ b # x) @ r, CHR 0x22 # rest)"
        using less.hyps [of r] u(2) utf8_scalar_length [OF u(1)] Cons by simp
      finally show ?thesis unfolding src using x(1) Cons by simp
    next
      case False
      then have r: "r = t" using u(1) by (auto simp: utf8_scalar_def split: if_splits)
      let ?rest = "concat (map quoted_char t) @ CHR 0x22 # rest"
      have IH: "string_loop (out @ [b]) ?rest = Inr (out @ s, CHR 0x22 # rest)"
        using less.hyps [of t "out @ [b]"] u(2) r Cons by simp
      have bytes: "byte (CHR 0x22) = 34" "byte (CHR 0x5C) = 92" by (simp_all add: byte_def)
      consider (quote) "b = CHR 0x22" | (slash) "b = CHR 0x5C" | (control) "byte b < 32" "b \<noteq> CHR 0x22" "b \<noteq> CHR 0x5C"
        | (plain) "\<not> byte b < 32" "b \<noteq> CHR 0x22" "b \<noteq> CHR 0x5C" by blast
      then have "string_loop out (quoted_char b @ ?rest) = string_loop (out @ [b]) ?rest"
      proof cases
        case quote
        then show ?thesis
          by (subst string_loop.simps) (simp add: quoted_char_def peek_def take_char_def bytes escape_sequence_def)
      next
        case slash
        then show ?thesis
          by (subst string_loop.simps) (simp add: quoted_char_def peek_def take_char_def bytes escape_sequence_def)
      next
        case control
        then show ?thesis
          by (subst string_loop.simps) (simp add: quoted_char_def peek_def take_char_def bytes control_escape [OF control(1), simplified])
      next
        case plain
        with False show ?thesis by (subst string_loop.simps) (simp add: quoted_char_def peek_def take_char_def)
      qed
      with IH Cons show ?thesis by simp
    qed
  qed
qed

lemma read_string_quoted: "validate_utf8 s = Inr () \<Longrightarrow> read_string (quoted_text s @ rest) = Inr (s, rest)"
  using string_loop_quoted [of s "[]" rest] by (simp add: read_string_def quoted_text_def expect_def take_char_def)

section \<open>Numbers are read back\<close>

text \<open>What may follow a value.\<close>

definition follows :: "string \<Rightarrow> bool" where
  "follows r \<longleftrightarrow> r = [] \<or> hd r \<in> {CHR '','', CHR '']'', CHR ''}''}"

lemma follows_not: "follows r \<Longrightarrow> \<not> is_digit (peek r) \<and> peek r \<noteq> CHR ''.'' \<and> peek r \<noteq> CHR ''e'' \<and> peek r \<noteq> CHR ''E''"
  by (cases r) (auto simp: follows_def peek_def is_digit_byte byte_def)

lemma peek_append [simp]: "s \<noteq> [] \<Longrightarrow> peek (s @ r) = peek s"
  by (cases s) (simp_all add: peek_def)

lemma skip_digits_append: "\<not> is_digit (peek r) \<Longrightarrow> skip_digits (s @ r) = skip_digits s @ r"
  by (cases r) (auto simp: skip_digits_def peek_def dropWhile_append)

lemma peek_Nil [simp]: "peek [] = CHR 0x00" "\<not> is_digit (CHR 0x00)"
  by (simp_all add: peek_def is_digit_byte byte_def)

lemma peek_nonempty: "is_digit (peek s) \<Longrightarrow> s \<noteq> []"
  by (cases s) auto

lemma skip_integer_append:
  assumes "skip_integer s = Inr t" and "\<not> is_digit (peek r)"
  shows "skip_integer (s @ r) = Inr (t @ r)"
proof -
  have "is_digit (peek s)" using assms(1) by (auto simp: skip_integer_def digit_range split: if_splits)
  then have "s \<noteq> []" by (rule peek_nonempty)
  with assms show ?thesis by (auto simp: skip_integer_def skip_digits_append split: if_splits)
qed

lemma skip_fraction_append:
  assumes "skip_fraction s = Inr t" and "\<not> is_digit (peek r)" and "peek r \<noteq> CHR ''.''"
  shows "skip_fraction (s @ r) = Inr (t @ r)"
proof (cases "s = []")
  case True
  with assms show ?thesis by (auto simp: skip_fraction_def)
next
  case False
  with assms peek_nonempty [of "tl s"] show ?thesis
    by (auto simp: skip_fraction_def skip_digits_append split: if_splits)
qed

lemma skip_exponent_append:
  assumes "skip_exponent s = Inr t" and "\<not> is_digit (peek r)" and "peek r \<noteq> CHR ''e''" and "peek r \<noteq> CHR ''E''"
  shows "skip_exponent (s @ r) = Inr (t @ r)"
proof (cases "peek s = CHR ''e'' \<or> peek s = CHR ''E''")
  case True
  then have s: "s \<noteq> []" by auto
  let ?s1 = "tl s"
  let ?s2 = "if peek ?s1 = CHR ''+'' \<or> peek ?s1 = CHR ''-'' then tl ?s1 else ?s1"
  have d: "is_digit (peek ?s2)" "t = skip_digits ?s2" using assms(1) True by (auto simp: skip_exponent_def Let_def split: if_splits)
  then have "?s1 \<noteq> []" "?s2 \<noteq> []" using peek_nonempty [of ?s2] by auto
  with True s d assms(2) show ?thesis
    by (auto simp: skip_exponent_def Let_def skip_digits_append split: if_splits)
next
  case False
  with assms show ?thesis by (cases "s = []") (auto simp: skip_exponent_def)
qed

lemma number_end_append:
  assumes "number_end s = Inr []" and "follows r"
  shows "number_end (s @ r) = Inr r"
proof -
  note f = follows_not [OF assms(2)]
  have s: "s \<noteq> []" using number_end_length [OF assms(1)] by auto
  from assms(1) obtain a b where "skip_integer (if peek s = CHR ''-'' then tl s else s) = Inr a" "skip_fraction a = Inr b" "skip_exponent b = Inr []"
    by (auto simp: number_end_def rbind_Inr_iff)
  with f skip_integer_append [of _ a r] skip_fraction_append [of a b r] skip_exponent_append [of b "[]" r] s show ?thesis
    by (auto simp: number_end_def split: if_splits)
qed

text \<open>Values as the module builds them: numbers with the spelling they denote, objects without repeated names.\<close>

fun json_wf :: "json \<Rightarrow> bool" where
  "json_wf (JNumber x s) \<longleftrightarrow> number_end s = Inr [] \<and> x \<noteq> Nonfinite \<and> from_chars s = Some (x, [])"
| "json_wf (JArray vs) \<longleftrightarrow> list_all json_wf vs"
| "json_wf (JObject ms) \<longleftrightarrow> distinct (map fst ms) \<and> list_all (\<lambda>(k, v). json_wf v) ms"
| "json_wf v \<longleftrightarrow> True"

lemma read_number_text:
  assumes "json_wf (JNumber x s)" and "follows r"
  shows "read_number (s @ r) = Inr (JNumber x s, r)"
  using assms number_end_append [of s r] by (simp add: read_number_def parsed_number_def)

lemma number_first:
  assumes "number_end s = Inr []"
  shows "peek s = CHR ''-'' \<or> is_digit (peek s)"
  using assms by (auto simp: number_end_def rbind_Inr_iff skip_integer_def digit_range split: if_splits)

section \<open>Values are read back\<close>

definition reads :: "nat \<Rightarrow> json \<Rightarrow> bool" where
  "reads k v \<longleftrightarrow> (\<forall>r n. follows r \<longrightarrow> n + nodes v \<le> max_json_values \<longrightarrow>
     read_json k (json_text v @ r) n = Inr (v, r, n + nodes v))"

lemma whitespace_id: "s = [] \<or> \<not> json_space (hd s) \<Longrightarrow> whitespace s = s"
  by (cases s) (auto simp: whitespace_def)

lemma follows_space: "follows r \<Longrightarrow> whitespace r = r"
  by (rule whitespace_id) (auto simp: follows_def json_space_def)

lemma digit_not_json: "is_digit c \<Longrightarrow> \<not> json_space c \<and> c \<notin> set ''ntf[]{},:-'' \<and> c \<noteq> CHR 0x22"
  by (auto simp: is_digit_byte json_space_def byte_def)

lemma text_first:
  assumes "json_wf v"
  shows "json_text v \<noteq> [] \<and> \<not> json_space (hd (json_text v)) \<and> hd (json_text v) \<notin> {CHR '']'', CHR ''}''}"
proof (cases v)
  case (JNumber x s)
  then have e: "number_end s = Inr []" using assms by simp
  then have "s \<noteq> []" using number_end_length by fastforce
  moreover have "hd s = CHR ''-'' \<or> is_digit (hd s)" using number_first [OF e] \<open>s \<noteq> []\<close> by (cases s) (auto simp: peek_def)
  ultimately show ?thesis using JNumber digit_not_json by (auto simp: json_space_def)
qed (auto simp: json_space_def quoted_text_def)

lemma read_items_text:
  "list_all (reads k) vs \<Longrightarrow> vs \<noteq> [] \<Longrightarrow> length vs \<le> f \<Longrightarrow> n + sum_list (map nodes vs) \<le> max_json_values \<Longrightarrow>
   read_items f (read_json k) (joined (map json_text vs) @ CHR '']'' # r) n = Inr (vs, r, n + sum_list (map nodes vs))"
proof (induction vs arbitrary: n f)
  case (Cons v vs)
  obtain f' where f: "f = Suc f'" using Cons.prems(3) by (cases f) auto
  have rd: "follows t \<Longrightarrow> read_json k (json_text v @ t) n = Inr (v, t, n + nodes v)" for t
    using Cons.prems(1,4) by (simp add: reads_def)
  show ?case
  proof (cases vs)
    case Nil
    have "follows (CHR '']'' # r)" by (simp add: follows_def)
    from rd [OF this] follows_space [OF this] show ?thesis by (simp add: f Nil take_char_def)
  next
    case (Cons w ws)
    let ?t = "CHR '','' # joined (map json_text vs) @ CHR '']'' # r"
    have "follows ?t" by (simp add: follows_def)
    from rd [OF this] follows_space [OF this] Cons.IH [of f' "n + nodes v"] Cons.prems f
    show ?thesis by (simp add: Cons take_char_def add.assoc)
  qed
qed simp

definition member_text :: "string \<times> json \<Rightarrow> string" where
  "member_text m = quoted_text (fst m) @ CHR '':'' # json_text (snd m)"

lemma read_members_text:
  "list_all (\<lambda>m. reads k (snd m) \<and> validate_utf8 (fst m) = Inr ()) ms \<Longrightarrow> ms \<noteq> [] \<Longrightarrow> length ms \<le> f \<Longrightarrow>
   n + sum_list (map (nodes \<circ> snd) ms) \<le> max_json_values \<Longrightarrow> distinct (map fst ms) \<Longrightarrow> set (map fst ms) \<inter> set names = {} \<Longrightarrow>
   read_members f (read_json k) names (joined (map member_text ms) @ CHR ''}'' # r) n =
     Inr (ms, r, n + sum_list (map (nodes \<circ> snd) ms))"
proof (induction ms arbitrary: n f names)
  case (Cons m ms)
  obtain key v where m: "m = (key, v)" by (cases m)
  obtain f' where f: "f = Suc f'" using Cons.prems(3) by (cases f) auto
  have rd: "follows t \<Longrightarrow> read_json k (json_text v @ t) n = Inr (v, t, n + nodes v)" for t
    using Cons.prems(1,4) m by (simp add: reads_def)
  have str: "read_string (whitespace (quoted_text key @ t)) = Inr (key, t)" for t
    using read_string_quoted [of key t] Cons.prems(1) m whitespace_id [of "quoted_text key @ t"]
    by (simp add: quoted_text_def json_space_def)
  have col: "expect (CHR '':'') (whitespace (CHR '':'' # t)) = Inr t" for t
    using whitespace_id [of "CHR '':'' # t"] by (simp add: json_space_def)
  have mt: "member_text (key, v) = quoted_text key @ CHR '':'' # json_text v" by (simp add: member_text_def)
  have new: "key \<notin> set names" using Cons.prems(6) m by auto
  show ?case
  proof (cases ms)
    case Nil
    have "follows (CHR ''}'' # r)" by (simp add: follows_def)
    from rd [OF this] follows_space [OF this] show ?thesis by (simp add: f Nil m mt str col new take_char_def)
  next
    case (Cons w ws)
    let ?t = "CHR '','' # joined (map member_text ms) @ CHR ''}'' # r"
    have "follows ?t" by (simp add: follows_def)
    moreover have "set (map fst ms) \<inter> set (key # names) = {}" using Cons.prems(5,6) m by auto
    ultimately show ?thesis
      using rd [of ?t] follows_space [of ?t] Cons.IH [of f' "n + nodes v" "key # names"] Cons.prems f m
      by (simp add: Cons mt str col new take_char_def add.assoc)
  qed
qed simp

lemma joined_length: "(\<And>x. x \<in> set xs \<Longrightarrow> x \<noteq> []) \<Longrightarrow> length xs \<le> length (joined xs)"
proof (induction xs rule: joined.induct)
  case (2 x)
  then show ?case by (cases x) auto
next
  case (3 x y ys)
  then have "x \<noteq> []" "length (y # ys) \<le> length (joined (y # ys))" by auto
  then show ?case by (cases x) auto
qed simp

lemma list_first:
  assumes "xs \<noteq> []" and "\<And>x. x \<in> set xs \<Longrightarrow> x \<noteq> [] \<and> \<not> json_space (hd x) \<and> hd x \<noteq> c"
  shows "whitespace (joined xs @ t) = joined xs @ t \<and> peek (joined xs @ t) \<noteq> c"
proof -
  have "joined xs \<noteq> [] \<and> hd (joined xs) = hd (hd xs)" using assms by (cases xs rule: joined.cases) auto
  moreover have "\<not> json_space (hd (hd xs)) \<and> hd (hd xs) \<noteq> c" using assms by (cases xs) auto
  ultimately show ?thesis by (cases "joined xs") (auto simp: peek_def intro!: whitespace_id)
qed

lemma member_texts: "map (\<lambda>(k, v). quoted_text k @ CHR '':'' # json_text v) ms = map member_text ms"
  "map (\<lambda>(k, v). nodes v) ms = map (nodes \<circ> snd) ms"
  by (auto simp: member_text_def)

lemma value_reads: "fits_below k v \<Longrightarrow> json_wf v \<Longrightarrow> strings_ok v \<Longrightarrow> reads k v"
proof (induction k arbitrary: v)
  case (Suc k)
  show ?case unfolding reads_def
  proof (intro allI impI)
    fix r n assume r: "follows r" and n: "n + nodes v \<le> max_json_values"
    have n1: "\<not> n + 1 > max_json_values" using n by (cases v) auto
    have ws: "whitespace (json_text v @ t) = json_text v @ t" for t
      using text_first [OF Suc.prems(2)] by (intro whitespace_id) auto
    have pk: "peek (json_text v @ t) = hd (json_text v)" for t
      using text_first [OF Suc.prems(2)] by (cases "json_text v") (auto simp: peek_def)
    show "read_json (Suc k) (json_text v @ r) n = Inr (v, r, n + nodes v)"
    proof (cases v)
      case (JNumber x s)
      have "peek s = hd s" using pk [of "[]"] JNumber by simp
      moreover have "peek s = CHR ''-'' \<or> is_digit (peek s)" using number_first Suc.prems(2) JNumber by simp
      ultimately have "hd s \<notin> set ''ntf[{'' \<and> hd s \<noteq> CHR 0x22" using digit_not_json [of "hd s"] by auto
      then show ?thesis
        using n1 ws [of r] pk [of r] read_number_text [OF _ r, of x s] Suc.prems(2) JNumber by (simp add: Let_def)
    next
      case (JString s)
      then show ?thesis
        using n1 ws [of r] pk [of r] read_string_quoted [of s r] Suc.prems(3) by (simp add: Let_def quoted_text_def string_value_def)
    next
      case (JArray vs)
      show ?thesis
      proof (cases "vs = []")
        case True
        then show ?thesis using n1 ws [of r] pk [of r] whitespace_id [of "CHR '']'' # r"] JArray
          by (simp add: Let_def json_space_def peek_def)
      next
        case False
        let ?items = "joined (map json_text vs) @ CHR '']'' # r"
        have texts: "x \<noteq> [] \<and> \<not> json_space (hd x) \<and> hd x \<notin> {CHR '']'', CHR ''}''}" if "x \<in> set (map json_text vs)" for x
          using that text_first Suc.prems(2) JArray by (auto simp: list_all_iff)
        have first: "whitespace ?items = ?items \<and> peek ?items \<noteq> CHR '']''" using False texts by (intro list_first) auto
        have "list_all (reads k) vs" using Suc.IH Suc.prems JArray by (auto simp: list_all_iff)
        moreover have "length vs \<le> length (json_text v @ r)" using joined_length [of "map json_text vs"] texts JArray by simp
        ultimately have "read_items (length (json_text v @ r)) (read_json k) ?items (n + 1) = Inr (vs, r, n + 1 + sum_list (map nodes vs))"
          using n JArray False by (intro read_items_text) auto
        then show ?thesis using n1 ws [of r] pk [of r] first JArray by (simp add: Let_def)
      qed
    next
      case (JObject ms)
      show ?thesis
      proof (cases "ms = []")
        case True
        then show ?thesis using n1 ws [of r] pk [of r] whitespace_id [of "CHR ''}'' # r"] JObject
          by (simp add: Let_def json_space_def peek_def)
      next
        case False
        let ?ms = "joined (map member_text ms) @ CHR ''}'' # r"
        have texts: "x \<noteq> [] \<and> hd x = CHR 0x22" if "x \<in> set (map member_text ms)" for x
          using that by (auto simp: member_text_def quoted_text_def)
        have first: "whitespace ?ms = ?ms \<and> peek ?ms \<noteq> CHR ''}''" using False texts by (intro list_first) (auto simp: json_space_def)
        have "list_all (\<lambda>m. reads k (snd m) \<and> validate_utf8 (fst m) = Inr ()) ms"
          using Suc.IH Suc.prems JObject by (fastforce simp: list_all_iff)
        moreover have "length ms \<le> length (json_text v @ r)" using joined_length [of "map member_text ms"] texts JObject by (simp add: member_texts)
        ultimately have "read_members (length (json_text v @ r)) (read_json k) [] ?ms (n + 1) = Inr (ms, r, n + 1 + sum_list (map (nodes \<circ> snd) ms))"
          using n JObject False Suc.prems(2) by (intro read_members_text) (auto simp: member_texts)
        then show ?thesis using n1 ws [of r] pk [of r] first JObject by (simp add: Let_def member_texts)
      qed
    qed (use n1 ws [of r] pk [of r] in \<open>auto simp: Let_def literal_def\<close>)
  qed
qed simp

section \<open>Parsed values are well formed\<close>

lemma skip_integer_split: "skip_integer s = Inr t \<Longrightarrow> \<exists>x. s = x @ t \<and> skip_integer x = Inr []"
proof -
  assume s: "skip_integer s = Inr t"
  then have d: "is_digit (peek s)" by (auto simp: skip_integer_def digit_range split: if_splits)
  then obtain c r where c: "s = c # r" using peek_nonempty by (cases s) auto
  show ?thesis
  proof (cases "c = CHR ''0''")
    case True
    with s c show ?thesis by (intro exI [of _ "[c]"]) (auto simp: skip_integer_def peek_def)
  next
    case False
    let ?x = "takeWhile is_digit s"
    have t: "t = skip_digits s" using s c False by (auto simp: skip_integer_def peek_def split: if_splits)
    have "?x = c # takeWhile is_digit r" using c d by (simp add: peek_def)
    then have "peek ?x = c" by (simp add: peek_def)
    moreover have "skip_digits ?x = []" unfolding skip_digits_def dropWhile_eq_Nil_conv by (blast dest: set_takeWhileD)
    moreover have "\<not> (c < CHR ''1'' \<or> c > CHR ''9'')" using d c False digit_range [of c] by (simp add: peek_def)
    ultimately have "skip_integer ?x = Inr []" using False unfolding skip_integer_def by simp
    then show ?thesis using t by (intro exI [of _ ?x]) (simp add: skip_digits_def)
  qed
qed

lemma skip_digits_split: "\<exists>x. s = x @ skip_digits s \<and> (\<forall>c\<in>set x. is_digit c) \<and> skip_digits x = [] \<and> (is_digit (peek s) \<longrightarrow> is_digit (peek x))"
  by (intro exI [of _ "takeWhile is_digit s"]; cases s)
     (auto simp: skip_digits_def peek_def dest: set_takeWhileD)

lemma skip_fraction_split:
  assumes "skip_fraction s = Inr t"
  shows "\<exists>x. s = x @ t \<and> skip_fraction x = Inr [] \<and> (x = [] \<or> hd x = CHR ''.'')"
proof (cases "peek s = CHR ''.''")
  case True
  then obtain r where r: "s = CHR ''.'' # r" by (cases s) (auto simp: peek_def)
  obtain x where "r = x @ skip_digits r" "skip_digits x = []" "is_digit (peek r) \<longrightarrow> is_digit (peek x)" using skip_digits_split by blast
  with r assms show ?thesis by (intro exI [of _ "CHR ''.'' # x"]) (auto simp: skip_fraction_def peek_def [of "_ # _"] split: if_splits)
next
  case False
  with assms show ?thesis by (intro exI [of _ "[]"]) (auto simp: skip_fraction_def)
qed

lemma skip_exponent_split:
  assumes "skip_exponent s = Inr t"
  shows "\<exists>x. s = x @ t \<and> skip_exponent x = Inr [] \<and> (x = [] \<or> hd x = CHR ''e'' \<or> hd x = CHR ''E'')"
proof (cases "peek s = CHR ''e'' \<or> peek s = CHR ''E''")
  case True
  then obtain c s1 where s: "s = c # s1" "c = CHR ''e'' \<or> c = CHR ''E''" by (cases s) (auto simp: peek_def)
  let ?sg = "peek s1 = CHR ''+'' \<or> peek s1 = CHR ''-''"
  let ?s2 = "if ?sg then tl s1 else s1"
  have d: "is_digit (peek ?s2)" "t = skip_digits ?s2" using assms True s by (auto simp: skip_exponent_def Let_def split: if_splits)
  obtain x where x: "?s2 = x @ t" "skip_digits x = []" "is_digit (peek x)" using skip_digits_split [of ?s2] d by auto
  then have ne: "x \<noteq> []" using peek_nonempty by blast
  show ?thesis
  proof (cases ?sg)
    case True
    then obtain g where "s1 = g # ?s2" "g = CHR ''+'' \<or> g = CHR ''-''" by (cases s1) (auto simp: peek_def)
    with s x ne True show ?thesis by (intro exI [of _ "c # g # x"]) (auto simp: skip_exponent_def Let_def peek_def [of "_ # _"])
  next
    case False
    then have "s1 = x @ t" using x by simp
    moreover have "peek x = peek s1" using ne \<open>s1 = x @ t\<close> by simp
    ultimately show ?thesis using s x False by (intro exI [of _ "c # x"]) (auto simp: skip_exponent_def Let_def peek_def [of "_ # _"])
  qed
next
  case False
  with assms show ?thesis by (intro exI [of _ "[]"]) (auto simp: skip_exponent_def)
qed

lemma number_end_split:
  assumes "number_end s = Inr r"
  shows "\<exists>x. s = x @ r \<and> number_end x = Inr []"
proof -
  let ?neg = "peek s = CHR ''-''"
  let ?s = "if ?neg then tl s else s"
  from assms obtain a b where parts: "skip_integer ?s = Inr a" "skip_fraction a = Inr b" "skip_exponent b = Inr r"
    by (auto simp: number_end_def rbind_Inr_iff)
  obtain x where x: "?s = x @ a" "skip_integer x = Inr []" using skip_integer_split [OF parts(1)] by blast
  obtain y where y: "a = y @ b" "skip_fraction y = Inr []" "y = [] \<or> hd y = CHR ''.''" using skip_fraction_split [OF parts(2)] by blast
  obtain z where z: "b = z @ r" "skip_exponent z = Inr []" "z = [] \<or> hd z = CHR ''e'' \<or> hd z = CHR ''E''"
    using skip_exponent_split [OF parts(3)] by blast
  have pz: "\<not> is_digit (peek z) \<and> peek z \<noteq> CHR ''.''" using z(3) by (cases z) (auto simp: peek_def [of "_ # _"])
  have pyz: "\<not> is_digit (peek (y @ z))" using y(3) pz by (cases y) (auto simp: peek_def [of "_ # _"])
  have "skip_integer (x @ y @ z) = Inr (y @ z)" "skip_fraction (y @ z) = Inr z"
    using skip_integer_append [OF x(2) pyz] skip_fraction_append [OF y(2)] pz by auto
  moreover have "x \<noteq> []" using x(2) by (auto simp: skip_integer_def split: if_splits)
  moreover have "is_digit (peek x)" using x(2) by (auto simp: skip_integer_def digit_range split: if_splits)
  then have "peek x \<noteq> CHR ''-''" by auto
  ultimately have "number_end ((if ?neg then ''-'' else []) @ x @ y @ z) = Inr []"
    using z(2) by (auto simp: number_end_def peek_def [of "_ # _"])
  moreover have "s = ((if ?neg then ''-'' else []) @ x @ y @ z) @ r"
    using x(1) y(1) z(1) by (cases s) (auto simp: peek_def split: if_splits)
  ultimately show ?thesis by blast
qed

lemma read_items_wf:
  "(\<And>s n v r m. rv s n = Inr (v, r, m) \<Longrightarrow> json_wf v) \<Longrightarrow> read_items f rv s n = Inr (vs, r, m) \<Longrightarrow> list_all json_wf vs"
proof (induction f arbitrary: s n vs)
  case (Suc f)
  from Suc.prems(2) obtain v r0 m0 where v: "rv s n = Inr (v, r0, m0)" by (auto simp: rbind_Inr_iff)
  with Suc.prems(2) have "vs = [v] \<or> (\<exists>ws s' m'. vs = v # ws \<and> read_items f rv s' m' = Inr (ws, r, m))"
    by (auto simp: rbind_Inr_iff split: if_splits)
  with Suc.IH Suc.prems(1) v show ?case by fastforce
qed simp

lemma read_members_wf:
  "(\<And>s n v r m. rv s n = Inr (v, r, m) \<Longrightarrow> json_wf v) \<Longrightarrow> read_members f rv names s n = Inr (ms, r, m) \<Longrightarrow>
   distinct (map fst ms) \<and> set (map fst ms) \<inter> set names = {} \<and> list_all (\<lambda>(k, v). json_wf v) ms"
proof (induction f arbitrary: names s n ms)
  case (Suc f)
  from Suc.prems(2) obtain key r0 where k: "read_string (whitespace s) = Inr (key, r0)" "key \<notin> set names"
    by (auto simp: rbind_Inr_iff split: if_splits)
  with Suc.prems(2) obtain r1 v r2 m2 where v: "whitespace r0 = CHR '':'' # r1" "rv r1 n = Inr (v, r2, m2)"
    by (auto simp: rbind_Inr_iff)
  with Suc.prems(2) k have "ms = [(key, v)] \<or> (\<exists>ns s' m'. ms = (key, v) # ns \<and> read_members f rv (key # names) s' m' = Inr (ns, r, m))"
    by (auto simp: rbind_Inr_iff expect_def take_char_def split: if_splits)
  then show ?case
  proof (elim disjE exE conjE)
    fix ns s' m' assume ns: "ms = (key, v) # ns" "read_members f rv (key # names) s' m' = Inr (ns, r, m)"
    from Suc.IH [OF Suc.prems(1) ns(2)] ns(1) k(2) Suc.prems(1) [OF v(2)] show ?thesis by auto
  qed (use k(2) Suc.prems(1) [OF v(2)] in auto)
qed simp

lemma read_value_wf: "read_json k s n = Inr (v, r, m) \<Longrightarrow> json_wf v"
proof (induction k arbitrary: s n v r m)
  case (Suc k)
  let ?s = "whitespace s"
  have num: "json_wf v" if "read_number ?s = Inr (v, r')" for r'
  proof -
    from that obtain r1 where e: "number_end ?s = Inr r1" "parsed_number (take (length ?s - length r1) ?s) = Inr v"
      by (auto simp: read_number_def rbind_Inr_iff)
    from number_end_split [OF e(1)] obtain x where "?s = x @ r1" "number_end x = Inr []" by blast
    with e(2) show ?thesis by (auto simp: parsed_number_def split: option.splits if_splits)
  qed
  have items: "list_all json_wf vs" if "read_items f (read_json k) s' n' = Inr (vs, r', m')" for f s' n' vs r' m'
    using that by (rule read_items_wf [rotated]) (rule Suc.IH)
  have members: "distinct (map fst ms) \<and> list_all (\<lambda>(k, v). json_wf v) ms"
    if "read_members f (read_json k) names s' n' = Inr (ms, r', m')" for f names s' n' ms r' m'
    using read_members_wf [OF _ that] Suc.IH by blast
  show ?case
    using Suc.prems
    by (auto simp: rbind_Inr_iff Let_def string_value_def dest: num dest!: items members split: if_splits)
qed simp

lemma parse_json_wf: "parse_json s = Inr v \<Longrightarrow> json_wf v"
  by (auto simp: parse_json_def rbind_Inr_iff simp del: read_json.simps dest: read_value_wf split: if_splits)

text \<open>
  C26: what the module encodes is parsed back to the same value.  Whenever encoding succeeds, the bytes
  are within the size bound and parsing them gives the value: with the same spelling of its numbers,
  the same strings byte for byte and the same order of members.
\<close>

theorem json_roundtrip:
  assumes "json_wf v" and "encode_json v = Inr s"
  shows "parse_json s = Inr v \<and> length s \<le> 1048576"
proof -
  from assms(2) obtain n where "write_json 0 v ([], 0) = Inr (s, n)" by (auto simp: encode_json_def rbind_Inr_iff)
  from write_json_Inr [OF this] have w: "s = json_text v" "nodes v \<le> max_json_values" "fits_below (Suc max_json_depth) v" "strings_ok v"
    "length s \<le> max_value_bytes" by auto
  have "reads (Suc max_json_depth) v" by (rule value_reads [OF w(3) assms(1) w(4)])
  then have "read_json (Suc max_json_depth) (json_text v @ []) 0 = Inr (v, [], 0 + nodes v)"
    using w(2) unfolding reads_def by (simp add: follows_def del: read_json.simps append_Nil2)
  with w(1,5) show ?thesis by (simp add: parse_json_def whitespace_def max_value_bytes_def del: read_json.simps)
qed

theorem json_roundtrip_witness:
  "parse_json (json_text (JObject [(''id'', JNumber (F64 False 7) ''7''), (''p'', JArray [JNull, JBool True])])) =
     Inr (JObject [(''id'', JNumber (F64 False 7) ''7''), (''p'', JArray [JNull, JBool True])])"
proof -
  let ?v = "JObject [(''id'', JNumber (F64 False 7) ''7''), (''p'', JArray [JNull, JBool True])]"
  have d: "is_digit (CHR ''7'')" by (simp add: is_digit_byte byte_def)
  have "round64 7 = Some 7" using round64_nat [of 7] by simp
  then have "from_chars ''7'' = Some (F64 False 7, [])"
    by (simp add: from_chars_def scan_number_def scan_fraction_def scan_exponent_def decimal_value_def digits_value_def d byte_def)
  moreover have "number_end ''7'' = Inr []"
    using d by (simp add: number_end_def skip_integer_def digit_range [symmetric] skip_fraction_def skip_exponent_def skip_digits_def peek_def)
  ultimately have wf: "json_wf ?v" by simp
  have asc: "validate_utf8 ''id'' = Inr ()" "validate_utf8 ''p'' = Inr ()"
    by (simp_all add: validate_utf8.simps utf8_scalar_def byte_def)
  have enc: "encode_json ?v = Inr (json_text ?v)"
    by (simp add: encode_json_def max_json_depth_def max_json_values_def append_out_def max_value_bytes_def quoted_def asc
        quoted_char_def byte_def quoted_text_def)
  from json_roundtrip [OF wf enc] show ?thesis by blast
qed

end
