(* ===== verification/Rpc_Protocol.thy ===== *)
theory Rpc_Protocol
  imports Rpc_Json_Correct "HOL-Library.Sublist"
begin

text \<open>
  \<^verbatim>\<open>protocol.cpp\<close> of the JSON-RPC module: validation of identifiers, requests and responses, construction of
  messages, and correlation of a batch of responses with its requests.  The \<open>int64_t\<close> arithmetic of
  \<open>safe_integer\<close> is over \<open>int\<close>: its exponent is capped, so that it cannot overflow.
\<close>

definition max_batch_size :: nat where "max_batch_size = 128"
definition max_method_bytes :: nat where "max_method_bytes = 1024"
definition max_safe_integer :: nat where "max_safe_integer = 9007199254740991"

section \<open>Identifiers\<close>

definition exponent_cap :: int where
  "exponent_cap = int max_value_bytes + 32"

fun capped_exponent :: "int \<Rightarrow> string \<Rightarrow> int" where
  "capped_exponent e [] = e"
| "capped_exponent e (c # cs) = capped_exponent (min exponent_cap (e * 10 + (int (byte c) - 48))) cs"

definition exponent_mark :: "char \<Rightarrow> bool" where
  "exponent_mark c \<longleftrightarrow> c = CHR ''e'' \<or> c = CHR ''E''"

definition spelled_exponent :: "string \<Rightarrow> int" where
  "spelled_exponent token =
     (case dropWhile (\<lambda>c. \<not> exponent_mark c) token of
        [] \<Rightarrow> 0
      | c # r \<Rightarrow>
          let negative = (r \<noteq> [] \<and> hd r = CHR ''-'');
              ds = (if r \<noteq> [] \<and> (hd r = CHR ''-'' \<or> hd r = CHR ''+'') then tl r else r);
              e = capped_exponent 0 ds
          in if negative then - e else e)"

definition spelled_fraction :: "string \<Rightarrow> int" where
  "spelled_fraction mantissa =
     (case find_char (CHR ''.'') mantissa of None \<Rightarrow> 0 | Some dot \<Rightarrow> int (length mantissa) - int dot - 1)"

text \<open>The loop over the mantissa from its end: whether a nonzero digit is found, and the zeros before it.\<close>

fun trailing_loop :: "string \<Rightarrow> int \<Rightarrow> int option" where
  "trailing_loop [] zeros = None"
| "trailing_loop (c # cs) zeros =
     (if c = CHR ''.'' \<or> c = CHR ''-'' then trailing_loop cs zeros
      else if c \<noteq> CHR ''0'' then Some zeros
      else trailing_loop cs (zeros + 1))"

definition integral_spelling :: "string \<Rightarrow> bool" where
  "integral_spelling token =
     (let mantissa = takeWhile (\<lambda>c. \<not> exponent_mark c) token in
      case trailing_loop (rev mantissa) 0 of
        None \<Rightarrow> True
      | Some zeros \<Rightarrow> spelled_fraction mantissa - spelled_exponent token \<le> zeros)"

definition safe_integer :: "json \<Rightarrow> bool" where
  "safe_integer v =
     (case v of
        JNumber (F64 neg q) token \<Rightarrow>
          q = of_int \<lfloor>q\<rfloor> \<and> q \<le> of_nat max_safe_integer \<and> integral_spelling token
      | _ \<Rightarrow> False)"

definition validate_id :: "json \<Rightarrow> unit outcome" where
  "validate_id v =
     (if v \<noteq> JNull \<and> (case v of JString _ \<Rightarrow> False | _ \<Rightarrow> True) \<and> \<not> safe_integer v then fail_invalid else Inr ())"

text \<open>\<open>id.number\<close>, zero for a value of another kind, with the negative zero made positive.\<close>

definition id_number :: "json \<Rightarrow> f64" where
  "id_number v =
     (case v of
        JNumber (F64 neg q) _ \<Rightarrow> if q = 0 then F64 False 0 else F64 neg q
      | JNumber Nonfinite _ \<Rightarrow> Nonfinite
      | _ \<Rightarrow> F64 False 0)"

definition number_text :: "json \<Rightarrow> string" where
  "number_text v = (case v of JNumber _ s \<Rightarrow> s | _ \<Rightarrow> [])"

definition id_key :: "json \<Rightarrow> string outcome" where
  "id_key v =
     rbind (validate_id v) (\<lambda>_.
       case v of
         JNull \<Rightarrow> Inr ''null''
       | JString s \<Rightarrow> Inr (''s:'' @ s)
       | _ \<Rightarrow> rbind (number_value (id_number v)) (\<lambda>j. Inr (''n:'' @ number_text j)))"

definition same_id :: "json \<Rightarrow> json \<Rightarrow> bool outcome" where
  "same_id l r = rbind (id_key l) (\<lambda>a. rbind (id_key r) (\<lambda>b. Inr (a = b)))"

section \<open>Messages\<close>

definition method_name :: "string \<Rightarrow> unit outcome" where
  "method_name m =
     (if length m > max_method_bytes then fail_limit
      else if prefix ''rpc.'' m then fail_invalid
      else validate_utf8 m)"

definition params_value :: "json \<Rightarrow> unit outcome" where
  "params_value p = (case p of JObject _ \<Rightarrow> Inr () | JArray _ \<Rightarrow> Inr () | _ \<Rightarrow> fail_invalid)"

definition version :: "json \<Rightarrow> unit outcome" where
  "version v = (if find_member ''jsonrpc'' v \<noteq> Some (JString ''2.0'') then fail_invalid else Inr ())"

definition each_message :: "json \<Rightarrow> (json \<Rightarrow> 's \<Rightarrow> 's outcome) \<Rightarrow> 's \<Rightarrow> 's outcome" where
  "each_message v visit st =
     (case v of
        JArray vs \<Rightarrow>
          if vs = [] then fail_invalid
          else if length vs > max_batch_size then fail_limit
          else fold (\<lambda>item r. rbind r (visit item)) vs (Inr st)
      | _ \<Rightarrow> visit v st)"

definition check_member :: "string \<Rightarrow> (json \<Rightarrow> unit outcome) \<Rightarrow> json \<Rightarrow> unit outcome" where
  "check_member key f v = (case find_member key v of None \<Rightarrow> Inr () | Some m \<Rightarrow> f m)"

definition validate_request :: "json \<Rightarrow> unit outcome" where
  "validate_request v =
     rbind (version v) (\<lambda>_.
       case find_member ''method'' v of
         Some (JString m) \<Rightarrow>
           if find_member ''result'' v \<noteq> None \<or> find_member ''error'' v \<noteq> None then fail_invalid
           else rbind (method_name m) (\<lambda>_. rbind (check_member ''params'' params_value v) (\<lambda>_.
             check_member ''id'' validate_id v))
       | _ \<Rightarrow> fail_invalid)"

definition validate_requests :: "json \<Rightarrow> unit outcome" where
  "validate_requests v = each_message v (\<lambda>item _. validate_request item) ()"

definition validate_error :: "json \<Rightarrow> unit outcome" where
  "validate_error failed =
     (case (find_member ''code'' failed, find_member ''message'' failed) of
        (Some c, Some (JString _)) \<Rightarrow> if safe_integer c then Inr () else fail_invalid
      | _ \<Rightarrow> fail_invalid)"

definition validate_response :: "json \<Rightarrow> unit outcome" where
  "validate_response v =
     rbind (version v) (\<lambda>_.
       case find_member ''id'' v of
         None \<Rightarrow> fail_invalid
       | Some i \<Rightarrow>
           if (find_member ''result'' v = None) = (find_member ''error'' v = None) \<or>
              find_member ''method'' v \<noteq> None \<or> find_member ''params'' v \<noteq> None then fail_invalid
           else rbind (validate_id i) (\<lambda>_. check_member ''error'' validate_error v))"

definition validate_responses :: "json \<Rightarrow> unit outcome" where
  "validate_responses v = each_message v (\<lambda>item _. validate_response item) ()"

definition optional_member :: "string \<Rightarrow> json option \<Rightarrow> (string \<times> json) list" where
  "optional_member key v = (case v of None \<Rightarrow> [] | Some x \<Rightarrow> [(key, x)])"

definition optional_check :: "(json \<Rightarrow> unit outcome) \<Rightarrow> json option \<Rightarrow> unit outcome" where
  "optional_check f v = (case v of None \<Rightarrow> Inr () | Some x \<Rightarrow> f x)"

definition rpc_request :: "string \<Rightarrow> json option \<Rightarrow> json option \<Rightarrow> json outcome" where
  "rpc_request method params ident =
     rbind (method_name method) (\<lambda>_. rbind (optional_check params_value params) (\<lambda>_.
       rbind (optional_check validate_id ident) (\<lambda>_. rbind (string_value ''2.0'') (\<lambda>ver.
         rbind (string_value method) (\<lambda>m.
           Inr (JObject ([(''jsonrpc'', ver), (''method'', m)] @ optional_member ''params'' params @ optional_member ''id'' ident)))))))"

definition envelope :: "json \<Rightarrow> (string \<times> json) list outcome" where
  "envelope ident =
     rbind (validate_id ident) (\<lambda>_. rbind (string_value ''2.0'') (\<lambda>ver. Inr [(''jsonrpc'', ver), (''id'', ident)]))"

definition rpc_result :: "json \<Rightarrow> json \<Rightarrow> json outcome" where
  "rpc_result ident v = rbind (envelope ident) (\<lambda>ms. Inr (JObject (ms @ [(''result'', v)])))"

definition rpc_error :: "json \<Rightarrow> json \<Rightarrow> string \<Rightarrow> json option \<Rightarrow> json outcome" where
  "rpc_error ident c msg data =
     (if \<not> safe_integer c then fail_invalid
      else rbind (envelope ident) (\<lambda>ms. rbind (string_value msg) (\<lambda>m.
        Inr (JObject (ms @ [(''error'', JObject ([(''code'', c), (''message'', m)] @ optional_member ''data'' data))])))))"

section \<open>Batches\<close>

text \<open>The visitor that collects the keys of the requests; a repeated key is an error.\<close>

definition collect_id :: "json \<Rightarrow> string list \<Rightarrow> string list outcome" where
  "collect_id item order =
     (case find_member ''id'' item of
        None \<Rightarrow> Inr order
      | Some i \<Rightarrow> rbind (id_key i) (\<lambda>key. if key \<in> set order then fail_invalid else Inr (order @ [key])))"

definition batch :: "json \<Rightarrow> json outcome" where
  "batch requests =
     (case requests of
        JArray items \<Rightarrow>
          rbind (validate_requests requests) (\<lambda>_.
            rbind (fold (\<lambda>item r. rbind r (collect_id item)) items (Inr [])) (\<lambda>_. Inr requests))
      | _ \<Rightarrow> fail_invalid)"

definition is_array :: "json \<Rightarrow> bool" where
  "is_array v = (case v of JArray _ \<Rightarrow> True | _ \<Rightarrow> False)"

text \<open>The visitor that files a response under its key; an unexpected or repeated key is an error.\<close>

definition receive :: "string list \<Rightarrow> json \<Rightarrow> (string \<times> json) list \<Rightarrow> (string \<times> json) list outcome" where
  "receive expected item received =
     (case find_member ''id'' item of
        None \<Rightarrow> fail_invalid
      | Some i \<Rightarrow> rbind (id_key i) (\<lambda>key.
          if key \<notin> set expected \<or> map_of received key \<noteq> None then fail_invalid
          else Inr (received @ [(key, item)])))"

definition correlate :: "json \<Rightarrow> json option \<Rightarrow> json outcome" where
  "correlate requests responses =
     rbind (validate_requests requests) (\<lambda>_.
       rbind (each_message requests collect_id []) (\<lambda>order.
         case responses of
           None \<Rightarrow> if order \<noteq> [] then fail_invalid else Inr (JArray [])
         | Some resp \<Rightarrow>
             if order = [] \<or> is_array requests \<noteq> is_array resp then fail_invalid
             else rbind (validate_responses resp) (\<lambda>_.
               rbind (each_message resp (receive order) []) (\<lambda>received.
                 if length received \<noteq> length order then fail_invalid
                 else Inr (JArray (map (\<lambda>key. the (map_of received key)) order))))))"

end
