(* ===== verification/Rpc_Ids.thy ===== *)
theory Rpc_Ids
  imports Rpc_Protocol
begin

text \<open>
  Identifiers of the JSON-RPC module: the check of the spelling accepts exactly the tokens that denote a safe
  integer, and two identifiers have the same key exactly when they have the same value.
\<close>

section \<open>The number a token denotes\<close>

text \<open>The exact value of a number token, before it is rounded.\<close>

definition token_value :: "string \<Rightarrow> rat" where
  "token_value token =
     (case scan_number token of
        None \<Rightarrow> 0
      | Some n \<Rightarrow> (if sn_neg n then -1 else 1) * decimal_value (sn_int n) (sn_frac n) (sn_exp n))"

definition all_digits :: "string \<Rightarrow> bool" where
  "all_digits s \<longleftrightarrow> (\<forall>c\<in>set s. is_digit c)"

definition exponent_text :: "string \<Rightarrow> int \<Rightarrow> bool" where
  "exponent_text ex e \<longleftrightarrow> ex = [] \<and> e = 0 \<or>
     (\<exists>c sg ds. ex = c # sg @ ds \<and> exponent_mark c \<and> sg \<in> {[], ''+'', ''-''} \<and> ds \<noteq> [] \<and> all_digits ds \<and>
        e = (if sg = ''-'' then - int (digits_value ds) else int (digits_value ds)))"

lemma skip_digits_all: "skip_digits s = [] \<longleftrightarrow> all_digits s"
  by (simp add: skip_digits_def all_digits_def dropWhile_eq_Nil_conv)

lemma peek_Cons [simp]: "peek (c # s) = c"
  by (simp add: peek_def)

lemma integer_text: "skip_integer x = Inr [] \<Longrightarrow> x \<noteq> [] \<and> all_digits x"
proof -
  assume x: "skip_integer x = Inr []"
  then have d: "is_digit (peek x)" by (auto simp: skip_integer_def digit_range split: if_splits)
  then obtain c r where "x = c # r" using peek_nonempty by (cases x) auto
  with x d show ?thesis by (auto simp: skip_integer_def skip_digits_all all_digits_def split: if_splits)
qed

lemma fraction_text: "skip_fraction y = Inr [] \<Longrightarrow> \<exists>fp. y = (if fp = [] then [] else CHR ''.'' # fp) \<and> all_digits fp"
proof (cases "peek y = CHR ''.''")
  case True
  then obtain r where r: "y = CHR ''.'' # r" by (cases y) auto
  assume "skip_fraction y = Inr []"
  with r have "is_digit (peek r)" "all_digits r" by (auto simp: skip_fraction_def skip_digits_all split: if_splits)
  with r peek_nonempty show ?thesis by (intro exI [of _ r]) auto
next
  case False
  assume "skip_fraction y = Inr []"
  with False show ?thesis by (intro exI [of _ "[]"]) (auto simp: skip_fraction_def all_digits_def)
qed

lemma exponent_text_exists: "skip_exponent z = Inr [] \<Longrightarrow> \<exists>e. exponent_text z e"
proof (cases "peek z = CHR ''e'' \<or> peek z = CHR ''E''")
  case True
  then obtain c s1 where z: "z = c # s1" "exponent_mark c" by (cases z) (auto simp: exponent_mark_def)
  let ?sg = "peek s1 = CHR ''+'' \<or> peek s1 = CHR ''-''"
  let ?ds = "if ?sg then tl s1 else s1"
  assume "skip_exponent z = Inr []"
  then have d: "is_digit (peek ?ds)" "all_digits ?ds" using True z by (auto simp: skip_exponent_def Let_def skip_digits_all split: if_splits)
  then have "?ds \<noteq> []" by (intro peek_nonempty)
  moreover define sg where "sg = (if ?sg then [peek s1] else [])"
  moreover have "s1 = sg @ ?ds" "sg \<in> {[], ''+'', ''-''}" using \<open>?ds \<noteq> []\<close> by (cases s1; auto simp: sg_def)+
  ultimately have "exponent_text z (if sg = ''-'' then - int (digits_value ?ds) else int (digits_value ?ds))"
    using z d(2) unfolding exponent_text_def by (intro disjI2 exI [of _ c] exI [of _ sg] exI [of _ ?ds]) auto
  then show ?thesis ..
next
  case False
  assume "skip_exponent z = Inr []"
  with False show ?thesis by (auto simp: skip_exponent_def exponent_text_def)
qed

lemma digits_mark: "all_digits s \<Longrightarrow> c \<in> set s \<Longrightarrow> \<not> exponent_mark c \<and> c \<noteq> CHR ''.'' \<and> c \<noteq> CHR ''-'' \<and> c \<noteq> CHR ''+''"
  using digit_not by (auto simp: all_digits_def exponent_mark_def)

lemma scan_exponent_text: "exponent_text ex e \<Longrightarrow> scan_exponent ex = (e, []) \<and> (ex = [] \<or> hd ex = CHR ''e'' \<or> hd ex = CHR ''E'')"
proof -
  assume "exponent_text ex e"
  then consider "ex = []" "e = 0" | c sg ds where "ex = c # sg @ ds" "exponent_mark c" "sg \<in> {[], ''+'', ''-''}" "ds \<noteq> []" "all_digits ds"
    "e = (if sg = ''-'' then - int (digits_value ds) else int (digits_value ds))" by (auto simp: exponent_text_def)
  then show ?thesis
  proof cases
    case (2 c sg ds)
    have tw: "takeWhile is_digit ds = ds" "dropWhile is_digit ds = []" using 2(5) by (auto simp: all_digits_def takeWhile_eq_all_conv dropWhile_eq_Nil_conv)
    have "hd ds \<noteq> CHR ''-'' \<and> hd ds \<noteq> CHR ''+''" using 2(4,5) digits_mark by (cases ds) auto
    with 2 show ?thesis by (auto simp: scan_exponent_def exponent_mark_def Let_def tw all_digits_def)
  qed (simp add: scan_exponent_def)
qed

text \<open>Every token of the grammar has a sign, digits, a fraction and an exponent.\<close>

lemma number_parts:
  assumes "number_end s = Inr []"
  shows "\<exists>neg ip fp ex e. s = (if neg then ''-'' else []) @ ip @ (if fp = [] then [] else CHR ''.'' # fp) @ ex \<and> ip \<noteq> [] \<and>
    all_digits ip \<and> all_digits fp \<and> exponent_text ex e \<and>
    scan_number s = Some \<lparr>sn_neg = neg, sn_int = ip, sn_frac = fp, sn_exp = e, sn_rest = []\<rparr>"
proof -
  let ?neg = "peek s = CHR ''-''"
  let ?s = "if ?neg then tl s else s"
  from assms obtain a b where parts: "skip_integer ?s = Inr a" "skip_fraction a = Inr b" "skip_exponent b = Inr []"
    by (auto simp: number_end_def rbind_Inr_iff)
  obtain ip where ip: "?s = ip @ a" "ip \<noteq> [] \<and> all_digits ip" using skip_integer_split [OF parts(1)] integer_text by blast
  obtain y where y: "a = y @ b" "skip_fraction y = Inr []" using skip_fraction_split [OF parts(2)] by blast
  obtain fp where fp: "y = (if fp = [] then [] else CHR ''.'' # fp)" "all_digits fp" using fraction_text [OF y(2)] by blast
  obtain e where e: "exponent_text b e" using exponent_text_exists [OF parts(3)] by blast
  have s: "s = (if ?neg then ''-'' else []) @ ip @ (if fp = [] then [] else CHR ''.'' # fp) @ b"
    using ip(1) y(1) fp(1) by (cases s) (auto split: if_splits)
  moreover have "scan_number ((if ?neg then ''-'' else []) @ ip @ (if fp = [] then [] else CHR ''.'' # fp) @ b) =
      Some \<lparr>sn_neg = ?neg, sn_int = ip, sn_frac = fp, sn_exp = e, sn_rest = []\<rparr>"
    using ip(2) fp(2) scan_exponent_text [OF e] by (intro scan_number_parts) (auto simp: all_digits_def)
  ultimately have "scan_number s = Some \<lparr>sn_neg = ?neg, sn_int = ip, sn_frac = fp, sn_exp = e, sn_rest = []\<rparr>" by simp
  with s ip(2) fp(2) e show ?thesis by blast
qed

section \<open>Integral spellings\<close>

lemma capped_min: "0 \<le> a \<Longrightarrow> 0 \<le> d \<Longrightarrow> min exponent_cap (min exponent_cap a * 10 + d) = min exponent_cap (a * 10 + d)"
  by (auto simp: exponent_cap_def min_def)

lemma capped_exponent_eq:
  "all_digits ds \<Longrightarrow> capped_exponent (min exponent_cap (int a)) ds = min exponent_cap (int (foldl (\<lambda>n c. n * 10 + (byte c - 48)) a ds))"
proof (induction ds arbitrary: a)
  case (Cons c ds)
  then have c: "48 \<le> byte c" by (simp add: all_digits_def is_digit_byte)
  then have d: "int (byte c) - 48 = int (byte c - 48)" by simp
  have v: "int (a * 10 + (byte c - 48)) = int a * 10 + int (byte c - 48)" unfolding of_nat_add of_nat_mult by simp
  have "min exponent_cap (min exponent_cap (int a) * 10 + (int (byte c) - 48)) = min exponent_cap (int (a * 10 + (byte c - 48)))"
    unfolding d v by (rule capped_min) simp_all
  moreover have "all_digits ds" using Cons.prems by (simp add: all_digits_def)
  ultimately show ?case using Cons.IH [of "a * 10 + (byte c - 48)"] by (simp only: capped_exponent.simps foldl.simps)
qed simp

lemma capped_exponent_value: "all_digits ds \<Longrightarrow> capped_exponent 0 ds = min exponent_cap (int (digits_value ds))"
  using capped_exponent_eq [of ds 0] by (simp add: digits_value_def exponent_cap_def min_def)

lemma trailing_loop_filter: "trailing_loop cs z = trailing_loop (filter (\<lambda>c. c \<noteq> CHR ''.'' \<and> c \<noteq> CHR ''-'') cs) z"
  by (induction cs z rule: trailing_loop.induct) auto

lemma trailing_value:
  "all_digits ds \<Longrightarrow> (case trailing_loop (rev ds) z of
     None \<Rightarrow> digits_value ds = 0
   | Some w \<Rightarrow> \<exists>k d. w = z + int k \<and> k \<le> length ds \<and> digits_value ds = d * 10 ^ k \<and> d mod 10 \<noteq> 0)"
proof (induction ds arbitrary: z rule: rev_induct)
  case (snoc c ds)
  have c: "is_digit c" "all_digits ds" using snoc.prems by (auto simp: all_digits_def)
  then have b: "48 \<le> byte c" "byte c \<le> 57" by (auto simp: is_digit_byte)
  have nd: "c \<noteq> CHR ''.''" "c \<noteq> CHR ''-''" using digit_not [OF c(1)] by auto
  show ?case
  proof (cases "c = CHR ''0''")
    case True
    then have v: "digits_value (ds @ [c]) = digits_value ds * 10" by (simp add: digits_value_snoc byte_def)
    show ?thesis
    proof (cases "trailing_loop (rev ds) (z + 1)")
      case None
      with snoc.IH [OF c(2), of "z + 1"] True v show ?thesis by simp
    next
      case (Some w)
      with snoc.IH [OF c(2), of "z + 1"] obtain k d where "w = z + 1 + int k" "k \<le> length ds" "digits_value ds = d * 10 ^ k" "d mod 10 \<noteq> 0"
        by auto
      then have "\<exists>k d. w = z + int k \<and> k \<le> length (ds @ [c]) \<and> digits_value (ds @ [c]) = d * 10 ^ k \<and> d mod 10 \<noteq> 0"
        unfolding v by (intro exI [of _ "Suc k"] exI [of _ d]) simp
      with True Some show ?thesis by simp
    qed
  next
    case False
    have "byte c \<noteq> byte (CHR ''0'')" using False by simp
    then have "byte c \<noteq> 48" by (simp add: byte_def)
    moreover obtain m where m: "byte c = 48 + m" using b(1) le_Suc_ex by blast
    ultimately have v: "digits_value (ds @ [c]) mod 10 \<noteq> 0" using b(2) by (simp add: digits_value_snoc m)
    have "\<exists>k d. z = z + int k \<and> k \<le> length (ds @ [c]) \<and> digits_value (ds @ [c]) = d * 10 ^ k \<and> d mod 10 \<noteq> 0"
      by (intro exI [of _ 0] exI [of _ "digits_value (ds @ [c])"]) (use v in simp)
    with False nd show ?thesis by simp
  qed
qed (simp add: digits_value_def)

lemma power_integral:
  assumes "d mod 10 \<noteq> 0"
  shows "(\<exists>i. of_nat d * 10 powi j = (of_int i :: rat)) \<longleftrightarrow> 0 \<le> j"
proof
  assume "0 \<le> j"
  then have "of_nat d * 10 powi j = (of_int (int d * 10 ^ nat j) :: rat)" by (simp add: power_int_def)
  then show "\<exists>i. of_nat d * 10 powi j = (of_int i :: rat)" by blast
next
  assume "\<exists>i. of_nat d * 10 powi j = (of_int i :: rat)"
  then obtain i where i: "of_nat d * 10 powi j = (of_int i :: rat)" by blast
  show "0 \<le> j"
  proof (rule ccontr)
    assume "\<not> 0 \<le> j"
    then have "(10 :: rat) powi j = inverse (10 ^ nat (- j))" by (simp add: power_int_def power_one_over inverse_eq_divide)
    with i have "(of_nat d :: rat) = of_int i * 10 ^ nat (- j)" by (simp add: field_simps)
    then have "(of_int (int d) :: rat) = of_int (i * 10 ^ nat (- j))" by simp
    then have "int d = i * 10 ^ nat (- j)" by (simp only: of_int_eq_iff)
    moreover have "(10 :: int) dvd 10 ^ nat (- j)" using \<open>\<not> 0 \<le> j\<close> by (intro dvd_power) auto
    ultimately have "(10 :: int) dvd int d" by simp
    then have "10 dvd d" by (metis int_dvd_int_iff of_nat_numeral)
    with assms show False by auto
  qed
qed

text \<open>The parts of a token as the check of the spelling sees them.\<close>

lemma spelling_parts:
  assumes "all_digits ip" and "all_digits fp" and "exponent_text ex e" and "length ex \<le> max_value_bytes"
    and s: "s = (if neg then ''-'' else []) @ ip @ (if fp = [] then [] else CHR ''.'' # fp) @ ex"
  shows "takeWhile (\<lambda>c. \<not> exponent_mark c) s = (if neg then ''-'' else []) @ ip @ (if fp = [] then [] else CHR ''.'' # fp)"
    and "spelled_exponent s = (if e < 0 then - min exponent_cap (- e) else min exponent_cap e)"
    and "spelled_fraction ((if neg then ''-'' else []) @ ip @ (if fp = [] then [] else CHR ''.'' # fp)) = int (length fp)"
proof -
  let ?m = "(if neg then ''-'' else []) @ ip @ (if fp = [] then [] else CHR ''.'' # fp)"
  have nm: "\<not> exponent_mark c" if "c \<in> set ?m" for c
    using that assms(1,2) digits_mark [of ip c] digits_mark [of fp c] by (auto simp: exponent_mark_def split: if_splits)
  have ex: "ex = [] \<or> exponent_mark (hd ex)" using assms(3) by (auto simp: exponent_text_def)
  have sm: "s = ?m @ ex" using s by simp
  show tw: "takeWhile (\<lambda>c. \<not> exponent_mark c) s = ?m" and dw: "spelled_exponent s = (if e < 0 then - min exponent_cap (- e) else min exponent_cap e)"
  proof -
    show "takeWhile (\<lambda>c. \<not> exponent_mark c) s = ?m"
      unfolding sm using ex nm by (cases ex) (auto simp: takeWhile_append)
    have d: "dropWhile (\<lambda>c. \<not> exponent_mark c) s = ex"
      unfolding sm using ex nm by (cases ex) (auto simp: dropWhile_append)
    consider "ex = []" "e = 0" | c sg ds where "ex = c # sg @ ds" "sg \<in> {[], ''+'', ''-''}" "ds \<noteq> []" "all_digits ds"
      "e = (if sg = ''-'' then - int (digits_value ds) else int (digits_value ds))" using assms(3) by (auto simp: exponent_text_def)
    then show "spelled_exponent s = (if e < 0 then - min exponent_cap (- e) else min exponent_cap e)"
    proof cases
      case 1
      then show ?thesis by (simp add: spelled_exponent_def d exponent_cap_def)
    next
      case (2 c sg ds)
      have "hd ds \<noteq> CHR ''-'' \<and> hd ds \<noteq> CHR ''+''" using 2(3,4) digits_mark by (cases ds) auto
      with 2 capped_exponent_value [OF 2(4)] show ?thesis
        by (auto simp: spelled_exponent_def d Let_def exponent_cap_def)
    qed
  qed
  have nd: "CHR ''.'' \<notin> set ((if neg then ''-'' else []) @ ip)" using digits_mark [OF assms(1)] by auto
  show "spelled_fraction ?m = int (length fp)"
  proof (cases "fp = []")
    case True
    then have "find_char (CHR ''.'') ?m = None" using nd by (simp add: find_char_None_iff)
    with True show ?thesis by (simp add: spelled_fraction_def)
  next
    case False
    then have "?m = ((if neg then ''-'' else []) @ ip) @ CHR ''.'' # fp" by simp
    then have "find_char (CHR ''.'') ?m = Some (length ((if neg then ''-'' else []) @ ip))" using find_char_append [OF nd, of fp] by (simp only:)
    with False show ?thesis by (simp add: spelled_fraction_def)
  qed
qed

lemma integral_spelling_iff:
  assumes "number_end s = Inr []" and "length s \<le> max_value_bytes"
  shows "integral_spelling s \<longleftrightarrow> (\<exists>i. token_value s = of_int i)"
proof -
  obtain neg ip fp ex e where s: "s = (if neg then ''-'' else []) @ ip @ (if fp = [] then [] else CHR ''.'' # fp) @ ex"
    and ok: "all_digits ip" "all_digits fp" "exponent_text ex e"
    and sc: "scan_number s = Some \<lparr>sn_neg = neg, sn_int = ip, sn_frac = fp, sn_exp = e, sn_rest = []\<rparr>"
    using number_parts [OF assms(1)] by blast
  have lex: "length ex \<le> max_value_bytes" using assms(2) s by simp
  note p = spelling_parts [OF ok lex s]
  have tv: "token_value s = (if neg then -1 else 1) * decimal_value ip fp e" by (simp add: token_value_def sc)
  have sign: "(\<exists>i. token_value s = of_int i) \<longleftrightarrow> (\<exists>i. decimal_value ip fp e = of_int i)"
    unfolding tv by (cases neg) (auto, metis of_int_minus minus_minus, metis of_int_minus)
  have ds: "all_digits (ip @ fp)" using ok by (auto simp: all_digits_def)
  have fl: "filter (\<lambda>c. c \<noteq> CHR ''.'' \<and> c \<noteq> CHR ''-'') x = x" if "all_digits x" for x
    using digits_mark [OF that] by (auto simp: filter_id_conv)
  have "trailing_loop (rev ((if neg then ''-'' else []) @ ip @ (if fp = [] then [] else CHR ''.'' # fp))) 0 = trailing_loop (rev (ip @ fp)) 0"
    by (subst (1 2) trailing_loop_filter) (simp add: fl ok rev_filter [symmetric])
  then have int: "integral_spelling s \<longleftrightarrow> (case trailing_loop (rev (ip @ fp)) 0 of None \<Rightarrow> True
      | Some zeros \<Rightarrow> int (length fp) - (if e < 0 then - min exponent_cap (- e) else min exponent_cap e) \<le> zeros)"
    unfolding integral_spelling_def Let_def p by simp
  show ?thesis
  proof (cases "trailing_loop (rev (ip @ fp)) 0")
    case None
    then have "digits_value (ip @ fp) = 0" using trailing_value [OF ds, of 0] by simp
    then have "decimal_value ip fp e = of_int 0" by (simp add: decimal_value_def)
    with None int sign show ?thesis by auto
  next
    case (Some w)
    then obtain k d where k: "w = int k" "k \<le> length (ip @ fp)" "digits_value (ip @ fp) = d * 10 ^ k" "d mod 10 \<noteq> 0"
      using trailing_value [OF ds, of 0] by auto
    have "decimal_value ip fp e = of_nat d * 10 powi (int k + (e - int (length fp)))"
      by (simp add: decimal_value_def k(3) power_int_add)
    then have "(\<exists>i. token_value s = of_int i) \<longleftrightarrow> 0 \<le> int k + (e - int (length fp))"
      using sign power_integral [OF k(4)] by simp
    moreover have "int k \<le> int max_value_bytes" "int (length fp) \<le> int max_value_bytes"
      using k(2) assms(2) s by (auto split: if_splits)
    ultimately show ?thesis using Some int k(1) by (auto simp: exponent_cap_def min_def)
  qed
qed

section \<open>Identifiers are compared by value\<close>

datatype rpc_id = Id_Null | Id_Text string | Id_Int int

text \<open>The identifier a value stands for: null, a string, or the integer a number token denotes exactly.\<close>

definition id_value :: "json \<Rightarrow> rpc_id option" where
  "id_value v =
     (case v of
        JNull \<Rightarrow> Some Id_Null
      | JString s \<Rightarrow> Some (Id_Text s)
      | JNumber x s \<Rightarrow>
          if token_value s = of_int \<lfloor>token_value s\<rfloor> \<and> \<bar>token_value s\<bar> \<le> of_nat max_safe_integer
          then Some (Id_Int \<lfloor>token_value s\<rfloor>) else None
      | _ \<Rightarrow> None)"

lemma integral_floor: "(\<exists>i. q = of_int i) \<longleftrightarrow> q = of_int \<lfloor>q\<rfloor>" for q :: rat
  by (metis floor_of_int)

lemma round64_large:
  assumes "2 ^ 53 < n" and "round64 (of_nat n) = Some r"
  shows "2 ^ 53 \<le> r"
proof -
  let ?b = "floorlog 2 n"
  have n0: "0 < n" using assms(1) by simp
  note e = exponent2_nat [OF n0]
  have b: "54 \<le> ?b"
  proof (rule ccontr)
    assume "\<not> 54 \<le> ?b"
    then have "(2 :: nat) ^ ?b \<le> 2 ^ 53" by (intro power_increasing) auto
    with e(3) assms(1) show False by linarith
  qed
  let ?u = "(2 :: rat) powi (int ?b - 53)"
  have ulp: "max (exponent2 (of_nat n)) (- 1022) - 52 = int ?b - 53" using e(1) b by simp
  have u: "?u = 2 ^ (?b - 53)" using b by (simp add: power_int_def nat_diff_distrib)
  have r: "r = of_int (round_even (of_nat n / ?u)) * ?u"
    using assms(2) unfolding round64_def ulp Let_def by (auto split: if_splits)
  have "?b - 1 = 52 + (?b - 53)" using b by simp
  then have "(2 :: nat) ^ (?b - 1) = 2 ^ 52 * 2 ^ (?b - 53)" by (simp only: power_add)
  then have "2 ^ 52 * 2 ^ (?b - 53) \<le> n" using e(2) by simp
  then have "(of_nat (2 ^ 52 * 2 ^ (?b - 53)) :: rat) \<le> of_nat n" by (simp only: of_nat_le_iff)
  then have "(2 :: rat) ^ 52 \<le> of_nat n / ?u" unfolding u by (simp add: field_simps)
  then have "2 ^ 52 \<le> \<lfloor>of_nat n / ?u\<rfloor>" by (simp add: le_floor_iff)
  then have "2 ^ 52 \<le> round_even (of_nat n / ?u)" by (simp add: round_even_def Let_def)
  then have "(of_int (2 ^ 52) :: rat) \<le> of_int (round_even (of_nat n / ?u))" by (simp only: of_int_le_iff)
  then have "2 ^ 52 * ?u \<le> r" unfolding r by (simp add: mult_right_mono u)
  moreover have "(2 :: rat) ^ 1 \<le> ?u" unfolding u using b by (intro power_increasing) auto
  then have "(2 :: rat) ^ 52 * 2 \<le> 2 ^ 52 * ?u" by simp
  ultimately show ?thesis by simp
qed

text \<open>A token is a safe integer exactly when the value it spells is one; then the double is that integer.\<close>

lemma safe_integer_exact:
  assumes "json_wf (JNumber x s)" and "length s \<le> max_value_bytes"
  shows "safe_integer (JNumber x s) \<longleftrightarrow> (\<exists>i. token_value s = of_int i \<and> \<bar>i\<bar> \<le> int max_safe_integer)"
    and "token_value s = of_int i \<Longrightarrow> \<bar>i\<bar> \<le> int max_safe_integer \<Longrightarrow> \<exists>neg. x = F64 neg (of_nat (nat \<bar>i\<bar>)) \<and> (i \<noteq> 0 \<longrightarrow> neg = (i < 0))"
proof -
  have ne: "number_end s = Inr []" and fc: "from_chars s = Some (x, [])" using assms(1) by simp_all
  obtain neg ip fp ex e where sc: "scan_number s = Some \<lparr>sn_neg = neg, sn_int = ip, sn_frac = fp, sn_exp = e, sn_rest = []\<rparr>"
    using number_parts [OF ne] by blast
  let ?d = "decimal_value ip fp e"
  have tv: "token_value s = (if neg then -1 else 1) * ?d" by (simp add: token_value_def sc)
  have d0: "0 \<le> ?d" by (simp add: decimal_value_def)
  obtain q where q: "x = F64 neg q" "?d = 0 \<and> q = 0 \<or> ?d \<noteq> 0 \<and> round64 ?d = Some q"
    using fc by (auto simp: from_chars_def sc Let_def split: if_splits option.splits)
  have exact: "q = of_nat (nat \<bar>i\<bar>)" if i: "token_value s = of_int i" "\<bar>i\<bar> \<le> int max_safe_integer" for i
  proof -
    have "?d = of_nat (nat \<bar>i\<bar>)" using i(1) d0 unfolding tv by (cases neg) (auto simp: abs_if)
    moreover have "nat \<bar>i\<bar> \<le> 2 ^ 53" using i(2) by (simp add: max_safe_integer_def)
    ultimately show ?thesis using q(2) round64_nat [of "nat \<bar>i\<bar>"] by (cases "nat \<bar>i\<bar> = 0") auto
  qed
  have sgn: "i \<noteq> 0 \<longrightarrow> neg = (i < 0)" if "token_value s = of_int i" for i
    using that d0 unfolding tv by (cases neg) (auto simp: of_int_less_0_iff [symmetric, where ?'a = rat] simp del: of_int_less_0_iff)
  show "\<exists>neg. x = F64 neg (of_nat (nat \<bar>i\<bar>)) \<and> (i \<noteq> 0 \<longrightarrow> neg = (i < 0))"
    if "token_value s = of_int i" "\<bar>i\<bar> \<le> int max_safe_integer"
    using exact [OF that] sgn [OF that(1)] q(1) by blast
  show "safe_integer (JNumber x s) \<longleftrightarrow> (\<exists>i. token_value s = of_int i \<and> \<bar>i\<bar> \<le> int max_safe_integer)"
  proof
    assume "\<exists>i. token_value s = of_int i \<and> \<bar>i\<bar> \<le> int max_safe_integer"
    then obtain i where i: "token_value s = of_int i" "\<bar>i\<bar> \<le> int max_safe_integer" by blast
    then have "q \<le> of_nat max_safe_integer" "q = of_int \<lfloor>q\<rfloor>" unfolding exact [OF i] by (auto simp: nat_le_iff)
    then show "safe_integer (JNumber x s)"
      using i(1) integral_spelling_iff [OF ne assms(2)] by (auto simp: safe_integer_def q(1))
  next
    assume safe: "safe_integer (JNumber x s)"
    then obtain i where i: "token_value s = of_int i" and le: "q \<le> of_nat max_safe_integer"
      using integral_spelling_iff [OF ne assms(2)] by (auto simp: safe_integer_def q(1))
    have di: "?d = of_nat (nat \<bar>i\<bar>)" using i d0 unfolding tv by (cases neg) (auto simp: abs_if)
    have "nat \<bar>i\<bar> \<le> 2 ^ 53"
    proof (rule ccontr)
      assume "\<not> nat \<bar>i\<bar> \<le> 2 ^ 53"
      then have "2 ^ 53 < nat \<bar>i\<bar>" by simp
      moreover from this have "?d \<noteq> 0" unfolding di by simp
      ultimately have "2 ^ 53 \<le> q" using q(2) round64_large unfolding di by blast
      with le show False by (simp add: max_safe_integer_def)
    qed
    then have "q = of_nat (nat \<bar>i\<bar>)" using q(2) round64_nat [of "nat \<bar>i\<bar>"] unfolding di by (cases "nat \<bar>i\<bar> = 0") auto
    with le have "\<bar>i\<bar> \<le> int max_safe_integer" by (simp add: nat_le_iff)
    with i show "\<exists>i. token_value s = of_int i \<and> \<bar>i\<bar> \<le> int max_safe_integer" by blast
  qed
qed

definition int_text :: "int \<Rightarrow> string" where
  "int_text i = the (to_chars (F64 (i < 0) (of_nat (nat \<bar>i\<bar>))))"

lemma int_text:
  assumes "\<bar>i\<bar> \<le> int max_safe_integer"
  shows "to_chars (F64 (i < 0) (of_nat (nat \<bar>i\<bar>))) = Some (int_text i)"
    and "from_chars (int_text i) = Some (F64 (i < 0) (of_nat (nat \<bar>i\<bar>)), [])"
proof -
  have "nat \<bar>i\<bar> \<le> 2 ^ 53" using assms by (simp add: max_safe_integer_def)
  from to_chars_nat [OF this, of "i < 0"] show "to_chars (F64 (i < 0) (of_nat (nat \<bar>i\<bar>))) = Some (int_text i)"
    "from_chars (int_text i) = Some (F64 (i < 0) (of_nat (nat \<bar>i\<bar>)), [])" by (auto simp: int_text_def)
qed

lemma int_text_inject:
  assumes "\<bar>i\<bar> \<le> int max_safe_integer" and "\<bar>j\<bar> \<le> int max_safe_integer"
  shows "int_text i = int_text j \<longleftrightarrow> i = j"
proof
  assume "int_text i = int_text j"
  then have "F64 (i < 0) (of_nat (nat \<bar>i\<bar>)) = F64 (j < 0) (of_nat (nat \<bar>j\<bar>))"
    using int_text(2) [OF assms(1)] int_text(2) [OF assms(2)] by (metis option.inject prod.inject)
  then have "(i < 0) = (j < 0)" "nat \<bar>i\<bar> = nat \<bar>j\<bar>" by (simp_all only: f64.inject of_nat_eq_iff)
  then show "i = j" by (auto simp: abs_if split: if_splits)
qed simp

definition number_short :: "json \<Rightarrow> bool" where
  "number_short v = (case v of JNumber _ s \<Rightarrow> length s \<le> max_value_bytes | _ \<Rightarrow> True)"

definition key_of :: "rpc_id \<Rightarrow> string" where
  "key_of i = (case i of Id_Null \<Rightarrow> ''null'' | Id_Text s \<Rightarrow> ''s:'' @ s | Id_Int n \<Rightarrow> ''n:'' @ int_text n)"

lemma id_value_number:
  "id_value (JNumber x s) = (if \<exists>i. token_value s = of_int i \<and> \<bar>i\<bar> \<le> int max_safe_integer then Some (Id_Int \<lfloor>token_value s\<rfloor>) else None)"
proof -
  have "(token_value s = of_int \<lfloor>token_value s\<rfloor> \<and> \<bar>token_value s\<bar> \<le> of_nat max_safe_integer) \<longleftrightarrow>
      (\<exists>i. token_value s = of_int i \<and> \<bar>i\<bar> \<le> int max_safe_integer)"
  proof -
    have "\<bar>of_int i :: rat\<bar> \<le> of_nat max_safe_integer \<longleftrightarrow> \<bar>i\<bar> \<le> int max_safe_integer" for i
      using of_int_le_iff [of "\<bar>i\<bar>" "int max_safe_integer", where ?'a = rat] by simp
    note bound = this
    show ?thesis
    proof
      assume a: "token_value s = of_int \<lfloor>token_value s\<rfloor> \<and> \<bar>token_value s\<bar> \<le> of_nat max_safe_integer"
      then have "\<bar>\<lfloor>token_value s\<rfloor>\<bar> \<le> int max_safe_integer" using bound [of "\<lfloor>token_value s\<rfloor>"] by argo
      with a show "\<exists>i. token_value s = of_int i \<and> \<bar>i\<bar> \<le> int max_safe_integer" by blast
    next
      assume "\<exists>i. token_value s = of_int i \<and> \<bar>i\<bar> \<le> int max_safe_integer"
      then obtain i where "token_value s = of_int i" "\<bar>i\<bar> \<le> int max_safe_integer" by blast
      with bound [of i] show "token_value s = of_int \<lfloor>token_value s\<rfloor> \<and> \<bar>token_value s\<bar> \<le> of_nat max_safe_integer" by simp
    qed
  qed
  then show ?thesis by (simp add: id_value_def)
qed

lemma id_value_bound: "id_value v = Some (Id_Int i) \<Longrightarrow> \<bar>i\<bar> \<le> int max_safe_integer"
proof (cases v)
  case (JNumber x s)
  assume "id_value v = Some (Id_Int i)"
  with JNumber obtain j where "token_value s = of_int j" "\<bar>j\<bar> \<le> int max_safe_integer" "i = \<lfloor>token_value s\<rfloor>"
    by (auto simp: id_value_number split: if_splits)
  then show ?thesis by simp
qed (auto simp: id_value_def)

lemma id_key_value:
  assumes "json_wf v" and "number_short v"
  shows "id_key v = (case id_value v of None \<Rightarrow> fail_invalid | Some i \<Rightarrow> Inr (key_of i))"
proof (cases v)
  case (JNumber x s)
  have len: "length s \<le> max_value_bytes" using assms(2) JNumber by (simp add: number_short_def)
  have wf: "json_wf (JNumber x s)" using assms(1) JNumber by simp
  note safe = safe_integer_exact [OF wf len]
  show ?thesis
  proof (cases "safe_integer (JNumber x s)")
    case False
    then show ?thesis using safe(1) by (simp add: JNumber id_key_def validate_id_def id_value_number)
  next
    case True
    then obtain i where i: "token_value s = of_int i" "\<bar>i\<bar> \<le> int max_safe_integer" using safe(1) by blast
    then obtain neg where x: "x = F64 neg (of_nat (nat \<bar>i\<bar>))" "i \<noteq> 0 \<longrightarrow> neg = (i < 0)" using safe(2) by blast
    then have n: "id_number (JNumber x s) = F64 (i < 0) (of_nat (nat \<bar>i\<bar>))" by (cases "i = 0") (auto simp: id_number_def)
    have "id_value (JNumber x s) = Some (Id_Int i)" using i by (auto simp: id_value_number)
    with True n int_text(1) [OF i(2)] show ?thesis
      by (simp add: JNumber id_key_def validate_id_def number_value_def number_text_def key_of_def)
  qed
qed (simp_all add: id_key_def validate_id_def id_value_def key_of_def safe_integer_def)

lemma key_of_inject:
  assumes "id_value v = Some i" and "id_value w = Some j"
  shows "key_of i = key_of j \<longleftrightarrow> i = j"
  using int_text_inject id_value_bound assms
  by (cases i; cases j) (auto simp: key_of_def)

text \<open>
  C28: identifiers are compared by value.  For well-formed values two identifiers are the same exactly
  when both are null, the same string, or numbers that spell the same integer of at most 2^53 - 1 in
  magnitude, whatever the spelling; a number that only rounds to such an integer, and every other
  value, is rejected.
\<close>

theorem rpc_id_semantics:
  assumes "json_wf v" and "json_wf w" and "number_short v" and "number_short w"
  shows "same_id v w = (case (id_value v, id_value w) of
     (Some i, Some j) \<Rightarrow> Inr (i = j) | _ \<Rightarrow> Inl Status_Invalid_Argument)"
  using id_key_value [OF assms(1,3)] id_key_value [OF assms(2,4)] key_of_inject [of v _ w]
  by (auto simp: same_id_def fail_invalid_def split: option.splits)

lemma seven:
  "json_wf (JNumber (F64 False 7) ''7'')" "json_wf (JNumber (F64 False 7) ''7.0'')"
  "token_value ''7'' = 7" "token_value ''7.0'' = 7"
proof -
  have d: "is_digit (CHR ''7'')" by (simp add: is_digit_byte byte_def)
  have r: "round64 7 = Some 7" using round64_nat [of 7] by simp
  have v: "decimal_value ''7'' [] 0 = 7" "decimal_value ''7'' ''0'' 0 = 7"
    by (simp_all add: decimal_value_def digits_value_def byte_def power_int_minus)
  have sc: "scan_number ''7'' = Some \<lparr>sn_neg = False, sn_int = ''7'', sn_frac = [], sn_exp = 0, sn_rest = []\<rparr>"
    "scan_number ''7.0'' = Some \<lparr>sn_neg = False, sn_int = ''7'', sn_frac = ''0'', sn_exp = 0, sn_rest = []\<rparr>"
    by (simp_all add: scan_number_def scan_fraction_def scan_exponent_def d)
  have "number_end ''7'' = Inr []" "number_end ''7.0'' = Inr []"
    using d by (simp_all add: number_end_def skip_integer_def digit_range [symmetric] skip_fraction_def skip_exponent_def skip_digits_def)
  with v r sc show "json_wf (JNumber (F64 False 7) ''7'')" "json_wf (JNumber (F64 False 7) ''7.0'')"
    by (simp_all add: from_chars_def)
  show "token_value ''7'' = 7" "token_value ''7.0'' = 7" using v sc by (simp_all add: token_value_def)
qed

theorem rpc_id_semantics_witness:
  "same_id (JNumber (F64 False 7) ''7'') (JNumber (F64 False 7) ''7.0'') = Inr True \<and> same_id (JString ''7'') (JNumber (F64 False 7) ''7'') = Inr False \<and>
   same_id (JBool True) JNull = Inl Status_Invalid_Argument"
  using rpc_id_semantics [OF seven(1,2)] rpc_id_semantics [OF _ seven(1), of "JString ''7''"] rpc_id_semantics [of "JBool True" JNull]
  by (simp add: number_short_def id_value_def max_value_bytes_def max_safe_integer_def seven)

end
