(* ===== verification/Rpc_Correlate.thy ===== *)
theory Rpc_Correlate
  imports Rpc_Ids "HOL-Library.Multiset"
begin

text \<open>Correlation of responses with requests, as \<^verbatim>\<open>protocol.cpp\<close> does it.\<close>

definition messages :: "json \<Rightarrow> json list" where
  "messages v = (case v of JArray vs \<Rightarrow> vs | _ \<Rightarrow> [v])"

definition has_id :: "json \<Rightarrow> bool" where
  "has_id item \<longleftrightarrow> find_member ''id'' item \<noteq> None"

definition item_key :: "json \<Rightarrow> string option" where
  "item_key item =
     (case find_member ''id'' item of
        None \<Rightarrow> None
      | Some i \<Rightarrow> (case id_key i of Inl _ \<Rightarrow> None | Inr k \<Rightarrow> Some k))"

definition visit_all :: "(json \<Rightarrow> 's \<Rightarrow> 's outcome) \<Rightarrow> json list \<Rightarrow> 's outcome \<Rightarrow> 's outcome" where
  "visit_all visit items r = fold (\<lambda>item r. rbind r (visit item)) items r"

lemma visit_all_simps [simp]:
  "visit_all visit [] r = r" "visit_all visit (i # is) r = visit_all visit is (rbind r (visit i))"
  "visit_all visit is (Inl e) = Inl e"
  by (simp_all add: visit_all_def) (induction "is", simp_all)

definition batch_ok :: "json \<Rightarrow> bool" where
  "batch_ok v = (case v of JArray vs \<Rightarrow> vs \<noteq> [] \<and> length vs \<le> max_batch_size | _ \<Rightarrow> True)"

lemma each_message_Inr:
  "each_message v visit st = Inr st' \<longleftrightarrow> batch_ok v \<and> visit_all visit (messages v) (Inr st) = Inr st'"
  by (cases v) (auto simp: each_message_def batch_ok_def messages_def visit_all_def)

lemma collect_all:
  "visit_all collect_id items (Inr acc) = Inr order \<longleftrightarrow>
     (\<exists>ks. order = acc @ ks \<and> map item_key (filter has_id items) = map Some ks \<and> distinct ks \<and> set acc \<inter> set ks = {})"
proof (induction items arbitrary: acc)
  case (Cons item items)
  show ?case
  proof (cases "find_member ''id'' item")
    case None
    then show ?thesis using Cons.IH [of acc] by (simp add: collect_id_def has_id_def)
  next
    case (Some i)
    show ?thesis
    proof (cases "id_key i")
      case (Inl e)
      with Some show ?thesis by (auto simp: collect_id_def has_id_def item_key_def)
    next
      case (Inr k)
      then have key: "item_key item = Some k" "has_id item" using Some by (simp_all add: item_key_def has_id_def)
      show ?thesis
      proof (cases "k \<in> set acc")
        case True
        with Some Inr key show ?thesis by (auto simp: collect_id_def fail_invalid_def Cons_eq_map_conv)
      next
        case False
        then have step: "visit_all collect_id (item # items) (Inr acc) = visit_all collect_id items (Inr (acc @ [k]))"
          using Some Inr by (simp add: collect_id_def)
        show ?thesis unfolding step Cons.IH
        proof
          assume "\<exists>ks. order = (acc @ [k]) @ ks \<and> map item_key (filter has_id items) = map Some ks \<and> distinct ks \<and> set (acc @ [k]) \<inter> set ks = {}"
          then obtain ks where "order = (acc @ [k]) @ ks" "map item_key (filter has_id items) = map Some ks" "distinct ks" "set (acc @ [k]) \<inter> set ks = {}" by blast
          then show "\<exists>ks. order = acc @ ks \<and> map item_key (filter has_id (item # items)) = map Some ks \<and> distinct ks \<and> set acc \<inter> set ks = {}"
            using key False by (intro exI [of _ "k # ks"]) auto
        next
          assume "\<exists>ks. order = acc @ ks \<and> map item_key (filter has_id (item # items)) = map Some ks \<and> distinct ks \<and> set acc \<inter> set ks = {}"
          then obtain ks where ks: "order = acc @ ks" "map item_key (filter has_id (item # items)) = map Some ks" "distinct ks" "set acc \<inter> set ks = {}" by blast
          then obtain ls where "ks = k # ls" using key by (cases ks) auto
          with ks key show "\<exists>ks. order = (acc @ [k]) @ ks \<and> map item_key (filter has_id items) = map Some ks \<and> distinct ks \<and> set (acc @ [k]) \<inter> set ks = {}"
            by (intro exI [of _ ls]) auto
        qed
      qed
    qed
  qed
qed auto

lemma receive_all:
  "visit_all (receive expected) items (Inr rec) = Inr rec' \<longleftrightarrow>
     (\<exists>ks. rec' = rec @ zip ks items \<and> map item_key items = map Some ks \<and> distinct ks \<and> set ks \<subseteq> set expected \<and>
        fst ` set rec \<inter> set ks = {})"
proof (induction items arbitrary: rec)
  case (Cons item items)
  show ?case
  proof (cases "item_key item")
    case None
    then have "\<exists>e. receive expected item rec = Inl e"
      by (auto simp: receive_def item_key_def fail_invalid_def split: option.splits sum.splits)
    with None show ?thesis by auto
  next
    case (Some k)
    then have r: "receive expected item rec = (if k \<notin> set expected \<or> map_of rec k \<noteq> None then fail_invalid else Inr (rec @ [(k, item)]))"
      by (auto simp: receive_def item_key_def split: option.splits sum.splits)
    have mo: "map_of rec k \<noteq> None \<longleftrightarrow> k \<in> fst ` set rec" by (simp add: map_of_eq_None_iff)
    show ?thesis
    proof (cases "k \<notin> set expected \<or> map_of rec k \<noteq> None")
      case True
      with r Some mo show ?thesis by (auto simp: fail_invalid_def Cons_eq_map_conv)
    next
      case False
      then have step: "visit_all (receive expected) (item # items) (Inr rec) = visit_all (receive expected) items (Inr (rec @ [(k, item)]))"
        using r by simp
      show ?thesis unfolding step Cons.IH
      proof
        assume "\<exists>ks. rec' = (rec @ [(k, item)]) @ zip ks items \<and> map item_key items = map Some ks \<and> distinct ks \<and> set ks \<subseteq> set expected \<and>
          fst ` set (rec @ [(k, item)]) \<inter> set ks = {}"
        then obtain ks where "rec' = (rec @ [(k, item)]) @ zip ks items" "map item_key items = map Some ks" "distinct ks" "set ks \<subseteq> set expected"
          "fst ` set (rec @ [(k, item)]) \<inter> set ks = {}" by blast
        then show "\<exists>ks. rec' = rec @ zip ks (item # items) \<and> map item_key (item # items) = map Some ks \<and> distinct ks \<and> set ks \<subseteq> set expected \<and>
          fst ` set rec \<inter> set ks = {}" using Some False mo by (intro exI [of _ "k # ks"]) auto
      next
        assume "\<exists>ks. rec' = rec @ zip ks (item # items) \<and> map item_key (item # items) = map Some ks \<and> distinct ks \<and> set ks \<subseteq> set expected \<and>
          fst ` set rec \<inter> set ks = {}"
        then obtain ks where ks: "rec' = rec @ zip ks (item # items)" "map item_key (item # items) = map Some ks" "distinct ks" "set ks \<subseteq> set expected"
          "fst ` set rec \<inter> set ks = {}" by blast
        then obtain ls where "ks = k # ls" using Some by (cases ks) auto
        with ks show "\<exists>ks. rec' = (rec @ [(k, item)]) @ zip ks items \<and> map item_key items = map Some ks \<and> distinct ks \<and> set ks \<subseteq> set expected \<and>
          fst ` set (rec @ [(k, item)]) \<inter> set ks = {}" by (intro exI [of _ ls]) auto
      qed
    qed
  qed
qed auto

text \<open>The item filed under a key.\<close>

lemma filed:
  assumes "map item_key items = map Some ks" and "distinct ks" and "r \<in> set items" and "item_key r = Some k"
  shows "map_of (zip ks items) k = Some r"
proof -
  have len: "length ks = length items" using assms(1) map_eq_imp_length_eq by fastforce
  obtain j where j: "j < length items" "items ! j = r" using assms(3) by (auto simp: in_set_conv_nth)
  have "map item_key items ! j = map Some ks ! j" using assms(1) by simp
  then have "ks ! j = k" using j len assms(4) by simp
  then have "(k, r) \<in> set (zip ks items)" using j len by (auto simp: in_set_zip)
  with assms(2) len show ?thesis by simp
qed

lemma items_filed:
  assumes "map item_key items = map Some ks" and "distinct ks"
  shows "map (\<lambda>k. the (map_of (zip ks items) k)) ks = items"
proof (rule nth_equalityI)
  have len: "length ks = length items" using assms(1) map_eq_imp_length_eq by fastforce
  then show "length (map (\<lambda>k. the (map_of (zip ks items) k)) ks) = length items" by simp
  fix j assume "j < length (map (\<lambda>k. the (map_of (zip ks items) k)) ks)"
  then have j: "j < length ks" by simp
  have "map item_key items ! j = map Some ks ! j" using assms(1) by simp
  then have "item_key (items ! j) = Some (ks ! j)" using j len by simp
  with filed [OF assms, of "items ! j"] j len show "map (\<lambda>k. the (map_of (zip ks items) k)) ks ! j = items ! j" by simp
qed

text \<open>Filing the responses and reading them in another order of the same keys.\<close>

lemma reordered:
  assumes ks: "map item_key items = map Some ks" "distinct ks" and order: "distinct order" "set order = set ks"
  shows "map (\<lambda>k. the (map_of (zip ks items) k)) order = rs \<longleftrightarrow> mset rs = mset items \<and> map item_key rs = map Some order"
proof -
  let ?f = "\<lambda>k. the (map_of (zip ks items) k)"
  have len: "length ks = length items" using ks(1) map_eq_imp_length_eq by fastforce
  have m: "mset order = mset ks" using order ks(2) by (simp add: set_eq_iff_mset_eq_distinct)
  have "mset (map ?f order) = mset (map ?f ks)" by (simp only: mset_map m)
  then have perm: "mset (map ?f order) = mset items" by (simp only: items_filed [OF ks])
  have key: "item_key (?f k) = Some k" if "k \<in> set order" for k
  proof -
    from that order(2) have "k \<in> set ks" by simp
    then obtain j where j: "j < length ks" "ks ! j = k" by (auto simp: in_set_conv_nth)
    have "map item_key items ! j = map Some ks ! j" using ks(1) by simp
    then have "item_key (items ! j) = Some k" using j len by simp
    with filed [OF ks, of "items ! j"] j len show ?thesis by simp
  qed
  show ?thesis
  proof
    assume "map ?f order = rs"
    then show "mset rs = mset items \<and> map item_key rs = map Some order" using perm key by auto
  next
    assume rs: "mset rs = mset items \<and> map item_key rs = map Some order"
    then have lr: "length rs = length order" using map_eq_imp_length_eq by fastforce
    have "?f (order ! j) = rs ! j" if j: "j < length rs" for j
    proof -
      have "map item_key rs ! j = map Some order ! j" using rs by simp
      then have "item_key (rs ! j) = Some (order ! j)" using j lr by simp
      moreover have "rs ! j \<in> set items" using rs j by (metis mset_eq_setD nth_mem)
      ultimately show ?thesis using filed [OF ks] by simp
    qed
    with lr show "map ?f order = rs" by (intro nth_equalityI) simp_all
  qed
qed

lemma received_iff:
  assumes "distinct order"
  shows "(\<exists>ks. map item_key items = map Some ks \<and> distinct ks \<and> set ks \<subseteq> set order \<and> length (zip ks items) = length order \<and>
      rs = map (\<lambda>k. the (map_of (zip ks items) k)) order) \<longleftrightarrow> mset rs = mset items \<and> map item_key rs = map Some order"
    (is "?L \<longleftrightarrow> ?R")
proof
  assume ?L
  then obtain ks where ks: "map item_key items = map Some ks" "distinct ks" "set ks \<subseteq> set order" "length (zip ks items) = length order"
    "rs = map (\<lambda>k. the (map_of (zip ks items) k)) order" by blast
  have "length ks = length items" using ks(1) map_eq_imp_length_eq by fastforce
  then have "card (set ks) = card (set order)" using ks(2,4) assms by (simp add: distinct_card)
  then have "set order = set ks" using ks(3) by (intro card_subset_eq [symmetric]) auto
  from reordered [OF ks(1,2) assms this] ks(5) show ?R by blast
next
  assume r: ?R
  define ks where "ks = map (\<lambda>x. the (item_key x)) items"
  have "item_key x \<noteq> None" if "x \<in> set items" for x
  proof -
    have "x \<in> set rs" using that r by (metis mset_eq_setD)
    then have "item_key x \<in> set (map Some order)" using r by (metis image_eqI set_map)
    then show ?thesis by auto
  qed
  then have ks: "map item_key items = map Some ks" by (auto simp: ks_def)
  have "mset (map Some ks) = mset (map item_key items)" by (simp only: ks)
  also have "\<dots> = mset (map item_key rs)" by (simp only: mset_map conjunct1 [OF r])
  also have "\<dots> = mset (map Some order)" by (simp only: conjunct2 [OF r])
  finally have "image_mset the (mset (map Some ks)) = image_mset the (mset (map Some order))" by (simp only:)
  then have "mset ks = mset order" by (simp add: image_mset.compositionality comp_def)
  then have s: "set order = set ks" "distinct ks" "length ks = length order"
    using assms by (metis mset_eq_setD, metis mset_eq_imp_distinct_iff, metis size_mset)
  have "length ks = length items" by (simp add: ks_def)
  then show ?L using reordered [OF ks s(2) assms s(1), of rs] ks s r by (intro exI [of _ ks]) auto
qed

lemma requests_collected:
  assumes "validate_requests reqs = Inr ()"
  shows "each_message reqs collect_id [] = Inr order \<longleftrightarrow> map item_key (filter has_id (messages reqs)) = map Some order \<and> distinct order"
proof -
  have "batch_ok reqs" using assms by (simp add: validate_requests_def each_message_Inr)
  then show ?thesis by (simp add: each_message_Inr collect_all)
qed

lemma responses_filed:
  assumes "validate_responses resps = Inr ()" and "distinct order"
  shows "(\<exists>rec. each_message resps (receive order) [] = Inr rec \<and> length rec = length order \<and>
      out = JArray (map (\<lambda>key. the (map_of rec key)) order)) \<longleftrightarrow>
      (\<exists>rs. mset rs = mset (messages resps) \<and> map item_key rs = map Some order \<and> out = JArray rs)"
proof -
  have "batch_ok resps" using assms(1) by (simp add: validate_responses_def each_message_Inr)
  then have B: "each_message resps (receive order) [] = Inr rec \<longleftrightarrow>
      (\<exists>ks. rec = zip ks (messages resps) \<and> map item_key (messages resps) = map Some ks \<and> distinct ks \<and> set ks \<subseteq> set order)" for rec
    by (simp add: each_message_Inr receive_all)
  show ?thesis
    unfolding B conj_assoc [symmetric, of "mset _ = _"] received_iff [OF assms(2), of "messages resps", symmetric] by blast
qed

lemma correlate_steps:
  "correlate reqs (Some resps) = Inr out \<longleftrightarrow> validate_requests reqs = Inr () \<and> validate_responses resps = Inr () \<and>
      is_array reqs = is_array resps \<and> (\<exists>order. each_message reqs collect_id [] = Inr order \<and> order \<noteq> [] \<and>
        (\<exists>rec. each_message resps (receive order) [] = Inr rec \<and> length rec = length order \<and>
          out = JArray (map (\<lambda>key. the (map_of rec key)) order)))"
  "correlate reqs None = Inr out \<longleftrightarrow> validate_requests reqs = Inr () \<and>
      (\<exists>order. each_message reqs collect_id [] = Inr order \<and> order = [] \<and> out = JArray [])"
  unfolding correlate_def by (auto simp: rbind_Inr_iff split: if_splits)

text \<open>
  C27: correlation.  Given responses, it succeeds exactly when both sides are valid, both are batches or
  both are single messages, the identifiers of the requests are distinct and at least one request has
  one, and the responses are, in some order, one for each identifier; the result lists the responses
  in the order of the requests.  Without responses it succeeds exactly when no request expects one.
\<close>

theorem correlate_correct:
  "(correlate reqs (Some resps) = Inr out \<longleftrightarrow>
      validate_requests reqs = Inr () \<and> validate_responses resps = Inr () \<and> is_array reqs = is_array resps \<and>
      (\<exists>ks rs. map item_key (filter has_id (messages reqs)) = map Some ks \<and> distinct ks \<and> ks \<noteq> [] \<and>
         mset rs = mset (messages resps) \<and> map item_key rs = map Some ks \<and> out = JArray rs)) \<and>
   (correlate reqs None = Inr out \<longleftrightarrow>
      validate_requests reqs = Inr () \<and> filter has_id (messages reqs) = [] \<and> out = JArray [])"
proof (cases "validate_requests reqs = Inr () \<and> validate_responses resps = Inr ()")
  case True
  then have "(\<exists>order. each_message reqs collect_id [] = Inr order \<and> order \<noteq> [] \<and>
      (\<exists>rec. each_message resps (receive order) [] = Inr rec \<and> length rec = length order \<and>
        out = JArray (map (\<lambda>key. the (map_of rec key)) order))) \<longleftrightarrow>
    (\<exists>order. (map item_key (filter has_id (messages reqs)) = map Some order \<and> distinct order) \<and> order \<noteq> [] \<and>
      (\<exists>rs. mset rs = mset (messages resps) \<and> map item_key rs = map Some order \<and> out = JArray rs))"
    using requests_collected [of reqs] responses_filed [of resps _ out]
    by (intro ex_cong1) (simp cong: conj_cong)
  also have "\<dots> \<longleftrightarrow> (\<exists>ks rs. map item_key (filter has_id (messages reqs)) = map Some ks \<and> distinct ks \<and> ks \<noteq> [] \<and>
     mset rs = mset (messages resps) \<and> map item_key rs = map Some ks \<and> out = JArray rs)" by blast
  finally show ?thesis using requests_collected [of reqs "[]"] True unfolding correlate_steps by simp
next
  case False
  then show ?thesis using requests_collected [of reqs "[]"] by (auto simp: correlate_steps)
qed

end
