(* ===== verification/Rpc_Module.thy ===== *)
theory Rpc_Module
  imports Rpc_Correlate
begin

text \<open>
  \<^verbatim>\<open>module.cpp\<close> of the JSON-RPC module: the callbacks a host calls through the C interface.  A host value is
  a datatype with one constructor per type code, a byte range may be a null pointer with a size, and
  the host's \<open>set_result\<close> is a function of the bytes it is given.  The instance is its counter
  \<open>next_id\<close>; \<open>automatic_ids\<close> shows that the \<open>uint64_t\<close> never wraps.
\<close>

datatype flatworm_bytes = Bytes string | Null_Bytes nat

datatype flatworm_value =
    Undefined_Value
  | Null_Value
  | Boolean_Value int
  | Number_Value f64
  | String_Value flatworm_bytes
  | Json_Value flatworm_bytes
  | Unknown_Value nat

fun bytes_size :: "flatworm_bytes \<Rightarrow> nat" where
  "bytes_size (Bytes s) = length s"
| "bytes_size (Null_Bytes n) = n"

fun bytes_view :: "flatworm_bytes \<Rightarrow> string" where
  "bytes_view (Bytes s) = s"
| "bytes_view (Null_Bytes n) = []"

record host_api =
  abi_version :: nat
  struct_size :: nat
  set_result :: "(string \<Rightarrow> flatworm_status) option"

datatype call_arguments = Arguments "flatworm_value list" | Null_Arguments nat

record flatworm_call =
  call_api :: "host_api option"
  call_instance :: "nat option"
  call_arguments :: call_arguments

definition module_abi_version :: nat where "module_abi_version = 1"

text \<open>\<open>sizeof(FlatwormModuleHostApi)\<close> with 64-bit pointers.\<close>

definition host_api_size :: nat where "host_api_size = 24"

definition host_api_ok :: "host_api option \<Rightarrow> bool" where
  "host_api_ok api =
     (case api of
        None \<Rightarrow> False
      | Some a \<Rightarrow> abi_version a = module_abi_version \<and> struct_size a \<ge> host_api_size \<and> set_result a \<noteq> None)"

text \<open>\<open>initialize\<close>: the counter of a new instance.\<close>

definition initialize :: "host_api option \<Rightarrow> nat outcome" where
  "initialize api = (if \<not> host_api_ok api then fail_invalid else Inr 1)"

definition string_argument :: "flatworm_value \<Rightarrow> string outcome" where
  "string_argument v = (case v of String_Value b \<Rightarrow> Inr (bytes_view b) | _ \<Rightarrow> fail_invalid)"

definition json_argument :: "flatworm_value \<Rightarrow> json outcome" where
  "json_argument v =
     (case v of
        Null_Value \<Rightarrow> Inr JNull
      | Boolean_Value b \<Rightarrow> Inr (JBool (b \<noteq> 0))
      | Number_Value x \<Rightarrow> number_value x
      | String_Value b \<Rightarrow> string_value (bytes_view b)
      | Json_Value b \<Rightarrow> parse_json (bytes_view b)
      | _ \<Rightarrow> fail_invalid)"

definition wire_argument :: "flatworm_value \<Rightarrow> json outcome" where
  "wire_argument v = (case v of String_Value b \<Rightarrow> parse_json (bytes_view b) | _ \<Rightarrow> json_argument v)"

definition optional_json :: "flatworm_value list \<Rightarrow> nat \<Rightarrow> json option outcome" where
  "optional_json args i =
     (if i \<ge> length args \<or> args ! i = Undefined_Value then Inr None
      else rbind (json_argument (args ! i)) (\<lambda>v. Inr (Some v)))"

fun check_arguments :: "nat \<Rightarrow> flatworm_value list \<Rightarrow> unit outcome" where
  "check_arguments used [] = Inr ()"
| "check_arguments used (v # vs) =
     (case v of
        Unknown_Value _ \<Rightarrow> fail_invalid
      | String_Value b \<Rightarrow>
          if bytes_size b > max_value_bytes - used then fail_limit
          else if b \<noteq> Bytes (bytes_view b) \<and> bytes_size b \<noteq> 0 then fail_invalid
          else check_arguments (used + bytes_size b) vs
      | Json_Value b \<Rightarrow>
          if bytes_size b > max_value_bytes - used then fail_limit
          else if b \<noteq> Bytes (bytes_view b) \<and> bytes_size b \<noteq> 0 then fail_invalid
          else check_arguments (used + bytes_size b) vs
      | _ \<Rightarrow> check_arguments used vs)"

text \<open>An operation gives the value to return and whether it used the automatic identifier.\<close>

type_synonym operation = "flatworm_value list \<Rightarrow> nat \<Rightarrow> (json \<times> bool) outcome"

type_synonym reply = "flatworm_status \<times> nat option \<times> string option"

text \<open>
  \<open>invoke\<close>: the status, the counter of the instance afterwards, and the bytes handed to \<open>set_result\<close>
  where it was called.  \<open>perform\<close> is its part after the guards, \<open>uint64_t\<close> arithmetic written out.
\<close>

definition perform :: "host_api \<Rightarrow> nat \<Rightarrow> flatworm_value list \<Rightarrow> operation \<Rightarrow> reply" where
  "perform api n args op =
     (case rbind (check_arguments 0 args) (\<lambda>_. rbind (op args n) (\<lambda>(v, advance).
         rbind (encode_json v) (\<lambda>encoded. Inr (advance, encoded)))) of
        Inl status \<Rightarrow> (status, Some n, None)
      | Inr (advance, encoded) \<Rightarrow>
          (let status = (case set_result api of Some f \<Rightarrow> f encoded | None \<Rightarrow> Status_Invalid_Argument) in
           (status, Some (if status = Status_Ok \<and> advance then (n + 1) mod 2 ^ 64 else n), Some encoded)))"

fun argument_count :: "call_arguments \<Rightarrow> nat" where
  "argument_count (Arguments vs) = length vs"
| "argument_count (Null_Arguments n) = n"

fun argument_list :: "call_arguments \<Rightarrow> flatworm_value list" where
  "argument_list (Arguments vs) = vs"
| "argument_list (Null_Arguments n) = []"

definition null_arguments :: "call_arguments \<Rightarrow> bool" where
  "null_arguments a = (case a of Null_Arguments _ \<Rightarrow> True | _ \<Rightarrow> False)"

definition invoke :: "flatworm_call option \<Rightarrow> nat \<Rightarrow> nat \<Rightarrow> operation \<Rightarrow> reply" where
  "invoke call least most op =
     (case call of
        None \<Rightarrow> (Status_Invalid_Argument, None, None)
      | Some c \<Rightarrow>
          let count = argument_count (call_arguments c) in
          if \<not> host_api_ok (call_api c) \<or> call_instance c = None \<or> count < least \<or> count > most \<or>
             count \<noteq> 0 \<and> null_arguments (call_arguments c)
          then (Status_Invalid_Argument, call_instance c, None)
          else perform (the (call_api c)) (the (call_instance c)) (argument_list (call_arguments c)) op)"

section \<open>The operations\<close>

text \<open>
  The arguments of a C++ call are evaluated in an unspecified order; here they are evaluated from left to
  right, which decides only the status reported when two of them are bad.
\<close>

definition plain :: "json outcome \<Rightarrow> (json \<times> bool) outcome" where
  "plain r = rbind r (\<lambda>v. Inr (v, False))"

definition request_operation :: operation where
  "request_operation args n =
     rbind (optional_json args 1) (\<lambda>params. rbind (optional_json args 2) (\<lambda>given.
       let automatic = (given = None) in
       rbind (if automatic then (if n > max_safe_integer then fail_limit else number_value (F64 False (of_nat n)))
              else Inr (the given)) (\<lambda>ident.
         rbind (string_argument (args ! 0)) (\<lambda>method.
           rbind (rpc_request method params (Some ident)) (\<lambda>v. Inr (v, automatic))))))"

definition notification_operation :: operation where
  "notification_operation args n =
     rbind (optional_json args 1) (\<lambda>params.
       rbind (string_argument (args ! 0)) (\<lambda>method. plain (rpc_request method params None)))"

definition batch_operation :: operation where
  "batch_operation args n = rbind (wire_argument (args ! 0)) (\<lambda>v. plain (batch v))"

definition result_operation :: operation where
  "result_operation args n =
     rbind (json_argument (args ! 0)) (\<lambda>ident. rbind (json_argument (args ! 1)) (\<lambda>v. plain (rpc_result ident v)))"

definition error_operation :: operation where
  "error_operation args n =
     rbind (optional_json args 3) (\<lambda>data. rbind (json_argument (args ! 0)) (\<lambda>ident.
       rbind (json_argument (args ! 1)) (\<lambda>c. rbind (string_argument (args ! 2)) (\<lambda>msg. plain (rpc_error ident c msg data)))))"

definition parse_request_operation :: operation where
  "parse_request_operation args n =
     rbind (wire_argument (args ! 0)) (\<lambda>v. rbind (validate_requests v) (\<lambda>_. plain (Inr v)))"

definition parse_response_operation :: operation where
  "parse_response_operation args n =
     rbind (wire_argument (args ! 0)) (\<lambda>v. rbind (validate_responses v) (\<lambda>_.
       rbind (optional_json args 1) (\<lambda>expected.
         case expected of
           None \<Rightarrow> plain (Inr v)
         | Some e \<Rightarrow>
             (case find_member ''id'' v of
                None \<Rightarrow> fail_invalid
              | Some i \<Rightarrow> rbind (same_id i e) (\<lambda>same. if same then plain (Inr v) else fail_invalid)))))"

definition response_blank :: "flatworm_value \<Rightarrow> bool" where
  "response_blank v =
     (case v of
        Undefined_Value \<Rightarrow> True
      | Null_Value \<Rightarrow> True
      | String_Value b \<Rightarrow> list_all (\<lambda>c. c = CHR '' '' \<or> c = CHR 0x09 \<or> c = CHR 0x0D \<or> c = CHR 0x0A) (bytes_view b)
      | _ \<Rightarrow> False)"

definition correlate_operation :: operation where
  "correlate_operation args n =
     rbind (wire_argument (args ! 0)) (\<lambda>requests.
       rbind (if length args = 2 \<and> \<not> response_blank (args ! 1)
              then rbind (wire_argument (args ! 1)) (\<lambda>v. Inr (Some v)) else Inr None) (\<lambda>responses.
         plain (correlate requests responses)))"

text \<open>The function table, with the argument counts each callback passes to \<open>invoke\<close>.\<close>

datatype rpc_function = Fn_Request | Fn_Notification | Fn_Batch | Fn_Result | Fn_Error | Fn_Parse_Request | Fn_Parse_Response | Fn_Correlate

definition rpc_callback :: "rpc_function \<Rightarrow> flatworm_call option \<Rightarrow> reply" where
  "rpc_callback f call =
     (case f of
        Fn_Request \<Rightarrow> invoke call 1 3 request_operation
      | Fn_Notification \<Rightarrow> invoke call 1 2 notification_operation
      | Fn_Batch \<Rightarrow> invoke call 1 1 batch_operation
      | Fn_Result \<Rightarrow> invoke call 2 2 result_operation
      | Fn_Error \<Rightarrow> invoke call 3 4 error_operation
      | Fn_Parse_Request \<Rightarrow> invoke call 1 1 parse_request_operation
      | Fn_Parse_Response \<Rightarrow> invoke call 1 2 parse_response_operation
      | Fn_Correlate \<Rightarrow> invoke call 1 2 correlate_operation)"

section \<open>Automatic identifiers\<close>

text \<open>A request whose identifier the module chooses.\<close>

definition automatic :: "rpc_function \<Rightarrow> flatworm_call \<Rightarrow> bool" where
  "automatic f c \<longleftrightarrow> f = Fn_Request \<and>
     (let args = argument_list (call_arguments c) in length args \<le> 2 \<or> args ! 2 = Undefined_Value)"

text \<open>
  A sequence of calls on one instance: the bytes of the automatic requests the host accepted, and the
  counter at the end.
\<close>

fun run_calls :: "(rpc_function \<times> flatworm_call) list \<Rightarrow> nat \<Rightarrow> string list \<times> nat" where
  "run_calls [] n = ([], n)"
| "run_calls ((f, c) # calls) n =
     (case rpc_callback f (Some (c\<lparr>call_instance := Some n\<rparr>)) of
        (status, inst, sent) \<Rightarrow>
          let (texts, m) = run_calls calls (case inst of Some k \<Rightarrow> k | None \<Rightarrow> n)
          in (case sent of
                Some t \<Rightarrow> if status = Status_Ok \<and> automatic f c then t # texts else texts
              | None \<Rightarrow> texts, m))"

text \<open>The identifier of a request, as the number its token denotes.\<close>

definition request_number :: "json \<Rightarrow> rat option" where
  "request_number v =
     (case find_member ''id'' v of
        Some (JNumber x t) \<Rightarrow> (case from_chars t of Some (F64 False q, []) \<Rightarrow> if x = F64 False q then Some q else None | _ \<Rightarrow> None)
      | _ \<Rightarrow> None)"

lemma encoded_text: "encode_json v = Inr s \<Longrightarrow> s = json_text v"
proof -
  assume "encode_json v = Inr s"
  then obtain n where "write_json 0 v ([], 0) = Inr (s, n)" by (auto simp: encode_json_def rbind_Inr_iff)
  from write_json_Inr [OF this] show ?thesis by simp
qed

lemma automatic_number:
  assumes "n \<le> max_safe_integer"
  shows "\<exists>t. number_value (F64 False (of_nat n)) = Inr (JNumber (F64 False (of_nat n)) t) \<and> from_chars t = Some (F64 False (of_nat n), [])"
proof -
  have "n \<le> 2 ^ 53" using assms by (simp add: max_safe_integer_def)
  from to_chars_nat [OF this, of False] show ?thesis by (auto simp: number_value_def)
qed

lemma rpc_request_id: "rpc_request m p (Some i) = Inr v \<Longrightarrow> find_member ''id'' v = Some i"
  by (auto simp: rpc_request_def find_member_def optional_member_def rbind_Inr_iff split: option.splits)

lemma optional_json_none:
  "optional_json args i = Inr r \<Longrightarrow> r = None \<longleftrightarrow> length args \<le> i \<or> args ! i = Undefined_Value"
  by (auto simp: optional_json_def rbind_Inr_iff split: if_splits)

text \<open>An operation other than a request never advances the counter; a request advances it when automatic.\<close>

lemma plain_Inr [simp]: "plain r = Inr (v, adv) \<longleftrightarrow> r = Inr v \<and> \<not> adv"
  by (auto simp: plain_def rbind_Inr_iff)

lemma request_operation_Inr:
  assumes "request_operation args n = Inr (v, adv)"
  shows "adv \<longleftrightarrow> length args \<le> 2 \<or> args ! 2 = Undefined_Value"
    and "adv \<Longrightarrow> n \<le> max_safe_integer \<and> request_number v = Some (of_nat n)"
proof -
  from assms obtain params given ident m where r:
    "optional_json args 2 = Inr given" "adv = (given = None)" "rpc_request m params (Some ident) = Inr v"
    "(if given = None then (if n > max_safe_integer then fail_limit else number_value (F64 False (of_nat n))) else Inr (the given)) = Inr ident"
    by (auto simp: request_operation_def rbind_Inr_iff Let_def)
  show "adv \<longleftrightarrow> length args \<le> 2 \<or> args ! 2 = Undefined_Value" using optional_json_none [OF r(1)] r(2) by simp
  assume adv
  with r(2,4) have n: "n \<le> max_safe_integer" "number_value (F64 False (of_nat n)) = Inr ident" by (auto split: if_splits)
  with automatic_number [OF n(1)] obtain t where "ident = JNumber (F64 False (of_nat n)) t" "from_chars t = Some (F64 False (of_nat n), [])" by auto
  with rpc_request_id [OF r(3)] n(1) show "n \<le> max_safe_integer \<and> request_number v = Some (of_nat n)" by (simp add: request_number_def)
qed

lemma other_operations:
  "notification_operation args n = Inr (v, adv) \<Longrightarrow> \<not> adv" "batch_operation args n = Inr (v, adv) \<Longrightarrow> \<not> adv"
  "result_operation args n = Inr (v, adv) \<Longrightarrow> \<not> adv" "error_operation args n = Inr (v, adv) \<Longrightarrow> \<not> adv"
  "parse_request_operation args n = Inr (v, adv) \<Longrightarrow> \<not> adv" "parse_response_operation args n = Inr (v, adv) \<Longrightarrow> \<not> adv"
  "correlate_operation args n = Inr (v, adv) \<Longrightarrow> \<not> adv"
  by (auto simp: notification_operation_def batch_operation_def result_operation_def error_operation_def parse_request_operation_def
    parse_response_operation_def correlate_operation_def rbind_Inr_iff split: option.splits if_splits)

text \<open>
  What a call may do: leave the counter alone and hand over nothing the host accepts, or hand over the
  encoding of the operation's value, advancing the counter when the operation says so.
\<close>

definition replies :: "operation \<Rightarrow> flatworm_value list \<Rightarrow> nat \<Rightarrow> reply \<Rightarrow> bool" where
  "replies op args n r =
     (case r of (status, inst, sent) \<Rightarrow>
        inst = Some n \<and> (sent = None \<or> status \<noteq> Status_Ok) \<or>
        status = Status_Ok \<and> (\<exists>v adv. op args n = Inr (v, adv) \<and> sent = Some (json_text v) \<and>
          inst = Some (if adv then (n + 1) mod 2 ^ 64 else n)))"

lemma perform_reply: "replies op args n (perform api n args op)"
proof (cases "rbind (check_arguments 0 args) (\<lambda>_. rbind (op args n) (\<lambda>(v, advance).
         rbind (encode_json v) (\<lambda>encoded. Inr (advance, encoded))))")
  case (Inl e)
  then show ?thesis by (simp add: perform_def replies_def)
next
  case (Inr r)
  then obtain v adv s where v: "op args n = Inr (v, adv)" "encode_json v = Inr s" "r = (adv, s)"
    by (auto simp: rbind_Inr_iff)
  define st where "st = (case set_result api of Some f \<Rightarrow> f s | None \<Rightarrow> Status_Invalid_Argument)"
  have "perform api n args op = (st, Some (if st = Status_Ok \<and> adv then (n + 1) mod 2 ^ 64 else n), Some s)"
    unfolding perform_def Inr v(3) by (simp add: Let_def st_def del: power_numeral)
  then show ?thesis using v(1) encoded_text [OF v(2)] by (simp add: replies_def del: power_numeral)
qed

lemma invoke_reply: "replies op (argument_list (call_arguments c)) n (invoke (Some (c\<lparr>call_instance := Some n\<rparr>)) least most op)"
proof -
  let ?c = "c\<lparr>call_instance := Some n\<rparr>"
  have "invoke (Some ?c) least most op = (Status_Invalid_Argument, Some n, None) \<or>
      invoke (Some ?c) least most op = perform (the (call_api c)) n (argument_list (call_arguments c)) op"
    by (simp add: invoke_def Let_def)
  then show ?thesis
  proof
    assume "invoke (Some ?c) least most op = (Status_Invalid_Argument, Some n, None)"
    then show ?thesis by (simp add: replies_def)
  qed (simp only: perform_reply)
qed

lemma callback_other:
  assumes "f \<noteq> Fn_Request"
  obtains least most op where "\<And>call. rpc_callback f call = invoke call least most op" "\<And>args n v adv. op args n = Inr (v, adv) \<Longrightarrow> \<not> adv"
proof (cases f)
  case Fn_Request
  with assms show ?thesis by simp
next
  case Fn_Notification
  then show ?thesis by (intro that [of 1 2 notification_operation]) (simp add: rpc_callback_def, erule other_operations)
next
  case Fn_Batch
  then show ?thesis by (intro that [of 1 1 batch_operation]) (simp add: rpc_callback_def, erule other_operations)
next
  case Fn_Result
  then show ?thesis by (intro that [of 2 2 result_operation]) (simp add: rpc_callback_def, erule other_operations)
next
  case Fn_Error
  then show ?thesis by (intro that [of 3 4 error_operation]) (simp add: rpc_callback_def, erule other_operations)
next
  case Fn_Parse_Request
  then show ?thesis by (intro that [of 1 1 parse_request_operation]) (simp add: rpc_callback_def, erule other_operations)
next
  case Fn_Parse_Response
  then show ?thesis by (intro that [of 1 2 parse_response_operation]) (simp add: rpc_callback_def, erule other_operations)
next
  case Fn_Correlate
  then show ?thesis by (intro that [of 1 2 correlate_operation]) (simp add: rpc_callback_def, erule other_operations)
qed

text \<open>One call: either the counter stays and no automatic request was accepted, or it advances by one.\<close>

lemma callback_reply:
  assumes "rpc_callback f (Some (c\<lparr>call_instance := Some n\<rparr>)) = (status, inst, sent)"
  shows "inst = Some n \<and> (sent = None \<or> status \<noteq> Status_Ok \<or> \<not> automatic f c) \<or>
    n \<le> max_safe_integer \<and> inst = Some (n + 1) \<and> status = Status_Ok \<and> automatic f c \<and>
      (\<exists>v. sent = Some (json_text v) \<and> request_number v = Some (of_nat n))"
proof (cases "f = Fn_Request")
  case True
  then have "invoke (Some (c\<lparr>call_instance := Some n\<rparr>)) 1 3 request_operation = (status, inst, sent)"
    using assms by (simp add: rpc_callback_def)
  with invoke_reply [of request_operation c n 1 3]
  have "replies request_operation (argument_list (call_arguments c)) n (status, inst, sent)" by simp
  then consider "inst = Some n" "sent = None \<or> status \<noteq> Status_Ok"
    | v adv where "status = Status_Ok" "request_operation (argument_list (call_arguments c)) n = Inr (v, adv)" "sent = Some (json_text v)"
       "inst = Some (if adv then (n + 1) mod 2 ^ 64 else n)" unfolding replies_def prod.case by blast
  then show ?thesis
  proof cases
    case 1
    then show ?thesis by blast
  next
    case (2 v adv)
    have a: "automatic f c = adv" using request_operation_Inr(1) [OF 2(2)] True by (auto simp: automatic_def Let_def)
    show ?thesis
    proof (cases adv)
      case True
      note n = request_operation_Inr(2) [OF 2(2) True]
      then have "(n + 1) mod 2 ^ 64 = n + 1" by (simp add: max_safe_integer_def)
      with 2(4) True have "inst = Some (n + 1)" by (simp only: if_True)
      with 2(1,3) n a True show ?thesis by blast
    next
      case False
      with 2(4) a show ?thesis by (simp only: if_False) blast
    qed
  qed
next
  case False
  then obtain least most op where op: "\<And>call. rpc_callback f call = invoke call least most op" "\<And>args n v adv. op args n = Inr (v, adv) \<Longrightarrow> \<not> adv"
    by (rule callback_other) blast
  have "replies op (argument_list (call_arguments c)) n (status, inst, sent)"
    using invoke_reply [of op c n least most] assms op(1) by simp
  then have "inst = Some n" unfolding replies_def prod.case using op(2) by force
  with False show ?thesis by (simp add: automatic_def)
qed

lemma run_calls_ids:
  "run_calls calls n = (texts, m) \<Longrightarrow> n \<le> max_safe_integer + 1 \<Longrightarrow>
   n \<le> m \<and> m \<le> max_safe_integer + 1 \<and> (\<exists>vs. texts = map json_text vs \<and> map request_number vs = map (\<lambda>i. Some (of_nat i)) [n..<m])"
proof (induction calls arbitrary: n texts)
  case (Cons fc calls)
  obtain f c where fc: "fc = (f, c)" by (cases fc)
  obtain status inst sent where cb: "rpc_callback f (Some (c\<lparr>call_instance := Some n\<rparr>)) = (status, inst, sent)"
    by (metis prod_cases3)
  show ?case using callback_reply [OF cb]
  proof
    assume "inst = Some n \<and> (sent = None \<or> status \<noteq> Status_Ok \<or> \<not> automatic f c)"
    then have "run_calls calls n = (texts, m)" using Cons.prems(1) fc cb
      by (auto simp: Let_def split: option.splits prod.splits if_splits)
    with Cons.IH Cons.prems(2) show ?thesis by blast
  next
    assume a: "n \<le> max_safe_integer \<and> inst = Some (n + 1) \<and> status = Status_Ok \<and> automatic f c \<and>
      (\<exists>v. sent = Some (json_text v) \<and> request_number v = Some (of_nat n))"
    then obtain v where v: "sent = Some (json_text v)" "request_number v = Some (of_nat n)" by blast
    obtain rest where rest: "run_calls calls (n + 1) = (rest, m)" "texts = json_text v # rest"
      using Cons.prems(1) fc cb a v(1) by (auto simp: Let_def split: prod.splits)
    from Cons.IH [OF rest(1)] a obtain vs where "n + 1 \<le> m" "m \<le> max_safe_integer + 1" "rest = map json_text vs"
      "map request_number vs = map (\<lambda>i. Some (of_nat i)) [n + 1..<m]" by auto
    then show ?thesis using rest(2) v(2) by (intro conjI exI [of _ "v # vs"]) (auto simp: upt_conv_Cons)
  qed
qed auto

text \<open>
  Automatic identifiers.  Over any sequence of calls on a new instance, with any host behind each of
  them, the automatic requests the host accepted carry the identifiers 1, 2, 3 and so on without a gap
  and without repetition, a call that fails uses none, and the counter ends at most one above the
  largest integer that is exact in a double, so that it never wraps.
\<close>

theorem automatic_ids:
  "case run_calls calls 1 of (texts, m) \<Rightarrow>
     1 \<le> m \<and> m \<le> 9007199254740992 \<and>
     (\<exists>vs. texts = map json_text vs \<and> map request_number vs = map (\<lambda>i. Some (of_nat i)) [1..<m])"
proof -
  obtain texts m where r: "run_calls calls 1 = (texts, m)" by fastforce
  have "1 \<le> m \<and> m \<le> max_safe_integer + 1 \<and> (\<exists>vs. texts = map json_text vs \<and> map request_number vs = map (\<lambda>i. Some (of_nat i)) [1..<m])"
    by (rule run_calls_ids [OF r]) (simp add: max_safe_integer_def)
  then show ?thesis unfolding r by (auto simp: max_safe_integer_def)
qed

end
