(* ===== verification/Cookie_Jar.thy ===== *)
theory Cookie_Jar
  imports Url
begin

text \<open>
  \<^verbatim>\<open>storage.cpp\<close>, the class \<open>InMemoryCookieJar\<close>: storing a cookie under its name, domain and path, and selecting
  the cookies of a request.  The clock of the C library is an argument; the list is in the order of
  insertion, as the vector is.  \<open>jar_holds\<close> characterises the jar by the history of its calls.
\<close>

record cookie =
  ck_name :: string
  ck_value :: string
  ck_domain :: string
  ck_path :: string
  ck_secure :: bool
  ck_http_only :: bool
  ck_host_only :: bool
  ck_expires :: "int option"
  ck_same_site :: string

text \<open>The default values of the members.\<close>

definition new_cookie :: cookie where
  "new_cookie = \<lparr>ck_name = [], ck_value = [], ck_domain = [], ck_path = ''/'', ck_secure = False, ck_http_only = False,
     ck_host_only = True, ck_expires = None, ck_same_site = []\<rparr>"

definition domain_matches :: "cookie \<Rightarrow> string \<Rightarrow> bool" where
  "domain_matches c h =
     (let cookie_domain = to_lower (ck_domain c); request_host = to_lower h;
          from = length request_host - length cookie_domain in
      if cookie_domain = [] then False
      else if ck_host_only c then request_host = cookie_domain
      else if request_host = cookie_domain then True
      else length request_host > length cookie_domain \<and> drop from request_host = cookie_domain \<and>
           request_host ! (from - 1) = CHR ''.'')"

definition path_matches :: "cookie \<Rightarrow> string \<Rightarrow> bool" where
  "path_matches c request_path =
     (let n = length (ck_path c) in
      if ck_path c = [] \<or> ck_path c = ''/'' then True
      else if take n request_path \<noteq> ck_path c then False
      else length request_path = n \<or> last (ck_path c) = CHR ''/'' \<or> request_path ! n = CHR ''/'')"

definition expired :: "int \<Rightarrow> cookie \<Rightarrow> bool" where
  "expired now c = (case ck_expires c of None \<Rightarrow> False | Some t \<Rightarrow> t \<le> now)"

text \<open>The part of \<open>set\<close> before the store changes: the cookie as it is kept, or none where it is refused.\<close>

definition accept_cookie :: "url \<Rightarrow> cookie \<Rightarrow> cookie option" where
  "accept_cookie site c =
     (if ck_name c = [] \<or> host site = [] then None
      else
        let placed =
          (if ck_domain c = [] then Some (c\<lparr>ck_domain := to_lower (host site), ck_host_only := True\<rparr>)
           else
             let c1 = c\<lparr>ck_domain := to_lower (dropWhile (\<lambda>x. x = CHR ''.'') (ck_domain c))\<rparr> in
             if \<not> domain_matches c1 (host site) then None else Some c1)
        in map_option (\<lambda>c1. if ck_path c1 = [] \<or> hd (ck_path c1) \<noteq> CHR ''/'' then c1\<lparr>ck_path := ''/''\<rparr> else c1) placed)"

definition cookie_key :: "cookie \<Rightarrow> string \<times> string \<times> string" where
  "cookie_key c = (ck_name c, ck_domain c, ck_path c)"

definition jar_set :: "int \<Rightarrow> url \<Rightarrow> cookie \<Rightarrow> cookie list \<Rightarrow> cookie list" where
  "jar_set now site c jar =
     (case accept_cookie site c of
        None \<Rightarrow> jar
      | Some c1 \<Rightarrow>
          let kept = filter (\<lambda>e. cookie_key e \<noteq> cookie_key c1) jar
          in if expired now c1 then kept else kept @ [c1])"

definition selected :: "int \<Rightarrow> url \<Rightarrow> cookie \<Rightarrow> bool" where
  "selected now site c \<longleftrightarrow>
     \<not> expired now c \<and> domain_matches c (host site) \<and> \<not> (ck_secure c \<and> scheme site \<noteq> ''https'') \<and>
     path_matches c (if path site = [] then ''/'' else path site)"

text \<open>\<open>std::stable_sort\<close> by decreasing length of the path.\<close>

definition jar_get :: "int \<Rightarrow> url \<Rightarrow> cookie list \<Rightarrow> cookie list" where
  "jar_get now site jar = sort_key (\<lambda>c. - int (length (ck_path c))) (filter (selected now site) jar)"

definition cookie_header :: "int \<Rightarrow> url \<Rightarrow> cookie list \<Rightarrow> string" where
  "cookie_header now site jar =
     fold (\<lambda>c header. (if header \<noteq> [] then header @ ''; '' else header) @ ck_name c @ ''='' @ ck_value c) (jar_get now site jar) []"

section \<open>Histories\<close>

datatype jar_op = Set_Cookie int url cookie | Clear_Cookies

primrec jar_step :: "jar_op \<Rightarrow> cookie list \<Rightarrow> cookie list" where
  "jar_step (Set_Cookie now site c) jar = jar_set now site c jar"
| "jar_step Clear_Cookies jar = []"

definition run_jar :: "jar_op list \<Rightarrow> cookie list" where
  "run_jar ops = fold jar_step ops []"

text \<open>What a call does to the cookie stored under a key: put it there, take it away, or nothing.\<close>

definition writes :: "string \<times> string \<times> string \<Rightarrow> jar_op \<Rightarrow> bool" where
  "writes k op =
     (case op of Set_Cookie _ site c \<Rightarrow> (case accept_cookie site c of None \<Rightarrow> False | Some c1 \<Rightarrow> cookie_key c1 = k)
      | Clear_Cookies \<Rightarrow> True)"

definition stores :: "cookie \<Rightarrow> jar_op \<Rightarrow> bool" where
  "stores c1 op = (case op of Set_Cookie now site c \<Rightarrow> accept_cookie site c = Some c1 \<and> \<not> expired now c1 | Clear_Cookies \<Rightarrow> False)"

text \<open>The cookie is in the jar when the last call that wrote its key stored it.\<close>

definition last_stored :: "jar_op list \<Rightarrow> cookie \<Rightarrow> bool" where
  "last_stored ops c = (case find (writes (cookie_key c)) (rev ops) of None \<Rightarrow> False | Some op \<Rightarrow> stores c op)"

lemma run_jar_snoc: "run_jar (ops @ [op]) = jar_step op (run_jar ops)"
  by (simp add: run_jar_def)

lemma set_jar_step: "c \<in> set (jar_step op jar) \<longleftrightarrow> stores c op \<or> \<not> writes (cookie_key c) op \<and> c \<in> set jar"
  by (cases op) (auto simp: jar_set_def stores_def writes_def Let_def split: option.splits)

lemma jar_holds: "c \<in> set (run_jar ops) \<longleftrightarrow> last_stored ops c"
proof (induction ops rule: rev_induct)
  case Nil
  then show ?case by (simp add: run_jar_def last_stored_def)
next
  case (snoc op ops)
  have "stores c op \<Longrightarrow> writes (cookie_key c) op" by (auto simp: stores_def writes_def split: jar_op.splits)
  with snoc show ?case by (auto simp: run_jar_snoc set_jar_step last_stored_def)
qed

text \<open>What the jar keeps of a cookie.\<close>

definition cookie_wf :: "cookie \<Rightarrow> bool" where
  "cookie_wf c \<longleftrightarrow> ck_name c \<noteq> [] \<and> ck_domain c \<noteq> [] \<and> to_lower (ck_domain c) = ck_domain c \<and>
     ck_path c \<noteq> [] \<and> hd (ck_path c) = CHR ''/''"

lemma domain_matches_nonempty: "domain_matches c h \<Longrightarrow> ck_domain c \<noteq> []"
  by (auto simp: domain_matches_def to_lower_def Let_def)

lemma accept_cookie_Some:
  assumes "accept_cookie site c = Some c1"
  shows "cookie_wf c1 \<and> domain_matches c1 (host site) \<and> ck_name c1 = ck_name c \<and> ck_value c1 = ck_value c \<and>
    ck_secure c1 = ck_secure c \<and> ck_http_only c1 = ck_http_only c \<and> ck_expires c1 = ck_expires c"
proof -
  have dm: "domain_matches (x\<lparr>ck_path := p\<rparr>) h = domain_matches x h" for x p h
    by (simp add: domain_matches_def)
  show ?thesis
  proof (cases "ck_domain c = []")
    case True
    with assms show ?thesis
      by (auto simp: accept_cookie_def cookie_wf_def domain_matches_def to_lower_def Let_def split: if_splits)
  next
    case False
    with assms show ?thesis
      by (auto simp: accept_cookie_def cookie_wf_def Let_def dm dest: domain_matches_nonempty split: if_splits)
  qed
qed

section \<open>The cookies of a request\<close>

text \<open>A host is the domain itself or, for a cookie that is not confined to one host, a subdomain of it.\<close>

definition under_domain :: "cookie \<Rightarrow> string \<Rightarrow> bool" where
  "under_domain c h \<longleftrightarrow> to_lower h = ck_domain c \<or> \<not> ck_host_only c \<and> suffix (CHR ''.'' # ck_domain c) (to_lower h)"

text \<open>A path is the cookie's path or lies below it, at a slash.\<close>

definition under_path :: "cookie \<Rightarrow> string \<Rightarrow> bool" where
  "under_path c p \<longleftrightarrow> ck_path c = ''/'' \<or> p = ck_path c \<or> last (ck_path c) = CHR ''/'' \<and> prefix (ck_path c) p \<or>
     prefix (ck_path c @ ''/'') p"

definition in_scope :: "int \<Rightarrow> url \<Rightarrow> cookie \<Rightarrow> bool" where
  "in_scope now site c \<longleftrightarrow> \<not> expired now c \<and> under_domain c (host site) \<and> (ck_secure c \<longrightarrow> scheme site = ''https'') \<and>
     under_path c (if path site = [] then ''/'' else path site)"

lemma domain_matches_under:
  assumes "cookie_wf c"
  shows "domain_matches c h \<longleftrightarrow> under_domain c h"
proof -
  let ?d = "ck_domain c" and ?h = "to_lower h"
  let ?from = "length ?h - length ?d"
  have d: "?d \<noteq> []" "to_lower ?d = ?d" using assms by (simp_all add: cookie_wf_def)
  have "length ?h > length ?d \<and> drop ?from ?h = ?d \<and> ?h ! (?from - 1) = CHR ''.'' \<longleftrightarrow> suffix (CHR ''.'' # ?d) ?h"
  proof
    assume a: "length ?h > length ?d \<and> drop ?from ?h = ?d \<and> ?h ! (?from - 1) = CHR ''.''"
    then obtain k where k: "?from = Suc k" by (cases ?from) auto
    from a have "?h ! k = CHR ''.''" "drop (Suc k) ?h = ?d" unfolding k by simp_all
    moreover have "k < length ?h" using k by linarith
    ultimately
    have "?h = take k ?h @ CHR ''.'' # ?d" using Cons_nth_drop_Suc [of k ?h] append_take_drop_id [of k ?h] by simp
    then show "suffix (CHR ''.'' # ?d) ?h" unfolding suffix_def by blast
  next
    assume "suffix (CHR ''.'' # ?d) ?h"
    then obtain z where z: "?h = z @ CHR ''.'' # ?d" by (auto simp: suffix_def)
    then have f: "?from = Suc (length z)" by simp
    show "length ?h > length ?d \<and> drop ?from ?h = ?d \<and> ?h ! (?from - 1) = CHR ''.''"
      unfolding f unfolding z by simp
  qed
  with d show ?thesis unfolding domain_matches_def under_domain_def Let_def by auto
qed

lemma path_matches_under:
  assumes "cookie_wf c"
  shows "path_matches c p \<longleftrightarrow> under_path c p"
proof -
  let ?q = "ck_path c"
  have q: "?q \<noteq> []" using assms by (simp add: cookie_wf_def)
  have "take (length ?q) p = ?q \<longleftrightarrow> (\<exists>r. p = ?q @ r)" by (metis append_eq_conv_conj append_take_drop_id)
  moreover have "prefix (?q @ ''/'') (?q @ r) \<longleftrightarrow> r \<noteq> [] \<and> hd r = CHR ''/''" for r by (cases r) auto
  moreover have "(?q @ r) ! length ?q = CHR ''/'' \<longleftrightarrow> hd r = CHR ''/''" if "r \<noteq> []" for r using that by (cases r) auto
  ultimately show ?thesis using q unfolding path_matches_def under_path_def Let_def by (auto simp: prefix_def)
qed

lemma last_stored_wf:
  assumes "last_stored ops c"
  obtains now site c0 where "Set_Cookie now site c0 \<in> set ops" "accept_cookie site c0 = Some c" "\<not> expired now c" "cookie_wf c"
proof -
  from assms obtain op where op: "find (writes (cookie_key c)) (rev ops) = Some op" "stores c op"
    by (auto simp: last_stored_def split: option.splits)
  then obtain now site c0 where "op = Set_Cookie now site c0" "accept_cookie site c0 = Some c" "\<not> expired now c"
    by (auto simp: stores_def split: jar_op.splits)
  moreover have "op \<in> set ops" using op(1) by (auto simp: find_Some_iff) (metis length_rev nth_mem set_rev)
  ultimately show ?thesis using accept_cookie_Some that by blast
qed

lemma selected_in_scope: "cookie_wf c \<Longrightarrow> selected now site c \<longleftrightarrow> in_scope now site c"
  by (auto simp: selected_def in_scope_def domain_matches_under path_matches_under)

lemma set_jar_get: "set (jar_get now site jar) = {c \<in> set jar. selected now site c}"
  by (auto simp: jar_get_def)

lemma run_jar_distinct: "distinct (map cookie_key (run_jar ops))"
proof (induction ops rule: rev_induct)
  case (snoc op ops)
  then show ?case unfolding run_jar_snoc
    by (cases op) (auto simp: jar_set_def Let_def distinct_map_filter split: option.splits)
qed (simp add: run_jar_def)

text \<open>The pairs of the header, with their separator.\<close>

fun header_join :: "string list \<Rightarrow> string" where
  "header_join [] = []"
| "header_join [x] = x"
| "header_join (x # y # ys) = x @ ''; '' @ header_join (y # ys)"

lemma cookie_header_fold:
  "fold (\<lambda>c header. (if header \<noteq> [] then header @ ''; '' else header) @ ck_name c @ ''='' @ ck_value c) cs (h @ ''='' @ v) =
     header_join ((h @ ''='' @ v) # map (\<lambda>c. ck_name c @ ''='' @ ck_value c) cs)"
proof (induction cs arbitrary: h v)
  case (Cons c cs)
  have "(h @ ''='' @ v) @ ''; '' @ ck_name c @ ''='' @ ck_value c = h @ ''='' @ (v @ ''; '' @ ck_name c @ ''='' @ ck_value c)" by simp
  with Cons.IH [of h "v @ ''; '' @ ck_name c @ ''='' @ ck_value c"] show ?case
    by (cases cs) simp_all
qed simp

lemma cookie_header_join:
  "cookie_header now site jar = header_join (map (\<lambda>c. ck_name c @ ''='' @ ck_value c) (jar_get now site jar))"
proof (cases "jar_get now site jar")
  case (Cons c cs)
  then show ?thesis using cookie_header_fold [of cs "ck_name c" "ck_value c"] by (simp add: cookie_header_def)
qed (simp add: cookie_header_def)

text \<open>
  C29: the cookies of a request.  After any history of calls, the cookies selected for a request are
  exactly those whose key was last written by a call that stored them and that are in scope: not
  expired, for the host or a domain above it, over HTTPS when secure, and for the path or a path above
  it.  Each is sent once, the longer paths first, and the header lists them in that order.
\<close>

theorem cookies_sent:
  "(c \<in> set (jar_get now site (run_jar ops)) \<longleftrightarrow> last_stored ops c \<and> in_scope now site c) \<and>
   distinct (map cookie_key (jar_get now site (run_jar ops))) \<and>
   sorted_wrt (\<lambda>a b. length (ck_path a) \<ge> length (ck_path b)) (jar_get now site (run_jar ops)) \<and>
   cookie_header now site (run_jar ops) =
     header_join (map (\<lambda>c. ck_name c @ ''='' @ ck_value c) (jar_get now site (run_jar ops)))"
proof (intro conjI)
  show "c \<in> set (jar_get now site (run_jar ops)) \<longleftrightarrow> last_stored ops c \<and> in_scope now site c"
    using selected_in_scope last_stored_wf by (auto simp: set_jar_get jar_holds) metis+
  have "distinct (map cookie_key (filter (selected now site) (run_jar ops)))"
    by (intro distinct_map_filter run_jar_distinct)
  then show "distinct (map cookie_key (jar_get now site (run_jar ops)))"
    unfolding jar_get_def by (metis distinct_map distinct_sort set_sort)
  have "sorted (map (\<lambda>c. - int (length (ck_path c))) (jar_get now site (run_jar ops)))"
    unfolding jar_get_def by (rule sorted_sort_key)
  then show "sorted_wrt (\<lambda>a b. length (ck_path a) \<ge> length (ck_path b)) (jar_get now site (run_jar ops))"
    by (simp add: sorted_wrt_map)
qed (rule cookie_header_join)

text \<open>
  C30: cookies stay within their domain.  Every cookie selected for a request was set by an earlier call
  with the same name and value, from a host within the cookie's domain, and the host of the request is
  within it too; a cookie set without a domain returns to the host that set it and to no other.
\<close>

theorem cookies_confined:
  assumes "c \<in> set (jar_get now site (run_jar ops))"
  shows "\<exists>t src c0. Set_Cookie t src c0 \<in> set ops \<and> ck_name c = ck_name c0 \<and> ck_value c = ck_value c0 \<and>
    under_domain c (host src) \<and> under_domain c (host site) \<and>
    (ck_domain c0 = [] \<longrightarrow> to_lower (host site) = to_lower (host src)) \<and>
    (ck_secure c0 \<longrightarrow> scheme site = ''https'')"
proof -
  from assms have "last_stored ops c" "selected now site c" by (auto simp: set_jar_get jar_holds)
  then obtain t src c0 where c0: "Set_Cookie t src c0 \<in> set ops" "accept_cookie src c0 = Some c" "cookie_wf c"
    by (metis last_stored_wf)
  have "ck_domain c0 = [] \<longrightarrow> ck_host_only c" using c0(2) by (auto simp: accept_cookie_def Let_def split: if_splits)
  moreover have "under_domain c (host src)" using accept_cookie_Some [OF c0(2)] c0(3) by (simp add: domain_matches_under)
  moreover have "under_domain c (host site)" "ck_secure c \<longrightarrow> scheme site = ''https''"
    using \<open>selected now site c\<close> c0(3) by (auto simp: selected_def domain_matches_under)
  ultimately show ?thesis using accept_cookie_Some [OF c0(2)] c0(1)
    by (intro exI [of _ t] exI [of _ src] exI [of _ c0]) (auto simp: under_domain_def)
qed

definition sample_site :: "string \<Rightarrow> url" where
  "sample_site h = empty_url\<lparr>scheme := ''https'', host := h, path := ''/a/b'', has_authority := True\<rparr>"

definition sample_cookie :: cookie where
  "sample_cookie = new_cookie\<lparr>ck_name := ''k'', ck_value := ''v'', ck_domain := ''.Ex.org'', ck_path := ''/a'', ck_secure := True,
     ck_host_only := False, ck_expires := Some 9\<rparr>"

lemma sample_sent:
  "jar_get 5 (sample_site ''w.ex.org'') (run_jar [Set_Cookie 1 (sample_site ''EX.org'') sample_cookie]) =
     [sample_cookie\<lparr>ck_domain := ''ex.org''\<rparr>]"
  by code_simp

theorem cookies_confined_witness:
  "\<exists>t src c0. Set_Cookie t src c0 \<in> set [Set_Cookie 1 (sample_site ''EX.org'') sample_cookie] \<and>
    under_domain (sample_cookie\<lparr>ck_domain := ''ex.org''\<rparr>) (host src) \<and>
    under_domain (sample_cookie\<lparr>ck_domain := ''ex.org''\<rparr>) ''w.ex.org''"
proof -
  have "sample_cookie\<lparr>ck_domain := ''ex.org''\<rparr> \<in> set (jar_get 5 (sample_site ''w.ex.org'')
      (run_jar [Set_Cookie 1 (sample_site ''EX.org'') sample_cookie]))" by (simp add: sample_sent)
  from cookies_confined [OF this] show ?thesis by (auto simp: sample_site_def)
qed

end
