(* ===== verification/Storage.thy ===== *)
theory Storage
  imports Cookie_Jar "HOL-Library.List_Lexorder" "HOL-Library.Char_ord" "HOL-Library.AList"
begin

text \<open>
  \<^verbatim>\<open>storage.cpp\<close>, the classes \<open>InMemoryKeyValueStore\<close> and \<open>MemoryStorage\<close>: key/value stores made on demand for every
  session and area.  A \<open>std::map\<close> is an association list in the order of its keys, an \<open>unordered_map\<close> an
  association list; a listener is a number and what it hears is the list of reports.  The locale
  \<open>key_value\<close> states what a store promises; \<open>storage_isolated\<close> shows that the areas of the sessions are
  independent stores.
\<close>

section \<open>A key/value store\<close>

record kv_store =
  kv_values :: "(string \<times> string) list"
  kv_name :: string
  kv_listener :: "nat option"

type_synonym access_report = "nat \<times> string \<times> string \<times> string"

definition report :: "string \<Rightarrow> string \<Rightarrow> kv_store \<Rightarrow> access_report list" where
  "report operation key s = (case kv_listener s of None \<Rightarrow> [] | Some l \<Rightarrow> [(l, kv_name s, key, operation)])"

text \<open>\<open>values_[key] = value\<close>.\<close>

fun map_put :: "string \<Rightarrow> string \<Rightarrow> (string \<times> string) list \<Rightarrow> (string \<times> string) list" where
  "map_put k v [] = [(k, v)]"
| "map_put k v ((k', v') # m) =
     (if k < k' then (k, v) # (k', v') # m
      else if k = k' then (k, v) # m
      else (k', v') # map_put k v m)"

definition kv_get :: "string \<Rightarrow> kv_store \<Rightarrow> string option \<times> access_report list" where
  "kv_get key s = (map_of (kv_values s) key, report ''get'' key s)"

definition kv_set :: "string \<Rightarrow> string \<Rightarrow> kv_store \<Rightarrow> kv_store \<times> access_report list" where
  "kv_set key v s = (s\<lparr>kv_values := map_put key v (kv_values s)\<rparr>, report ''set'' key s)"

definition kv_remove :: "string \<Rightarrow> kv_store \<Rightarrow> bool \<times> kv_store \<times> access_report list" where
  "kv_remove key s =
     (map_of (kv_values s) key \<noteq> None, s\<lparr>kv_values := AList.delete key (kv_values s)\<rparr>, report ''remove'' key s)"

definition kv_clear :: "kv_store \<Rightarrow> kv_store \<times> access_report list" where
  "kv_clear s = (s\<lparr>kv_values := []\<rparr>, report ''clear'' [] s)"

definition kv_keys :: "kv_store \<Rightarrow> string list" where
  "kv_keys s = map fst (kv_values s)"

definition set_name :: "string \<Rightarrow> kv_store \<Rightarrow> kv_store" where
  "set_name n s = s\<lparr>kv_name := n\<rparr>"

definition set_kv_listener :: "nat option \<Rightarrow> kv_store \<Rightarrow> kv_store" where
  "set_kv_listener l s = s\<lparr>kv_listener := l\<rparr>"

definition new_store :: kv_store where
  "new_store = \<lparr>kv_values = [], kv_name = [], kv_listener = None\<rparr>"

text \<open>The invariant of the map: its keys are in strictly increasing order.\<close>

definition kv_ok :: "kv_store \<Rightarrow> bool" where
  "kv_ok s \<longleftrightarrow> sorted_wrt (<) (map fst (kv_values s))"

text \<open>
  The contract of a store: an abstraction to a partial map, an invariant, and the laws of its
  operations.
\<close>

locale key_value =
  fixes lookup :: "'s \<Rightarrow> 'k::linorder \<rightharpoonup> 'v" and invar :: "'s \<Rightarrow> bool" and fresh :: 's
    and put :: "'k \<Rightarrow> 'v \<Rightarrow> 's \<Rightarrow> 's" and remove :: "'k \<Rightarrow> 's \<Rightarrow> 's" and clear :: "'s \<Rightarrow> 's" and listing :: "'s \<Rightarrow> 'k list"
  assumes lookup_fresh: "lookup fresh = Map.empty" and invar_fresh: "invar fresh"
    and lookup_put: "lookup (put k v s) = (lookup s)(k \<mapsto> v)" and invar_put: "invar s \<Longrightarrow> invar (put k v s)"
    and lookup_remove: "lookup (remove k s) = (lookup s)(k := None)" and invar_remove: "invar s \<Longrightarrow> invar (remove k s)"
    and lookup_clear: "lookup (clear s) = Map.empty" and invar_clear: "invar (clear s)"
    and set_listing: "invar s \<Longrightarrow> set (listing s) = dom (lookup s)" and sorted_listing: "invar s \<Longrightarrow> sorted_wrt (<) (listing s)"
begin

lemma listing_eq: "invar s \<Longrightarrow> listing s = sorted_list_of_set (dom (lookup s))"
  using set_listing [of s] sorted_listing [of s] by (metis sorted_list_of_set_unique finite_set strict_sorted_iff distinct_card)

lemma put_put: "lookup (put k v (put k w s)) = lookup (put k v s)"
  by (simp add: lookup_put)

end

lemma map_of_put: "map_of (map_put k v m) = (map_of m)(k \<mapsto> v)"
  by (induction k v m rule: map_put.induct) auto

lemma set_map_put: "set (map fst (map_put k v m)) = insert k (set (map fst m))"
  by (induction k v m rule: map_put.induct) auto

lemma sorted_map_put: "sorted_wrt (<) (map fst m) \<Longrightarrow> sorted_wrt (<) (map fst (map_put k v m))"
proof (induction k v m rule: map_put.induct)
  case (2 k v k' v' m)
  then show ?case using set_map_put [of k v m] by (auto 0 3)
qed simp

lemma sorted_delete: "sorted_wrt (<) (map fst m) \<Longrightarrow> sorted_wrt (<) (map fst (AList.delete k m))"
  by (simp add: AList.delete_eq sorted_wrt_map sorted_wrt_filter)

lemmas store_defs = kv_set_def kv_remove_def kv_clear_def kv_keys_def kv_get_def kv_ok_def new_store_def

interpretation kv: key_value "\<lambda>s. map_of (kv_values s)" kv_ok new_store
  "\<lambda>k v s. fst (kv_set k v s)" "\<lambda>k s. fst (snd (kv_remove k s))" "\<lambda>s. fst (kv_clear s)" kv_keys
  by unfold_locales
    (auto simp: store_defs map_of_put sorted_map_put sorted_delete AList.delete_conv' dom_map_of_conv_image_fst)

section \<open>The stores of all sessions\<close>

datatype area = Local_Area | Session_Area

record memory_storage =
  ms_cookies :: "cookie list"
  ms_listener :: "nat option"
  ms_local :: "(string \<times> kv_store) list"
  ms_session :: "(string \<times> kv_store) list"

definition empty_storage :: memory_storage where
  "empty_storage = \<lparr>ms_cookies = [], ms_listener = None, ms_local = [], ms_session = []\<rparr>"

text \<open>\<open>Impl::get\<close>: the store of a session, made with the listener of that moment when there is none.\<close>

definition impl_get :: "(string \<times> kv_store) list \<Rightarrow> string \<Rightarrow> string \<Rightarrow> nat option \<Rightarrow> kv_store" where
  "impl_get m session_id store_name listener =
     (case map_of m session_id of
        None \<Rightarrow> set_kv_listener listener (set_name store_name new_store)
      | Some s \<Rightarrow> s)"

definition local_storage :: "string \<Rightarrow> memory_storage \<Rightarrow> kv_store \<times> memory_storage" where
  "local_storage session_id ms =
     (let s = impl_get (ms_local ms) session_id ''local'' (ms_listener ms)
      in (s, ms\<lparr>ms_local := AList.update session_id s (ms_local ms)\<rparr>))"

definition session_storage :: "string \<Rightarrow> memory_storage \<Rightarrow> kv_store \<times> memory_storage" where
  "session_storage session_id ms =
     (let s = impl_get (ms_session ms) session_id ''session'' (ms_listener ms)
      in (s, ms\<lparr>ms_session := AList.update session_id s (ms_session ms)\<rparr>))"

definition release_session :: "string \<Rightarrow> memory_storage \<Rightarrow> memory_storage" where
  "release_session session_id ms =
     ms\<lparr>ms_session := AList.delete session_id (ms_session ms), ms_local := AList.delete session_id (ms_local ms)\<rparr>"

definition set_access_listener :: "nat option \<Rightarrow> memory_storage \<Rightarrow> memory_storage" where
  "set_access_listener l ms = ms\<lparr>ms_listener := l\<rparr>"

text \<open>The calls a client makes: one operation on the store of an area, which is written back in place.\<close>

datatype kv_op = Kv_Get string | Kv_Set string string | Kv_Remove string | Kv_Clear | Kv_Keys

datatype kv_result = Kv_Value "string option" | Kv_Done | Kv_Removed bool | Kv_Listed "string list"

fun kv_exec :: "kv_op \<Rightarrow> kv_store \<Rightarrow> kv_result \<times> kv_store \<times> access_report list" where
  "kv_exec (Kv_Get k) s = (case kv_get k s of (v, rs) \<Rightarrow> (Kv_Value v, s, rs))"
| "kv_exec (Kv_Set k v) s = (case kv_set k v s of (s', rs) \<Rightarrow> (Kv_Done, s', rs))"
| "kv_exec (Kv_Remove k) s = (case kv_remove k s of (b, s', rs) \<Rightarrow> (Kv_Removed b, s', rs))"
| "kv_exec Kv_Clear s = (case kv_clear s of (s', rs) \<Rightarrow> (Kv_Done, s', rs))"
| "kv_exec Kv_Keys s = (Kv_Listed (kv_keys s), s, [])"

datatype storage_op = Store_Op area string kv_op | Release string | Listen "nat option" | Cookie_Op jar_op

text \<open>The result of a store operation with its area and session, the storage afterwards and the reports.\<close>

fun storage_exec :: "storage_op \<Rightarrow> memory_storage \<Rightarrow> ((area \<times> string) \<times> kv_result) list \<times> memory_storage \<times> access_report list" where
  "storage_exec (Store_Op Local_Area sid op) ms =
     (case local_storage sid ms of (s, ms1) \<Rightarrow>
        case kv_exec op s of (r, s', rs) \<Rightarrow>
          ([((Local_Area, sid), r)], ms1\<lparr>ms_local := AList.update sid s' (ms_local ms1)\<rparr>, rs))"
| "storage_exec (Store_Op Session_Area sid op) ms =
     (case session_storage sid ms of (s, ms1) \<Rightarrow>
        case kv_exec op s of (r, s', rs) \<Rightarrow>
          ([((Session_Area, sid), r)], ms1\<lparr>ms_session := AList.update sid s' (ms_session ms1)\<rparr>, rs))"
| "storage_exec (Release sid) ms = ([], release_session sid ms, [])"
| "storage_exec (Listen l) ms = ([], set_access_listener l ms, [])"
| "storage_exec (Cookie_Op op) ms = ([], ms\<lparr>ms_cookies := jar_step op (ms_cookies ms)\<rparr>, [])"

fun run_storage :: "storage_op list \<Rightarrow> memory_storage \<Rightarrow> ((area \<times> string) \<times> kv_result) list \<times> memory_storage \<times> access_report list" where
  "run_storage [] ms = ([], ms, [])"
| "run_storage (op # ops) ms =
     (case storage_exec op ms of (r, ms1, rs) \<Rightarrow>
        case run_storage ops ms1 of (r', ms2, rs') \<Rightarrow> (r @ r', ms2, rs @ rs'))"

section \<open>Isolation\<close>

text \<open>The specification: one map, with the operations of one area of one session and its releases.\<close>

fun map_exec :: "kv_op \<Rightarrow> (string \<rightharpoonup> string) \<Rightarrow> kv_result \<times> (string \<rightharpoonup> string)" where
  "map_exec (Kv_Get k) m = (Kv_Value (m k), m)"
| "map_exec (Kv_Set k v) m = (Kv_Done, m(k \<mapsto> v))"
| "map_exec (Kv_Remove k) m = (Kv_Removed (m k \<noteq> None), m(k := None))"
| "map_exec Kv_Clear m = (Kv_Done, Map.empty)"
| "map_exec Kv_Keys m = (Kv_Listed (sorted_list_of_set (dom m)), m)"

fun map_run :: "kv_op option list \<Rightarrow> (string \<rightharpoonup> string) \<Rightarrow> kv_result list \<times> (string \<rightharpoonup> string)" where
  "map_run [] m = ([], m)"
| "map_run (None # ops) m = map_run ops Map.empty"
| "map_run (Some op # ops) m = (case map_exec op m of (r, m1) \<Rightarrow> case map_run ops m1 of (rs, m2) \<Rightarrow> (r # rs, m2))"

definition own_op :: "area \<times> string \<Rightarrow> storage_op \<Rightarrow> kv_op option option" where
  "own_op k op =
     (case op of
        Store_Op a sid o' \<Rightarrow> if (a, sid) = k then Some (Some o') else None
      | Release sid \<Rightarrow> if sid = snd k then Some None else None
      | _ \<Rightarrow> None)"

definition own_results :: "area \<times> string \<Rightarrow> ((area \<times> string) \<times> kv_result) list \<Rightarrow> kv_result list" where
  "own_results k rs = map snd (filter (\<lambda>r. fst r = k) rs)"

definition area_stores :: "area \<Rightarrow> memory_storage \<Rightarrow> (string \<times> kv_store) list" where
  "area_stores a ms = (case a of Local_Area \<Rightarrow> ms_local ms | Session_Area \<Rightarrow> ms_session ms)"

lemma area_stores_simps [simp]:
  "area_stores a (ms\<lparr>ms_listener := l\<rparr>) = area_stores a ms" "area_stores a (ms\<lparr>ms_cookies := cs\<rparr>) = area_stores a ms"
  by (cases a; simp add: area_stores_def)+

text \<open>The map an area of a session stands for; the empty one before its store is made.\<close>

definition contents :: "area \<times> string \<Rightarrow> memory_storage \<Rightarrow> string \<rightharpoonup> string" where
  "contents k ms = (case map_of (area_stores (fst k) ms) (snd k) of None \<Rightarrow> Map.empty | Some s \<Rightarrow> map_of (kv_values s))"

definition storage_ok :: "memory_storage \<Rightarrow> bool" where
  "storage_ok ms \<longleftrightarrow> (\<forall>a sid s. map_of (area_stores a ms) sid = Some s \<longrightarrow> kv_ok s)"

lemma kv_exec_refines:
  assumes "kv_ok s" and "kv_exec op s = (r, s', rs)"
  shows "map_exec op (map_of (kv_values s)) = (r, map_of (kv_values s')) \<and> kv_ok s'"
  using assms kv.listing_eq [of s] kv.lookup_put [of _ _ s] kv.lookup_remove [of _ s] kv.lookup_clear [of s]
    kv.invar_put [of s] kv.invar_remove [of s] kv.invar_clear [of s]
  by (cases op) (auto simp: kv_get_def kv_remove_def split: prod.splits, metis fst_conv, metis fst_conv)

lemma store_op_exec:
  assumes "storage_exec (Store_Op a sid op) ms = (r, ms', rs)"
  obtains s x s' where "map_of (area_stores a ms) sid = Some s \<or> map_of (area_stores a ms) sid = None \<and> kv_values s = []"
    "kv_exec op s = (x, s', rs)" "r = [((a, sid), x)]" "map_of (area_stores a ms') = (map_of (area_stores a ms))(sid \<mapsto> s')"
    "\<And>b. b \<noteq> a \<Longrightarrow> area_stores b ms' = area_stores b ms"
proof (cases a)
  case Local_Area
  let ?s = "impl_get (ms_local ms) sid ''local'' (ms_listener ms)"
  obtain x s' where x: "kv_exec op ?s = (x, s', rs)" using assms Local_Area
    by (auto simp: local_storage_def Let_def split: prod.splits)
  then show ?thesis using assms Local_Area
    by (intro that [of ?s x s'])
      (auto simp: local_storage_def Let_def impl_get_def set_kv_listener_def set_name_def new_store_def area_stores_def update_conv'
        split: option.splits area.splits)
next
  case Session_Area
  let ?s = "impl_get (ms_session ms) sid ''session'' (ms_listener ms)"
  obtain x s' where x: "kv_exec op ?s = (x, s', rs)" using assms Session_Area
    by (auto simp: session_storage_def Let_def split: prod.splits)
  then show ?thesis using assms Session_Area
    by (intro that [of ?s x s'])
      (auto simp: session_storage_def Let_def impl_get_def set_kv_listener_def set_name_def new_store_def area_stores_def update_conv'
        split: option.splits area.splits)
qed

text \<open>One call, seen from one area of one session.\<close>

definition seen :: "kv_op option option \<Rightarrow> kv_result list \<Rightarrow> (string \<rightharpoonup> string) \<Rightarrow> (string \<rightharpoonup> string) \<Rightarrow> bool" where
  "seen o' rs m m' =
     (case o' of
        None \<Rightarrow> rs = [] \<and> m' = m
      | Some None \<Rightarrow> rs = [] \<and> m' = Map.empty
      | Some (Some op) \<Rightarrow> (\<exists>r. rs = [r] \<and> map_exec op m = (r, m')))"

lemma storage_exec_seen:
  assumes ok: "storage_ok ms" and ex: "storage_exec op ms = (r, ms', rs)"
  shows "storage_ok ms' \<and> seen (own_op k op) (own_results k r) (contents k ms) (contents k ms')"
proof (cases op)
  case (Store_Op a sid o')
  from ex [unfolded Store_Op] obtain s x s' where s: "map_of (area_stores a ms) sid = Some s \<or> map_of (area_stores a ms) sid = None \<and> kv_values s = []"
    "kv_exec o' s = (x, s', rs)" "r = [((a, sid), x)]" "map_of (area_stores a ms') = (map_of (area_stores a ms))(sid \<mapsto> s')"
    "\<And>b. b \<noteq> a \<Longrightarrow> area_stores b ms' = area_stores b ms" by (rule store_op_exec) blast
  have "kv_ok s" using s(1) ok by (auto simp: storage_ok_def kv_ok_def)
  from kv_exec_refines [OF this s(2)] have e: "map_exec o' (map_of (kv_values s)) = (x, map_of (kv_values s'))" "kv_ok s'" by auto
  have "storage_ok ms'" unfolding storage_ok_def
  proof (intro allI impI)
    fix b i u assume u: "map_of (area_stores b ms') i = Some u"
    show "kv_ok u"
    proof (cases "b = a \<and> i = sid")
      case True
      with u s(4) e(2) show ?thesis by simp
    next
      case False
      with u s(4,5) have "map_of (area_stores b ms) i = Some u" by (cases "b = a") auto
      with ok show ?thesis unfolding storage_ok_def by blast
    qed
  qed
  moreover have "seen (own_op k op) (own_results k r) (contents k ms) (contents k ms')"
  proof (cases "k = (a, sid)")
    case True
    then have "contents k ms = map_of (kv_values s)" "contents k ms' = map_of (kv_values s')"
      using s(1,4) by (auto simp: contents_def)
    with True e(1) s(3) Store_Op show ?thesis by (simp add: seen_def own_op_def own_results_def)
  next
    case False
    then have "contents k ms' = contents k ms" using s(4,5) by (cases k; cases "fst k = a") (auto simp: contents_def)
    with False s(3) Store_Op show ?thesis by (auto simp: seen_def own_op_def own_results_def)
  qed
  ultimately show ?thesis ..
next
  case (Release sid)
  with ex have m: "r = []" "map_of (area_stores a ms') = (map_of (area_stores a ms))(sid := None)" for a
    by (auto simp: release_session_def area_stores_def delete_conv' split: area.splits)
  then have "storage_ok ms'" using ok by (auto simp: storage_ok_def)
  moreover have "contents k ms' = (if sid = snd k then Map.empty else contents k ms)" by (simp add: contents_def m(2))
  ultimately show ?thesis using Release m(1) by (auto simp: seen_def own_op_def own_results_def)
next
  case (Listen l)
  with ok ex show ?thesis by (auto simp: storage_ok_def seen_def own_op_def own_results_def contents_def set_access_listener_def)
next
  case (Cookie_Op o')
  with ok ex show ?thesis by (auto simp: storage_ok_def seen_def own_op_def own_results_def contents_def)
qed

lemma own_results_append [simp]: "own_results k (xs @ ys) = own_results k xs @ own_results k ys"
  by (simp add: own_results_def)

lemma run_storage_seen:
  "storage_ok ms \<Longrightarrow> run_storage ops ms = (r, ms', rs) \<Longrightarrow>
   map_run (List.map_filter (own_op k) ops) (contents k ms) = (own_results k r, contents k ms')"
proof (induction ops arbitrary: ms r rs)
  case Nil
  then show ?case by (simp add: own_results_def map_filter_simps)
next
  case (Cons op ops)
  obtain r1 ms1 rs1 where e: "storage_exec op ms = (r1, ms1, rs1)" by (metis prod_cases3)
  obtain r2 rs2 where run: "run_storage ops ms1 = (r2, ms', rs2)" "r = r1 @ r2"
    using Cons.prems(2) e by (auto split: prod.splits)
  note st = storage_exec_seen [OF Cons.prems(1) e, of k]
  have "map_run (List.map_filter (own_op k) ops) (contents k ms1) = (own_results k r2, contents k ms')"
    using Cons.IH [OF _ run(1)] st by blast
  with st run(2) show ?case
    by (cases "own_op k op" rule: option.exhaust; cases "the (own_op k op)")
      (auto simp: seen_def map_filter_simps split: prod.splits)
qed

lemma run_storage_cookies:
  "run_storage ops ms = (r, ms', rs) \<Longrightarrow>
   ms_cookies ms' = fold jar_step (List.map_filter (\<lambda>op. case op of Cookie_Op j \<Rightarrow> Some j | _ \<Rightarrow> None) ops) (ms_cookies ms)"
proof (induction ops arbitrary: ms r rs)
  case (Cons op ops)
  obtain r1 ms1 rs1 where e: "storage_exec op ms = (r1, ms1, rs1)" by (metis prod_cases3)
  obtain r2 rs2 where run: "run_storage ops ms1 = (r2, ms', rs2)"
    using Cons.prems e by (auto split: prod.splits)
  have "ms_cookies ms1 = (case op of Cookie_Op j \<Rightarrow> jar_step j (ms_cookies ms) | _ \<Rightarrow> ms_cookies ms)"
    using e by (cases "(op, ms)" rule: storage_exec.cases)
      (auto simp: local_storage_def session_storage_def release_session_def set_access_listener_def Let_def split: prod.splits)
  with Cons.IH [OF run] show ?case by (cases op) (auto simp: map_filter_simps)
qed (simp add: map_filter_simps)

text \<open>
  C31: the areas of the sessions are isolated.  Whatever the calls on a new storage, the results that one
  session sees in one of its areas, and the contents it is left with, are those of a single map under
  the operations of that session on that area alone, emptied when the session is released; the calls
  of other sessions, of the other area, on the cookies and on the listener change nothing of it.
  The cookies are those of the cookie calls alone.
\<close>

theorem storage_isolated:
  "case run_storage ops empty_storage of (results, ms, reports) \<Rightarrow>
     map_run (List.map_filter (own_op k) ops) Map.empty = (own_results k results, contents k ms) \<and>
     ms_cookies ms = run_jar (List.map_filter (\<lambda>op. case op of Cookie_Op j \<Rightarrow> Some j | _ \<Rightarrow> None) ops)"
proof -
  obtain r ms rs where run: "run_storage ops empty_storage = (r, ms, rs)" by (metis prod_cases3)
  have "storage_ok empty_storage" "contents k empty_storage = Map.empty"
    by (auto simp: storage_ok_def contents_def empty_storage_def area_stores_def split: area.splits)
  with run_storage_seen [OF _ run, of k] run_storage_cookies [OF run] show ?thesis
    unfolding run by (simp add: run_jar_def) (simp add: empty_storage_def)
qed

text \<open>
  A listener set after a store was made does not hear of it: only stores made later report to it.
\<close>

lemma listener_not_forwarded:
  "snd (snd (run_storage [Store_Op Local_Area sid (Kv_Set k v), Listen (Some l), Store_Op Local_Area sid (Kv_Get k)] empty_storage)) = []"
  by (simp add: empty_storage_def local_storage_def impl_get_def set_kv_listener_def set_name_def new_store_def kv_set_def kv_get_def
    report_def set_access_listener_def Let_def)

end
