(* ===== verification/Cookie_Json.thy ===== *)
theory Cookie_Json
  imports Cookie_Jar Binary64
begin

text \<open>
  \<^verbatim>\<open>cookie_import.cpp\<close>, the class \<open>JsonParser\<close>: a recursive-descent reader of JSON on the unread rest of the
  input.  The reader has no limit on nesting; the three mutually recursive functions take a bound on
  the calls, which \<open>parse_cookie_json_failures\<close> shows is never reached.  \<open>std::stod\<close> reads the number as
  \<open>from_chars\<close> does and throws where the value is out of range.
\<close>

datatype cookie_json =
    CNull
  | CBool bool
  | CNumber f64
  | CString string
  | CArray "cookie_json list"
  | CObject "(string \<times> cookie_json) list"

text \<open>
  An \<open>Error\<close>, the exception of \<open>std::stod\<close>, the conversion of a double beyond the range of \<open>int64_t\<close>, which
  C++ leaves undefined, and a bound of the model that was too small.
\<close>

datatype import_failure = Thrown error | Out_Of_Range | Undefined_Cast | Out_Of_Fuel

type_synonym 'a importing = "import_failure + 'a"

definition json_fail :: "string \<Rightarrow> 'a importing" where
  "json_fail msg = Inl (Thrown (Error ParseError (''cookie JSON parse error: '' @ msg)))"

definition json_member :: "string \<Rightarrow> cookie_json \<Rightarrow> cookie_json option" where
  "json_member key v = (case v of CObject ms \<Rightarrow> map_of ms key | _ \<Rightarrow> None)"

definition skip_ws :: "string \<Rightarrow> string" where
  "skip_ws s = dropWhile isspace s"

definition consume_char :: "char \<Rightarrow> string \<Rightarrow> string option" where
  "consume_char expected s =
     (case skip_ws s of [] \<Rightarrow> None | c # r \<Rightarrow> if c \<noteq> expected then None else Some r)"

definition expect_char :: "char \<Rightarrow> string \<Rightarrow> string importing" where
  "expect_char expected s = (case consume_char expected s of None \<Rightarrow> json_fail ''unexpected token'' | Some r \<Rightarrow> Inr r)"

definition parse_null :: "string \<Rightarrow> (cookie_json \<times> string) importing" where
  "parse_null s = (if take 4 s \<noteq> ''null'' then json_fail ''invalid null literal'' else Inr (CNull, drop 4 s))"

definition parse_bool :: "string \<Rightarrow> (cookie_json \<times> string) importing" where
  "parse_bool s =
     (if take 4 s = ''true'' then Inr (CBool True, drop 4 s)
      else if take 5 s = ''false'' then Inr (CBool False, drop 5 s)
      else json_fail ''invalid boolean literal'')"

definition starts_digit :: "string \<Rightarrow> bool" where
  "starts_digit s \<longleftrightarrow> s \<noteq> [] \<and> is_digit (hd s)"

definition number_integer :: "string \<Rightarrow> string importing" where
  "number_integer s =
     (if s = [] then json_fail ''invalid number''
      else if hd s = CHR ''0'' then Inr (tl s)
      else if \<not> is_digit (hd s) then json_fail ''invalid number''
      else Inr (dropWhile is_digit s))"

definition number_fraction :: "string \<Rightarrow> string importing" where
  "number_fraction s =
     (if s \<noteq> [] \<and> hd s = CHR ''.'' then
        (if \<not> starts_digit (tl s) then json_fail ''invalid fractional number'' else Inr (dropWhile is_digit (tl s)))
      else Inr s)"

definition number_exponent :: "string \<Rightarrow> string importing" where
  "number_exponent s =
     (if s \<noteq> [] \<and> (hd s = CHR ''e'' \<or> hd s = CHR ''E'') then
        (let s1 = tl s; s2 = (if s1 \<noteq> [] \<and> (hd s1 = CHR ''+'' \<or> hd s1 = CHR ''-'') then tl s1 else s1) in
         if \<not> starts_digit s2 then json_fail ''invalid exponent'' else Inr (dropWhile is_digit s2))
      else Inr s)"

definition stod :: "string \<Rightarrow> f64 importing" where
  "stod token = (case from_chars token of None \<Rightarrow> Inl Out_Of_Range | Some (v, _) \<Rightarrow> Inr v)"

definition parse_number :: "string \<Rightarrow> (cookie_json \<times> string) importing" where
  "parse_number s =
     rbind (number_integer (if s \<noteq> [] \<and> hd s = CHR ''-'' then tl s else s)) (\<lambda>s1.
       rbind (number_fraction s1) (\<lambda>s2. rbind (number_exponent s2) (\<lambda>r.
         rbind (stod (take (length s - length r) s)) (\<lambda>v. Inr (CNumber v, r)))))"

definition json_hex_value :: "char \<Rightarrow> nat importing" where
  "json_hex_value c =
     (if CHR ''0'' \<le> c \<and> c \<le> CHR ''9'' then Inr (byte c - 48)
      else if CHR ''a'' \<le> c \<and> c \<le> CHR ''f'' then Inr (10 + byte c - 97)
      else if CHR ''A'' \<le> c \<and> c \<le> CHR ''F'' then Inr (10 + byte c - 65)
      else json_fail ''invalid unicode escape'')"

fun hex_loop :: "nat \<Rightarrow> string \<Rightarrow> nat importing" where
  "hex_loop v [] = Inr v"
| "hex_loop v (c # cs) = rbind (json_hex_value c) (\<lambda>d. hex_loop (v * 16 + d) cs)"

definition parse_unicode :: "string \<Rightarrow> (string \<times> string) importing" where
  "parse_unicode s =
     (if length s < 4 then json_fail ''short unicode escape''
      else rbind (hex_loop 0 (take 4 s)) (\<lambda>v. Inr ([if v \<le> 0x7f then char_of v else CHR ''?''], drop 4 s)))"

definition parse_escape :: "string \<Rightarrow> (string \<times> string) importing" where
  "parse_escape s =
     (case s of
        [] \<Rightarrow> json_fail ''unterminated escape''
      | c # r \<Rightarrow>
          if c = CHR 0x22 \<or> c = CHR 0x5C \<or> c = CHR ''/'' then Inr ([c], r)
          else if c = CHR ''b'' then Inr ([CHR 0x08], r)
          else if c = CHR ''f'' then Inr ([CHR 0x0C], r)
          else if c = CHR ''n'' then Inr ([CHR 0x0A], r)
          else if c = CHR ''r'' then Inr ([CHR 0x0D], r)
          else if c = CHR ''t'' then Inr ([CHR 0x09], r)
          else if c = CHR ''u'' then parse_unicode r
          else json_fail ''invalid escape'')"

lemma json_fail_neq [simp]: "json_fail m \<noteq> Inr x" "rbind (json_fail m) f = json_fail m"
  by (simp_all add: json_fail_def)

lemma parse_escape_length: "parse_escape s = Inr (x, r) \<Longrightarrow> length r < length s"
  by (auto simp: parse_escape_def parse_unicode_def rbind_Inr_iff split: list.splits if_splits)

function string_chars :: "string \<Rightarrow> string \<Rightarrow> (string \<times> string) importing" where
  "string_chars out s =
     (case s of
        [] \<Rightarrow> json_fail ''unterminated string''
      | c # r \<Rightarrow>
          if c = CHR 0x22 then Inr (out, r)
          else if byte c < 0x20 then json_fail ''control character in string''
          else if c \<noteq> CHR 0x5C then string_chars (out @ [c]) r
          else rbind (parse_escape r) (\<lambda>(x, r'). string_chars (out @ x) r'))"
  by pat_completeness auto
termination
  by (relation "measure (\<lambda>(out, s). length s)") (auto dest: parse_escape_length)

declare string_chars.simps [simp del]

definition parse_string :: "string \<Rightarrow> (string \<times> string) importing" where
  "parse_string s = rbind (expect_char (CHR 0x22) s) (string_chars [])"

text \<open>\<open>object.emplace\<close>: a key that is there already keeps its value.\<close>

definition emplace :: "string \<Rightarrow> cookie_json \<Rightarrow> (string \<times> cookie_json) list \<Rightarrow> (string \<times> cookie_json) list" where
  "emplace key v ms = (if key \<in> fst ` set ms then ms else ms @ [(key, v)])"

fun parse_cookie_value :: "nat \<Rightarrow> string \<Rightarrow> (cookie_json \<times> string) importing"
  and parse_elements :: "nat \<Rightarrow> cookie_json list \<Rightarrow> string \<Rightarrow> (cookie_json \<times> string) importing"
  and parse_members :: "nat \<Rightarrow> (string \<times> cookie_json) list \<Rightarrow> string \<Rightarrow> (cookie_json \<times> string) importing" where
  "parse_cookie_value 0 s = Inl Out_Of_Fuel"
| "parse_cookie_value (Suc f) s =
     (let s1 = skip_ws s in
      if s1 = [] then json_fail ''unexpected end of input''
      else let c = hd s1 in
        if c = CHR 0x22 then rbind (parse_string s1) (\<lambda>(x, r). Inr (CString x, r))
        else if c = CHR ''['' then
          rbind (expect_char (CHR ''['') s1) (\<lambda>r.
            case consume_char (CHR '']'') (skip_ws r) of Some r' \<Rightarrow> Inr (CArray [], r') | None \<Rightarrow> parse_elements f [] (skip_ws r))
        else if c = CHR ''{'' then
          rbind (expect_char (CHR ''{'') s1) (\<lambda>r.
            case consume_char (CHR ''}'') (skip_ws r) of Some r' \<Rightarrow> Inr (CObject [], r') | None \<Rightarrow> parse_members f [] (skip_ws r))
        else if c = CHR ''t'' \<or> c = CHR ''f'' then parse_bool s1
        else if c = CHR ''n'' then parse_null s1
        else if c = CHR ''-'' \<or> is_digit c then parse_number s1
        else json_fail ''unexpected token'')"
| "parse_elements 0 vs s = Inl Out_Of_Fuel"
| "parse_elements (Suc f) vs s =
     rbind (parse_cookie_value f s) (\<lambda>(v, r).
       case consume_char (CHR '']'') r of
         Some r' \<Rightarrow> Inr (CArray (vs @ [v]), r')
       | None \<Rightarrow> rbind (expect_char (CHR '','') r) (parse_elements f (vs @ [v])))"
| "parse_members 0 ms s = Inl Out_Of_Fuel"
| "parse_members (Suc f) ms s =
     (let s1 = skip_ws s in
      if s1 = [] \<or> hd s1 \<noteq> CHR 0x22 then json_fail ''expected object key''
      else rbind (parse_string s1) (\<lambda>(key, r1). rbind (expect_char (CHR '':'') r1) (\<lambda>r2.
        rbind (parse_cookie_value f r2) (\<lambda>(v, r).
          case consume_char (CHR ''}'') r of
            Some r' \<Rightarrow> Inr (CObject (emplace key v ms), r')
          | None \<Rightarrow> rbind (expect_char (CHR '','') r) (parse_members f (emplace key v ms))))))"

definition parse_cookie_json :: "string \<Rightarrow> cookie_json importing" where
  "parse_cookie_json s =
     rbind (parse_cookie_value (2 * length s + 2) (skip_ws s)) (\<lambda>(v, r).
       if skip_ws r \<noteq> [] then json_fail ''unexpected trailing JSON input'' else Inr v)"

section \<open>The bound is enough\<close>

lemma skip_ws_le: "length (skip_ws s) \<le> length s"
  by (simp add: skip_ws_def length_dropWhile_le)

lemma consume_char_length: "consume_char c s = Some r \<Longrightarrow> length r < length s"
  using skip_ws_le [of s] by (auto simp: consume_char_def split: list.splits if_splits)

lemma expect_char_length: "expect_char c s = Inr r \<Longrightarrow> length r < length s"
  by (auto simp: expect_char_def dest: consume_char_length split: option.splits)

lemma string_chars_length: "string_chars out s = Inr (x, r) \<Longrightarrow> length r < length s"
proof (induction "length s" arbitrary: out s rule: less_induct)
  case less
  from less.prems obtain c s1 where s: "s = c # s1" by (cases s) (auto simp: string_chars.simps)
  from less.prems [unfolded s] consider "r = s1" | "string_chars (out @ [c]) s1 = Inr (x, r)"
    | y s2 where "parse_escape s1 = Inr (y, s2)" "string_chars (out @ y) s2 = Inr (x, r)"
    by (subst (asm) string_chars.simps) (auto simp: rbind_Inr_iff split: if_splits)
  then show ?case
  proof cases
    case 2
    with less.hyps [OF _ 2] s show ?thesis by simp
  next
    case 3
    then have "length s2 < length s1" by (auto dest: parse_escape_length)
    with less.hyps [OF _ 3(2)] s show ?thesis by simp
  qed (simp add: s)
qed

lemma parse_string_length: "parse_string s = Inr (x, r) \<Longrightarrow> length r < length s"
  by (auto simp: parse_string_def rbind_Inr_iff dest!: expect_char_length string_chars_length)

lemma number_rest_length:
  "number_integer s = Inr r \<Longrightarrow> length r < length s" "number_fraction s = Inr r \<Longrightarrow> length r \<le> length s"
  "number_exponent s = Inr r \<Longrightarrow> length r \<le> length s"
proof -
  have d: "length (dropWhile is_digit s) \<le> length s" for s by (rule length_dropWhile_le)
  show "number_integer s = Inr r \<Longrightarrow> length r < length s" using d [of "tl s"]
    by (cases s) (auto simp: number_integer_def split: if_splits)
  show "number_fraction s = Inr r \<Longrightarrow> length r \<le> length s" using d [of "tl s"]
    by (cases s) (auto simp: number_fraction_def split: if_splits)
  show "number_exponent s = Inr r \<Longrightarrow> length r \<le> length s" using d [of "tl s"] d [of "tl (tl s)"]
    by (cases s; cases "tl s") (auto simp: number_exponent_def Let_def split: if_splits)
qed

lemma parse_number_length: "parse_number s = Inr (v, r) \<Longrightarrow> length r < length s"
proof -
  assume "parse_number s = Inr (v, r)"
  then obtain s1 s2 where "number_integer (if s \<noteq> [] \<and> hd s = CHR ''-'' then tl s else s) = Inr s1"
    "number_fraction s1 = Inr s2" "number_exponent s2 = Inr r" by (auto simp: parse_number_def rbind_Inr_iff)
  then show ?thesis using number_rest_length [of _ s1] number_rest_length(2) [of s1 s2] number_rest_length(3) [of s2 r]
    by (fastforce split: if_splits)
qed

lemma json_word_length:
  "parse_null s = Inr (v, r) \<Longrightarrow> length r < length s" "parse_bool s = Inr (v, r) \<Longrightarrow> length r < length s"
  by (cases s; auto simp: parse_null_def parse_bool_def split: if_splits)+

lemmas step_lengths = expect_char_length parse_string_length parse_number_length json_word_length consume_char_length

lemma value_lengths:
  "(\<forall>s v r. parse_cookie_value f s = Inr (v, r) \<longrightarrow> length r < length s) \<and>
   (\<forall>vs s v r. parse_elements f vs s = Inr (v, r) \<longrightarrow> length r < length s) \<and>
   (\<forall>ms s v r. parse_members f ms s = Inr (v, r) \<longrightarrow> length r < length s)"
proof (induction f)
  case (Suc f)
  then have v: "\<And>s v r. parse_cookie_value f s = Inr (v, r) \<Longrightarrow> length r < length s"
    and e: "\<And>vs s v r. parse_elements f vs s = Inr (v, r) \<Longrightarrow> length r < length s"
    and m: "\<And>ms s v r. parse_members f ms s = Inr (v, r) \<Longrightarrow> length r < length s" by blast+
  have lw: "length x < length (skip_ws y) \<Longrightarrow> length x < length y" for x y :: string using skip_ws_le [of y] by simp
  show ?case
  proof (intro conjI allI impI)
    fix s w r assume p: "parse_cookie_value (Suc f) s = Inr (w, r)"
    have ne: "skip_ws s \<noteq> []" using p by auto
    consider x where "parse_string (skip_ws s) = Inr (x, r)" | "parse_bool (skip_ws s) = Inr (w, r)" | "parse_null (skip_ws s) = Inr (w, r)"
      | "parse_number (skip_ws s) = Inr (w, r)"
      | c x where "expect_char c (skip_ws s) = Inr x"
          "(\<exists>d. consume_char d (skip_ws x) = Some r) \<or> parse_elements f [] (skip_ws x) = Inr (w, r) \<or> parse_members f [] (skip_ws x) = Inr (w, r)"
      using p by (auto simp: Let_def rbind_Inr_iff split: if_splits option.splits; blast)
    then have "length r < length (skip_ws s)"
    proof cases
      case (5 c x)
      then have "length r < length (skip_ws x)" using e m consume_char_length by blast
      with expect_char_length [OF 5(1)] show ?thesis using lw by fastforce
    qed (auto dest: step_lengths)
    then show "length r < length s" by (rule lw)
  next
    fix vs s w r assume "parse_elements (Suc f) vs s = Inr (w, r)"
    then obtain x s1 where x: "parse_cookie_value f s = Inr (x, s1)"
        "consume_char (CHR '']'') s1 = Some r \<or> (\<exists>s2. expect_char (CHR '','') s1 = Inr s2 \<and> parse_elements f (vs @ [x]) s2 = Inr (w, r))"
      by (auto simp: rbind_Inr_iff split: option.splits)
    then have "length r < length s1" by (auto dest!: e step_lengths)
    with v [OF x(1)] show "length r < length s" by simp
  next
    fix ms s w r assume "parse_members (Suc f) ms s = Inr (w, r)"
    then obtain k s1 s2 x s3 where x: "parse_string (skip_ws s) = Inr (k, s1)" "expect_char (CHR '':'') s1 = Inr s2" "parse_cookie_value f s2 = Inr (x, s3)"
        "consume_char (CHR ''}'') s3 = Some r \<or> (\<exists>s4. expect_char (CHR '','') s3 = Inr s4 \<and> parse_members f (emplace k x ms) s4 = Inr (w, r))"
      by (auto simp: Let_def rbind_Inr_iff split: option.splits if_splits)
    then have "length r < length s3" by (auto dest!: m step_lengths)
    with v [OF x(3)] parse_string_length [OF x(1)] expect_char_length [OF x(2)] have "length r < length (skip_ws s)" by simp
    then show "length r < length s" by (rule lw)
  qed
qed simp

lemmas value_length = conjunct1 [OF value_lengths, rule_format]

text \<open>
  A step that does not run out of fuel and whose errors say nothing of the input: the messages are
  among the constants of the source.
\<close>

definition json_messages :: "string list" where
  "json_messages =
     [''unexpected trailing JSON input'', ''unexpected token'', ''unexpected end of input'', ''invalid null literal'',
      ''invalid boolean literal'', ''invalid number'', ''invalid fractional number'', ''invalid exponent'',
      ''invalid unicode escape'', ''control character in string'', ''unterminated escape'', ''short unicode escape'',
      ''invalid escape'', ''unterminated string'', ''expected object key'']"

definition json_failures :: "import_failure list" where
  "json_failures = Out_Of_Range # map (\<lambda>m. Thrown (Error ParseError (''cookie JSON parse error: '' @ m))) json_messages"

definition parse_safe :: "'a importing \<Rightarrow> bool" where
  "parse_safe r \<longleftrightarrow> (case r of Inl e \<Rightarrow> e \<in> set json_failures | Inr _ \<Rightarrow> True)"

lemma parse_safe_simps [simp]: "parse_safe (Inr x)" "parse_safe (json_fail m) \<longleftrightarrow> m \<in> set json_messages" "parse_safe (Inl Out_Of_Range)"
  by (auto simp: parse_safe_def json_fail_def json_failures_def)

lemma json_messages_simps [simp]:
  "''unexpected trailing JSON input'' \<in> set json_messages" "''unexpected token'' \<in> set json_messages"
  "''unexpected end of input'' \<in> set json_messages" "''invalid null literal'' \<in> set json_messages"
  "''invalid boolean literal'' \<in> set json_messages" "''invalid number'' \<in> set json_messages"
  "''invalid fractional number'' \<in> set json_messages" "''invalid exponent'' \<in> set json_messages"
  "''invalid unicode escape'' \<in> set json_messages" "''control character in string'' \<in> set json_messages"
  "''unterminated escape'' \<in> set json_messages" "''short unicode escape'' \<in> set json_messages"
  "''invalid escape'' \<in> set json_messages" "''unterminated string'' \<in> set json_messages"
  "''expected object key'' \<in> set json_messages"
  by (simp_all add: json_messages_def)

lemma parse_safe_rbind [intro]: "parse_safe r \<Longrightarrow> (\<And>x. r = Inr x \<Longrightarrow> parse_safe (f x)) \<Longrightarrow> parse_safe (rbind r f)"
  by (cases r) (auto simp: parse_safe_def)

lemma parse_safe_steps [simp]:
  "parse_safe (expect_char c s)" "parse_safe (json_hex_value d)" "parse_safe (parse_null s)" "parse_safe (parse_bool s)" "parse_safe (stod s)"
  "parse_safe (number_integer s)" "parse_safe (number_fraction s)" "parse_safe (number_exponent s)"
  by (auto simp: expect_char_def json_hex_value_def parse_null_def parse_bool_def stod_def number_integer_def number_fraction_def
    number_exponent_def Let_def split: option.splits)

lemma parse_safe_hex_loop [simp]: "parse_safe (hex_loop v cs)"
  by (induction v cs rule: hex_loop.induct) auto

lemma parse_safe_escape [simp]: "parse_safe (parse_escape s)"
  by (auto simp: parse_escape_def parse_unicode_def split: list.splits)

lemma parse_safe_string_chars [simp]: "parse_safe (string_chars out s)"
proof (induction "length s" arbitrary: out s rule: less_induct)
  case less
  have "parse_safe (rbind (parse_escape r) (\<lambda>(x, r'). string_chars (out @ x) r'))" if "s = c # r" for c r
    using that less.hyps by (intro parse_safe_rbind) (auto dest!: parse_escape_length)
  with less.hyps show ?case by (cases s) (simp_all add: string_chars.simps [of out])
qed

lemma parse_safe_string [simp]: "parse_safe (parse_string s)"
  unfolding parse_string_def by (rule parse_safe_rbind) simp_all

lemma parse_safe_number [simp]: "parse_safe (parse_number s)"
  unfolding parse_number_def by (intro parse_safe_rbind parse_safe_steps parse_safe_simps)

lemma enough_fuel:
  "(\<forall>s. 2 * length s + 1 \<le> f \<longrightarrow> parse_safe (parse_cookie_value f s)) \<and>
   (\<forall>vs s. 2 * length s + 2 \<le> f \<longrightarrow> parse_safe (parse_elements f vs s)) \<and>
   (\<forall>ms s. 2 * length s + 2 \<le> f \<longrightarrow> parse_safe (parse_members f ms s))"
proof (induction f)
  case (Suc f)
  then have v: "\<And>s. 2 * length s + 1 \<le> f \<Longrightarrow> parse_safe (parse_cookie_value f s)"
    and e: "\<And>vs s. 2 * length s + 2 \<le> f \<Longrightarrow> parse_safe (parse_elements f vs s)"
    and m: "\<And>ms s. 2 * length s + 2 \<le> f \<Longrightarrow> parse_safe (parse_members f ms s)" by blast+
  show ?case
  proof (intro conjI allI impI)
    fix s :: string assume b: "2 * length s + 1 \<le> Suc f"
    have sub: "2 * length (skip_ws r) + 2 \<le> f" if "expect_char c (skip_ws s) = Inr r" for c r
      using expect_char_length [OF that] skip_ws_le [of s] skip_ws_le [of r] b by simp
    show "parse_safe (parse_cookie_value (Suc f) s)"
      by (auto simp: Let_def split: option.splits intro!: parse_safe_rbind e m dest: sub)
  next
    fix vs and s :: string assume b: "2 * length s + 2 \<le> Suc f"
    then show "parse_safe (parse_elements (Suc f) vs s)"
      by (auto split: option.splits intro!: parse_safe_rbind v e dest!: value_length expect_char_length)
  next
    fix ms and s :: string assume b: "2 * length s + 2 \<le> Suc f"
    then show "parse_safe (parse_members (Suc f) ms s)" using skip_ws_le [of s]
      by (auto simp: Let_def split: option.splits intro!: parse_safe_rbind v m dest!: value_length expect_char_length parse_string_length)
  qed
qed simp

lemma parse_cookie_json_failures: "parse_safe (parse_cookie_json s)"
proof -
  have "parse_safe (parse_cookie_value (2 * length s + 2) (skip_ws s))"
    using conjunct1 [OF enough_fuel, rule_format, of "skip_ws s" "2 * length s + 2"] skip_ws_le [of s] by simp
  then show ?thesis by (auto simp: parse_cookie_json_def)
qed

end
