(* ===== verification/Cookie_Import.thy ===== *)
theory Cookie_Import
  imports Cookie_Json
begin

text \<open>
  \<^verbatim>\<open>cookie_import.cpp\<close> behind its parser: reading the entries of a cookie file and storing them in a jar.  An
  exception leaves the jar as it was at that moment, so that an import is the jar and the outcome.
  The clock is read once for each cookie stored.
\<close>

record import_result =
  imported :: nat
  skipped :: nat
  warnings :: "string list"

definition cookie_string :: "cookie_json \<Rightarrow> string \<Rightarrow> string option" where
  "cookie_string object key = (case json_member key object of Some (CString s) \<Rightarrow> Some s | _ \<Rightarrow> None)"

definition cookie_bool :: "cookie_json \<Rightarrow> string \<Rightarrow> bool option" where
  "cookie_bool object key = (case json_member key object of Some (CBool b) \<Rightarrow> Some b | _ \<Rightarrow> None)"

definition cookie_number :: "cookie_json \<Rightarrow> string \<Rightarrow> f64 option" where
  "cookie_number object key = (case json_member key object of Some (CNumber x) \<Rightarrow> Some x | _ \<Rightarrow> None)"

definition value_or :: "'a option \<Rightarrow> 'a \<Rightarrow> 'a" where
  "value_or x d = (case x of None \<Rightarrow> d | Some y \<Rightarrow> y)"

definition first_of :: "'a option \<Rightarrow> 'a option \<Rightarrow> 'a option" where
  "first_of x y = (case x of None \<Rightarrow> y | Some _ \<Rightarrow> x)"

definition bool_any :: "cookie_json \<Rightarrow> string \<Rightarrow> string \<Rightarrow> bool option" where
  "bool_any object first second = first_of (cookie_bool object first) (cookie_bool object second)"

text \<open>\<open>static_cast<std::int64_t>\<close> of a positive double.\<close>

definition cast_int64 :: "rat \<Rightarrow> int importing" where
  "cast_int64 q = (if \<lfloor>q\<rfloor> < 2 ^ 63 then Inr \<lfloor>q\<rfloor> else Inl Undefined_Cast)"

definition expires_from :: "cookie_json \<Rightarrow> int option importing" where
  "expires_from object =
     (case first_of (first_of (cookie_number object ''expirationDate'') (cookie_number object ''expires'')) (cookie_number object ''expires_unix'') of
        None \<Rightarrow> Inr None
      | Some Nonfinite \<Rightarrow> Inr None
      | Some (F64 neg q) \<Rightarrow> if neg \<or> q = 0 then Inr None else rbind (cast_int64 q) (\<lambda>t. Inr (Some t)))"

definition strip_leading_dot :: "string \<Rightarrow> string" where
  "strip_leading_dot d = dropWhile (\<lambda>c. c = CHR ''.'') d"

definition origin_for_cookie :: "cookie \<Rightarrow> string option \<Rightarrow> string \<Rightarrow> string" where
  "origin_for_cookie c url default_origin =
     (if url \<noteq> None \<and> url \<noteq> Some [] then the url
      else if ck_domain c \<noteq> [] then
        (if ck_secure c then ''https://'' else ''http://'') @ strip_leading_dot (ck_domain c) @
        (if ck_path c = [] then ''/'' else ck_path c)
      else default_origin)"

text \<open>What the loop does with an entry: skip it with a warning, or store a cookie from an origin.\<close>

datatype item_action = Skip_Item string | Store_Item string cookie

definition item_cookie :: "cookie_json \<Rightarrow> string \<Rightarrow> string \<Rightarrow> int option \<Rightarrow> cookie" where
  "item_cookie item name v expires =
     (let domain = value_or (cookie_string item ''domain'') [] in
      \<lparr>ck_name = name, ck_value = v, ck_domain = domain,
       ck_path = value_or (cookie_string item ''path'') ''/'',
       ck_secure = value_or (cookie_bool item ''secure'') False,
       ck_http_only = value_or (bool_any item ''httpOnly'' ''http_only'') False,
       ck_host_only = (case bool_any item ''hostOnly'' ''host_only'' of
           Some b \<Rightarrow> b
         | None \<Rightarrow> domain = [] \<or> domain \<noteq> [] \<and> hd domain \<noteq> CHR ''.''),
       ck_expires = expires,
       ck_same_site = value_or (cookie_string item ''sameSite'') (value_or (cookie_string item ''same_site'') [])\<rparr>)"

definition read_item :: "string \<Rightarrow> cookie_json \<Rightarrow> item_action importing" where
  "read_item default_origin item =
     (case item of
        CObject _ \<Rightarrow>
          (case (cookie_string item ''name'', cookie_string item ''value'') of
             (Some name, Some v) \<Rightarrow>
               if name = [] then Inr (Skip_Item ''skipped cookie missing name or value'')
               else rbind (expires_from item) (\<lambda>expires.
                 let c = item_cookie item name v expires;
                     src = origin_for_cookie c (cookie_string item ''url'') default_origin
                 in if src = [] then Inr (Skip_Item ''skipped cookie without domain or URL'') else Inr (Store_Item src c))
           | _ \<Rightarrow> Inr (Skip_Item ''skipped cookie missing name or value''))
      | _ \<Rightarrow> Inr (Skip_Item ''skipped non-object cookie entry''))"

fun import_cookie_array ::
  "(nat \<Rightarrow> int) \<Rightarrow> string \<Rightarrow> cookie_json list \<Rightarrow> import_result \<Rightarrow> cookie list \<Rightarrow> cookie list \<times> import_result importing" where
  "import_cookie_array now default_origin [] res jar = (jar, Inr res)"
| "import_cookie_array now default_origin (item # items) res jar =
     (case read_item default_origin item of
        Inl e \<Rightarrow> (jar, Inl e)
      | Inr (Skip_Item w) \<Rightarrow>
          import_cookie_array now default_origin items (res\<lparr>skipped := skipped res + 1, warnings := warnings res @ [w]\<rparr>) jar
      | Inr (Store_Item src c) \<Rightarrow>
          (case parse_url src of
             Inl e \<Rightarrow> (jar, Inl (Thrown e))
           | Inr u \<Rightarrow>
               import_cookie_array now default_origin items (res\<lparr>imported := imported res + 1\<rparr>)
                 (jar_set (now (imported res)) u c jar)))"

text \<open>The entries of a cookie file: an array, or the array under \<open>cookies\<close> of an object.\<close>

definition cookie_entries :: "cookie_json \<Rightarrow> cookie_json list option" where
  "cookie_entries doc =
     (case doc of
        CArray vs \<Rightarrow> Some vs
      | CObject _ \<Rightarrow> (case json_member ''cookies'' doc of Some (CArray vs) \<Rightarrow> Some vs | _ \<Rightarrow> None)
      | _ \<Rightarrow> None)"

definition shape_error :: import_failure where
  "shape_error = Thrown (Error ParseError ''cookie JSON must be an array or an object with a cookies array'')"

definition import_cookies_json :: "(nat \<Rightarrow> int) \<Rightarrow> cookie list \<Rightarrow> string \<Rightarrow> string \<Rightarrow> cookie list \<times> import_result importing" where
  "import_cookies_json now jar contents default_origin =
     (case parse_cookie_json contents of
        Inl e \<Rightarrow> (jar, Inl e)
      | Inr doc \<Rightarrow>
          (case cookie_entries doc of
             Some items \<Rightarrow>
               import_cookie_array now default_origin items \<lparr>imported = 0, skipped = 0, warnings = []\<rparr> jar
           | None \<Rightarrow> (jar, Inl shape_error)))"

section \<open>What an import does\<close>

definition import_warnings :: "string set" where
  "import_warnings =
     {''skipped non-object cookie entry'', ''skipped cookie missing name or value'', ''skipped cookie without domain or URL''}"

definition import_failures :: "import_failure set" where
  "import_failures = set json_failures \<union>
     {shape_error, Undefined_Cast, Thrown (Error InvalidUrl ''unterminated IPv6 host'')}"

definition stored_from :: "cookie_json \<Rightarrow> jar_op \<Rightarrow> bool" where
  "stored_from item op \<longleftrightarrow>
     (\<exists>t u c. op = Set_Cookie t u c \<and> cookie_string item ''name'' = Some (ck_name c) \<and> cookie_string item ''value'' = Some (ck_value c))"

lemma read_item_cases:
  "case read_item d item of
     Inl e \<Rightarrow> e = Undefined_Cast
   | Inr (Skip_Item w) \<Rightarrow> w \<in> import_warnings
   | Inr (Store_Item src c) \<Rightarrow> stored_from item (Set_Cookie t u c) \<and> ck_name c \<noteq> []"
proof -
  have e: "expires_from item = Inl x \<Longrightarrow> x = Undefined_Cast" for item x
    by (auto simp: expires_from_def cast_int64_def split: option.splits f64.splits if_splits)
  show ?thesis
    by (auto simp: read_item_def import_warnings_def stored_from_def item_cookie_def Let_def rbind_def dest: e
      split: cookie_json.splits option.splits sum.splits)
qed

lemma parse_url_failure: "parse_url s = Inl e \<Longrightarrow> e = Error InvalidUrl ''unterminated IPv6 host''"
  by (auto simp: parse_url_def read_authority_def split_host_def rbind_def Let_def split: prod.splits sum.splits option.splits if_splits)

text \<open>
  The entries split into those skipped and those stored, in order, where the import ends well; the jar
  is that of the calls made, also where it fails.
\<close>

definition outcome_ok :: "cookie_json list \<Rightarrow> import_result \<Rightarrow> cookie list \<Rightarrow> cookie list \<times> import_result importing \<Rightarrow> bool" where
  "outcome_ok items res jar r =
     (\<exists>kept ops. subseq kept items \<and> list_all2 stored_from kept ops \<and> fst r = fold jar_step ops jar \<and>
       (case snd r of
          Inl e \<Rightarrow> e \<in> import_failures
        | Inr res' \<Rightarrow>
            imported res' = imported res + length ops \<and>
            imported res' + skipped res' = imported res + skipped res + length items \<and>
            (\<exists>ws. warnings res' = warnings res @ ws \<and> skipped res' = skipped res + length ws \<and> set ws \<subseteq> import_warnings)))"

lemma outcome_fail: "e \<in> import_failures \<Longrightarrow> outcome_ok items res jar (jar, Inl e)"
  unfolding outcome_ok_def by (intro exI [of _ "[]"]) simp

lemma result_updates:
  "imported (res\<lparr>skipped := n, warnings := ws\<rparr>) = imported res" "skipped (res\<lparr>skipped := n, warnings := ws\<rparr>) = n"
  "warnings (res\<lparr>skipped := n, warnings := ws\<rparr>) = ws" "imported (res\<lparr>imported := n\<rparr>) = n"
  "skipped (res\<lparr>imported := n\<rparr>) = skipped res" "warnings (res\<lparr>imported := n\<rparr>) = warnings res"
  by simp_all

lemma outcome_skip:
  assumes "outcome_ok items (res\<lparr>skipped := skipped res + 1, warnings := warnings res @ [w]\<rparr>) jar r" and w: "w \<in> import_warnings"
  shows "outcome_ok (item # items) res jar r"
proof -
  from assms(1) obtain kept ops where k: "subseq kept items" "list_all2 stored_from kept ops" "fst r = fold jar_step ops jar"
    and c: "case snd r of Inl e \<Rightarrow> e \<in> import_failures | Inr res' \<Rightarrow> imported res' = imported res + length ops \<and>
      imported res' + skipped res' = imported res + (skipped res + 1) + length items \<and>
      (\<exists>ws. warnings res' = (warnings res @ [w]) @ ws \<and> skipped res' = skipped res + 1 + length ws \<and> set ws \<subseteq> import_warnings)"
    unfolding outcome_ok_def result_updates by blast
  have "\<exists>vs. warnings x = warnings res @ vs \<and> skipped x = skipped res + length vs \<and> set vs \<subseteq> import_warnings"
    if "warnings x = (warnings res @ [w]) @ ws" "skipped x = skipped res + 1 + length ws" "set ws \<subseteq> import_warnings" for x :: import_result and ws
    using that w by (intro exI [of _ "w # ws"]) simp
  with k c show ?thesis unfolding outcome_ok_def by (intro exI [of _ kept] exI [of _ ops]) (auto split: sum.splits)
qed

lemma outcome_store:
  assumes "outcome_ok items (res\<lparr>imported := imported res + 1\<rparr>) (jar_set t u c jar) r" and "stored_from item (Set_Cookie t u c)"
  shows "outcome_ok (item # items) res jar r"
proof -
  from assms(1) obtain kept ops where "subseq kept items" "list_all2 stored_from kept ops" "fst r = fold jar_step ops (jar_set t u c jar)"
    "case snd r of Inl e \<Rightarrow> e \<in> import_failures | Inr res' \<Rightarrow> imported res' = imported res + 1 + length ops \<and>
      imported res' + skipped res' = imported res + 1 + skipped res + length items \<and>
      (\<exists>ws. warnings res' = warnings res @ ws \<and> skipped res' = skipped res + length ws \<and> set ws \<subseteq> import_warnings)"
    unfolding outcome_ok_def result_updates by blast
  with assms(2) show ?thesis unfolding outcome_ok_def
    by (intro exI [of _ "item # kept"] exI [of _ "Set_Cookie t u c # ops"]) (auto split: sum.splits)
qed

lemma import_cookie_array_ok: "outcome_ok items res jar (import_cookie_array now d items res jar)"
proof (induction items arbitrary: res jar)
  case Nil
  then show ?case unfolding outcome_ok_def by (intro exI [of _ "[]"]) simp
next
  case (Cons item items)
  note ri = read_item_cases [where d = d and item = item]
  show ?case
  proof (cases "read_item d item")
    case (Inl e)
    with ri show ?thesis by (auto simp: import_failures_def intro: outcome_fail)
  next
    case (Inr a)
    show ?thesis
    proof (cases a)
      case (Skip_Item w)
      with Inr ri have "w \<in> import_warnings" by simp
      with outcome_skip [OF Cons.IH] Inr Skip_Item show ?thesis by simp
    next
      case (Store_Item src c)
      show ?thesis
      proof (cases "parse_url src")
        case (Inl e)
        with parse_url_failure Inr Store_Item show ?thesis by (auto simp: import_failures_def intro: outcome_fail)
      next
        case (Inr u)
        have "stored_from item (Set_Cookie (now (imported res)) u c)" using ri \<open>read_item d item = Inr a\<close> Store_Item by simp
        from outcome_store [OF Cons.IH this] show ?thesis using \<open>read_item d item = Inr a\<close> Store_Item Inr by simp
      qed
    qed
  qed
qed


text \<open>
  An expiry beyond the range of \<open>int64_t\<close> reaches the conversion that C++ leaves undefined; and a cookie
  that the jar refuses, here for the host of another domain, is counted as imported.
\<close>

lemma expiry_cast_undefined:
  "read_item d (CObject [(''name'', CString ''a''), (''value'', CString ''b''), (''expires'', CNumber (F64 False (2 ^ 70)))]) = Inl Undefined_Cast"
  by (simp add: read_item_def cookie_string_def cookie_number_def json_member_def expires_from_def first_of_def cast_int64_def)

definition refused_entry :: cookie_json where
  "refused_entry = CObject [(''name'', CString ''a''), (''value'', CString ''b''), (''domain'', CString ''x.org''), (''url'', CString ''http://y.org/'')]"

lemma refused_counted:
  "import_cookie_array now d [refused_entry] \<lparr>imported = 0, skipped = 0, warnings = []\<rparr> [] =
     ([], Inr \<lparr>imported = 1, skipped = 0, warnings = []\<rparr>)"
proof -
  have "parse_url ''http://y.org/'' = Inr (empty_url\<lparr>scheme := ''http'', host := ''y.org'', path := ''/'', has_authority := True\<rparr>)"
    by code_simp
  then show ?thesis
    by (simp add: refused_entry_def read_item_def cookie_string_def cookie_bool_def cookie_number_def json_member_def bool_any_def expires_from_def
      first_of_def value_or_def item_cookie_def origin_for_cookie_def jar_set_def accept_cookie_def domain_matches_def to_lower_def lower_char_def
      is_upper_def less_eq_char_def)
qed

end
