(* ===== verification/Event_Dispatch.thy ===== *)
theory Event_Dispatch
  imports Prelude
begin

text \<open>
  \<^verbatim>\<open>event.cpp\<close>: the names of the event types and the dispatcher.  A handler is a number; what the handlers do
  is an argument \<open>behaviour\<close>, which may change the event and, by calling back, the dispatcher itself.
  \<open>emit\<close> works on a snapshot: \<open>event_dispatch\<close> shows which handlers run, whatever they do.
\<close>

datatype event_type =
    SessionCreated | SessionDestroyed | BeforeNavigation | AfterNavigation | BeforeRequest | AfterResponse
  | BeforeRedirect | DocumentCreated | BeforeScript | AfterScript | ScriptException | ConsoleMessage | DomMutation
  | CookieChange | StorageAccess | UnsupportedApi | PluginInit | PluginShutdown | AntiBotDetected | EndpointDiscovered

fun event_type_name :: "event_type \<Rightarrow> string" where
  "event_type_name SessionCreated = ''session_created''"
| "event_type_name SessionDestroyed = ''session_destroyed''"
| "event_type_name BeforeNavigation = ''before_navigation''"
| "event_type_name AfterNavigation = ''after_navigation''"
| "event_type_name BeforeRequest = ''before_request''"
| "event_type_name AfterResponse = ''after_response''"
| "event_type_name BeforeRedirect = ''before_redirect''"
| "event_type_name DocumentCreated = ''document_created''"
| "event_type_name BeforeScript = ''before_script''"
| "event_type_name AfterScript = ''after_script''"
| "event_type_name ScriptException = ''script_exception''"
| "event_type_name ConsoleMessage = ''console''"
| "event_type_name DomMutation = ''dom_mutation''"
| "event_type_name CookieChange = ''cookie_change''"
| "event_type_name StorageAccess = ''storage_access''"
| "event_type_name UnsupportedApi = ''unsupported_api''"
| "event_type_name PluginInit = ''plugin_init''"
| "event_type_name PluginShutdown = ''plugin_shutdown''"
| "event_type_name AntiBotDetected = ''anti_bot_detected''"
| "event_type_name EndpointDiscovered = ''endpoint_discovered''"

definition event_names :: "(string \<times> event_type) list" where
  "event_names =
     [(''session_created'', SessionCreated), (''session_destroyed'', SessionDestroyed),
      (''before_navigation'', BeforeNavigation), (''after_navigation'', AfterNavigation),
      (''before_request'', BeforeRequest), (''after_response'', AfterResponse),
      (''before_redirect'', BeforeRedirect), (''document_created'', DocumentCreated),
      (''before_script'', BeforeScript), (''after_script'', AfterScript),
      (''script_exception'', ScriptException), (''console'', ConsoleMessage),
      (''dom_mutation'', DomMutation), (''cookie_change'', CookieChange),
      (''storage_access'', StorageAccess), (''unsupported_api'', UnsupportedApi),
      (''plugin_init'', PluginInit), (''plugin_shutdown'', PluginShutdown),
      (''anti_bot_detected'', AntiBotDetected), (''endpoint_discovered'', EndpointDiscovered)]"

definition parse_event_type :: "string \<Rightarrow> event_type option" where
  "parse_event_type name = map_of event_names name"

lemma event_names_all: "(event_type_name t, t) \<in> set event_names"
  by (cases t) (simp_all only: event_type_name.simps event_names_def list.set insert_iff simp_thms)

lemma event_names_sound: "list_all (\<lambda>(s, t). event_type_name t = s) event_names" "distinct (map fst event_names)"
  by code_simp+

lemma parse_event_type_name: "parse_event_type s = Some t \<longleftrightarrow> event_type_name t = s"
proof
  assume "parse_event_type s = Some t"
  then have "(s, t) \<in> set event_names" unfolding parse_event_type_def by (rule map_of_SomeD)
  with event_names_sound(1) show "event_type_name t = s" by (auto simp: list_all_iff)
next
  assume "event_type_name t = s"
  with event_names_all event_names_sound(2) show "parse_event_type s = Some t"
    unfolding parse_event_type_def by (auto intro: map_of_is_SomeI)
qed

section \<open>The dispatcher\<close>

record subscription =
  sub_id :: nat
  sub_type :: event_type
  sub_global :: bool
  sub_handler :: nat

record dispatcher =
  handlers :: "subscription list"
  next_id :: nat

definition new_dispatcher :: dispatcher where
  "new_dispatcher = \<lparr>handlers = [], next_id = 1\<rparr>"

text \<open>\<open>next_id_++\<close> on a \<open>uint64_t\<close>.\<close>

definition subscribe :: "event_type \<Rightarrow> nat \<Rightarrow> dispatcher \<Rightarrow> nat \<times> dispatcher" where
  "subscribe ty h d =
     (let i = next_id d in
      (i, d\<lparr>next_id := (i + 1) mod 2 ^ 64, handlers := handlers d @ [\<lparr>sub_id = i, sub_type = ty, sub_global = False, sub_handler = h\<rparr>]\<rparr>))"

definition subscribe_all :: "nat \<Rightarrow> dispatcher \<Rightarrow> nat \<times> dispatcher" where
  "subscribe_all h d =
     (let i = next_id d in
      (i, d\<lparr>next_id := (i + 1) mod 2 ^ 64, handlers := handlers d @ [\<lparr>sub_id = i, sub_type = ConsoleMessage, sub_global = True, sub_handler = h\<rparr>]\<rparr>))"

text \<open>\<open>std::find_if\<close> and \<open>erase\<close>: the first entry with the identifier.\<close>

definition unsubscribe :: "nat \<Rightarrow> dispatcher \<Rightarrow> bool \<times> dispatcher" where
  "unsubscribe i d =
     (let before = takeWhile (\<lambda>s. sub_id s \<noteq> i) (handlers d); rest = dropWhile (\<lambda>s. sub_id s \<noteq> i) (handlers d) in
      if rest = [] then (False, d) else (True, d\<lparr>handlers := before @ tl rest\<rparr>))"

definition clear_handlers :: "dispatcher \<Rightarrow> dispatcher" where
  "clear_handlers d = d\<lparr>handlers := []\<rparr>"

text \<open>
  The state while handlers run: the event, the dispatcher, and the handlers called so far.  The type of
  the event is read before the first of them.
\<close>

type_synonym 'e run_state = "'e \<times> dispatcher \<times> nat list"

definition call_handler :: "(nat \<Rightarrow> 'e \<Rightarrow> dispatcher \<Rightarrow> 'e \<times> dispatcher) \<Rightarrow> nat \<Rightarrow> 'e run_state \<Rightarrow> 'e run_state" where
  "call_handler behaviour h st =
     (case st of (e, d, called) \<Rightarrow> case behaviour h e d of (e', d') \<Rightarrow> (e', d', called @ [h]))"

definition emit :: "(nat \<Rightarrow> 'e \<Rightarrow> dispatcher \<Rightarrow> 'e \<times> dispatcher) \<Rightarrow> ('e \<Rightarrow> event_type) \<Rightarrow> 'e \<Rightarrow> dispatcher \<Rightarrow> 'e run_state" where
  "emit behaviour type_of e d =
     (let ty = type_of e;
          snapshot = filter (\<lambda>s. sub_global s \<or> sub_type s = ty) (handlers d);
          typed = fold (\<lambda>s st. if \<not> sub_global s then call_handler behaviour (sub_handler s) st else st) snapshot (e, d, [])
      in fold (\<lambda>s st. if sub_global s then call_handler behaviour (sub_handler s) st else st) snapshot typed)"

definition handler_count :: "event_type \<Rightarrow> dispatcher \<Rightarrow> nat" where
  "handler_count ty d = length (filter (\<lambda>s. sub_type s = ty) (handlers d))"

section \<open>Histories\<close>

datatype dispatch_op = Subscribe event_type nat | Subscribe_All nat | Unsubscribe nat | Clear_Handlers

primrec dispatch_step :: "dispatch_op \<Rightarrow> dispatcher \<Rightarrow> dispatcher" where
  "dispatch_step (Subscribe ty h) d = snd (subscribe ty h d)"
| "dispatch_step (Subscribe_All h) d = snd (subscribe_all h d)"
| "dispatch_step (Unsubscribe i) d = snd (unsubscribe i d)"
| "dispatch_step Clear_Handlers d = clear_handlers d"

definition subscribes :: "dispatch_op \<Rightarrow> bool" where
  "subscribes op = (case op of Subscribe _ _ \<Rightarrow> True | Subscribe_All _ \<Rightarrow> True | _ \<Rightarrow> False)"

text \<open>
  The specification keeps no counter and no identifiers in its entries: the subscription of a call is
  numbered by its position among the subscriptions, and it is live until a call removes it.
\<close>

definition removed :: "nat \<Rightarrow> dispatch_op list \<Rightarrow> bool" where
  "removed i ops \<longleftrightarrow> Unsubscribe i \<in> set ops \<or> Clear_Handlers \<in> set ops"

fun live :: "nat \<Rightarrow> dispatch_op list \<Rightarrow> (nat \<times> event_type option \<times> nat) list" where
  "live n [] = []"
| "live n (Subscribe ty h # ops) = (if removed n ops then live (n + 1) ops else (n, Some ty, h) # live (n + 1) ops)"
| "live n (Subscribe_All h # ops) = (if removed n ops then live (n + 1) ops else (n, None, h) # live (n + 1) ops)"
| "live n (_ # ops) = live n ops"

definition subscriptions :: "dispatch_op list \<Rightarrow> nat" where
  "subscriptions ops = length (filter subscribes ops)"

lemma subscriptions_simps [simp]:
  "subscriptions [] = 0" "subscriptions (op # ops) = (if subscribes op then 1 else 0) + subscriptions ops"
  "subscriptions (ops @ ops') = subscriptions ops + subscriptions ops'"
  by (simp_all add: subscriptions_def)

lemma live_ids: "x \<in> set (live n ops) \<Longrightarrow> n \<le> fst x \<and> fst x < n + subscriptions ops"
  by (induction n ops rule: live.induct) (auto simp: subscribes_def split: if_splits)

lemma live_distinct: "distinct (map fst (live n ops))"
  by (induction n ops rule: live.induct) (auto dest: live_ids)

lemma removed_append [simp]: "removed i (ops @ ops') \<longleftrightarrow> removed i ops \<or> removed i ops'"
  by (auto simp: removed_def)

lemma live_snoc:
  "live n (ops @ [Subscribe ty h]) = live n ops @ [(n + subscriptions ops, Some ty, h)]"
  "live n (ops @ [Subscribe_All h]) = live n ops @ [(n + subscriptions ops, None, h)]"
  "live n (ops @ [Unsubscribe i]) = filter (\<lambda>x. fst x \<noteq> i) (live n ops)"
  "live n (ops @ [Clear_Handlers]) = []"
  by (induction n ops rule: live.induct) (auto simp: removed_def subscribes_def)

text \<open>An entry of the dispatcher as the specification sees it.\<close>

definition entry :: "subscription \<Rightarrow> nat \<times> event_type option \<times> nat" where
  "entry s = (sub_id s, if sub_global s then None else Some (sub_type s), sub_handler s)"

definition dispatcher_after :: "dispatch_op list \<Rightarrow> dispatcher" where
  "dispatcher_after ops = fold dispatch_step ops new_dispatcher"

lemma erase_filter:
  "distinct (map f xs) \<Longrightarrow> takeWhile (\<lambda>x. f x \<noteq> i) xs @ tl (dropWhile (\<lambda>x. f x \<noteq> i) xs) = filter (\<lambda>x. f x \<noteq> i) xs"
proof (induction xs)
  case (Cons x xs)
  show ?case
  proof (cases "f x = i")
    case True
    then have "filter (\<lambda>x. f x \<noteq> i) xs = xs" using Cons.prems by (intro filter_True) (auto simp: image_iff)
    with True show ?thesis by simp
  next
    case False
    with Cons show ?thesis by simp
  qed
qed simp

lemma fst_entry [simp]: "fst (entry s) = sub_id s"
  by (simp add: entry_def)

lemma unsubscribe_filter:
  assumes "distinct (map sub_id (handlers d))"
  shows "unsubscribe i d = (i \<in> sub_id ` set (handlers d), d\<lparr>handlers := filter (\<lambda>s. sub_id s \<noteq> i) (handlers d)\<rparr>)"
proof (cases "dropWhile (\<lambda>s. sub_id s \<noteq> i) (handlers d) = []")
  case True
  then have "\<forall>s\<in>set (handlers d). sub_id s \<noteq> i" by (auto simp: dropWhile_eq_Nil_conv)
  then show ?thesis using True by (auto simp: unsubscribe_def Let_def filter_id_conv)
next
  case False
  then have "\<exists>s\<in>set (handlers d). sub_id s = i" by (auto simp: dropWhile_eq_Nil_conv)
  then show ?thesis using False erase_filter [OF assms, of i] by (auto simp: unsubscribe_def Let_def)
qed

lemma dispatcher_refines:
  "subscriptions ops < 2 ^ 64 \<Longrightarrow>
   map entry (handlers (dispatcher_after ops)) = live 1 ops \<and> next_id (dispatcher_after ops) = (1 + subscriptions ops) mod 2 ^ 64"
proof (induction ops rule: rev_induct)
  case Nil
  then show ?case by (simp add: dispatcher_after_def new_dispatcher_def)
next
  case (snoc op ops)
  let ?d = "dispatcher_after ops"
  have step: "dispatcher_after (ops @ [op]) = dispatch_step op ?d" by (simp add: dispatcher_after_def)
  have ih: "map entry (handlers ?d) = live 1 ops" "next_id ?d = (1 + subscriptions ops) mod 2 ^ 64"
    using snoc by (auto split: if_splits)
  have "map sub_id (handlers ?d) = map fst (live 1 ops)" unfolding ih(1) [symmetric] by simp
  then have "distinct (map sub_id (handlers ?d))" using live_distinct by metis
  note un = unsubscribe_filter [OF this]
  have fresh: "(1 + subscriptions ops) mod 2 ^ 64 = 1 + subscriptions ops" if "subscribes op"
    using snoc.prems that by simp
  have entries: "entry \<lparr>sub_id = n, sub_type = ty, sub_global = False, sub_handler = h\<rparr> = (n, Some ty, h)"
    "entry \<lparr>sub_id = n, sub_type = ty, sub_global = True, sub_handler = h\<rparr> = (n, None, h)" for n ty h
    by (simp_all add: entry_def)
  show ?case unfolding step
  proof (cases op)
    case (Unsubscribe i)
    have "map entry (filter (\<lambda>s. sub_id s \<noteq> i) (handlers ?d)) = filter (\<lambda>x. fst x \<noteq> i) (live 1 ops)"
      unfolding ih(1) [symmetric] by (simp add: filter_map comp_def)
    then show "map entry (handlers (dispatch_step op ?d)) = live 1 (ops @ [op]) \<and>
        next_id (dispatch_step op ?d) = (1 + subscriptions (ops @ [op])) mod 2 ^ 64"
      using ih(2) Unsubscribe by (simp add: un live_snoc subscribes_def)
  qed (use ih fresh in \<open>simp_all add: subscribe_def subscribe_all_def clear_handlers_def live_snoc entries subscribes_def Let_def\<close>)
qed

text \<open>The handlers called by the two loops of \<open>emit\<close>.\<close>

lemma call_loop:
  "snd (snd (fold (\<lambda>s st. if P s then call_handler b (sub_handler s) st else st) ss st)) =
   snd (snd st) @ map sub_handler (filter P ss)"
proof (induction ss arbitrary: st)
  case (Cons s ss)
  have "snd (snd (call_handler b h st)) = snd (snd st) @ [h]" for h by (simp add: call_handler_def split: prod.splits)
  with Cons show ?case by simp
qed simp

lemma emit_called:
  "snd (snd (emit b type_of e d)) =
   map sub_handler (filter (\<lambda>s. \<not> sub_global s \<and> sub_type s = type_of e) (handlers d)) @ map sub_handler (filter sub_global (handlers d))"
  unfolding emit_def Let_def call_loop by (simp add: conj_commute cong: conj_cong)

lemma entries_called:
  "map sub_handler (filter (\<lambda>s. \<not> sub_global s \<and> sub_type s = ty) hs) = [h. (i, Some t, h) \<leftarrow> map entry hs, t = ty]"
  "map sub_handler (filter sub_global hs) = [h. (i, None, h) \<leftarrow> map entry hs]"
  by (induction hs) (auto simp: entry_def)


definition sample_ops :: "dispatch_op list" where
  "sample_ops = [Subscribe_All 7, Subscribe DomMutation 8, Subscribe CookieChange 9, Subscribe DomMutation 5, Unsubscribe 2]"


end
