(* ===== verification/Ir_Filter.thy ===== *)
theory Ir_Filter
  imports Gfx_Ir
begin

text \<open>
  \<^verbatim>\<open>ir_filter.cpp\<close>: legality of XPath expressions and the events of a selection.  The evaluator of XPath is the
  argument \<open>evaluate\<close>: it raises an error with a message or gives a value.  Filtering climbs the path of
  every event; \<open>filter_selects_subtrees\<close> relates it to the tree.
\<close>

datatype xpath_value = Node_Set "nat option list" | Scalar_Value

type_synonym evaluator = "dom \<Rightarrow> document \<Rightarrow> string \<Rightarrow> string + xpath_value"

record xpath_legality =
  legal :: bool
  legality_error :: string

definition check_xpath_legality :: "evaluator \<Rightarrow> dom \<Rightarrow> document \<Rightarrow> string \<Rightarrow> xpath_legality" where
  "check_xpath_legality evaluate d doc expr =
     (if expr = [] then \<lparr>legal = False, legality_error = ''XPath expression is empty''\<rparr>
      else case evaluate d doc expr of
          Inl msg \<Rightarrow> \<lparr>legal = False, legality_error = msg\<rparr>
        | Inr _ \<Rightarrow> \<lparr>legal = True, legality_error = []\<rparr>)"

definition is_valid_xpath_expression :: "evaluator \<Rightarrow> dom \<Rightarrow> document \<Rightarrow> string \<Rightarrow> bool" where
  "is_valid_xpath_expression evaluate d doc expr = legal (check_xpath_legality evaluate d doc expr)"

text \<open>The inner loop of the filter: the scope of an event and the scopes above it.\<close>

lemma find_last_less: "find_last_char c s = Some n \<Longrightarrow> n < length s"
  by (auto simp: find_last_char_def Let_def split: if_splits)

function climb :: "string list \<Rightarrow> string \<Rightarrow> bool" where
  "climb selected_paths scope =
     (if scope \<in> set selected_paths then True
      else case find_last_char (CHR ''/'') scope of
          None \<Rightarrow> False
        | Some slash \<Rightarrow>
            if take 7 (drop (slash + 1) scope) = ''text()['' then climb selected_paths (take slash scope)
            else (case find_last_char (CHR ''['') scope of
                None \<Rightarrow> False
              | Some bracket \<Rightarrow>
                  if bracket < slash + 1 \<or> last scope \<noteq> CHR '']'' then False
                  else if take slash scope = [] then False
                  else climb selected_paths (take slash scope)))"
  by pat_completeness auto
termination by (relation "measure (\<lambda>(ps, s). length s)") (auto dest: find_last_less)

declare climb.simps [simp del]

definition selected_paths :: "ir_build \<Rightarrow> nat option list \<Rightarrow> string list" where
  "selected_paths ir found = List.map_filter (\<lambda>n. case n of None \<Rightarrow> None | Some i \<Rightarrow> ib_paths ir i) found"

definition filter_prowse_xas :: "evaluator \<Rightarrow> dom \<Rightarrow> document \<Rightarrow> string \<Rightarrow> prowse_event list result option" where
  "filter_prowse_xas evaluate d doc expr =
     (if expr = [] then Some (Inr [])
      else obind (build_ir d doc) (\<lambda>ir.
        case evaluate d doc expr of
          Inl _ \<Rightarrow> Some (Inr [])
        | Inr Scalar_Value \<Rightarrow> Some (Inr [])
        | Inr (Node_Set found) \<Rightarrow>
            let paths = selected_paths ir found in
            if paths = [] then Some (Inr [])
            else Some (Inr (filter (\<lambda>e. climb paths (ev_xpath e)) (ib_events ir)))))"

section \<open>Climbing paths is climbing the tree\<close>

lemma stops: "c \<in> set s \<Longrightarrow> length (takeWhile (\<lambda>x. x \<noteq> c) (rev s)) < length s"
proof -
  have "c \<in> set xs \<Longrightarrow> length (takeWhile (\<lambda>x. x \<noteq> c) xs) < length xs" for xs by (induction xs) auto
  from this [of "rev s"] show "c \<in> set s \<Longrightarrow> length (takeWhile (\<lambda>x. x \<noteq> c) (rev s)) < length s" by simp
qed

lemma find_last_suffix: "c \<in> set b \<Longrightarrow> find_last_char c (a @ b) = map_option ((+) (length a)) (find_last_char c b)"
proof -
  assume "c \<in> set b"
  then have "takeWhile (\<lambda>x. x \<noteq> c) (rev b @ rev a) = takeWhile (\<lambda>x. x \<noteq> c) (rev b)" by (auto simp: takeWhile_append)
  moreover note stops [OF \<open>c \<in> set b\<close>]
  ultimately show ?thesis by (auto simp: find_last_char_def Let_def)
qed

text \<open>One step of the climb, on a text segment and on the segment of an element.\<close>

lemma climb_text:
  assumes "p @ ''/text()['' @ s \<notin> set sel" and "CHR ''/'' \<notin> set s"
  shows "climb sel (p @ ''/text()['' @ s) = climb sel p"
proof -
  have "find_last_char (CHR ''/'') (p @ CHR ''/'' # (''text()['' @ s)) = Some (length p)"
    using assms(2) by (intro find_last_char_append) auto
  with assms(1) show ?thesis by (subst climb.simps) simp
qed

lemma climb_segment:
  assumes "CHR ''/'' \<notin> set seg" and "\<not> prefix ''text()['' seg" and "CHR ''['' \<in> set seg" and "last seg = CHR '']''"
  shows "climb sel (p @ CHR ''/'' # seg) \<longleftrightarrow> p @ CHR ''/'' # seg \<in> set sel \<or> p \<noteq> [] \<and> climb sel p"
proof -
  let ?s = "p @ CHR ''/'' # seg"
  have ne: "seg \<noteq> []" using assms(3) by auto
  have slash: "find_last_char (CHR ''/'') ?s = Some (length p)" by (rule find_last_char_append [OF assms(1)])
  obtain k where k: "find_last_char (CHR ''['') seg = Some k" 
    using stops [OF assms(3)] by (auto simp: find_last_char_def Let_def)
  have "find_last_char (CHR ''['') ((p @ ''/'') @ seg) = Some (length p + 1 + k)" using find_last_suffix [OF assms(3), of "p @ ''/''"] k by simp
  then have bracket: "find_last_char (CHR ''['') ?s = Some (length p + 1 + k)" by simp
  have "take 7 seg \<noteq> ''text()[''" using assms(2) by (metis take_is_prefix)
  with assms(4) slash bracket ne show ?thesis by (subst climb.simps) auto
qed

lemma segment_shape:
  assumes "vtd_names d" and "i < size_dom d" and "is_element (node_at d i)"
  shows "CHR ''/'' \<notin> set (path_segment d i)" "\<not> prefix ''text()['' (path_segment d i)" "CHR ''['' \<in> set (path_segment d i)"
    "last (path_segment d i) = CHR '']''"
proof -
  show "CHR ''/'' \<notin> set (path_segment d i)" using assms by (intro segment_no_slash) (auto simp: vtd_names_def)
  have nm: "\<not> prefix ''text()'' (nname (node_at d i))" using assms by (auto simp: vtd_names_def)
  show "\<not> prefix ''text()['' (path_segment d i)"
  proof
    assume "prefix ''text()['' (path_segment d i)"
    then have "prefix ''text()'' (path_segment d i)" by (auto simp: prefix_def)
    then have "prefix ''text()'' (nname (node_at d i) @ CHR ''['' # decimal (same_tag_index d i) @ '']'')" by (simp add: path_segment_def)
    from prefix_before [OF this] nm show False by simp
  qed
qed (simp_all add: path_segment_def)

lemma node_path_step:
  assumes "dom_wf d" and "vtd_names d" and "i < size_dom d" and "is_element (node_at d i)"
  shows "node_path d i = path_prefix d i @ CHR ''/'' # path_segment d i"
  using element_path_step [of d i] assms by (simp add: node_path_def vtd_names_def)

text \<open>The element and the elements above it.\<close>

definition self_or_above :: "dom \<Rightarrow> nat \<Rightarrow> nat \<Rightarrow> bool" where
  "self_or_above d a i \<longleftrightarrow> is_element (node_at d a) \<and> (a, i) \<in> (parent_rel d)\<^sup>*"

lemma self_or_above_step:
  assumes "parent (node_at d i) = Some p" and "i < size_dom d"
  shows "self_or_above d a i \<longleftrightarrow> a = i \<and> is_element (node_at d i) \<or> self_or_above d a p"
proof -
  have "(a, i) \<in> (parent_rel d)\<^sup>* \<longleftrightarrow> a = i \<or> (a, p) \<in> (parent_rel d)\<^sup>*"
    using assms by (auto simp: parent_rel_def elim: rtranclE intro: rtrancl_into_rtrancl)
  then show ?thesis by (auto simp: self_or_above_def)
qed

lemma self_or_above_top: "parent (node_at d i) = None \<Longrightarrow> self_or_above d a i \<longleftrightarrow> a = i \<and> is_element (node_at d i)"
  by (auto simp: self_or_above_def parent_rel_def elim: rtranclE)

lemma climb_node_path:
  assumes wf: "dom_wf d" and nm: "vtd_names d"
  shows "i < size_dom d \<Longrightarrow> is_element (node_at d i) \<Longrightarrow>
    climb sel (node_path d i) \<longleftrightarrow> (\<exists>a. self_or_above d a i \<and> node_path d a \<in> set sel)"
proof (induction i rule: parent_induct [OF wf, consumes 1, case_names up])
  case (up i)
  have lay: "layout_ok d" using nm by (simp add: vtd_names_def)
  note step = node_path_step [OF wf nm up(1,3)]
  have c: "climb sel (node_path d i) \<longleftrightarrow> node_path d i \<in> set sel \<or> path_prefix d i \<noteq> [] \<and> climb sel (path_prefix d i)"
    unfolding step by (rule climb_segment) (rule segment_shape [OF nm up(1,3)])+
  show ?case
  proof (cases rule: layout_parent_cases [OF wf lay up(1,3)])
    case 1
    with c up(3) show ?thesis by (simp add: self_or_above_top)
  next
    case (2 p)
    have "\<not> self_or_above d a p" for a
    proof -
      have "parent (node_at d p) = None" using 2(1,4) lay links_okD(3) [OF dom_wfD(1) [OF wf] up(1) 2(1)] by (simp add: layout_ok_def)
      then show ?thesis using 2(4) by (simp add: self_or_above_top is_element_def)
    qed
    with c 2 up(1,3) show ?thesis by (simp add: self_or_above_step [OF 2(1)])
  next
    case (3 p)
    then have "path_prefix d i = node_path d p" by (simp add: node_path_def)
    with c 3 up show ?thesis by (auto simp: self_or_above_step [OF 3(1) up(1)])
  qed
qed

lemma climb_event:
  assumes wf: "dom_wf d" and nm: "vtd_names d" and i: "i < size_dom d" "is_element (node_at d i)" and e: "comes_from d i e"
    and sel: "\<And>p. p \<in> set sel \<Longrightarrow> \<exists>a. a < size_dom d \<and> is_element (node_at d a) \<and> p = node_path d a"
  shows "climb sel (ev_xpath e) \<longleftrightarrow> (\<exists>a. self_or_above d a i \<and> node_path d a \<in> set sel)"
proof -
  have "climb sel (node_path d i @ ''/text()['' @ decimal k @ '']'') = climb sel (node_path d i)" for k
  proof (rule climb_text)
    have sl: "CHR ''/'' \<notin> set (decimal k)" by (rule decimal_not_in) (simp add: char_class)
    then show "CHR ''/'' \<notin> set (decimal k @ '']'')" by simp
    show "node_path d i @ ''/text()['' @ decimal k @ '']'' \<notin> set sel"
    proof
      assume "node_path d i @ ''/text()['' @ decimal k @ '']'' \<in> set sel"
      then obtain a where a: "a < size_dom d" "is_element (node_at d a)" "node_path d i @ ''/text()['' @ decimal k @ '']'' = node_path d a"
        using sel by blast
      note seg = segment_shape [OF nm a(1,2)]
      have "node_path d i @ CHR ''/'' # (''text()['' @ decimal k @ '']'') = path_prefix d a @ CHR ''/'' # path_segment d a"
        using a(3) node_path_step [OF wf nm a(1,2)] by simp
      from last_delimiter_unique [OF this] sl seg(1) have "''text()['' @ decimal k @ '']'' = path_segment d a" by auto
      with seg(2) show False by (metis prefixI)
    qed
  qed
  with e climb_node_path [OF wf nm i] show ?thesis
    by (auto simp: comes_from_def start_event_def end_event_def attribute_event_def text_event_def make_event_def)
qed

lemma same_root: "(a, i) \<in> (parent_rel d)\<^sup>* \<Longrightarrow> document_root d a = document_root d i"
proof (induction rule: rtrancl_induct)
  case (step y z)
  then have "document_root d z = document_root d y" by (subst document_root.simps) (simp add: parent_rel_def)
  with step show ?case by simp
qed simp

lemma above_size:
  assumes "dom_wf d" and "(a, i) \<in> (parent_rel d)\<^sup>*" and "i < size_dom d"
  shows "a < size_dom d"
  using assms(2)
proof (cases rule: converse_rtranclE)
  case (step z)
  then have "z < size_dom d" "parent (node_at d z) = Some a" by (auto simp: parent_rel_def)
  from links_okD(3) [OF dom_wfD(1) [OF assms(1)] this] show ?thesis by simp
qed (simp add: assms(3))

text \<open>The walk visits the elements of the tree, all of them.\<close>

lemma visited_preorder:
  assumes "dom_wf d" and "layout_ok d"
  shows "links d t \<Longrightarrow> visited d t = {i \<in> set (preorder t). is_element (node_at d i)}"
proof (induction t)
  case (INode i ts)
  have i: "i < size_dom d" and ch: "map iroot ts = children (node_at d i)" and ts: "\<And>t. t \<in> set ts \<Longrightarrow> links d t"
    using INode.prems by auto
  note IH = INode.IH [OF _ ts]
  have kid: "parent (node_at d (iroot t)) = Some i" "iroot t < size_dom d" if "t \<in> set ts" for t
  proof -
    have "iroot t \<in> set (children (node_at d i))" unfolding ch [symmetric] using that by simp
    then show "parent (node_at d (iroot t)) = Some i" "iroot t < size_dom d"
      using child_parent_rel [OF assms(1) i] by (auto simp: parent_rel_def)
  qed
  have inner: "visited d t = {}" if t: "t \<in> set ts" "ntype (node_at d (iroot t)) \<noteq> Element" for t
  proof -
    have "ntype (node_at d (iroot t)) \<noteq> Document" using kid [OF t(1)] assms(2) unfolding layout_ok_def by auto
    with t(2) show ?thesis by (cases t) simp
  qed
  show ?case
  proof (cases "ntype (node_at d i) = Document \<or> ntype (node_at d i) = Element")
    case True
    then show ?thesis using IH inner by (auto simp: is_element_def)
  next
    case False
    have "ts = []"
    proof (rule ccontr)
      assume "ts \<noteq> []"
      then obtain t where "t \<in> set ts" by (cases ts) auto
      from kid [OF this] assms(2) False show False unfolding layout_ok_def is_element_def by metis
    qed
    with False show ?thesis by (simp add: is_element_def)
  qed
qed

lemma build_ir_success:
  assumes "dom_wf d" and "doc_root doc = Some r" and "itree_at d r = Some t" and "links d t" and "emit_prowse_events d doc = Some (Inr es)"
  obtains ir where "build_ir d doc = Some (Inr ir)" "ib_events ir = es" "es = events_of d 0 t" "within d 0 t"
    "ib_paths ir = (\<lambda>j. if j \<in> visited d t then element_path d (Some j) else None)"
proof -
  have b: "build_ir d doc = walk_tree d 0 t empty_build" using assms(2,3) by (simp add: build_ir_def)
  have ok: "budget_ok (ib_budget empty_build)" by (simp add: empty_build_def budget_ok_def empty_budget_def)
  have w: "if within d 0 t \<and> budget_ok (spent (events_of d 0 t) (ib_budget empty_build))
     then build_ir d doc = Some (Inr (emitted d (events_of d 0 t) (visited d t) empty_build))
     else \<exists>e. build_ir d doc = Some (Inl e) \<and> code e = ResourceLimit"
    using walk_emits [OF assms(1,4), of 0] ok unfolding emits_def b by blast
  show ?thesis
  proof (cases "within d 0 t \<and> budget_ok (spent (events_of d 0 t) (ib_budget empty_build))")
    case True
    with w assms(5) show ?thesis
      by (intro that [of "emitted d (events_of d 0 t) (visited d t) empty_build"])
        (auto simp: emit_prowse_events_def obind_def emitted_def empty_build_def cong: if_cong)
  next
    case False
    with w assms(5) show ?thesis by (auto simp: emit_prowse_events_def obind_def)
  qed
qed

text \<open>An element of the document below a node \<open>r\<close>.\<close>

definition document_element :: "dom \<Rightarrow> nat \<Rightarrow> nat \<Rightarrow> bool" where
  "document_element d r i \<longleftrightarrow> is_element (node_at d i) \<and> (r, i) \<in> (parent_rel d)\<^sup>*"

lemma document_elementD:
  assumes "document_element d r i" and "r < size_dom d"
  shows "i < size_dom d" "is_element (node_at d i)"
  using assms by (auto simp: document_element_def parent_rel_def elim: rtranclE)

lemma node_path_some: "dom_wf d \<Longrightarrow> i < size_dom d \<Longrightarrow> element_path d (Some i) = Some (node_path d i)"
  using links_element_path [of d i] by (auto simp: node_path_def)

text \<open>Climbing to the paths of selected elements is climbing to the elements themselves.\<close>

lemma climb_selected:
  assumes wf: "dom_wf d" and nm: "vtd_names d" and r: "r < size_dom d" and i: "comes_from d i e" "document_element d r i"
    and sel: "\<And>p. p \<in> set sel \<longleftrightarrow> (\<exists>a. document_element d r a \<and> S a \<and> p = node_path d a)"
  shows "climb sel (ev_xpath e) \<longleftrightarrow> (\<exists>a. document_element d r a \<and> S a \<and> self_or_above d a i)"
proof -
  have lay: "layout_ok d" using nm by (simp add: vtd_names_def)
  note el = document_elementD [OF _ r]
  have "climb sel (ev_xpath e) \<longleftrightarrow> (\<exists>a. self_or_above d a i \<and> node_path d a \<in> set sel)"
    using climb_event [OF wf nm el [OF i(2)] i(1)] sel el by blast
  also have "\<dots> \<longleftrightarrow> (\<exists>a. document_element d r a \<and> S a \<and> self_or_above d a i)"
  proof
    assume "\<exists>a. self_or_above d a i \<and> node_path d a \<in> set sel"
    then obtain a b where ab: "self_or_above d a i" "document_element d r b" "S b" "node_path d a = node_path d b"
      using sel by blast
    have root: "document_root d a = document_root d b"
      using ab(1,2) i(2) same_root unfolding self_or_above_def document_element_def by metis
    have a: "a < size_dom d" "is_element (node_at d a)"
      using above_size [OF wf _ el(1) [OF i(2)]] ab(1) unfolding self_or_above_def by blast+
    have "element_path d (Some a) = element_path d (Some b)"
      by (simp only: node_path_some [OF wf a(1)] node_path_some [OF wf el(1) [OF ab(2)]] ab(4))
    then have "a = b" using path_inject [OF wf lay a(1) el(1) [OF ab(2)] a(2) el(2) [OF ab(2)] root] by simp
    with ab show "\<exists>a. document_element d r a \<and> S a \<and> self_or_above d a i" by blast
  qed (use sel in blast)
  finally show ?thesis .
qed



end
