(* ===== verification/Http_Message.thy ===== *)
theory Http_Message
  imports Prelude "HOL-Library.AList"
begin

text \<open>
  Requests and responses of \<^verbatim>\<open>network_client.hpp\<close> and the in-memory client of \<^verbatim>\<open>network_client.cpp\<close>, which
  answers from a table of responses or from a handler.  A handler is host code: it is an argument of \<open>send\<close>
  that gives a response or raises an error.
\<close>

datatype proxy_scheme = No_Proxy | Http_Proxy | Https_Proxy | Socks5_Proxy

record proxy_config =
  proxy_scheme :: proxy_scheme
  proxy_host :: string
  proxy_port :: string
  proxy_username :: string
  proxy_password :: string

definition no_proxy_config :: proxy_config where
  "no_proxy_config = \<lparr>proxy_scheme = No_Proxy, proxy_host = [], proxy_port = [], proxy_username = [], proxy_password = []\<rparr>"

definition proxy_enabled :: "proxy_config \<Rightarrow> bool" where
  "proxy_enabled p \<longleftrightarrow> proxy_scheme p \<noteq> No_Proxy \<and> proxy_host p \<noteq> [] \<and> proxy_port p \<noteq> []"

record http_request =
  req_method :: string
  req_url :: string
  req_headers :: "(string \<times> string) list"
  req_body :: string
  timeout_ms :: int
  max_response_bytes :: nat
  req_proxy :: proxy_config

definition get_request :: "string \<Rightarrow> http_request" where
  "get_request u = \<lparr>req_method = ''GET'', req_url = u, req_headers = [], req_body = [], timeout_ms = 30000,
     max_response_bytes = 32 * 1024 * 1024, req_proxy = no_proxy_config\<rparr>"

record http_response =
  resp_status :: int
  resp_headers :: "(string \<times> string) list"
  resp_body :: string
  final_url :: string
  redirect_chain :: "string list"

definition empty_response :: http_response where
  "empty_response = \<lparr>resp_status = 0, resp_headers = [], resp_body = [], final_url = [], redirect_chain = []\<rparr>"

definition response_ok :: "http_response \<Rightarrow> bool" where
  "response_ok r \<longleftrightarrow> 200 \<le> resp_status r \<and> resp_status r < 300"

text \<open>The loop of \<open>HttpResponse::header\<close>.\<close>

fun header_loop :: "string \<Rightarrow> (string \<times> string) list \<Rightarrow> string" where
  "header_loop wanted [] = []"
| "header_loop wanted ((key, v) # hs) = (if to_lower key = wanted then v else header_loop wanted hs)"

definition response_header :: "http_response \<Rightarrow> string \<Rightarrow> string" where
  "response_header r nm = header_loop (to_lower nm) (resp_headers r)"

section \<open>The in-memory client\<close>

record memory_client =
  mc_responses :: "(string \<times> http_response) list"
  mc_requests :: "http_request list"

definition set_response :: "string \<Rightarrow> http_response \<Rightarrow> memory_client \<Rightarrow> memory_client" where
  "set_response u r c = c\<lparr>mc_responses := AList.update u r (mc_responses c)\<rparr>"

definition memory_send :: "(http_request \<Rightarrow> http_response result) option \<Rightarrow> http_request \<Rightarrow> memory_client \<Rightarrow>
    http_response result \<times> memory_client" where
  "memory_send handler req c =
     (let c1 = c\<lparr>mc_requests := mc_requests c @ [req]\<rparr>;
          registered = map_of (mc_responses c1) (req_url req);
          answer = (case handler of
              Some h \<Rightarrow> h req
            | None \<Rightarrow> (case registered of
                  Some r \<Rightarrow> Inr r
                | None \<Rightarrow> Inl (Error NotFound (''no response registered for '' @ req_url req))))
      in (rbind answer (\<lambda>r. Inr (if final_url r = [] then r\<lparr>final_url := req_url req\<rparr> else r)), c1))"

section \<open>Properties\<close>

lemma header_loop_find:
  "header_loop wanted hs = (case find (\<lambda>h. to_lower (fst h) = wanted) hs of None \<Rightarrow> [] | Some h \<Rightarrow> snd h)"
  by (induction wanted hs rule: header_loop.induct) auto

lemma response_header_any_case: "to_lower m = to_lower n \<Longrightarrow> response_header r m = response_header r n"
  by (simp add: response_header_def)

lemma memory_send_registered:
  assumes "final_url r = []"
  shows "memory_send None req (set_response (req_url req) r c) =
    (Inr (r\<lparr>final_url := req_url req\<rparr>), (set_response (req_url req) r c)\<lparr>mc_requests := mc_requests c @ [req]\<rparr>)"
  using assms by (simp add: memory_send_def set_response_def update_conv)

lemma memory_send_other:
  "req_url req \<noteq> u \<Longrightarrow> fst (memory_send None req (set_response u r c)) = fst (memory_send None req c)"
  by (simp add: memory_send_def set_response_def update_conv Let_def)

end
