(* ===== verification/Anti_Bot.thy ===== *)
theory Anti_Bot
  imports Dom_Document Http_Message
begin

text \<open>
  \<^verbatim>\<open>anti_bot_detection.cpp\<close>: the signals a response or a document gives of an anti-bot challenge, and how
  detections are classified and merged.  A confidence is a literal of two decimals that is only copied
  and compared, so it is kept as its hundredths.  \<open>detection_ok\<close> says that the summary fields of a
  detection follow from its list of signals; \<open>produced\<close> are the detections the detector can give.
\<close>

record anti_bot_signal =
  sig_source :: string
  sig_name :: string
  sig_detail :: string
  sig_confidence :: nat

record anti_bot_detection =
  activated :: bool
  det_category :: string
  det_url :: string
  det_status :: int
  det_confidence :: nat
  det_signals :: "anti_bot_signal list"

definition empty_detection :: anti_bot_detection where
  "empty_detection = \<lparr>activated = False, det_category = [], det_url = [], det_status = 0, det_confidence = 0, det_signals = []\<rparr>"

definition has_part :: "string \<Rightarrow> string \<Rightarrow> bool" where
  "has_part haystack needle \<longleftrightarrow> find_str needle haystack \<noteq> None"

definition add_signal :: "anti_bot_detection \<Rightarrow> string \<Rightarrow> string \<Rightarrow> string \<Rightarrow> nat \<Rightarrow> anti_bot_detection" where
  "add_signal det src nm detail conf =
     (let sigs = det_signals det @ [\<lparr>sig_source = src, sig_name = nm, sig_detail = detail, sig_confidence = conf\<rparr>];
          c = max (det_confidence det) conf
      in det\<lparr>det_signals := sigs, det_confidence := c, activated := 55 \<le> c\<rparr>)"

text \<open>The text of a signal that \<open>classify\<close> searches, and the three flags of its loop.\<close>

definition signal_words :: "anti_bot_signal \<Rightarrow> string" where
  "signal_words s = to_lower (sig_name s @ '' '' @ sig_detail s)"

definition says_captcha :: "anti_bot_signal \<Rightarrow> bool" where
  "says_captcha s \<longleftrightarrow> has_part (signal_words s) ''captcha'' \<or> has_part (signal_words s) ''recaptcha'' \<or>
     has_part (signal_words s) ''hcaptcha'' \<or> has_part (signal_words s) ''turnstile'' \<or>
     has_part (signal_words s) ''human-verification''"

definition says_rate_limit :: "anti_bot_signal \<Rightarrow> bool" where
  "says_rate_limit s \<longleftrightarrow> has_part (signal_words s) ''rate limit'' \<or> has_part (signal_words s) ''too many requests''"

definition says_waf :: "anti_bot_signal \<Rightarrow> bool" where
  "says_waf s \<longleftrightarrow> has_part (signal_words s) ''cloudflare'' \<or> has_part (signal_words s) ''akamai'' \<or>
     has_part (signal_words s) ''imperva'' \<or> has_part (signal_words s) ''distil'' \<or> has_part (signal_words s) ''datadome''"

definition classify :: "anti_bot_detection \<Rightarrow> anti_bot_detection" where
  "classify det =
     (let (captcha, rate_limit, waf) =
        fold (\<lambda>s (c, r, w). (c \<or> says_captcha s, r \<or> says_rate_limit s, w \<or> says_waf s)) (det_signals det) (False, False, False)
      in if captcha then det\<lparr>det_category := ''captcha''\<rparr>
         else if rate_limit then det\<lparr>det_category := ''rate-limit''\<rparr>
         else if waf then det\<lparr>det_category := ''waf-challenge''\<rparr>
         else if det_signals det \<noteq> [] then det\<lparr>det_category := ''anti-bot''\<rparr>
         else det)"

definition add_if :: "bool \<Rightarrow> string \<Rightarrow> string \<Rightarrow> string \<Rightarrow> nat \<Rightarrow> anti_bot_detection \<Rightarrow> anti_bot_detection" where
  "add_if b src nm detail conf det = (if b then add_signal det src nm detail conf else det)"

definition inspect_text :: "anti_bot_detection \<Rightarrow> string \<Rightarrow> string \<Rightarrow> anti_bot_detection" where
  "inspect_text det src raw =
     (let t = to_lower raw in
      add_if (has_part t ''access denied'' \<and> (has_part t ''bot'' \<or> has_part t ''automated''))
        src ''access-denied-bot'' ''access denied text references automation'' 70
      (add_if (has_part t ''verify you are human'' \<or> has_part t ''are you a human'' \<or> has_part t ''unusual traffic'')
        src ''human-verification'' ''human verification challenge text'' 75
      (add_if (has_part t ''captcha'')
        src ''captcha-text'' ''page text mentions captcha'' 70
      (add_if (has_part t ''cf-turnstile'' \<or> has_part t ''challenges.cloudflare.com'')
        src ''turnstile'' ''Cloudflare Turnstile marker'' 90
      (add_if (has_part t ''h-captcha'' \<or> has_part t ''hcaptcha.com'')
        src ''hcaptcha'' ''hCaptcha marker'' 90
      (add_if (has_part t ''g-recaptcha'' \<or> has_part t ''google.com/recaptcha'')
        src ''recaptcha'' ''Google reCAPTCHA marker'' 90 det))))))"

definition inspect_status :: "int \<Rightarrow> anti_bot_detection \<Rightarrow> anti_bot_detection" where
  "inspect_status st det =
     (if st = 403 then add_signal det ''http'' ''forbidden'' ''HTTP 403 can indicate a WAF or bot challenge'' 55
      else if st = 429 then add_signal det ''http'' ''rate-limit'' ''HTTP 429 Too Many Requests'' 70
      else if st = 503 then add_signal det ''http'' ''service-unavailable'' ''HTTP 503 can indicate a temporary challenge page'' 45
      else det)"

definition inspect_header :: "string \<times> string \<Rightarrow> anti_bot_detection \<Rightarrow> anti_bot_detection" where
  "inspect_header h det =
     (case h of (nm, v) \<Rightarrow>
        let header_name = to_lower nm; header_value = to_lower v in
        add_if (header_name = ''x-datadome'' \<or> header_name = ''x-distil-cs'')
          ''header'' ''bot-protection-header'' nm 85
        (add_if (header_name = ''server'' \<and> has_part header_value ''cloudflare'')
          ''header'' ''cloudflare-server'' ''Cloudflare server header'' 35
        (add_if (header_name = ''cf-mitigated'' \<and> header_value = ''challenge'')
          ''header'' ''cloudflare-challenge'' ''cf-mitigated header reports challenge'' 95 det)))"

definition inspect_response :: "http_request \<Rightarrow> http_response \<Rightarrow> anti_bot_detection" where
  "inspect_response req resp =
     (let d0 = empty_detection\<lparr>det_url := (if final_url resp = [] then req_url req else final_url resp),
                 det_status := resp_status resp\<rparr>;
          d1 = inspect_status (resp_status resp) d0;
          d2 = fold inspect_header (resp_headers resp) d1
      in classify (inspect_text d2 ''response-body'' (resp_body resp)))"

text \<open>The queries of the document can fail (a selector query has a budget); a failure ends the inspection.\<close>

definition captcha_ids :: "dom \<Rightarrow> document \<Rightarrow> bool option" where
  "captcha_ids d doc =
     Option.bind (get_element_by_id d doc ''captcha'') (\<lambda>a. if a \<noteq> None then Some True
       else Option.bind (get_element_by_id d doc ''recaptcha'') (\<lambda>b. if b \<noteq> None then Some True
       else map_option (\<lambda>c. c \<noteq> None) (get_element_by_id d doc ''hcaptcha'')))"

definition lift_total :: "'a option \<Rightarrow> 'a result option" where
  "lift_total r = map_option Inr r"

definition inspect_document :: "dom \<Rightarrow> document \<Rightarrow> anti_bot_detection result option" where
  "inspect_document d doc =
     obind (title d doc) (\<lambda>ttl.
       let d1 = inspect_text (empty_detection\<lparr>det_url := doc_url doc, det_status := 0\<rparr>) ''document'' ttl in
       obind (lift_total (document_text d doc)) (\<lambda>txt.
         let d2 = inspect_text d1 ''document'' txt in
         obind (lift_total (document_html d doc)) (\<lambda>html.
           let d3 = inspect_text d2 ''document'' html in
           obind (lift_total (captcha_ids d doc)) (\<lambda>ids.
             let d4 = add_if ids ''document'' ''captcha-element-id'' ''captcha-like element id'' 80 d3 in
             obind (document_query_selector_all d doc ''[name*=captcha], [id*=captcha], [class*=captcha]'') (\<lambda>es.
               Some (Inr (classify (add_if (es \<noteq> []) ''document'' ''captcha-selector''
                 ''captcha-like form field or element'' 80 d4))))))))"

definition merge_detections :: "anti_bot_detection \<Rightarrow> anti_bot_detection \<Rightarrow> anti_bot_detection" where
  "merge_detections first second =
     (let f1 = (if det_url first = [] then first\<lparr>det_url := det_url second\<rparr> else first);
          f2 = (if det_status f1 = 0 then f1\<lparr>det_status := det_status second\<rparr> else f1);
          f3 = f2\<lparr>det_signals := det_signals f2 @ det_signals second,
                  det_confidence := max (det_confidence f2) (det_confidence second),
                  activated := activated f2 \<or> activated second\<rparr>;
          f4 = (if det_category f3 = [] then f3\<lparr>det_category := det_category second\<rparr>
                else if det_category f3 \<noteq> ''captcha'' \<and> det_category second = ''captcha''
                then f3\<lparr>det_category := det_category second\<rparr> else f3)
      in classify f4)"

definition detection_to_string :: "anti_bot_detection \<Rightarrow> string" where
  "detection_to_string det = (if activated det then ''activated'' else ''not_detected'')"

section \<open>The summary follows from the signals\<close>

definition top_confidence :: "anti_bot_signal list \<Rightarrow> nat" where
  "top_confidence sigs = Max (insert 0 (sig_confidence ` set sigs))"

definition category_of :: "anti_bot_signal list \<Rightarrow> string" where
  "category_of sigs =
     (if \<exists>s\<in>set sigs. says_captcha s then ''captcha''
      else if \<exists>s\<in>set sigs. says_rate_limit s then ''rate-limit''
      else if \<exists>s\<in>set sigs. says_waf s then ''waf-challenge''
      else if sigs = [] then [] else ''anti-bot'')"

text \<open>While signals are added no category is set yet.\<close>

definition collecting :: "anti_bot_detection \<Rightarrow> bool" where
  "collecting det \<longleftrightarrow> det_category det = [] \<and> det_confidence det = top_confidence (det_signals det) \<and>
     (activated det \<longleftrightarrow> 55 \<le> top_confidence (det_signals det))"

definition detection_ok :: "anti_bot_detection \<Rightarrow> bool" where
  "detection_ok det \<longleftrightarrow> det_confidence det = top_confidence (det_signals det) \<and>
     (activated det \<longleftrightarrow> (\<exists>s\<in>set (det_signals det). 55 \<le> sig_confidence s)) \<and> det_category det = category_of (det_signals det)"

lemma top_confidence_append: "top_confidence (xs @ ys) = max (top_confidence xs) (top_confidence ys)"
proof -
  have "insert 0 (sig_confidence ` set (xs @ ys)) = insert 0 (sig_confidence ` set xs) \<union> insert 0 (sig_confidence ` set ys)" by auto
  then show ?thesis by (simp only: top_confidence_def) (rule Max_Un; simp)
qed

lemma top_confidence_simps [simp]: "top_confidence [] = 0" "top_confidence [s] = sig_confidence s"
  by (simp_all add: top_confidence_def)

lemma top_confidence_reached: "0 < k \<Longrightarrow> k \<le> top_confidence sigs \<longleftrightarrow> (\<exists>s\<in>set sigs. k \<le> sig_confidence s)"
  by (auto simp: top_confidence_def Max_ge_iff)

lemma collecting_empty: "collecting (empty_detection\<lparr>det_url := u, det_status := st\<rparr>)"
  by (simp add: collecting_def empty_detection_def)

lemma collecting_add: "collecting det \<Longrightarrow> collecting (add_signal det src nm detail conf)"
  by (simp add: collecting_def add_signal_def Let_def top_confidence_append)

lemma collecting_add_if: "collecting det \<Longrightarrow> collecting (add_if b src nm detail conf det)"
  by (simp add: add_if_def collecting_add)

lemma collecting_inspect: 
  assumes "collecting det"
  shows "collecting (inspect_text det src raw)" "collecting (inspect_status st det)" "collecting (inspect_header h det)"
  using assms by (auto simp: inspect_text_def inspect_status_def inspect_header_def Let_def split: prod.splits
      intro!: collecting_add_if collecting_add)

lemma collecting_headers: "collecting det \<Longrightarrow> collecting (fold inspect_header hs det)"
  by (induction hs arbitrary: det) (simp_all add: collecting_inspect)

lemma classify_flags:
  "fold (\<lambda>s (c, r, w). (c \<or> P s, r \<or> Q s, w \<or> R s)) sigs (c, r, w) =
   (c \<or> (\<exists>s\<in>set sigs. P s), r \<or> (\<exists>s\<in>set sigs. Q s), w \<or> (\<exists>s\<in>set sigs. R s))"
  by (induction sigs arbitrary: c r w) auto

lemma classify_category:
  "classify det = det\<lparr>det_category := (if det_signals det = [] then det_category det else category_of (det_signals det))\<rparr>"
  by (auto simp: classify_def classify_flags category_of_def)

lemma collecting_classified: "collecting det \<Longrightarrow> detection_ok (classify det)"
  by (auto simp: collecting_def detection_ok_def classify_category category_of_def top_confidence_reached)

lemma inspect_response_ok: "detection_ok (inspect_response req resp)"
  unfolding inspect_response_def Let_def
  by (intro collecting_classified collecting_inspect collecting_headers collecting_empty)

lemma inspect_document_ok: "inspect_document d doc = Some (Inr det) \<Longrightarrow> detection_ok det"
  by (auto simp: inspect_document_def obind_def Let_def split: option.splits sum.splits
      intro!: collecting_classified collecting_add_if collecting_inspect collecting_empty)

lemma merge_fields:
  "det_signals (merge_detections a b) = det_signals a @ det_signals b"
  "det_confidence (merge_detections a b) = max (det_confidence a) (det_confidence b)"
  "activated (merge_detections a b) \<longleftrightarrow> activated a \<or> activated b"
  by (simp_all add: merge_detections_def classify_category Let_def)

lemma merge_category:
  "det_category (merge_detections a b) =
     (if det_signals a = [] \<and> det_signals b = []
      then (if det_category a = [] \<or> det_category a \<noteq> ''captcha'' \<and> det_category b = ''captcha'' then det_category b else det_category a)
      else category_of (det_signals a @ det_signals b))"
  by (simp add: merge_detections_def classify_category Let_def)

lemma merge_ok:
  assumes "detection_ok a" and "detection_ok b"
  shows "detection_ok (merge_detections a b)"
proof -
  have "det_category (merge_detections a b) = category_of (det_signals a @ det_signals b)"
    using assms by (cases "det_signals a = [] \<and> det_signals b = []") (simp_all add: merge_category detection_ok_def category_of_def)
  with assms show ?thesis unfolding detection_ok_def merge_fields by (auto simp: top_confidence_append)
qed

inductive produced :: "anti_bot_detection \<Rightarrow> bool" where
  from_response: "produced (inspect_response req resp)"
| from_document: "inspect_document d doc = Some (Inr det) \<Longrightarrow> produced det"
| merged: "produced a \<Longrightarrow> produced b \<Longrightarrow> produced (merge_detections a b)"

lemma produced_ok: "produced det \<Longrightarrow> detection_ok det"
  by (induction rule: produced.induct) (auto intro: inspect_response_ok inspect_document_ok merge_ok)

text \<open>
  For every detection the detector can produce, by inspecting a response or a document and by merging any
  number of detections in any order, the confidence is the highest of its signals, it is activated exactly
  when a signal of confidence at least 0.55 is among them, and its category is the one its signals determine
  (captcha before rate-limit before waf-challenge before anti-bot, none without signals).  Merging two such
  detections keeps the signals of both in order, is activated when one of them is, and a captcha in
  either is never lost.
\<close>

theorem detection_summary:
  assumes "produced a" and "produced b"
  shows "det_confidence a = Max (insert 0 (sig_confidence ` set (det_signals a))) \<and>
    (activated a \<longleftrightarrow> (\<exists>s\<in>set (det_signals a). 55 \<le> sig_confidence s)) \<and>
    det_category a = category_of (det_signals a) \<and>
    det_signals (merge_detections a b) = det_signals a @ det_signals b \<and>
    (activated (merge_detections a b) \<longleftrightarrow> activated a \<or> activated b) \<and>
    det_category (merge_detections a b) = category_of (det_signals a @ det_signals b) \<and>
    (det_category (merge_detections a b) = ''captcha'' \<longleftrightarrow> det_category a = ''captcha'' \<or> det_category b = ''captcha'')"
proof -
  have ok: "detection_ok a" "detection_ok b" "detection_ok (merge_detections a b)"
    using assms by (auto intro: produced_ok merged)
  have "category_of xs = ''captcha'' \<longleftrightarrow> (\<exists>s\<in>set xs. says_captcha s)" for xs by (auto simp: category_of_def)
  with ok show ?thesis unfolding detection_ok_def top_confidence_def merge_fields by (auto simp: ex_in_conv bex_Un)
qed

definition sample_request :: http_request where
  "sample_request = \<lparr>req_method = ''GET'', req_url = ''http://a/'', req_headers = [], req_body = [], timeout_ms = 1000,
     max_response_bytes = 1, req_proxy = no_proxy_config\<rparr>"

theorem detection_summary_witness:
  "det_category (merge_detections (inspect_response sample_request (empty_response\<lparr>resp_status := 429\<rparr>))
     (inspect_response sample_request (empty_response\<lparr>resp_body := ''<div class=h-captcha>''\<rparr>))) = ''captcha''"
proof -
  let ?b = "empty_response\<lparr>resp_body := ''<div class=h-captcha>''\<rparr>"
  have "det_category (inspect_response sample_request ?b) = ''captcha''" by code_simp
  with detection_summary [OF from_response from_response, of sample_request "empty_response\<lparr>resp_status := 429\<rparr>"
      sample_request ?b]
  show ?thesis by blast
qed

section \<open>Which responses activate the detector\<close>

lemma find_str_sublist: "find_str p s \<noteq> None \<longleftrightarrow> sublist p s"
  by (induction s) (auto simp: sublist_Cons_right sublist_code)

lemma has_part_sublist: "has_part s p \<longleftrightarrow> sublist p s"
  unfolding has_part_def by (rule find_str_sublist)

lemma has_part_weaken: "has_part s p \<Longrightarrow> sublist q p \<Longrightarrow> has_part s q"
  by (auto simp: has_part_sublist intro: sublist_order.order_trans)

definition strong :: "anti_bot_detection \<Rightarrow> bool" where
  "strong det \<longleftrightarrow> (\<exists>s\<in>set (det_signals det). 55 \<le> sig_confidence s)"

lemma strong_simps [simp]:
  "strong (add_signal det src nm detail conf) \<longleftrightarrow> strong det \<or> 55 \<le> conf"
  "strong (add_if b src nm detail conf det) \<longleftrightarrow> strong det \<or> b \<and> 55 \<le> conf"
  "strong (classify det) \<longleftrightarrow> strong det"
  "\<not> strong (empty_detection\<lparr>det_url := u, det_status := st\<rparr>)"
  by (auto simp: strong_def add_if_def add_signal_def Let_def classify_category empty_detection_def)

definition challenge_text :: "string \<Rightarrow> bool" where
  "challenge_text t \<longleftrightarrow> has_part t ''captcha'' \<or> has_part t ''cf-turnstile'' \<or> has_part t ''challenges.cloudflare.com'' \<or>
     has_part t ''verify you are human'' \<or> has_part t ''are you a human'' \<or> has_part t ''unusual traffic'' \<or>
     has_part t ''access denied'' \<and> (has_part t ''bot'' \<or> has_part t ''automated'')"

definition challenge_header :: "string \<times> string \<Rightarrow> bool" where
  "challenge_header h \<longleftrightarrow> to_lower (fst h) = ''cf-mitigated'' \<and> to_lower (snd h) = ''challenge'' \<or>
     to_lower (fst h) \<in> {''x-datadome'', ''x-distil-cs''}"

lemma strong_inspect_text: "strong (inspect_text det src raw) \<longleftrightarrow> strong det \<or> challenge_text (to_lower raw)"
proof -
  have "has_part t p \<Longrightarrow> has_part t ''captcha''" if "p \<in> {''g-recaptcha'', ''google.com/recaptcha'', ''h-captcha'', ''hcaptcha.com''}" for t p
    using that by (elim has_part_weaken) (auto simp: sublist_code)
  then show ?thesis by (auto simp: inspect_text_def Let_def challenge_text_def)
qed

lemma strong_header: "strong (inspect_header h det) \<longleftrightarrow> strong det \<or> challenge_header h"
  unfolding inspect_header_def challenge_header_def Let_def case_prod_beta strong_simps insert_iff empty_iff by simp

lemma strong_headers: "strong (fold inspect_header hs det) \<longleftrightarrow> strong det \<or> list_ex challenge_header hs"
  by (induction hs arbitrary: det) (simp_all add: strong_header)

lemma strong_status: "strong (inspect_status st det) \<longleftrightarrow> strong det \<or> st \<in> {403, 429}"
  by (simp add: inspect_status_def)

text \<open>
  The detector reports a challenge for a response exactly when the status is 403 or 429, or a header says
  \<open>cf-mitigated: challenge\<close> or is one of DataDome's or Distil's (names and values in any case), or the body
  has a challenge text: the word captcha, a Turnstile marker, a human-verification phrase, or a denial that names
  bots or automation.  A status of 503 or a Cloudflare server header never suffices, and the reCAPTCHA and
  hCaptcha markers decide nothing that the word captcha does not.
\<close>

theorem response_activation:
  "activated (inspect_response req resp) \<longleftrightarrow> resp_status resp \<in> {403, 429} \<or>
     list_ex challenge_header (resp_headers resp) \<or> challenge_text (to_lower (resp_body resp))"
proof -
  have "activated (inspect_response req resp) \<longleftrightarrow> strong (inspect_response req resp)"
    using inspect_response_ok [of req resp] by (simp add: detection_ok_def strong_def)
  also have "\<dots> \<longleftrightarrow> resp_status resp \<in> {403, 429} \<or>
     list_ex challenge_header (resp_headers resp) \<or> challenge_text (to_lower (resp_body resp))"
    unfolding inspect_response_def Let_def by (simp only: strong_simps strong_inspect_text strong_headers strong_status) blast
  finally show ?thesis .
qed

end
