(* ===== verification/Http_Socket.thy ===== *)
theory Http_Socket
  imports Http_Message Decimal "HOL-Library.Monad_Syntax"
begin

text \<open>
  Reading a response from a socket in \<^verbatim>\<open>network_client.cpp\<close>.  What the operating system or the TLS library
  returns from one read is an input of the model: a connection is the list of the outcomes of its reads, in
  order, and a connection that has none left has ended.  Positions are \<open>size_t\<close>: sums that the code forms are
  taken modulo \<open>2 ^ 64\<close>.  The loop over the chunks of a chunked body need not end, so it is a partial
  function: \<open>None\<close> means that the call does not return.
\<close>

datatype read_outcome =
    Received string
  | Would_Block
  | Ended
  | Raised error

type_synonym incoming = "read_outcome list"

abbreviation crlf :: string where
  "crlf \<equiv> [CHR 0x0D, CHR 0x0A]"

abbreviation word_mod :: "nat \<Rightarrow> nat" where
  "word_mod n \<equiv> n mod 2 ^ 64"

definition recv_more :: "incoming \<Rightarrow> string \<Rightarrow> (bool \<times> string \<times> incoming) result" where
  "recv_more inc raw =
     (case inc of
        [] \<Rightarrow> Inr (False, raw, [])
      | Received s # rest \<Rightarrow> if s = [] then Inr (False, raw, rest) else Inr (True, raw @ s, rest)
      | Would_Block # rest \<Rightarrow> Inl (Error Timeout ''response read timed out before completion'')
      | Ended # rest \<Rightarrow> Inr (False, raw, rest)
      | Raised e # rest \<Rightarrow> Inl e)"

lemma recv_more_shorter [termination_simp]: "recv_more inc raw = Inr (True, raw', rest) \<Longrightarrow> length rest < length inc"
  by (auto simp: recv_more_def split: list.splits read_outcome.splits if_splits)

function fill_until :: "incoming \<Rightarrow> string \<Rightarrow> nat \<Rightarrow> string \<Rightarrow> (bool \<times> string \<times> incoming) result" where
  "fill_until inc raw offset needle =
     (if find_from needle raw offset \<noteq> None then Inr (True, raw, inc)
      else case recv_more inc raw of
          Inl e \<Rightarrow> Inl e
        | Inr (got, raw1, rest) \<Rightarrow> if \<not> got then Inr (False, raw1, rest) else fill_until rest raw1 offset needle)"
  by pat_completeness auto
termination by (relation "measure (\<lambda>(inc, raw, offset, needle). length inc)") (auto dest: recv_more_shorter)

declare fill_until.simps [simp del]

section \<open>Numbers\<close>

text \<open>The value of a digit for \<open>strtoul\<close>, and the conversion: blanks, a sign, \<open>0x\<close> in base 16, then digits.
  Too large a value gives the maximum; a minus sign negates modulo \<open>2 ^ 64\<close>.  The flag tells whether
  there was a digit (\<open>end != begin\<close>).\<close>

definition digit_in :: "nat \<Rightarrow> char \<Rightarrow> nat option" where
  "digit_in base c =
     (let b = byte c;
          v = (if is_digit c then Some (b - 48)
               else if is_lower c then Some (b - 97 + 10)
               else if is_upper c then Some (b - 65 + 10) else None)
      in case v of Some n \<Rightarrow> if n < base then Some n else None | None \<Rightarrow> None)"

fun digits_in :: "nat \<Rightarrow> nat \<Rightarrow> string \<Rightarrow> nat" where
  "digits_in base v [] = v"
| "digits_in base v (c # s) = (case digit_in base c of Some n \<Rightarrow> digits_in base (v * base + n) s | None \<Rightarrow> v)"

definition after_prefix :: "nat \<Rightarrow> string \<Rightarrow> string" where
  "after_prefix base s =
     (if base = 16 \<and> length s \<ge> 3 \<and> s ! 0 = CHR ''0'' \<and> s ! 1 \<in> {CHR ''x'', CHR ''X''} \<and> digit_in 16 (s ! 2) \<noteq> None
      then drop 2 s else s)"

definition strtoul :: "nat \<Rightarrow> string \<Rightarrow> nat \<times> bool" where
  "strtoul base s =
     (let t = dropWhile isspace s;
          neg = (t \<noteq> [] \<and> hd t = CHR ''-'');
          u = after_prefix base (if t \<noteq> [] \<and> hd t \<in> {CHR ''-'', CHR ''+''} then tl t else t);
          v = digits_in base 0 u
      in if u = [] \<or> digit_in base (hd u) = None then (0, False)
         else (if 2 ^ 64 \<le> v then 2 ^ 64 - 1 else if neg then word_mod (2 ^ 64 - v) else v, True))"

text \<open>\<open>atoi\<close> as the C library computes it: \<open>strtol\<close>, cut to 32 bits.\<close>

definition atoi :: "string \<Rightarrow> int" where
  "atoi s =
     (let t = dropWhile isspace s;
          neg = (t \<noteq> [] \<and> hd t = CHR ''-'');
          u = (if t \<noteq> [] \<and> hd t \<in> {CHR ''-'', CHR ''+''} then tl t else t);
          v = int (digits_in 10 0 u);
          w = (if neg then max (- (2 ^ 63)) (- v) else min (2 ^ 63 - 1) v)
      in (w + 2 ^ 31) mod 2 ^ 32 - 2 ^ 31)"

definition trim :: "string \<Rightarrow> string" where
  "trim s = rev (dropWhile isspace (rev (dropWhile isspace s)))"

section \<open>A chunked body\<close>

text \<open>The size line at \<open>offset\<close>: the size of the chunk and the position after the line.\<close>

definition chunk_line :: "string \<Rightarrow> nat \<Rightarrow> (nat \<times> nat) result" where
  "chunk_line raw offset =
     (let line_end = the (find_from crlf raw offset);
          line = take (line_end - offset) (drop offset raw);
          line1 = (case find_char (CHR '';'') line of None \<Rightarrow> line | Some semicolon \<Rightarrow> take semicolon line);
          digits = trim line1
      in if digits = [] then Inl (Error NetworkError ''invalid chunked size line'')
         else case strtoul 16 digits of
             (n, False) \<Rightarrow> Inl (Error NetworkError ''invalid chunked size'')
           | (n, True) \<Rightarrow> Inr (n, line_end + 2))"

partial_function (option) decode_chunked :: "nat \<Rightarrow> incoming \<Rightarrow> string \<Rightarrow> nat \<Rightarrow> string \<Rightarrow> string result option" where
  "decode_chunked max_bytes inc raw offset body =
     (case fill_until inc raw offset crlf of
        Inl e \<Rightarrow> Some (Inl e)
      | Inr (found, raw1, inc1) \<Rightarrow>
          if \<not> found then Some (Inl (Error NetworkError ''truncated chunked response''))
          else (case chunk_line raw1 offset of
              Inl e \<Rightarrow> Some (Inl e)
            | Inr (chunk_size, offset1) \<Rightarrow>
                if chunk_size = 0 then
                  (case fill_until inc1 raw1 offset1 crlf of
                     Inl e \<Rightarrow> Some (Inl e)
                   | Inr (found, _, _) \<Rightarrow>
                       if \<not> found then Some (Inl (Error NetworkError ''truncated chunked trailer'')) else Some (Inr body))
                else if max_bytes < word_mod (length body + chunk_size)
                then Some (Inl (Error ResourceLimit ''response body exceeds the configured limit''))
                else (case fill_until inc1 raw1 (word_mod (offset1 + chunk_size)) crlf of
                     Inl e \<Rightarrow> Some (Inl e)
                   | Inr (found, raw2, inc2) \<Rightarrow>
                       if \<not> found then Some (Inl (Error NetworkError ''truncated chunk data''))
                       else decode_chunked max_bytes inc2 raw2 (word_mod (offset1 + chunk_size + 2))
                              (body @ take chunk_size (drop offset1 raw2)))))"

declare decode_chunked.simps [code]

section \<open>The response\<close>

definition status_of :: "string \<Rightarrow> int" where
  "status_of status_line =
     (case find_char (CHR '' '') status_line of None \<Rightarrow> 0 | Some first_space \<Rightarrow> atoi (drop (first_space + 1) status_line))"

definition header_line :: "string \<Rightarrow> (string \<times> string) list" where
  "header_line line =
     (case find_char (CHR '':'') line of
        None \<Rightarrow> []
      | Some colon \<Rightarrow> [(trim (take colon line), trim (drop (colon + 1) line))])"

text \<open>The loop over the header lines, from the position \<open>cursor\<close> of the head.\<close>

function header_lines :: "string \<Rightarrow> (string \<times> string) list" where
  "header_lines rest =
     (if rest = [] then []
      else case find_str crlf rest of
          None \<Rightarrow> header_line rest
        | Some e \<Rightarrow> header_line (take e rest) @ header_lines (drop (e + 2) rest))"
  by pat_completeness auto
termination by (relation "measure length") (auto simp: length_greater_0_conv [symmetric] simp del: length_greater_0_conv)

declare header_lines.simps [simp del]

definition parse_head :: "string \<Rightarrow> http_response" where
  "parse_head head =
     (let line_end = find_str crlf head;
          status_line = (case line_end of None \<Rightarrow> head | Some e \<Rightarrow> take e head);
          rest = (case line_end of None \<Rightarrow> [] | Some e \<Rightarrow> drop (e + 2) head)
      in empty_response\<lparr>resp_status := status_of status_line, resp_headers := header_lines rest\<rparr>)"

function read_length :: "incoming \<Rightarrow> string \<Rightarrow> nat \<Rightarrow> string result" where
  "read_length inc raw wanted =
     (if wanted \<le> length raw then Inr raw
      else case recv_more inc raw of
          Inl e \<Rightarrow> Inl e
        | Inr (got, raw1, rest) \<Rightarrow>
            if \<not> got then Inl (Error NetworkError ''truncated HTTP response body'') else read_length rest raw1 wanted)"
  by pat_completeness auto
termination by (relation "measure (\<lambda>(inc, raw, wanted). length inc)") (auto dest: recv_more_shorter)

function read_to_end :: "incoming \<Rightarrow> string \<Rightarrow> nat \<Rightarrow> nat \<Rightarrow> string result" where
  "read_to_end inc raw body_offset max_bytes =
     (if max_bytes \<le> length raw - body_offset then Inr raw
      else case recv_more inc raw of
          Inl e \<Rightarrow> Inl e
        | Inr (got, raw1, rest) \<Rightarrow> if \<not> got then Inr raw1 else read_to_end rest raw1 body_offset max_bytes)"
  by pat_completeness auto
termination by (relation "measure (\<lambda>(inc, raw, body_offset, max_bytes). length inc)") (auto dest: recv_more_shorter)

declare read_length.simps [simp del] read_to_end.simps [simp del]

definition read_body :: "nat \<Rightarrow> incoming \<Rightarrow> string \<Rightarrow> nat \<Rightarrow> http_response \<Rightarrow> string result option" where
  "read_body max_bytes inc raw body_offset resp =
     (let content_length = response_header resp ''Content-Length'' in
      if find_str ''chunked'' (to_lower (response_header resp ''Transfer-Encoding'')) \<noteq> None
      then decode_chunked max_bytes inc raw body_offset []
      else if content_length \<noteq> [] then
        (let len = fst (strtoul 10 content_length) in
         if max_bytes < len then Some (Inl (Error ResourceLimit ''response body exceeds the configured limit''))
         else Some (rbind (read_length inc raw (word_mod (body_offset + len))) (\<lambda>raw1.
           Inr (take len (drop body_offset raw1)))))
      else Some (rbind (read_to_end inc raw body_offset max_bytes) (\<lambda>raw1.
        if max_bytes < length raw1 - body_offset
        then Inl (Error ResourceLimit ''response body exceeds the configured limit'')
        else Inr (drop body_offset raw1))))"

definition read_response :: "nat \<Rightarrow> incoming \<Rightarrow> http_response result option" where
  "read_response max_bytes inc =
     (case fill_until inc [] 0 (crlf @ crlf) of
        Inl e \<Rightarrow> Some (Inl e)
      | Inr (found, raw, inc1) \<Rightarrow>
          if \<not> found then Some (Inl (Error NetworkError ''malformed HTTP response''))
          else
            (let header_end = the (find_str (crlf @ crlf) raw);
                 resp = parse_head (take header_end raw)
             in map_option (\<lambda>r. rbind r (\<lambda>body. Inr (resp\<lparr>resp_body := body\<rparr>)))
                  (read_body max_bytes inc1 raw (header_end + 4) resp)))"

section \<open>Data that arrives in pieces\<close>

definition delivers :: "incoming \<Rightarrow> string \<Rightarrow> bool" where
  "delivers inc s \<longleftrightarrow> (\<exists>ps. inc = map Received ps \<and> [] \<notin> set ps \<and> concat ps = s)"

lemma delivers_simps [simp]:
  "delivers [] s \<longleftrightarrow> s = []"
  "delivers (Received p # inc) s \<longleftrightarrow> p \<noteq> [] \<and> (\<exists>t. s = p @ t \<and> delivers inc t)"
  by (auto simp: delivers_def Cons_eq_map_conv) 

lemma delivers_cases: "delivers (x # inc) s \<Longrightarrow> \<exists>p. x = Received p"
  by (auto simp: delivers_def)

lemma find_from_append: "find_from p s off = Some n \<Longrightarrow> find_from p (s @ t) off = Some n"
  by (auto simp: find_from_def dest: find_str_append split: if_splits)

lemma fill_until_delivers:
  assumes "delivers inc s" and "find_from needle (raw @ s) offset = Some k"
  shows "\<exists>raw' inc' s'. fill_until inc raw offset needle = Inr (True, raw', inc') \<and> raw' @ s' = raw @ s \<and>
    delivers inc' s' \<and> find_from needle raw' offset = Some k"
  using assms
proof (induction inc arbitrary: raw s)
  case Nil
  then show ?case by (subst fill_until.simps) simp
next
  case (Cons x inc)
  show ?case
  proof (cases "find_from needle raw offset")
    case (Some k')
    with find_from_append [OF Some, of s] Cons.prems show ?thesis by (subst fill_until.simps) auto
  next
    case None
    obtain p t where x: "x = Received p" "p \<noteq> []" "s = p @ t" "delivers inc t"
      using Cons.prems(1) delivers_cases [OF Cons.prems(1)] by auto
    with Cons.IH [of t "raw @ p"] Cons.prems(2) None show ?thesis
      by (subst fill_until.simps) (simp add: recv_more_def)
  qed
qed

section \<open>Decoding what a server encoded\<close>

text \<open>A chunk on the wire: hexadecimal digits of the size, an extension that a semicolon starts, and the data.\<close>

definition size_digits :: "string \<Rightarrow> nat \<Rightarrow> bool" where
  "size_digits ds n \<longleftrightarrow> ds \<noteq> [] \<and> list_all (\<lambda>c. digit_in 16 c \<noteq> None) ds \<and> digits_in 16 0 ds = n"

definition extension_ok :: "string \<Rightarrow> bool" where
  "extension_ok ext \<longleftrightarrow> (ext = [] \<or> hd ext = CHR '';'') \<and> CHR 0x0D \<notin> set ext"

definition chunk_ok :: "string \<times> string \<times> string \<Rightarrow> bool" where
  "chunk_ok c \<longleftrightarrow> (case c of (ds, ext, body) \<Rightarrow> body \<noteq> [] \<and> size_digits ds (length body) \<and> extension_ok ext)"

definition chunk_wire :: "string \<times> string \<times> string \<Rightarrow> string" where
  "chunk_wire c = (case c of (ds, ext, body) \<Rightarrow> ds @ ext @ crlf @ body @ crlf)"

definition chunks_data :: "(string \<times> string \<times> string) list \<Rightarrow> string" where
  "chunks_data cs = concat (map (snd \<circ> snd) cs)"

lemma hex_digit_chars:
  assumes "digit_in 16 c \<noteq> None"
  shows "\<not> isspace c" "c \<noteq> CHR ''-''" "c \<noteq> CHR ''+''" "c \<noteq> CHR '';''" "c \<noteq> CHR 0x0D" "c \<noteq> CHR ''x''" "c \<noteq> CHR ''X''"
proof -
  have *: "digit_in 16 d = None" if "isspace d \<or> d \<in> {CHR ''-'', CHR ''+'', CHR '';'', CHR 0x0D, CHR ''x'', CHR ''X''}" for d
    using that by (auto simp: digit_in_def isspace_def char_class byte_def)
  have n: "\<not> (isspace c \<or> c \<in> {CHR ''-'', CHR ''+'', CHR '';'', CHR 0x0D, CHR ''x'', CHR ''X''})"
  proof
    assume "isspace c \<or> c \<in> {CHR ''-'', CHR ''+'', CHR '';'', CHR 0x0D, CHR ''x'', CHR ''X''}"
    from * [OF this] assms show False by simp
  qed
  show "\<not> isspace c" "c \<noteq> CHR ''-''" "c \<noteq> CHR ''+''" "c \<noteq> CHR '';''" "c \<noteq> CHR 0x0D" "c \<noteq> CHR ''x''" "c \<noteq> CHR ''X''"
    using n by simp_all
qed

lemma strtoul_hex:
  assumes "size_digits ds n" and "n < 2 ^ 64"
  shows "strtoul 16 ds = (n, True)"
proof -
  obtain c r where ds: "ds = c # r" "digit_in 16 c \<noteq> None" using assms by (cases ds) (auto simp: size_digits_def)
  have "r = [] \<or> hd r \<noteq> CHR ''x'' \<and> hd r \<noteq> CHR ''X''"
    using assms(1) hex_digit_chars [of "hd r"] ds by (cases r) (auto simp: size_digits_def)
  then have p: "after_prefix 16 ds = ds" by (cases r) (auto simp: after_prefix_def ds)
  have "dropWhile isspace ds = ds" "hd ds \<noteq> CHR ''-''" "hd ds \<noteq> CHR ''+''"
    using hex_digit_chars [OF ds(2)] by (auto simp: ds)
  with p ds assms show ?thesis by (simp add: strtoul_def Let_def size_digits_def)
qed

lemma trim_hex: "list_all (\<lambda>c. digit_in 16 c \<noteq> None) ds \<Longrightarrow> trim ds = ds"
proof -
  assume "list_all (\<lambda>c. digit_in 16 c \<noteq> None) ds"
  then have "\<forall>c\<in>set ds. \<not> isspace c" using hex_digit_chars by (auto simp: list_all_iff)
  then have "dropWhile isspace ds = ds" "dropWhile isspace (rev ds) = rev ds"
    by (auto simp: dropWhile_eq_self_iff hd_rev)
  then show "trim ds = ds" by (simp add: trim_def)
qed

lemma find_crlf:
  assumes "CHR 0x0D \<notin> set line"
  shows "find_from crlf (pre @ line @ crlf @ rest) (length pre) = Some (length pre + length line)"
proof -
  have "find_str crlf (line @ crlf @ rest) = Some (length line)" using assms by (induction line) auto
  then show ?thesis by (simp add: find_from_def)
qed

lemma chunk_line_wire:
  assumes "size_digits ds n" and "n < 2 ^ 64" and "extension_ok ext"
    and "raw @ s = pre @ (ds @ ext) @ crlf @ rest" and "find_from crlf raw (length pre) = Some (length pre + length (ds @ ext))"
  shows "chunk_line raw (length pre) = Inr (n, length (pre @ ds @ ext) + 2)"
proof -
  have le: "length pre + length (ds @ ext) + 2 \<le> length raw" using find_from_Some [OF assms(5)] by simp
  have "take (length (ds @ ext)) (drop (length pre) raw) = take (length (ds @ ext)) (drop (length pre) (raw @ s))" using le by simp
  also have "\<dots> = ds @ ext" by (simp only: assms(4)) simp
  finally have line: "take (length pre + length (ds @ ext) - length pre) (drop (length pre) raw) = ds @ ext" by simp
  have "CHR '';'' \<notin> set ds" using assms(1) hex_digit_chars(4) by (fastforce simp: size_digits_def list_all_iff)
  then have cut: "(case find_char (CHR '';'') (ds @ ext) of None \<Rightarrow> ds @ ext | Some sc \<Rightarrow> take sc (ds @ ext)) = ds"
    using assms(3) by (cases ext) (auto simp: extension_ok_def find_char_None_iff [THEN iffD2])
  have "trim ds = ds" "ds \<noteq> []" using assms(1) by (auto simp: size_digits_def intro: trim_hex)
  with strtoul_hex [OF assms(1,2)] show ?thesis unfolding chunk_line_def assms(5) option.sel line Let_def cut by simp
qed

lemma no_cr_in_line: "size_digits ds n \<Longrightarrow> extension_ok ext \<Longrightarrow> CHR 0x0D \<notin> set (ds @ ext)"
  using hex_digit_chars(5) by (fastforce simp: size_digits_def extension_ok_def list_all_iff)

text \<open>One round of the loop: the size line, and the data with the line end after it.\<close>

lemma decode_last:
  assumes "size_digits ds 0" and "extension_ok ext" and "delivers inc s"
    and total: "raw @ s = pre @ ds @ ext @ crlf @ trailer @ crlf @ rest"
  shows "decode_chunked max_bytes inc raw (length pre) body = Some (Inr body)"
proof -
  obtain raw1 s1 inc1 where f1: "fill_until inc raw (length pre) crlf = Inr (True, raw1, inc1)" "raw1 @ s1 = raw @ s" "delivers inc1 s1"
    "find_from crlf raw1 (length pre) = Some (length pre + length (ds @ ext))"
    using fill_until_delivers [OF assms(3), of crlf raw "length pre"] find_crlf [OF no_cr_in_line [OF assms(1,2)], of pre] total by force
  have line: "chunk_line raw1 (length pre) = Inr (0, length (pre @ ds @ ext) + 2)"
    using f1(2) total by (intro chunk_line_wire [OF assms(1) _ assms(2) _ f1(4), of s1 "trailer @ crlf @ rest"]) simp_all
  have "\<exists>k. find_str crlf (trailer @ crlf @ rest) = Some k" by (induction trailer) auto
  then obtain k where "find_from crlf (raw1 @ s1) (length (pre @ ds @ ext) + 2) = Some k"
    using f1(2) total by (auto simp: find_from_def)
  then obtain raw2 inc2 where "fill_until inc1 raw1 (length (pre @ ds @ ext) + 2) crlf = Inr (True, raw2, inc2)"
    using fill_until_delivers [OF f1(3)] by blast
  with f1 line show ?thesis by (subst decode_chunked.simps) simp
qed

lemma decode_step:
  assumes "size_digits ds (length data)" and "data \<noteq> []" and "extension_ok ext" and "delivers inc s"
    and total: "raw @ s = pre @ ds @ ext @ crlf @ data @ crlf @ rest" and "length (raw @ s) < 2 ^ 64"
    and "length body + length data \<le> max_bytes" and "max_bytes < 2 ^ 64"
  shows "\<exists>raw' s' inc'. raw' @ s' = raw @ s \<and> delivers inc' s' \<and>
    decode_chunked max_bytes inc raw (length pre) body =
    decode_chunked max_bytes inc' raw' (length (pre @ ds @ ext @ crlf @ data @ crlf)) (body @ data)"
proof -
  let ?o = "length (pre @ ds @ ext) + 2"
  obtain raw1 s1 inc1 where f1: "fill_until inc raw (length pre) crlf = Inr (True, raw1, inc1)" "raw1 @ s1 = raw @ s" "delivers inc1 s1"
    "find_from crlf raw1 (length pre) = Some (length pre + length (ds @ ext))"
    using fill_until_delivers [OF assms(4), of crlf raw "length pre"] find_crlf [OF no_cr_in_line [OF assms(1,3)], of pre] total by force
  have lens: "?o + length data + 2 \<le> length (raw @ s)" using total by simp
  have line: "chunk_line raw1 (length pre) = Inr (length data, ?o)"
    using f1(2) total assms(6) by (intro chunk_line_wire [OF assms(1) _ assms(3) _ f1(4), of s1 "data @ crlf @ rest"]) simp_all
  have "find_from crlf (raw1 @ s1) (?o + length data) = Some (?o + length data)"
    using find_crlf [of "[]" "pre @ ds @ ext @ crlf @ data" rest] f1(2) total by (simp add: add.assoc)
  then obtain raw2 s2 inc2 where f2: "fill_until inc1 raw1 (?o + length data) crlf = Inr (True, raw2, inc2)" "raw2 @ s2 = raw1 @ s1"
    "delivers inc2 s2" "find_from crlf raw2 (?o + length data) = Some (?o + length data)"
    using fill_until_delivers [OF f1(3)] by blast
  have "take (length data) (drop ?o raw2) = take (length data) (drop ?o (raw2 @ s2))"
    using find_from_Some [OF f2(4)] by simp
  also have "\<dots> = data" by (simp only: f1(2) f2(2) total) simp
  finally have dat: "take (length data) (drop ?o raw2) = data" .
  have "word_mod (?o + length data) = ?o + length data" "word_mod (length body + length data) = length body + length data"
    "word_mod (?o + length data + 2) = length (pre @ ds @ ext @ crlf @ data @ crlf)"
    using lens assms(6-8) by simp_all
  then have "decode_chunked max_bytes inc raw (length pre) body =
    decode_chunked max_bytes inc2 raw2 (length (pre @ ds @ ext @ crlf @ data @ crlf)) (body @ data)"
    using f1(1) f2(1) line dat assms(2,7) by (subst decode_chunked.simps) (simp only: sum.case prod.case simp_thms if_True if_False not_less, simp)
  with f1(2) f2(2,3) show ?thesis by metis
qed

lemma decode_wire:
  assumes "list_all chunk_ok cs" and "size_digits ds 0" and "extension_ok ext" and "delivers inc s"
    and "raw @ s = pre @ concat (map chunk_wire cs) @ ds @ ext @ crlf @ trailer @ crlf @ rest" and "length (raw @ s) < 2 ^ 64"
    and "length body + length (chunks_data cs) \<le> max_bytes" and "max_bytes < 2 ^ 64"
  shows "decode_chunked max_bytes inc raw (length pre) body = Some (Inr (body @ chunks_data cs))"
  using assms
proof (induction cs arbitrary: inc s raw pre body)
  case Nil
  then show ?case by (simp add: chunks_data_def decode_last)
next
  case (Cons c cs)
  obtain ds1 ext1 data where c: "c = (ds1, ext1, data)" by (cases c) auto
  let ?pre = "pre @ ds1 @ ext1 @ crlf @ data @ crlf"
  obtain raw' s' inc' where st: "raw' @ s' = raw @ s" "delivers inc' s'"
    "decode_chunked max_bytes inc raw (length pre) body = decode_chunked max_bytes inc' raw' (length ?pre) (body @ data)"
  proof -
    have "size_digits ds1 (length data)" "data \<noteq> []" "extension_ok ext1" using Cons.prems(1) c by (simp_all add: chunk_ok_def)
    moreover have "raw @ s = pre @ ds1 @ ext1 @ crlf @ data @ crlf @ concat (map chunk_wire cs) @ ds @ ext @ crlf @ trailer @ crlf @ rest"
      using Cons.prems(5) c by (simp add: chunk_wire_def [of "(ds1, ext1, data)"])
    moreover have "length body + length data \<le> max_bytes" using Cons.prems(7) c by (simp add: chunks_data_def)
    ultimately show ?thesis using decode_step [OF _ _ _ Cons.prems(4) _ Cons.prems(6) _ Cons.prems(8)] that by blast
  qed
  have "decode_chunked max_bytes inc' raw' (length ?pre) (body @ data) = Some (Inr ((body @ data) @ chunks_data cs))"
    using Cons.prems c st by (intro Cons.IH [of inc' s' raw' ?pre]) (simp_all add: chunk_wire_def chunks_data_def)
  with st(3) c show ?case by (simp add: chunks_data_def)
qed

section \<open>Reading a whole response\<close>

lemma read_length_delivers:
  assumes "delivers inc s" and "wanted \<le> length (raw @ s)"
  shows "\<exists>raw' s'. read_length inc raw wanted = Inr raw' \<and> raw' @ s' = raw @ s \<and> wanted \<le> length raw'"
  using assms
proof (induction inc arbitrary: raw s)
  case Nil
  then show ?case by (subst read_length.simps) simp
next
  case (Cons x inc)
  obtain p t where x: "x = Received p" "p \<noteq> []" "s = p @ t" "delivers inc t"
    using Cons.prems(1) delivers_cases [OF Cons.prems(1)] by auto
  with Cons.IH [of t "raw @ p"] Cons.prems(2) show ?case
    by (cases "wanted \<le> length raw") (subst read_length.simps, auto simp: recv_more_def)+
qed

lemma read_to_end_delivers:
  assumes "delivers inc s" and "body_offset \<le> length raw" and "length (raw @ s) - body_offset \<le> max_bytes"
  shows "read_to_end inc raw body_offset max_bytes = Inr (raw @ s)"
  using assms
proof (induction inc arbitrary: raw s)
  case Nil
  then show ?case by (subst read_to_end.simps) (simp add: recv_more_def)
next
  case (Cons x inc)
  obtain p t where x: "x = Received p" "p \<noteq> []" "s = p @ t" "delivers inc t"
    using Cons.prems(1) delivers_cases [OF Cons.prems(1)] by auto
  have "length p > 0" using x(2) by simp
  with Cons.prems x have "length raw - body_offset < max_bytes" by (simp del: length_greater_0_conv)
  with x Cons.IH [of t "raw @ p"] Cons.prems(2,3) show ?case by (subst read_to_end.simps) (simp add: recv_more_def)
qed

text \<open>The head of a response on the wire.\<close>

definition header_wire :: "string \<times> string \<Rightarrow> string" where
  "header_wire h = fst h @ '': '' @ snd h"

definition header_wire_ok :: "string \<times> string \<Rightarrow> bool" where
  "header_wire_ok h \<longleftrightarrow> CHR 0x0D \<notin> set (fst h) \<and> CHR '':'' \<notin> set (fst h) \<and> CHR 0x0D \<notin> set (snd h) \<and>
     trim (fst h) = fst h \<and> trim (snd h) = snd h"

definition status_wire :: "nat \<Rightarrow> string \<Rightarrow> string" where
  "status_wire st reason = ''HTTP/1.1 '' @ decimal st @ '' '' @ reason"

definition head_wire :: "nat \<Rightarrow> string \<Rightarrow> (string \<times> string) list \<Rightarrow> string" where
  "head_wire st reason hs = status_wire st reason @ concat (map (\<lambda>h. crlf @ header_wire h) hs)"

lemma find_str_skip:
  assumes "CHR 0x0D \<notin> set s"
  shows "find_str (CHR 0x0D # p) (s @ t) = map_option ((+) (length s)) (find_str (CHR 0x0D # p) t)"
  using assms
proof (induction s)
  case Nil
  then show ?case by (simp add: map_option.identity [unfolded id_def])
next
  case (Cons c s)
  then show ?case by (cases "find_str (CHR 0x0D # p) t") auto
qed

lemma header_wire_line: "header_wire_ok h \<Longrightarrow> header_wire h \<noteq> [] \<and> CHR 0x0D \<notin> set (header_wire h)"
  by (auto simp: header_wire_def header_wire_ok_def)

lemma find_head_end_headers:
  assumes "list_all header_wire_ok hs"
  shows "find_str (crlf @ crlf) (concat (map (\<lambda>h. crlf @ header_wire h) hs) @ crlf @ crlf @ w) =
    Some (length (concat (map (\<lambda>h. crlf @ header_wire h) hs)))"
  using assms
proof (induction hs)
  case (Cons h hs)
  let ?t = "concat (map (\<lambda>h. crlf @ header_wire h) hs) @ crlf @ crlf @ w"
  obtain c l where l: "header_wire h = c # l" "c \<noteq> CHR 0x0D" "CHR 0x0D \<notin> set l"
    using header_wire_line [of h] Cons.prems by (cases "header_wire h") auto
  have "find_str (crlf @ crlf) (l @ ?t) = Some (length l + length (concat (map (\<lambda>h. crlf @ header_wire h) hs)))"
    using find_str_skip [OF l(3), of "[CHR 0x0A, CHR 0x0D, CHR 0x0A]" ?t] Cons by simp
  with l show ?case by simp
qed simp

lemma status_wire_no_cr: "CHR 0x0D \<notin> set reason \<Longrightarrow> CHR 0x0D \<notin> set (status_wire st reason)"
  using decimal_not_in [of "CHR 0x0D" st] by (auto simp: status_wire_def char_class)

lemma find_head_end:
  assumes "list_all header_wire_ok hs" and "CHR 0x0D \<notin> set reason"
  shows "find_str (crlf @ crlf) (head_wire st reason hs @ crlf @ crlf @ w) = Some (length (head_wire st reason hs))"
  using find_str_skip [OF status_wire_no_cr [OF assms(2), of st], of "[CHR 0x0A, CHR 0x0D, CHR 0x0A]"]
    find_head_end_headers [OF assms(1), of w] by (simp add: head_wire_def)

lemma trim_space: "isspace c \<Longrightarrow> trim (c # s) = trim s"
  by (simp add: trim_def)

lemma isspace_blank [simp]: "isspace (CHR '' '')"
  by (simp add: isspace_def char_class byte_def)

lemma header_line_wire: "header_wire_ok h \<Longrightarrow> header_line (header_wire h) = [h]"
  by (cases h) (simp add: header_line_def header_wire_def header_wire_ok_def trim_space)

lemma header_lines_wire:
  assumes "list_all header_wire_ok (h # hs)"
  shows "header_lines (header_wire h @ concat (map (\<lambda>h. crlf @ header_wire h) hs)) = h # hs"
  using assms
proof (induction hs arbitrary: h)
  case Nil
  then have "header_wire h \<noteq> []" "CHR 0x0D \<notin> set (header_wire h)" using header_wire_line by auto
  then show ?case using Nil find_str_skip [of "header_wire h" "[CHR 0x0A]" "[]"]
    by (subst header_lines.simps) (simp add: header_line_wire)
next
  case (Cons g hs)
  let ?t = "concat (map (\<lambda>h. crlf @ header_wire h) hs)"
  have l: "header_wire h \<noteq> []" "CHR 0x0D \<notin> set (header_wire h)" using header_wire_line [of h] Cons.prems by auto
  have "find_str crlf (header_wire h @ crlf @ header_wire g @ ?t) = Some (length (header_wire h))"
    using find_str_skip [OF l(2), of "[CHR 0x0A]"] by simp
  with l Cons show ?case by (subst header_lines.simps) (simp add: header_line_wire)
qed

lemma digit_in_10: "digit_in 10 c = (if is_digit c then Some (byte c - 48) else None)"
proof -
  have "\<not> (byte c - 97 + 10 < 10)" "\<not> (byte c - 65 + 10 < 10)" by simp_all
  moreover have "is_digit c \<Longrightarrow> byte c - 48 < 10" by (auto simp: is_digit_byte)
  ultimately show ?thesis by (simp add: digit_in_def Let_def)
qed

lemma digits_in_10:
  assumes "\<forall>c\<in>set ds. is_digit c" and "t = [] \<or> \<not> is_digit (hd t)"
  shows "digits_in 10 v (ds @ t) = foldl (\<lambda>n c. n * 10 + (byte c - 48)) v ds"
  using assms(1)
proof (induction ds arbitrary: v)
  case Nil
  then show ?case using assms(2) by (cases t) (simp_all add: digit_in_10)
qed (simp add: digit_in_10)

lemma digits_in_decimal: "t = [] \<or> \<not> is_digit (hd t) \<Longrightarrow> digits_in 10 0 (decimal n @ t) = n"
  using digits_in_10 [of "decimal n" t 0] decimal_digits digits_value_decimal [of n] by (simp add: digits_value_def)

lemma decimal_start:
  "\<exists>c r. decimal n = c # r \<and> is_digit c \<and> \<not> isspace c \<and> c \<noteq> CHR ''-'' \<and> c \<noteq> CHR ''+''"
proof -
  obtain c r where c: "decimal n = c # r" by (cases "decimal n") simp_all
  then have d: "is_digit c" using decimal_digits [of c n] by simp
  have "\<not> is_digit e" if "isspace e \<or> e = CHR ''-'' \<or> e = CHR ''+''" for e
    using that by (auto simp: isspace_def char_class)
  with d c show ?thesis by blast
qed

lemma strtoul_decimal: "n < 2 ^ 64 \<Longrightarrow> strtoul 10 (decimal n) = (n, True)"
  using decimal_start [of n] digits_in_decimal [of "[]" n]
  by (auto simp: strtoul_def after_prefix_def Let_def digit_in_10)

lemma atoi_decimal:
  assumes "n < 2 ^ 31" and "t = [] \<or> \<not> is_digit (hd t)"
  shows "atoi (decimal n @ t) = int n"
  using decimal_start [of n] digits_in_decimal [OF assms(2), of n] assms(1) by (auto simp: atoi_def Let_def)

lemma parse_head_wire:
  assumes "list_all header_wire_ok hs" and "CHR 0x0D \<notin> set reason" and "st < 2 ^ 31"
  shows "parse_head (head_wire st reason hs) = empty_response\<lparr>resp_status := int st, resp_headers := hs\<rparr>"
proof -
  have "atoi (decimal st @ '' '' @ reason) = int st" using assms(3) by (intro atoi_decimal) (simp_all add: char_class)
  moreover have "find_char (CHR '' '') (status_wire st reason) = Some 8"
    using find_char_append [of "CHR '' ''" "''HTTP/1.1''" "decimal st @ '' '' @ reason"] by (simp add: status_wire_def)
  ultimately have st: "status_of (status_wire st reason) = int st" by (simp add: status_of_def status_wire_def)
  note skip = find_str_skip [OF status_wire_no_cr [OF assms(2), of st], of "[CHR 0x0A]"]
  show ?thesis
  proof (cases hs)
    case Nil
    with skip [of "[]"] st show ?thesis by (simp add: parse_head_def head_wire_def header_lines.simps)
  next
    case (Cons h hs')
    with skip [of "concat (map (\<lambda>h. crlf @ header_wire h) hs)"] st header_lines_wire [of h hs'] assms(1)
    show ?thesis by (simp add: parse_head_def head_wire_def)
  qed
qed

text \<open>The three ways in which the body \<open>body\<close> of a response with the given headers may arrive.\<close>

inductive carries :: "http_response \<Rightarrow> string \<Rightarrow> string \<Rightarrow> bool" for resp where
  chunked: "find_str ''chunked'' (to_lower (response_header resp ''Transfer-Encoding'')) \<noteq> None \<Longrightarrow>
    list_all chunk_ok cs \<Longrightarrow> size_digits ds 0 \<Longrightarrow> extension_ok ext \<Longrightarrow>
    carries resp (concat (map chunk_wire cs) @ ds @ ext @ crlf @ trailer @ crlf @ rest) (chunks_data cs)"
| by_length: "find_str ''chunked'' (to_lower (response_header resp ''Transfer-Encoding'')) = None \<Longrightarrow>
    response_header resp ''Content-Length'' = decimal (length body) \<Longrightarrow> carries resp (body @ rest) body"
| until_close: "find_str ''chunked'' (to_lower (response_header resp ''Transfer-Encoding'')) = None \<Longrightarrow>
    response_header resp ''Content-Length'' = [] \<Longrightarrow> carries resp body body"

lemma read_body_carried:
  assumes "carries resp w body" and "delivers inc s" and "raw @ s = pre @ w" and "length pre \<le> length raw"
    and "length (pre @ w) < 2 ^ 64" and "length body \<le> max_bytes" and "max_bytes < 2 ^ 64"
  shows "read_body max_bytes inc raw (length pre) resp = Some (Inr body)"
  using assms(1)
proof cases
  case (chunked cs ds ext trailer rest)
  have "decode_chunked max_bytes inc raw (length pre) [] = Some (Inr ([] @ chunks_data cs))"
    using chunked assms by (intro decode_wire [OF chunked(4-6) assms(2)]) simp_all
  with chunked show ?thesis by (simp add: read_body_def)
next
  case (by_length rest)
  have sz: "length pre + length body < 2 ^ 64" using assms(5) by_length(1) by simp
  have "length pre + length body \<le> length (raw @ s)" using assms(3) by_length(1) by simp
  from read_length_delivers [OF assms(2) this] obtain raw' s' where
    r: "read_length inc raw (length pre + length body) = Inr raw'" "raw' @ s' = pre @ w" "length pre + length body \<le> length raw'"
    using assms(3) by auto
  have "take (length body) (drop (length pre) raw') = take (length body) (drop (length pre) (raw' @ s'))" using r(3) by simp
  also have "\<dots> = body" by (simp add: r(2) by_length(1))
  finally have "take (length body) (drop (length pre) raw') = body" .
  moreover have "strtoul 10 (decimal (length body)) = (length body, True)" using sz by (intro strtoul_decimal) linarith
  ultimately show ?thesis using by_length r(1) sz assms(6) unfolding read_body_def Let_def by (simp add: mod_less)
next
  case until_close
  have "read_to_end inc raw (length pre) max_bytes = Inr (pre @ w)"
    using read_to_end_delivers [OF assms(2,4), of max_bytes] assms(3,6) until_close(1) by simp
  with until_close assms(6) show ?thesis by (simp add: read_body_def Let_def)
qed

text \<open>
  C35: reading a response.  Take a response on the wire: a status line with a status below \<open>2 ^ 31\<close>, header lines
  whose names and values have no carriage return and no blanks around them, an empty line, and the body in one
  of its three framings: chunked (sizes in any hexadecimal spelling, extensions and a trailer allowed), with a
  content length, or up to the end of the connection.  However the bytes are split into reads, and
  whatever follows a framed body, \<open>read_response\<close> returns, and returns exactly the status, the headers in order and the
  body, provided that the body is within the limit.
\<close>

theorem read_response_correct:
  assumes "list_all header_wire_ok hs" and "CHR 0x0D \<notin> set reason" and "st < 2 ^ 31"
    and "carries (empty_response\<lparr>resp_status := int st, resp_headers := hs\<rparr>) w body"
    and "delivers inc (head_wire st reason hs @ crlf @ crlf @ w)"
    and "length (head_wire st reason hs @ crlf @ crlf @ w) < 2 ^ 64" and "length body \<le> max_bytes" and "max_bytes < 2 ^ 64"
  shows "read_response max_bytes inc = Some (Inr \<lparr>resp_status = int st, resp_headers = hs, resp_body = body, final_url = [],
    redirect_chain = []\<rparr>)"
proof -
  let ?h = "head_wire st reason hs"
  let ?resp = "empty_response\<lparr>resp_status := int st, resp_headers := hs\<rparr>"
  have "find_from (crlf @ crlf) ([] @ ?h @ crlf @ crlf @ w) 0 = Some (length ?h)"
    using find_head_end [OF assms(1,2)] by (simp add: find_from_def map_option.identity [unfolded id_def])
  from fill_until_delivers [OF assms(5) this] obtain raw inc1 s1 where
    f: "fill_until inc [] 0 (crlf @ crlf) = Inr (True, raw, inc1)" "raw @ s1 = ?h @ crlf @ crlf @ w" "delivers inc1 s1"
    "find_from (crlf @ crlf) raw 0 = Some (length ?h)" by auto
  have he: "find_str (crlf @ crlf) raw = Some (length ?h)" using f(4) by (auto simp: find_from_def)
  have ge: "length ?h + 4 \<le> length raw" using find_str_Some [OF he] by simp
  have "take (length ?h) raw = take (length ?h) (raw @ s1)" using ge by simp
  also have "\<dots> = ?h" by (simp add: f(2))
  finally have "parse_head (take (length ?h) raw) = ?resp" using parse_head_wire [OF assms(1-3)] by simp
  moreover have "read_body max_bytes inc1 raw (length (?h @ crlf @ crlf)) ?resp = Some (Inr body)"
    using f(2) ge assms(6) by (intro read_body_carried [OF assms(4) f(3) _ _ _ assms(7,8)]) simp_all
  then have "read_body max_bytes inc1 raw (length ?h + 4) ?resp = Some (Inr body)" by (simp add: numeral_eq_Suc)
  ultimately show ?thesis using f(1) he by (simp add: read_response_def Let_def empty_response_def)
qed

theorem read_response_correct_witness:
  "read_response 10 [Received (''HTTP/1.1 200 OK'' @ crlf @ ''Transfer-Encoding: chu''),
     Received (''nked'' @ crlf @ crlf @ ''3'' @ crlf @ ''ab''), Received (''c'' @ crlf @ ''0'' @ crlf @ crlf)] =
   Some (Inr \<lparr>resp_status = 200, resp_headers = [(''Transfer-Encoding'', ''chunked'')], resp_body = ''abc'', final_url = [],
     redirect_chain = []\<rparr>)"
proof -
  let ?hs = "[(''Transfer-Encoding'', ''chunked'')]"
  let ?resp = "empty_response\<lparr>resp_status := int 200, resp_headers := ?hs\<rparr>"
  have dec: "decimal 200 = ''200''" by code_simp
  have dg: "size_digits ''3'' (Suc (Suc (Suc 0)))" "size_digits ''0'' 0" by (simp_all add: size_digits_def digit_in_def Let_def char_class byte_def)
  have "carries ?resp (concat (map chunk_wire [(''3'', [], ''abc'')]) @ ''0'' @ [] @ crlf @ [] @ crlf @ [])
     (chunks_data [(''3'', [], ''abc'')])"
    by (rule carries.chunked)
      (simp_all add: dg chunk_ok_def extension_ok_def response_header_def to_lower_def lower_char_def char_class byte_def)
  then have c: "carries ?resp (''3'' @ crlf @ ''abc'' @ crlf @ ''0'' @ crlf @ crlf) ''abc''"
    by (simp add: chunk_wire_def chunks_data_def)
  show ?thesis
    using read_response_correct [of ?hs "''OK''" 200 _ "''abc''" "[Received (''HTTP/1.1 200 OK'' @ crlf @ ''Transfer-Encoding: chu''),
       Received (''nked'' @ crlf @ crlf @ ''3'' @ crlf @ ''ab''), Received (''c'' @ crlf @ ''0'' @ crlf @ crlf)]" 10, OF _ _ _ c]
    by (simp add: head_wire_def status_wire_def header_wire_def dec header_wire_ok_def trim_def isspace_def char_class byte_def)
qed

text \<open>A body that is not chunked never exceeds the limit, whatever the connection delivers.\<close>

lemma read_body_limit:
  assumes "find_str ''chunked'' (to_lower (response_header resp ''Transfer-Encoding'')) = None"
    and "read_body max_bytes inc raw body_offset resp = Some (Inr body)"
  shows "length body \<le> max_bytes"
  using assms by (auto simp: read_body_def Let_def rbind_Inr_iff split: if_splits)

section \<open>A size that wraps around\<close>

text \<open>
  A chunk size of \<open>2 ^ 64 - 20\<close>: the sum that is compared with the limit wraps around, and so does the next
  position, which is again the start of the size line.  The data read so far then ends with that line and
  nothing is appended to the body, so the round repeats.
\<close>

abbreviation wrapping_line :: string where
  "wrapping_line \<equiv> ''FFFFFFFFFFFFFFEC''"

lemma fill_until_found: "find_from needle raw offset = Some k \<Longrightarrow> fill_until inc raw offset needle = Inr (True, raw, inc)"
  by (subst fill_until.simps) simp

lemma wrapping_size: "size_digits wrapping_line (2 ^ 64 - 20)"
  by (simp add: size_digits_def digit_in_def Let_def char_class byte_def)

lemma decode_wrapping:
  assumes raw: "raw = pre @ crlf @ wrapping_line @ crlf" and "length raw < 2 ^ 64" and "length body = 20"
  shows "decode_chunked max_bytes inc raw (length pre + 2) body = None"
proof -
  let ?o = "length pre + 2"
  have len: "length raw = length pre + 20" by (simp add: raw)
  have ext: "extension_ok []" by (simp add: extension_ok_def)
  have nocr: "CHR 0x0D \<notin> set (wrapping_line @ [])" by (rule no_cr_in_line [OF wrapping_size ext])
  have "find_from crlf ((pre @ crlf) @ (wrapping_line @ []) @ crlf @ []) (length (pre @ crlf)) = Some (length (pre @ crlf) + length (wrapping_line @ []))"
    by (rule find_crlf [OF nocr])
  then have found: "find_from crlf raw (length (pre @ crlf)) = Some (length (pre @ crlf) + length (wrapping_line @ []))" by (simp add: raw)
  have fill: "fill_until inc raw ?o crlf = Inr (True, raw, inc)" using fill_until_found [OF found] by simp
  have "raw @ [] = (pre @ crlf) @ (wrapping_line @ []) @ crlf @ []" by (simp add: raw)
  from chunk_line_wire [OF wrapping_size _ ext this found] have line: "chunk_line raw ?o = Inr (2 ^ 64 - 20, length raw)" by (simp add: len)
  have "find_from crlf raw (length pre) = Some (length pre)" using find_crlf [of "[]" pre] by (simp add: raw)
  then have fill2: "fill_until inc raw (length pre) crlf = Inr (True, raw, inc)" by (rule fill_until_found)
  have wraps: "word_mod (length body + (2 ^ 64 - 20)) = 0" "word_mod (length raw + (2 ^ 64 - 20)) = length pre"
    "word_mod (length raw + (2 ^ 64 - 20) + 2) = ?o"
  proof -
    have "length pre + 2 < 2 ^ 64" using assms(2) len by simp
    moreover have "length raw + (2 ^ 64 - 20) = length pre + 2 ^ 64" "length raw + (2 ^ 64 - 20) + 2 = length pre + 2 + 2 ^ 64" using len by simp_all
    ultimately show "word_mod (length body + (2 ^ 64 - 20)) = 0" "word_mod (length raw + (2 ^ 64 - 20)) = length pre"
      "word_mod (length raw + (2 ^ 64 - 20) + 2) = ?o" by (simp_all only: mod_add_self2 mod_less assms(3)) simp_all
  qed
  have "\<not> (mx = max_bytes \<and> i = inc \<and> r = raw \<and> off = ?o \<and> b = body)" if "decode_chunked mx i r off b = Some y" for mx i r off b y
    using that
  proof (induction mx i r off b y rule: decode_chunked.raw_induct [rotated, consumes 1, case_names 1])
    case (1 dec mx i r off b y)
    show ?case
    proof
      assume "mx = max_bytes \<and> i = inc \<and> r = raw \<and> off = ?o \<and> b = body"
      then have eq: "mx = max_bytes" "i = inc" "r = raw" "off = ?o" "b = body" by blast+
      have "(2 ^ 64 - 20 :: nat) \<noteq> 0" by simp
      then have "dec max_bytes inc raw ?o body = Some y" using 1(2) unfolding eq fill sum.case prod.case line wraps fill2 by simp
      then show False using 1(1) by blast
    qed
  qed
  then show ?thesis by (metis not_None_eq)
qed

definition wrapping_body :: string where
  "wrapping_body = ''14'' @ crlf @ replicate 20 (CHR ''a'') @ crlf @ wrapping_line @ crlf"

lemma decode_wrapping_body:
  assumes "raw = pre @ wrapping_body" and "length raw < 2 ^ 64"
  shows "decode_chunked (20 + m) inc raw (length pre) [] = None"
proof -
  let ?data = "replicate 20 (CHR ''a'')"
  have sz: "size_digits ''14'' 20" by (simp add: size_digits_def digit_in_def Let_def char_class byte_def)
  have ext: "extension_ok []" by (simp add: extension_ok_def)
  have raw: "raw @ [] = pre @ (''14'' @ []) @ crlf @ (?data @ crlf @ wrapping_line @ crlf)" by (simp only: assms(1) wrapping_body_def append_assoc append_Nil2 append_Nil)
  have "find_from crlf (pre @ (''14'' @ []) @ crlf @ (?data @ crlf @ wrapping_line @ crlf)) (length pre) = Some (length pre + length (''14'' @ []))"
    by (rule find_crlf [OF no_cr_in_line [OF sz ext]])
  then have found: "find_from crlf raw (length pre) = Some (length pre + length (''14'' @ []))" using raw by (simp only: append_Nil2)
  have line: "chunk_line raw (length pre) = Inr (20, length pre + 4)"
  proof -
    have "length (pre @ ''14'' @ []) + 2 = length pre + 4" "(20::nat) < 2 ^ 64" by simp_all
    with chunk_line_wire [OF sz _ ext raw found] show ?thesis by (simp only:)
  qed
  have raw2: "raw = (pre @ ''14'' @ crlf @ ?data) @ crlf @ wrapping_line @ crlf" using raw by (simp only: append_assoc append_Nil2 append_Nil)
  have "find_from crlf raw (length (pre @ ''14'' @ crlf @ ?data)) = Some (length (pre @ ''14'' @ crlf @ ?data))"
    using find_crlf [of "[]" "pre @ ''14'' @ crlf @ ?data"] unfolding raw2 by simp
  then have fill2: "fill_until inc raw (length pre + 24) crlf = Inr (True, raw, inc)" by (intro fill_until_found) simp
  have "length pre + 26 < 2 ^ 64" using assms(2) by (simp add: raw2)
  then have wraps: "word_mod (length pre + 4 + 20) = length pre + 24" "word_mod (length ([]::string) + 20) = 20"
    "word_mod (length pre + 4 + 20 + 2) = length (pre @ ''14'' @ crlf @ ?data) + 2" by simp_all
  have "take 20 (drop (length pre + 4) raw) = ?data" by (simp add: raw2)
  then have "decode_chunked (20 + m) inc raw (length pre) [] =
    decode_chunked (20 + m) inc raw (length (pre @ ''14'' @ crlf @ ?data) + 2) ?data"
    using fill_until_found [OF found, of inc] line fill2 by (subst decode_chunked.simps) (simp only: sum.case prod.case wraps, simp)
  also have "\<dots> = None" by (rule decode_wrapping [OF raw2 assms(2)]) simp
  finally show ?thesis .
qed

text \<open>
  C36: a short response makes the client loop forever.  After a chunk of 20 bytes the server sends a chunk size of
  \<open>2 ^ 64 - 20\<close>.  The check against the limit adds it to the length of the body without regard to overflow and passes
  for every limit of at least 20 bytes, and the position of the next chunk wraps around to the same size line.
  Whatever the connection delivers afterwards, even nothing, \<open>read_response\<close> never returns.
\<close>

theorem chunk_size_overflow_hangs:
  "read_response (20 + m) (Received (head_wire 200 ''OK'' [(''Transfer-Encoding'', ''chunked'')] @ crlf @ crlf @ wrapping_body) # rest) = None"
proof -
  let ?hs = "[(''Transfer-Encoding'', ''chunked'')]"
  let ?h = "head_wire 200 ''OK'' ?hs"
  let ?resp = "empty_response\<lparr>resp_status := int 200, resp_headers := ?hs\<rparr>"
  let ?raw = "?h @ crlf @ crlf @ wrapping_body"
  have dec: "decimal 200 = ''200''" by code_simp
  have ok: "list_all header_wire_ok ?hs" by (simp add: header_wire_ok_def trim_def isspace_def char_class byte_def)
  have he: "find_str (crlf @ crlf) ?raw = Some (length ?h)" by (rule find_head_end [OF ok]) simp
  have "find_from (crlf @ crlf) ?raw 0 = Some (length ?h)" using he by (simp add: find_from_def)
  then have fill: "fill_until (Received ?raw # rest) [] 0 (crlf @ crlf) = Inr (True, ?raw, rest)"
    using fill_until_found [of "crlf @ crlf" ?raw 0] by (subst fill_until.simps) (simp add: recv_more_def find_from_def)
  have head: "parse_head (take (length ?h) ?raw) = ?resp" using parse_head_wire [OF ok, of "''OK''" 200] by simp
  have "length (?h @ crlf @ crlf @ wrapping_body) < 2 ^ 64" by (simp add: head_wire_def status_wire_def header_wire_def dec wrapping_body_def)
  then have "decode_chunked (20 + m) rest ?raw (length (?h @ crlf @ crlf)) [] = None" by (intro decode_wrapping_body) simp_all
  moreover have "find_str ''chunked'' (to_lower (response_header ?resp ''Transfer-Encoding'')) \<noteq> None"
    by (simp add: response_header_def to_lower_def lower_char_def char_class byte_def)
  moreover have "length (?h @ crlf @ crlf) = length ?h + 4" by simp
  ultimately have "read_body (20 + m) rest ?raw (length ?h + 4) ?resp = None" by (simp only: read_body_def Let_def simp_thms if_True)
  with fill he head show ?thesis by (simp only: read_response_def sum.case prod.case Let_def option.sel simp_thms if_False option.map)
qed

end
