(* ===== verification/Http_Proxy.thy ===== *)
theory Http_Proxy
  imports Http_Socket Url Utf8
begin

text \<open>
  Proxies in \<^verbatim>\<open>network_client.cpp\<close>: URLs of proxies with their credentials, the choice of a proxy from the
  environment, and the bytes of a request.  The environment is an argument, a partial map from names to values.
\<close>

unbundle bit_operations_syntax

type_synonym environment = "string \<rightharpoonup> string"

definition environment_value :: "environment \<Rightarrow> string \<Rightarrow> string \<Rightarrow> string option" where
  "environment_value env upper lower =
     (case env upper of Some v \<Rightarrow> if v \<noteq> [] then Some v else env lower | None \<Rightarrow> env lower)"

definition unbracket_host :: "string \<Rightarrow> string" where
  "unbracket_host h =
     (if 2 < length h \<and> hd h = CHR ''['' \<and> last h = CHR '']'' then take (length h - 2) (drop 1 h) else h)"

section \<open>Hosts that bypass the proxy\<close>

function split_entries :: "string \<Rightarrow> string list" where
  "split_entries s =
     (case find_char (CHR '','') s of
        None \<Rightarrow> if s = [] then [] else [s]
      | Some k \<Rightarrow> take k s # split_entries (drop (k + 1) s))"
  by pat_completeness auto
termination by (relation "measure length") (auto dest: find_char_Some(1))

declare split_entries.simps [simp del]

text \<open>The host and the port that one entry asks for; \<open>None\<close> for an entry that is skipped.\<close>

definition entry_parts :: "string \<Rightarrow> (string \<times> string) option" where
  "entry_parts entry =
     (if entry \<noteq> [] \<and> hd entry = CHR ''['' then
        (case find_char (CHR '']'') entry of
           None \<Rightarrow> None
         | Some close \<Rightarrow>
             if close + 1 < length entry then
               (if entry ! (close + 1) \<noteq> CHR '':'' then None
                else Some (take (close - 1) (drop 1 entry), drop (close + 2) entry))
             else Some (take (close - 1) (drop 1 entry), []))
      else case find_char (CHR '':'') entry of
          None \<Rightarrow> Some (entry, [])
        | Some colon \<Rightarrow>
            if find_char (CHR '':'') (drop (colon + 1) entry) = None
            then Some (take colon entry, drop (colon + 1) entry)
            else Some (entry, []))"

definition drop_final_dot :: "string \<Rightarrow> string" where
  "drop_final_dot s = (if s \<noteq> [] \<and> last s = CHR ''.'' then butlast s else s)"

definition entry_host :: "string \<Rightarrow> string" where
  "entry_host e = drop_final_dot
     (if prefix ''*.'' e then drop 2 e else if e \<noteq> [] \<and> hd e = CHR ''.'' then drop 1 e else e)"

definition entry_excludes :: "string \<Rightarrow> string \<Rightarrow> string \<Rightarrow> bool" where
  "entry_excludes hst prt raw_entry =
     (let entry = to_lower (trim raw_entry) in
      if entry = ''*'' then True
      else case entry_parts entry of
          None \<Rightarrow> False
        | Some (e, required_port) \<Rightarrow>
            if required_port \<noteq> [] \<and> required_port \<noteq> prt then False
            else (let h = entry_host e in h \<noteq> [] \<and> (hst = h \<or> suffix (CHR ''.'' # h) hst)))"

definition default_port :: "url \<Rightarrow> string" where
  "default_port u = (if port u = [] then (if scheme u = ''https'' then ''443'' else ''80'') else port u)"

definition proxy_excluded :: "environment \<Rightarrow> url \<Rightarrow> bool" where
  "proxy_excluded env target =
     (case environment_value env ''NO_PROXY'' ''no_proxy'' of
        None \<Rightarrow> False
      | Some excluded \<Rightarrow>
          if excluded = [] then False
          else list_ex (entry_excludes (drop_final_dot (unbracket_host (to_lower (host target)))) (default_port target))
                 (split_entries excluded))"

section \<open>Credentials\<close>

definition proxy_hex :: "char \<Rightarrow> nat option" where
  "proxy_hex c =
     (if CHR ''0'' \<le> c \<and> c \<le> CHR ''9'' then Some (byte c - 48)
      else if CHR ''a'' \<le> c \<and> c \<le> CHR ''f'' then Some (byte c - 97 + 10)
      else if CHR ''A'' \<le> c \<and> c \<le> CHR ''F'' then Some (byte c - 65 + 10)
      else None)"

definition credential_char :: "char \<Rightarrow> bool" where
  "credential_char c \<longleftrightarrow> 0x20 \<le> byte c \<and> byte c \<noteq> 0x7f"

definition keep_credential :: "char \<Rightarrow> string result \<Rightarrow> string result" where
  "keep_credential c rest = (if \<not> credential_char c then Inl (Error InvalidUrl ''invalid proxy credentials'') else rbind rest (\<lambda>s. Inr (c # s)))"

fun decode_proxy_credential :: "string \<Rightarrow> string result" where
  "decode_proxy_credential [] = Inr []"
| "decode_proxy_credential (c # s) =
     (if c = CHR ''%'' then
        (case s of
           a # b # rest \<Rightarrow>
             (case (proxy_hex a, proxy_hex b) of
                (Some x, Some y) \<Rightarrow> keep_credential (char_of (push_bit 4 x OR y)) (decode_proxy_credential rest)
              | _ \<Rightarrow> Inl (Error InvalidUrl ''invalid proxy credential encoding''))
         | _ \<Rightarrow> Inl (Error InvalidUrl ''invalid proxy credential encoding''))
      else keep_credential c (decode_proxy_credential s))"

definition hex_upper :: "nat \<Rightarrow> char" where
  "hex_upper n = ''0123456789ABCDEF'' ! n"

definition unreserved :: "char \<Rightarrow> bool" where
  "unreserved c \<longleftrightarrow> is_alnum c \<or> c \<in> {CHR ''-'', CHR ''.'', CHR ''_'', CHR ''~''}"

definition encode_proxy_credential :: "string \<Rightarrow> string" where
  "encode_proxy_credential s =
     concat (map (\<lambda>c. if unreserved c then [c]
       else [CHR ''%'', hex_upper (drop_bit 4 (byte c)), hex_upper (byte c AND 15)]) s)"

section \<open>The URL of a proxy\<close>

text \<open>\<open>std::from_chars\<close> into an \<open>unsigned\<close>: the value and the rest, no value without a digit or out of range.\<close>

definition from_chars_unsigned :: "string \<Rightarrow> (nat \<times> string) option" where
  "from_chars_unsigned s =
     (let ds = takeWhile is_digit s; v = digits_value ds
      in if ds = [] \<or> 2 ^ 32 \<le> v then None else Some (v, dropWhile is_digit s))"

definition proxy_port_ok :: "string \<Rightarrow> bool" where
  "proxy_port_ok s = (case from_chars_unsigned s of
      None \<Rightarrow> False | Some (v, rest) \<Rightarrow> rest = [] \<and> v \<noteq> 0 \<and> v \<le> 65535)"

definition proxy_host_char :: "char \<Rightarrow> bool" where
  "proxy_host_char c \<longleftrightarrow> is_alnum c \<or> c = CHR ''.'' \<or> c = CHR ''-'' \<or> c = CHR '':''"

definition scheme_of_name :: "string \<Rightarrow> proxy_scheme result" where
  "scheme_of_name s =
     (if s = ''http'' then Inr Http_Proxy
      else if s = ''https'' then Inr Https_Proxy
      else if s = ''socks5'' \<or> s = ''socks5h'' then Inr Socks5_Proxy
      else Inl (Error Unsupported ''unsupported proxy scheme''))"

definition cut_path :: "string \<Rightarrow> string result" where
  "cut_path auth =
     (case find_char (CHR ''/'') auth of
        None \<Rightarrow> Inr auth
      | Some slash \<Rightarrow>
          if drop slash auth \<noteq> ''/'' then Inl (Error InvalidUrl ''proxy URL must not contain a path'')
          else Inr (take slash auth))"

definition cut_userinfo :: "string \<Rightarrow> string \<times> string" where
  "cut_userinfo auth =
     (case find_last_char (CHR ''@'') auth of
        None \<Rightarrow> ([], auth)
      | Some at \<Rightarrow> (take at auth, drop (at + 1) auth))"

definition read_credentials :: "string \<Rightarrow> (string \<times> string) result" where
  "read_credentials usr =
     (if usr = [] then Inr ([], [])
      else case find_char (CHR '':'') usr of
          None \<Rightarrow> rbind (decode_proxy_credential usr) (\<lambda>user. Inr (user, []))
        | Some sep \<Rightarrow>
            rbind (decode_proxy_credential (take sep usr)) (\<lambda>user.
              rbind (decode_proxy_credential (drop (sep + 1) usr)) (\<lambda>pass. Inr (user, pass))))"

definition check_proxy :: "proxy_config \<Rightarrow> proxy_config result" where
  "check_proxy p =
     (if \<not> proxy_port_ok (proxy_port p) then Inl (Error InvalidUrl ''invalid proxy port'')
      else if proxy_host p = [] \<or> 255 < length (proxy_host p) \<or> \<not> list_all proxy_host_char (proxy_host p)
      then Inl (Error InvalidUrl ''invalid proxy host'')
      else if proxy_scheme p = Socks5_Proxy \<and> (255 < length (proxy_username p) \<or> 255 < length (proxy_password p))
      then Inl (Error InvalidUrl ''proxy credentials exceed SOCKS5 limits'')
      else Inr p)"

definition parse_proxy_url :: "string \<Rightarrow> proxy_config result" where
  "parse_proxy_url value =
     (if value = [] then Inr no_proxy_config
      else if 8192 < length value \<or> list_ex (\<lambda>c. byte c \<le> 0x20 \<or> byte c = 0x7f) value
      then Inl (Error InvalidUrl ''invalid proxy URL'')
      else case find_str ''://'' value of
          None \<Rightarrow> Inl (Error InvalidUrl ''proxy URL requires a scheme'')
        | Some scheme_end \<Rightarrow>
            rbind (scheme_of_name (to_lower (take scheme_end value))) (\<lambda>sch.
            rbind (cut_path (drop (scheme_end + 3) value)) (\<lambda>auth.
              if list_ex (\<lambda>c. c = CHR ''?'' \<or> c = CHR ''#'') auth then Inl (Error InvalidUrl ''invalid proxy URL'')
              else (let (usr, hostport) = cut_userinfo auth in
                case find_last_char (CHR '':'') hostport of
                  None \<Rightarrow> Inl (Error InvalidUrl ''proxy URL requires host:port'')
                | Some colon \<Rightarrow>
                    if colon = 0 \<or> length hostport \<le> colon + 1 then Inl (Error InvalidUrl ''proxy URL requires host:port'')
                    else rbind (read_credentials usr) (\<lambda>(user, pass).
                      check_proxy \<lparr>proxy_scheme = sch, proxy_host = unbracket_host (to_lower (take colon hostport)),
                        proxy_port = drop (colon + 1) hostport, proxy_username = user, proxy_password = pass\<rparr>)))))"

definition proxy_from_environment :: "environment \<Rightarrow> string \<Rightarrow> proxy_config result" where
  "proxy_from_environment env target_url =
     rbind (parse_url target_url) (\<lambda>target.
       if proxy_excluded env target then Inr no_proxy_config
       else (let v = (if scheme target = ''https'' then environment_value env ''HTTPS_PROXY'' ''https_proxy''
                      else environment_value env ''HTTP_PROXY'' ''http_proxy'');
                 w = (if v = None \<or> v = Some [] then environment_value env ''ALL_PROXY'' ''all_proxy'' else v)
             in case w of None \<Rightarrow> Inr no_proxy_config
                | Some s \<Rightarrow> if s = [] then Inr no_proxy_config else parse_proxy_url s))"

definition proxy_scheme_name :: "proxy_scheme \<Rightarrow> string" where
  "proxy_scheme_name s = (if s = Socks5_Proxy then ''socks5'' else if s = Https_Proxy then ''https'' else ''http'')"

definition proxy_to_string :: "proxy_config \<Rightarrow> bool \<Rightarrow> string" where
  "proxy_to_string p redact =
     (if \<not> proxy_enabled p then []
      else proxy_scheme_name (proxy_scheme p) @ ''://'' @
        (if proxy_username p \<noteq> [] then encode_proxy_credential (proxy_username p) @ '':'' @
           (if redact then ''[REDACTED]'' else encode_proxy_credential (proxy_password p)) @ ''@'' else []) @
        (if find_char (CHR '':'') (proxy_host p) = None then proxy_host p else CHR ''['' # proxy_host p @ '']'') @
        '':'' @ proxy_port p)"

section \<open>The request\<close>

definition base64_char :: "nat \<Rightarrow> char" where
  "base64_char n = ''ABCDEFGHIJKLMNOPQRSTUVWXYZabcdefghijklmnopqrstuvwxyz0123456789+/'' ! n"

fun base64 :: "string \<Rightarrow> string" where
  "base64 [] = []"
| "base64 [x] = (let a = byte x in [base64_char (drop_bit 2 a), base64_char (push_bit 4 (a AND 3) OR drop_bit 4 0), CHR ''='', CHR ''=''])"
| "base64 [x, y] = (let a = byte x; b = byte y in
     [base64_char (drop_bit 2 a), base64_char (push_bit 4 (a AND 3) OR drop_bit 4 b),
      base64_char (push_bit 2 (b AND 15) OR drop_bit 6 0), CHR ''=''])"
| "base64 (x # y # z # s) = (let a = byte x; b = byte y; c = byte z in
     [base64_char (drop_bit 2 a), base64_char (push_bit 4 (a AND 3) OR drop_bit 4 b),
      base64_char (push_bit 2 (b AND 15) OR drop_bit 6 c), base64_char (c AND 63)] @ base64 s)"

definition proxy_authorization :: "proxy_config \<Rightarrow> string" where
  "proxy_authorization p =
     (if proxy_username p = [] then []
      else crlf @ ''Proxy-Authorization: Basic '' @ base64 (proxy_username p @ '':'' @ proxy_password p))"

definition select_proxy :: "environment \<Rightarrow> proxy_config \<Rightarrow> http_request \<Rightarrow> proxy_config result" where
  "select_proxy env client_proxy req =
     (if proxy_enabled (req_proxy req) then Inr (req_proxy req)
      else if proxy_enabled client_proxy then Inr client_proxy
      else proxy_from_environment env (req_url req))"

definition connect_payload :: "url \<Rightarrow> proxy_config \<Rightarrow> string" where
  "connect_payload u selected =
     ''CONNECT '' @ host u @ '':'' @ default_port u @ '' HTTP/1.1'' @ crlf @ ''Host: '' @ host u @ '':'' @ default_port u @
     proxy_authorization selected @ crlf @ crlf"

definition forward_proxy :: "url \<Rightarrow> proxy_config \<Rightarrow> bool" where
  "forward_proxy u selected \<longleftrightarrow> proxy_enabled selected \<and> proxy_scheme selected \<noteq> Socks5_Proxy \<and> scheme u = ''http''"

definition request_target :: "url \<Rightarrow> proxy_config \<Rightarrow> string" where
  "request_target u selected =
     (let p = (if path u = [] then ''/'' else path u) @ (if has_query u then CHR ''?'' # query u else [])
      in if forward_proxy u selected then origin u @ p else p)"

definition sent_headers :: "http_request \<Rightarrow> (string \<times> string) list" where
  "sent_headers req = filter (\<lambda>h. to_lower (fst h) \<noteq> ''proxy-authorization'') (req_headers req)"

definition request_payload :: "url \<Rightarrow> proxy_config \<Rightarrow> http_request \<Rightarrow> string" where
  "request_payload u selected req =
     req_method req @ '' '' @ request_target u selected @ '' HTTP/1.1'' @ crlf @ ''Host: '' @ host u @
     (if port u \<noteq> [] then CHR '':'' # port u else []) @
     concat (map (\<lambda>(nm, v). crlf @ nm @ '': '' @ v) (sent_headers req)) @
     (if list_ex (\<lambda>h. to_lower (fst h) = ''user-agent'') (sent_headers req) then [] else crlf @ ''User-Agent: ProwseTk/0.1'') @
     (if forward_proxy u selected then proxy_authorization selected else []) @
     crlf @ ''Connection: close'' @ crlf @
     (if req_body req \<noteq> [] then ''Content-Length: '' @ decimal (length (req_body req)) @ crlf else []) @
     crlf @ req_body req"

section \<open>Printing and parsing the URL of a proxy\<close>

lemma proxy_hex_upper:
  assumes "n < 16"
  shows "proxy_hex (hex_upper n) = Some n"
proof -
  have "list_all (\<lambda>n. proxy_hex (hex_upper n) = Some n) [0..<16]" by code_simp
  with assms show ?thesis by (simp add: list_all_iff)
qed

lemma byte_halves: "push_bit 4 (drop_bit 4 (byte c)) OR (byte c AND 15) = byte c" "drop_bit 4 (byte c) < 16" "byte c AND 15 < 16"
proof -
  have m: "byte c AND 15 = byte c mod 16" using take_bit_eq_mask [of 4 "byte c"] by (simp add: mask_eq_exp_minus_1 take_bit_eq_mod)
  show "drop_bit 4 (byte c) < 16" using byte_less [of c] by (simp add: drop_bit_eq_div less_mult_imp_div_less)
  show "byte c AND 15 < 16" by (simp add: m)
  show "push_bit 4 (drop_bit 4 (byte c)) OR (byte c AND 15) = byte c"
    using or_disjoint_nat [of "byte c mod 16" 4 "byte c div 16"] by (simp add: m drop_bit_eq_div push_bit_eq_mult)
qed

lemma decode_encode:
  assumes "list_all credential_char s"
  shows "decode_proxy_credential (encode_proxy_credential s) = Inr s"
  using assms
proof (induction s)
  case (Cons c s)
  have "c \<noteq> CHR ''%''" if "unreserved c" using that by (auto simp: unreserved_def char_class)
  with Cons show ?case
    by (auto simp: encode_proxy_credential_def keep_credential_def proxy_hex_upper byte_halves)
qed (simp add: encode_proxy_credential_def)

text \<open>Characters that occur in the printed URL.\<close>

lemma unreserved_hex: "n < 16 \<Longrightarrow> unreserved (hex_upper n)"
proof -
  have "list_all (\<lambda>n. unreserved (hex_upper n)) [0..<16]" by code_simp
  then show "n < 16 \<Longrightarrow> unreserved (hex_upper n)" by (simp add: list_all_iff)
qed

lemma encode_chars: "c \<in> set (encode_proxy_credential s) \<Longrightarrow> unreserved c \<or> c = CHR ''%''"
  by (auto simp: encode_proxy_credential_def unreserved_hex byte_halves split: if_splits)

lemma byte_mono: "c \<le> d \<Longrightarrow> byte c \<le> byte d"
  by (simp add: less_eq_byte)

lemma alnum_byte: "is_alnum c \<Longrightarrow> 48 \<le> byte c \<and> byte c \<le> 122"
  by (auto simp: char_class less_eq_byte byte_def)

text \<open>What a parsed proxy satisfies, and the bytes of the URL that is printed for it.\<close>

definition proxy_wf :: "proxy_config \<Rightarrow> bool" where
  "proxy_wf p \<longleftrightarrow> proxy_scheme p \<noteq> No_Proxy \<and> proxy_port_ok (proxy_port p) \<and>
     proxy_host p \<noteq> [] \<and> length (proxy_host p) \<le> 255 \<and> list_all proxy_host_char (proxy_host p) \<and> to_lower (proxy_host p) = proxy_host p \<and>
     list_all credential_char (proxy_username p) \<and> list_all credential_char (proxy_password p) \<and>
     (proxy_scheme p = Socks5_Proxy \<longrightarrow> length (proxy_username p) \<le> 255 \<and> length (proxy_password p) \<le> 255)"

lemma port_digits:
  assumes "proxy_port_ok s"
  shows "s \<noteq> []" "c \<in> set s \<Longrightarrow> is_digit c" "1 \<le> digits_value s" "digits_value s \<le> 65535"
proof -
  obtain v where v: "from_chars_unsigned s = Some (v, [])" "v \<noteq> 0" "v \<le> 65535"
    using assms by (auto simp: proxy_port_ok_def split: option.splits)
  have d: "dropWhile is_digit s = []" "takeWhile is_digit s \<noteq> []" "v = digits_value (takeWhile is_digit s)"
    using v(1) by (auto simp: from_chars_unsigned_def Let_def split: if_splits)
  have s: "takeWhile is_digit s = s" using d(1) takeWhile_dropWhile_id [of is_digit s] by simp
  show "s \<noteq> []" using d(2) s by auto
  show "is_digit c" if "c \<in> set s" using that s by (metis set_takeWhileD)
  show "1 \<le> digits_value s" "digits_value s \<le> 65535" using v d(3) s by auto
qed

definition plain_char :: "char \<Rightarrow> bool" where
  "plain_char c \<longleftrightarrow> 0x20 < byte c \<and> byte c \<noteq> 0x7f \<and> c \<noteq> CHR ''/'' \<and> c \<noteq> CHR ''?'' \<and> c \<noteq> CHR ''#'' \<and> c \<noteq> CHR ''@''"

lemma plain_alnum: "is_alnum c \<Longrightarrow> plain_char c"
  using alnum_byte [of c] by (auto simp: plain_char_def char_class)

lemma plain_chars:
  "c \<in> set (encode_proxy_credential s) \<Longrightarrow> plain_char c \<and> c \<noteq> CHR '':''"
  "proxy_host_char c \<Longrightarrow> plain_char c"
  "is_digit c \<Longrightarrow> plain_char c \<and> c \<noteq> CHR '':''"
proof -
  show "plain_char c \<and> c \<noteq> CHR '':''" if "c \<in> set (encode_proxy_credential s)"
    using encode_chars [OF that] plain_alnum [of c] by (auto simp: unreserved_def plain_char_def byte_def char_class)
  show "plain_char c" if "proxy_host_char c" using that plain_alnum [of c] by (auto simp: proxy_host_char_def plain_char_def byte_def)
  show "plain_char c \<and> c \<noteq> CHR '':''" if "is_digit c" using that plain_alnum [of c] by (auto simp: is_alnum_def char_class)
qed

text \<open>The parts after the scheme.\<close>

definition hostport_wire :: "proxy_config \<Rightarrow> string" where
  "hostport_wire p = (if find_char (CHR '':'') (proxy_host p) = None then proxy_host p else CHR ''['' # proxy_host p @ '']'') @
     '':'' @ proxy_port p"

definition userinfo_wire :: "proxy_config \<Rightarrow> string" where
  "userinfo_wire p = encode_proxy_credential (proxy_username p) @ '':'' @ encode_proxy_credential (proxy_password p)"

definition authority_wire :: "proxy_config \<Rightarrow> string" where
  "authority_wire p = (if proxy_username p \<noteq> [] then userinfo_wire p @ ''@'' else []) @ hostport_wire p"

lemma proxy_to_string_wire:
  "proxy_wf p \<Longrightarrow> proxy_to_string p False = proxy_scheme_name (proxy_scheme p) @ ''://'' @ authority_wire p"
  using port_digits(1) [of "proxy_port p"]
  by (auto simp: proxy_to_string_def proxy_enabled_def proxy_wf_def authority_wire_def userinfo_wire_def hostport_wire_def)

lemma hostport_plain:
  assumes "proxy_wf p" and "c \<in> set (hostport_wire p)"
  shows "plain_char c"
proof -
  have "plain_char (CHR ''['')" "plain_char (CHR '']'')" "plain_char (CHR '':'')" by (simp_all add: plain_char_def byte_def)
  moreover have "plain_char d" if "d \<in> set (proxy_host p) \<union> set (proxy_port p)" for d
    using that assms(1) plain_chars port_digits(2) by (auto simp: proxy_wf_def list_all_iff)
  ultimately show ?thesis using assms(2) by (auto simp: hostport_wire_def split: if_splits)
qed

lemma authority_chars:
  assumes "proxy_wf p" and "c \<in> set (authority_wire p)"
  shows "0x20 < byte c" "byte c \<noteq> 0x7f" "c \<noteq> CHR ''/''" "c \<noteq> CHR ''?''" "c \<noteq> CHR ''#''"
proof -
  have "plain_char (CHR '':'')" by (simp add: plain_char_def byte_def)
  then have "plain_char c \<or> c = CHR ''@''"
    using assms hostport_plain [OF assms(1)] plain_chars(1) by (auto simp: authority_wire_def userinfo_wire_def split: if_splits)
  then show "0x20 < byte c" "byte c \<noteq> 0x7f" "c \<noteq> CHR ''/''" "c \<noteq> CHR ''?''" "c \<noteq> CHR ''#''"
    by (auto simp: plain_char_def byte_def)
qed

lemma cut_userinfo_wire:
  assumes "proxy_wf p"
  shows "cut_userinfo (authority_wire p) = (if proxy_username p \<noteq> [] then userinfo_wire p else [], hostport_wire p)"
proof -
  have "CHR ''@'' \<notin> set (hostport_wire p)" using hostport_plain [OF assms, of "CHR ''@''"] by (auto simp: plain_char_def)
  then show ?thesis by (simp add: cut_userinfo_def authority_wire_def find_last_char_append find_last_char_none)
qed

lemma read_credentials_wire:
  assumes "proxy_wf p"
  shows "read_credentials (userinfo_wire p) = Inr (proxy_username p, proxy_password p)"
proof -
  have "CHR '':'' \<notin> set (encode_proxy_credential (proxy_username p))" using plain_chars(1) by blast
  with assms show ?thesis by (simp add: read_credentials_def userinfo_wire_def proxy_wf_def decode_encode)
qed

lemma hostport_split:
  assumes "proxy_wf p"
  shows "\<exists>colon. find_last_char (CHR '':'') (hostport_wire p) = Some colon \<and> colon \<noteq> 0 \<and> colon + 1 < length (hostport_wire p) \<and>
    unbracket_host (to_lower (take colon (hostport_wire p))) = proxy_host p \<and> drop (colon + 1) (hostport_wire p) = proxy_port p"
proof -
  let ?h = "if find_char (CHR '':'') (proxy_host p) = None then proxy_host p else CHR ''['' # proxy_host p @ '']''"
  have port: "CHR '':'' \<notin> set (proxy_port p)" "proxy_port p \<noteq> []"
    using assms port_digits [of "proxy_port p"] plain_chars(3) by (auto simp: proxy_wf_def)
  have h: "proxy_host p \<noteq> []" "to_lower (proxy_host p) = proxy_host p" "hd (proxy_host p) \<noteq> CHR ''[''"
    using assms by (cases "proxy_host p"; auto simp: proxy_wf_def proxy_host_char_def char_class)+
  have "lower_char (hd (proxy_host p)) = hd (proxy_host p)" using h(1,2) by (metis hd_to_lower)
  then have "unbracket_host (to_lower ?h) = proxy_host p" using h by (auto simp: unbracket_host_def lower_char_id char_class)
  moreover have "find_last_char (CHR '':'') (hostport_wire p) = Some (length ?h)"
    unfolding hostport_wire_def using find_last_char_append [OF port(1), of ?h] by simp
  ultimately show ?thesis using h port(2) by (intro exI [of _ "length ?h"]) (simp add: hostport_wire_def)
qed

lemma check_proxy_wf: "proxy_wf p \<Longrightarrow> check_proxy p = Inr p"
  by (auto simp: check_proxy_def proxy_wf_def)

lemma scheme_printed:
  assumes "proxy_scheme p \<noteq> No_Proxy"
  shows "find_str ''://'' (proxy_scheme_name (proxy_scheme p) @ ''://'' @ s) = Some (length (proxy_scheme_name (proxy_scheme p)))"
    "scheme_of_name (to_lower (proxy_scheme_name (proxy_scheme p))) = Inr (proxy_scheme p)"
    "list_all (\<lambda>c. 0x20 < byte c \<and> byte c \<noteq> 0x7f) (proxy_scheme_name (proxy_scheme p) @ ''://'')"
  using assms by (cases "proxy_scheme p";
    simp add: proxy_scheme_name_def scheme_of_name_def lower_char_id char_class byte_def)+

lemma parse_printed_proxy:
  assumes wf: "proxy_wf p" and "length (proxy_to_string p False) \<le> 8192" and "proxy_username p = [] \<Longrightarrow> proxy_password p = []"
  shows "parse_proxy_url (proxy_to_string p False) = Inr p"
proof -
  let ?n = "proxy_scheme_name (proxy_scheme p)"
  let ?a = "authority_wire p"
  note str = proxy_to_string_wire [OF wf]
  have sch: "proxy_scheme p \<noteq> No_Proxy" using wf by (simp add: proxy_wf_def)
  note chars = authority_chars [OF wf]
  have "\<not> list_ex (\<lambda>c. byte c \<le> 0x20 \<or> byte c = 0x7f) (?n @ ''://'' @ ?a)"
    using scheme_printed(3) [OF sch] chars by (fastforce simp: list_ex_iff list_all_iff)
  moreover have "CHR ''/'' \<notin> set ?a" "\<not> list_ex (\<lambda>c. c = CHR ''?'' \<or> c = CHR ''#'') ?a"
    using chars by (auto simp: list_ex_iff)
  moreover from this have "cut_path ?a = Inr ?a" by (simp add: cut_path_def find_char_None_iff [THEN iffD2])
  moreover have "read_credentials (if proxy_username p \<noteq> [] then userinfo_wire p else []) = Inr (proxy_username p, proxy_password p)"
    using read_credentials_wire [OF wf] assms(3) by (simp add: read_credentials_def [of "[]"])
  moreover obtain colon where "find_last_char (CHR '':'') (hostport_wire p) = Some colon" "colon \<noteq> 0" "colon + 1 < length (hostport_wire p)"
    "unbracket_host (to_lower (take colon (hostport_wire p))) = proxy_host p" "drop (colon + 1) (hostport_wire p) = proxy_port p"
    using hostport_split [OF wf] by blast
  moreover have "check_proxy \<lparr>proxy_scheme = proxy_scheme p, proxy_host = proxy_host p, proxy_port = proxy_port p,
      proxy_username = proxy_username p, proxy_password = proxy_password p\<rparr> = Inr p" using check_proxy_wf [OF wf] by (cases p) simp
  ultimately show ?thesis
    using assms(2) scheme_printed(1) [OF sch, of ?a] scheme_printed(2) [OF sch] cut_userinfo_wire [OF wf]
    by (simp add: parse_proxy_url_def str Let_def)
qed

lemma keep_credential_Inr: "keep_credential c r = Inr t \<longleftrightarrow> credential_char c \<and> (\<exists>u. r = Inr u \<and> t = c # u)"
  by (auto simp: keep_credential_def rbind_Inr_iff)

lemma decoded_credential: "decode_proxy_credential s = Inr t \<Longrightarrow> list_all credential_char t"
proof (induction s arbitrary: t rule: decode_proxy_credential.induct)
  case (2 c s)
  show ?case
  proof (cases "c = CHR ''%''")
    case True
    then obtain a b rest x y where s: "s = a # b # rest" "proxy_hex a = Some x" "proxy_hex b = Some y"
      using "2.prems" by (auto split: list.splits option.splits)
    with True "2.prems" "2.IH"(1) [OF True s(1) refl refl s(2,3)] show ?thesis by (auto simp: keep_credential_Inr)
  next
    case False
    with 2 show ?thesis by (auto simp: keep_credential_Inr)
  qed
qed simp

lemma read_credentials_chars:
  "read_credentials s = Inr (user, pass) \<Longrightarrow> list_all credential_char user \<and> list_all credential_char pass"
  by (auto simp: read_credentials_def rbind_Inr_iff dest: decoded_credential split: if_splits option.splits)

lemma unbracket_lower: "to_lower (unbracket_host (to_lower s)) = unbracket_host (to_lower s)"
  by (auto simp: unbracket_host_def to_lower_def take_map drop_map)

lemma parse_proxy_wf:
  assumes "parse_proxy_url s = Inr p" and "s \<noteq> []"
  shows "proxy_wf p"
proof -
  obtain sch user pass hostport colon usr where
    "scheme_of_name (to_lower (take (the (find_str ''://'' s)) s)) = Inr sch" and c: "read_credentials usr = Inr (user, pass)"
    and p: "check_proxy \<lparr>proxy_scheme = sch, proxy_host = unbracket_host (to_lower (take colon hostport)),
       proxy_port = drop (colon + 1) hostport, proxy_username = user, proxy_password = pass\<rparr> = Inr p"
    using assms by (auto simp: parse_proxy_url_def rbind_Inr_iff Let_def split: if_splits option.splits prod.splits)
  then have "sch \<noteq> No_Proxy" by (auto simp: scheme_of_name_def split: if_splits)
  with p read_credentials_chars [OF c] show ?thesis
    by (auto simp: check_proxy_def proxy_wf_def unbracket_lower split: if_splits)
qed



section \<open>Basic credentials\<close>

text \<open>The inverse of \<open>base64\<close>: four characters give three bytes, fewer where they are padded.\<close>

definition base64_value :: "char \<Rightarrow> nat option" where
  "base64_value c = find (\<lambda>n. base64_char n = c) [0..<64]"

fun base64_decode :: "string \<Rightarrow> string option" where
  "base64_decode [] = Some []"
| "base64_decode (p # q # r # s # rest) =
     (case (base64_value p, base64_value q) of
        (Some i, Some j) \<Rightarrow>
          let x = char_of (i * 4 + j div 16) in
          if r = CHR ''='' then (if s = CHR ''='' \<and> rest = [] then Some [x] else None)
          else (case base64_value r of
              None \<Rightarrow> None
            | Some k \<Rightarrow>
                let y = char_of (j * 16 + k div 4) in
                if s = CHR ''='' then (if rest = [] then Some [x, y] else None)
                else (case base64_value s of
                    None \<Rightarrow> None
                  | Some l \<Rightarrow> map_option (\<lambda>t. x # y # char_of (k * 64 + l) # t) (base64_decode rest)))
      | _ \<Rightarrow> None)"
| "base64_decode _ = None"

lemma base64_value_char:
  assumes "n < 64"
  shows "base64_value (base64_char n) = Some n" "base64_char n \<noteq> CHR ''=''" "base64_char n \<noteq> CHR 0x0D" "base64_char n \<noteq> CHR 0x0A"
proof -
  have "list_all (\<lambda>n. base64_value (base64_char n) = Some n \<and> base64_char n \<noteq> CHR ''='' \<and> base64_char n \<noteq> CHR 0x0D \<and>
    base64_char n \<noteq> CHR 0x0A) [0..<64]" by code_simp
  with assms show "base64_value (base64_char n) = Some n" "base64_char n \<noteq> CHR ''=''" "base64_char n \<noteq> CHR 0x0D" "base64_char n \<noteq> CHR 0x0A"
    by (simp_all add: list_all_iff)
qed

lemma and_masks: "(n::nat) AND 63 = n mod 64" "n AND 15 = n mod 16" "n AND 3 = n mod 4"
  using take_bit_eq_mask [of 6 n] take_bit_eq_mask [of 4 n] take_bit_eq_mask [of 2 n]
  by (simp_all add: mask_eq_exp_minus_1 take_bit_eq_mod)

lemma base64_bits:
  assumes "(a::nat) < 256" and "b < 256"
  shows "push_bit 4 (a AND 3) OR drop_bit 4 b = (a mod 4) * 16 + b div 16" "push_bit 2 (a AND 15) OR drop_bit 6 b = (a mod 16) * 4 + b div 64"
proof -
  have "b div 16 < 16" "b div 64 < 4" using assms(2) by (auto simp: less_mult_imp_div_less)
  then show "push_bit 4 (a AND 3) OR drop_bit 4 b = (a mod 4) * 16 + b div 16" "push_bit 2 (a AND 15) OR drop_bit 6 b = (a mod 16) * 4 + b div 64"
    using or_disjoint_nat [of "b div 16" 4 "a mod 4"] or_disjoint_nat [of "b div 64" 2 "a mod 16"]
    by (simp_all add: and_masks drop_bit_eq_div push_bit_eq_mult)
qed

lemma base64_groups:
  assumes "(a::nat) < 256" and "b < 256" and "c < 256"
  shows "a div 4 < 64" "(a mod 4) * 16 + b div 16 < 64" "(b mod 16) * 4 + c div 64 < 64" "c mod 64 < 64"
    "a div 4 * 4 + ((a mod 4) * 16 + b div 16) div 16 = a"
    "(((a mod 4) * 16 + b div 16) * 16 + ((b mod 16) * 4 + c div 64) div 4) mod 256 = b"
    "(((b mod 16) * 4 + c div 64) * 64 + c mod 64) mod 256 = c"
proof -
  have d: "b div 16 < 16" "c div 64 < 4" using assms by (auto simp: less_mult_imp_div_less)
  show "a div 4 < 64" "c mod 64 < 64" using assms by (auto simp: less_mult_imp_div_less)
  have "a mod 4 < 4" "b mod 16 < 16" by simp_all
  with d show "(a mod 4) * 16 + b div 16 < 64" "(b mod 16) * 4 + c div 64 < 64" by linarith+
  show "a div 4 * 4 + ((a mod 4) * 16 + b div 16) div 16 = a" using d by simp
  have "((b mod 16) * 4 + c div 64) div 4 = b mod 16" using d by simp
  then have "((a mod 4) * 16 + b div 16) * 16 + ((b mod 16) * 4 + c div 64) div 4 = (a mod 4) * 256 + b" by (simp add: algebra_simps)
  then show "(((a mod 4) * 16 + b div 16) * 16 + ((b mod 16) * 4 + c div 64) div 4) mod 256 = b" using assms(2) by simp
  have "((b mod 16) * 4 + c div 64) * 64 + c mod 64 = (b mod 16) * 256 + c" by (simp add: algebra_simps)
  then show "(((b mod 16) * 4 + c div 64) * 64 + c mod 64) mod 256 = c" using assms(3) by simp
qed

lemma char_of_mod: "n mod 256 = byte c \<Longrightarrow> char_of n = c"
  by (metis byte_char_of byte_inject)

lemma base64_roundtrip: "base64_decode (base64 s) = Some s"
proof (induction s rule: base64.induct)
  case (2 x)
  note g = base64_groups [of "byte x" 0 0]
  show ?case using g base64_bits(1) [of "byte x" 0] by (simp add: Let_def base64_value_char drop_bit_eq_div)
next
  case (3 x y)
  note g = base64_groups [of "byte x" "byte y" 0]
  show ?case using g(1-6) base64_bits(1) [of "byte x" "byte y"] base64_bits(2) [of "byte y" 0]
    by (simp add: Let_def base64_value_char drop_bit_eq_div char_of_mod)
next
  case (4 x y z s)
  note g = base64_groups [of "byte x" "byte y" "byte z"]
  show ?case using g base64_bits(1) [of "byte x" "byte y"] base64_bits(2) [of "byte y" "byte z"] 4
    by (simp add: Let_def base64_value_char drop_bit_eq_div and_masks(1) char_of_mod)
qed simp

section \<open>What a server reads\<close>

lemma base64_chars: "set (base64 s) \<subseteq> insert (CHR ''='') (base64_char ` {..<64})"
proof (induction s rule: base64.induct)
  case (2 x)
  have "byte x div 4 < 64" "byte x mod 4 * 16 < 64" using base64_groups [of "byte x" 0 0] by simp_all
  with base64_bits(1) [of "byte x" 0] show ?case by (simp add: Let_def drop_bit_eq_div)
next
  case (3 x y)
  have "byte y mod 16 * 4 < 64" using base64_groups(3) [of 0 "byte y" 0] by simp
  with base64_groups(1,2) [of "byte x" "byte y" 0] base64_bits(1) [of "byte x" "byte y"] base64_bits(2) [of "byte y" 0]
  show ?case by (simp add: Let_def drop_bit_eq_div)
next
  case (4 x y z s)
  with base64_groups(1-4) [of "byte x" "byte y" "byte z"] base64_bits(1) [of "byte x" "byte y"] base64_bits(2) [of "byte y" "byte z"]
  show ?case by (simp add: Let_def drop_bit_eq_div and_masks(1))
qed simp

lemma base64_not_space: "c \<in> set (base64 s) \<Longrightarrow> \<not> isspace c"
proof -
  have "list_all (\<lambda>n. \<not> isspace (base64_char n)) [0..<64]" by code_simp
  then have "n < 64 \<Longrightarrow> \<not> isspace (base64_char n)" for n by (simp add: list_all_iff)
  moreover have "\<not> isspace (CHR ''='')" by (simp add: isspace_def char_class)
  moreover assume "c \<in> set (base64 s)"
  ultimately show "\<not> isspace c" using base64_chars [of s] by auto
qed

lemma base64_nonempty: "s \<noteq> [] \<Longrightarrow> base64 s \<noteq> []"
  by (cases s rule: base64.cases) (simp_all add: Let_def)

lemma trim_id: "s = [] \<or> \<not> isspace (hd s) \<and> \<not> isspace (last s) \<Longrightarrow> trim s = s"
proof -
  assume h: "s = [] \<or> \<not> isspace (hd s) \<and> \<not> isspace (last s)"
  then have "dropWhile isspace s = s" "dropWhile isspace (rev s) = rev s" by (auto simp: dropWhile_eq_self_iff hd_rev)
  then show "trim s = s" by (simp add: trim_def)
qed

definition host_header :: "url \<Rightarrow> string" where
  "host_header u = host u @ (if port u \<noteq> [] then CHR '':'' # port u else [])"

text \<open>The headers of a request, in the order of the wire; the credentials are those of a forwarding proxy.\<close>

definition request_headers :: "url \<Rightarrow> proxy_config \<Rightarrow> http_request \<Rightarrow> (string \<times> string) list" where
  "request_headers u selected req =
     [(''Host'', host_header u)] @ sent_headers req @
     (if list_ex (\<lambda>h. to_lower (fst h) = ''user-agent'') (sent_headers req) then [] else [(''User-Agent'', ''ProwseTk/0.1'')]) @
     (if forward_proxy u selected \<and> proxy_username selected \<noteq> []
      then [(''Proxy-Authorization'', ''Basic '' @ base64 (proxy_username selected @ '':'' @ proxy_password selected))] else []) @
     [(''Connection'', ''close'')] @
     (if req_body req \<noteq> [] then [(''Content-Length'', decimal (length (req_body req)))] else [])"

lemma payload_headers:
  "request_payload u selected req = req_method req @ '' '' @ request_target u selected @ '' HTTP/1.1'' @
     concat (map (\<lambda>h. crlf @ header_wire h) (request_headers u selected req)) @ crlf @ crlf @ req_body req"
  by (auto simp: request_payload_def request_headers_def header_wire_def host_header_def proxy_authorization_def case_prod_unfold)

text \<open>
  The headers that the client adds itself are well-formed lines.
\<close>

lemma request_headers_ok:
  assumes "header_wire_ok (''Host'', host_header u)" and "list_all header_wire_ok (sent_headers req)"
  shows "list_all header_wire_ok (request_headers u selected req)"
proof -
  have cr: "\<not> isspace c \<Longrightarrow> c \<noteq> CHR 0x0D" for c by (auto simp: isspace_def char_class)
  have "header_wire_ok (''Proxy-Authorization'', ''Basic '' @ base64 (user @ '':'' @ pass))" for user pass
  proof -
    have "base64 (user @ '':'' @ pass) \<noteq> []" by (intro base64_nonempty) simp
    then have "\<not> isspace (last (base64 (user @ '':'' @ pass)))" by (intro base64_not_space [of _ "user @ '':'' @ pass"]) simp
    with \<open>base64 (user @ '':'' @ pass) \<noteq> []\<close> have "trim (''Basic '' @ base64 (user @ '':'' @ pass)) = ''Basic '' @ base64 (user @ '':'' @ pass)"
      by (intro trim_id) (simp add: isspace_def char_class)
    moreover have "CHR 0x0D \<notin> set (base64 (user @ '':'' @ pass))" using base64_not_space cr by blast
    ultimately show ?thesis by (simp add: header_wire_ok_def trim_id isspace_def char_class)
  qed
  moreover have "header_wire_ok (''Content-Length'', decimal n)" for n
  proof -
    have "\<not> isspace c" if "c \<in> set (decimal n)" for c using decimal_digits [OF that] by (auto simp: isspace_def char_class)
    then have "trim (decimal n) = decimal n" "CHR 0x0D \<notin> set (decimal n)" using cr by (auto intro: trim_id)
    then show ?thesis by (simp add: header_wire_ok_def trim_id isspace_def char_class)
  qed
  moreover have "header_wire_ok (''User-Agent'', ''ProwseTk/0.1'')" "header_wire_ok (''Connection'', ''close'')"
    by (simp_all add: header_wire_ok_def trim_id isspace_def char_class)
  ultimately show ?thesis using assms unfolding request_headers_def by simp
qed



end
