(* ===== verification/Web_Socket.thy ===== *)
theory Web_Socket
  imports Rpc_Json Utf8
begin

text \<open>
  The WebSocket of \<^verbatim>\<open>network_client.cpp\<close>: masked frames to the server, and messages assembled from the frames of
  the server.  The bytes that arrive are an input, with the error that a read raises once they are used up.
  Each frame sent needs random bytes and a write; what comes of it is an input too, one outcome per frame.
\<close>

unbundle bit_operations_syntax

datatype frame_outcome =
    Sent string
  | No_Randomness
  | Not_Sent error

record web_socket =
  ws_input :: string
  ws_failure :: error
  ws_outcomes :: "frame_outcome list"
  ws_output :: "string list"
  ws_limit :: nat

definition ws_fail :: error where
  "ws_fail = Error ParseError ''invalid WebSocket frame''"

definition ws_read :: "nat \<Rightarrow> web_socket \<Rightarrow> string result \<times> web_socket" where
  "ws_read n ws =
     (if n \<le> length (ws_input ws) then (Inr (take n (ws_input ws)), ws\<lparr>ws_input := drop n (ws_input ws)\<rparr>)
      else (Inl (ws_failure ws), ws\<lparr>ws_input := []\<rparr>))"

text \<open>The \<open>count\<close> bytes of a length, the most significant first.\<close>

definition length_bytes :: "nat \<Rightarrow> nat \<Rightarrow> string" where
  "length_bytes count n = map (\<lambda>i. char_of (drop_bit ((i - 1) * 8) n AND 255)) (rev [1..<count + 1])"

definition masked :: "string \<Rightarrow> string \<Rightarrow> string" where
  "masked key s = map (\<lambda>i. char_of (byte (s ! i) XOR byte (key ! (i mod 4)))) [0..<length s]"

definition frame_wire :: "string \<Rightarrow> nat \<Rightarrow> string \<Rightarrow> string" where
  "frame_wire key opcode s =
     [char_of (128 OR opcode)] @
     (if length s < 126 then [char_of (128 OR length s)]
      else let count = (if length s \<le> 65535 then 2 else 8 :: nat)
           in char_of ((128 :: nat) OR (if count = 2 then 126 else 127)) # length_bytes count (length s)) @
     key @ masked key s"

definition ws_frame :: "nat \<Rightarrow> string \<Rightarrow> web_socket \<Rightarrow> unit result \<times> web_socket" where
  "ws_frame opcode s ws =
     (case ws_outcomes ws of
        [] \<Rightarrow> (Inl (Error NetworkError ''WebSocket write failed''), ws)
      | No_Randomness # os \<Rightarrow> (Inl (Error Internal ''WebSocket randomness failed''), ws\<lparr>ws_outcomes := os\<rparr>)
      | Not_Sent e # os \<Rightarrow> (Inl e, ws\<lparr>ws_outcomes := os\<rparr>)
      | Sent key # os \<Rightarrow>
          (Inr (), ws\<lparr>ws_outcomes := os, ws_output := ws_output ws @ [frame_wire key opcode s]\<rparr>))"

definition ws_send :: "string \<Rightarrow> web_socket \<Rightarrow> unit result \<times> web_socket" where
  "ws_send s ws =
     (if ws_limit ws < length s then (Inl (Error ResourceLimit ''WebSocket message limit''), ws)
      else case validate_utf8 s of
          Inl _ \<Rightarrow> (Inl (Error ParseError ''invalid WebSocket UTF-8''), ws)
        | Inr _ \<Rightarrow> ws_frame 1 s ws)"

section \<open>Receiving\<close>

definition fold_length :: "string \<Rightarrow> nat" where
  "fold_length s = fold (\<lambda>c n. (push_bit 8 n OR byte c) mod 2 ^ 64) s 0"

text \<open>The header of a frame: its opcode, whether it is final, and the size of its payload.\<close>

definition read_size :: "nat \<Rightarrow> web_socket \<Rightarrow> nat result \<times> web_socket" where
  "read_size second ws =
     (let sz = second AND 127 in
      if sz = 126 \<or> sz = 127 then
        (case ws_read (if sz = 126 then 2 else 8) ws of
           (Inl e, ws1) \<Rightarrow> (Inl e, ws1)
         | (Inr extended, ws1) \<Rightarrow>
             let n = fold_length extended in
             if length extended = 2 \<and> n < 126 \<or> length extended = 8 \<and> (n < 65536 \<or> drop_bit 63 n \<noteq> 0)
             then (Inl ws_fail, ws1) else (Inr n, ws1))
      else (Inr sz, ws))"

definition read_header :: "web_socket \<Rightarrow> (nat \<times> bool \<times> nat) result \<times> web_socket" where
  "read_header ws =
     (case ws_read 2 ws of
        (Inl e, ws1) \<Rightarrow> (Inl e, ws1)
      | (Inr head, ws1) \<Rightarrow>
          let first = byte (head ! 0); second = byte (head ! 1) in
          if first AND 112 \<noteq> 0 \<or> second AND 128 \<noteq> 0 then (Inl ws_fail, ws1)
          else (case read_size second ws1 of
              (Inl e, ws2) \<Rightarrow> (Inl e, ws2)
            | (Inr n, ws2) \<Rightarrow> (Inr (first AND 15, first AND 128 \<noteq> 0, n), ws2)))"

text \<open>The loop: \<open>k\<close> frames may still be read.\<close>

fun receive_loop :: "nat \<Rightarrow> bool \<Rightarrow> string \<Rightarrow> web_socket \<Rightarrow> string result \<times> web_socket" where
  "receive_loop 0 started msg ws = (Inl (Error ResourceLimit ''WebSocket frame limit''), ws)"
| "receive_loop (Suc k) started msg ws =
     (case read_header ws of
        (Inl e, ws1) \<Rightarrow> (Inl e, ws1)
      | (Inr (opcode, final, sz), ws1) \<Rightarrow>
          if 8 \<le> opcode \<and> (\<not> final \<or> 125 < sz) then (Inl ws_fail, ws1)
          else if ws_limit ws1 < sz \<or> opcode < 8 \<and> ws_limit ws1 - length msg < sz
          then (Inl (Error ResourceLimit ''WebSocket message limit''), ws1)
          else (case ws_read sz ws1 of
              (Inl e, ws2) \<Rightarrow> (Inl e, ws2)
            | (Inr payload, ws2) \<Rightarrow>
                if opcode = 8 then (Inl (Error NetworkError ''WebSocket peer closed''), ws2)
                else if opcode = 9 then
                  (case ws_frame 10 payload ws2 of
                     (Inl e, ws3) \<Rightarrow> (Inl e, ws3)
                   | (Inr _, ws3) \<Rightarrow> receive_loop k started msg ws3)
                else if opcode = 10 then receive_loop k started msg ws2
                else if opcode \<noteq> 0 \<and> opcode \<noteq> 1 \<or> opcode = 0 \<and> \<not> started \<or> opcode = 1 \<and> started then (Inl ws_fail, ws2)
                else if final then
                  (case validate_utf8 (msg @ payload) of
                     Inl _ \<Rightarrow> (Inl ws_fail, ws2)
                   | Inr _ \<Rightarrow> (Inr (msg @ payload), ws2))
                else receive_loop k True (msg @ payload) ws2))"

definition ws_receive :: "web_socket \<Rightarrow> string result \<times> web_socket" where
  "ws_receive ws = receive_loop 4096 False [] ws"

section \<open>A message is within its bounds\<close>

lemma ws_read_Inr: "ws_read n ws = (Inr s, ws') \<Longrightarrow> length s = n \<and> ws_limit ws' = ws_limit ws \<and> ws_input ws = s @ ws_input ws'"
  by (auto simp: ws_read_def split: if_splits)

lemma ws_frame_limit: "ws_frame opcode s ws = (r, ws') \<Longrightarrow> ws_limit ws' = ws_limit ws \<and> ws_input ws' = ws_input ws"
  by (auto simp: ws_frame_def split: list.splits frame_outcome.splits)

lemma read_size_limit: "read_size second ws = (r, ws') \<Longrightarrow> ws_limit ws' = ws_limit ws"
  by (auto simp: read_size_def ws_read_def Let_def split: if_splits)

lemma read_header_limit: "read_header ws = (r, ws') \<Longrightarrow> ws_limit ws' = ws_limit ws"
  by (auto simp: read_header_def ws_read_def Let_def split: if_splits prod.splits sum.splits dest!: read_size_limit)

lemma receive_loop_bounded:
  assumes "receive_loop k started msg ws = (Inr s, ws')" and "length msg \<le> ws_limit ws"
  shows "length s \<le> ws_limit ws \<and> validate_utf8 s = Inr ()"
  using assms
proof (induction k arbitrary: started msg ws)
  case (Suc k)
  obtain opcode final sz ws1 where h: "read_header ws = (Inr (opcode, final, sz), ws1)"
    using Suc.prems(1) by (auto split: prod.splits sum.splits)
  have l1: "ws_limit ws1 = ws_limit ws" by (rule read_header_limit [OF h])
  have big: "\<not> (ws_limit ws1 < sz \<or> opcode < 8 \<and> ws_limit ws1 - length msg < sz)"
    using Suc.prems(1) h by (auto split: if_splits)
  obtain payload ws2 where p: "ws_read sz ws1 = (Inr payload, ws2)"
    using Suc.prems(1) h big by (auto split: if_splits prod.splits sum.splits)
  have l2: "length payload = sz" "ws_limit ws2 = ws_limit ws" using ws_read_Inr [OF p] l1 by auto
  show ?case
  proof (cases "opcode = 9 \<or> opcode = 10")
    case True
    then have "\<exists>ws3. receive_loop k started msg ws3 = (Inr s, ws') \<and> ws_limit ws3 = ws_limit ws"
      using Suc.prems(1) h p big l2(2) by (auto split: if_splits prod.splits sum.splits dest!: ws_frame_limit)
    then show ?thesis using Suc.IH Suc.prems(2) by metis
  next
    case False
    have "opcode < 8" using Suc.prems(1) h p big False by (auto split: if_splits)
    then have "length (msg @ payload) \<le> ws_limit ws2" using big Suc.prems(2) l1 l2 by auto
    with Suc.prems h p big False Suc.IH [of True "msg @ payload" ws2] l2(2) show ?thesis
      by (auto split: if_splits sum.splits)
  qed
qed simp

section \<open>Lengths and masks\<close>

lemma and_255: "(n::nat) AND 255 = n mod 256"
  using take_bit_eq_mask [of 8 n] by (simp add: mask_eq_exp_minus_1 take_bit_eq_mod)

lemma length_bytes_Suc: "length_bytes (Suc c) n = length_bytes c (n div 256) @ [char_of (n mod 256)]"
proof -
  have "[1..<Suc c + 1] = 1 # map Suc [1..<c + 1]" by (simp add: map_Suc_upt upt_conv_Cons del: upt_Suc)
  then have "rev [1..<Suc c + 1] = map Suc (rev [1..<c + 1]) @ [1]" by (simp only: rev.simps rev_map)
  moreover have "drop_bit (i * 8) n = drop_bit ((i - 1) * 8) (n div 256)" if pos: "0 < i" for i
  proof -
    obtain j where "i = Suc j" using pos by (cases i) simp_all
    then show ?thesis by (simp add: drop_bit_eq_div power_add div_mult2_eq)
  qed
  ultimately show ?thesis unfolding length_bytes_def by (simp only: map_append map_map) (auto simp: and_255 simp del: upt_Suc)
qed

lemma length_bytes_0: "length_bytes 0 n = []"
  by (simp add: length_bytes_def)

lemma length_length_bytes [simp]: "length (length_bytes c n) = c"
  by (simp add: length_bytes_def)

lemma fold_length_bytes:
  assumes "c \<le> 8"
  shows "fold_length (length_bytes c n) = n mod 256 ^ c"
  using assms
proof (induction c arbitrary: n)
  case (Suc c)
  let ?m = "n div 256 mod 256 ^ c"
  have "n mod 256 ^ Suc c = 256 * ?m + n mod 256" by (simp add: mod_mult2_eq)
  moreover have "n mod 256 ^ Suc c < 256 ^ Suc c" by simp
  moreover have "(256::nat) ^ Suc c \<le> 256 ^ 8" using Suc.prems by (intro power_increasing) simp_all
  moreover have "push_bit 8 ?m OR (n mod 256) = ?m * 256 + n mod 256"
    using or_disjoint_nat [of "n mod 256" 8 ?m] by (simp add: push_bit_eq_mult)
  ultimately have "(push_bit 8 ?m OR (n mod 256)) mod 2 ^ 64 = n mod 256 ^ Suc c" by (simp add: mult.commute)
  with Suc.IH [of "n div 256"] Suc.prems show ?case by (simp add: length_bytes_Suc fold_length_def)
qed (simp add: length_bytes_0 fold_length_def)

lemma byte_xor: "(byte a XOR byte b) mod 256 = byte a XOR byte b"
proof -
  have "take_bit 8 (byte a XOR byte b) = byte a XOR byte b"
    using byte_less [of a] byte_less [of b] by (simp add: take_bit_xor take_bit_nat_eq_self)
  then show ?thesis by (simp add: take_bit_eq_mod)
qed

lemma length_masked [simp]: "length (masked key s) = length s"
  by (simp add: masked_def)

lemma masked_twice: "masked key (masked key s) = s"
proof (rule nth_equalityI)
  fix i assume "i < length (masked key (masked key s))"
  then have i: "i < length s" by simp
  have "(x XOR k) XOR k = x" for x k :: nat by (rule bit_eqI) (auto simp: bit_xor_iff)
  with i show "masked key (masked key s) ! i = s ! i" by (simp add: masked_def byte_xor)
qed simp

text \<open>How a server reads one frame of the client: the opcode, the unmasked payload, and what follows.\<close>

definition unframe :: "string \<Rightarrow> (nat \<times> string \<times> string) option" where
  "unframe w =
     (case w of
        a # b # r \<Rightarrow>
          let n0 = byte b - 128;
              wide = (if n0 < 126 then 0 else if n0 = 126 then 2 else 8);
              n = (if n0 < 126 then n0 else fold_length (take wide r));
              r1 = drop wide r
          in Some (byte a - 128, masked (take 4 r1) (take n (drop 4 r1)), drop (4 + n) r1)
      | _ \<Rightarrow> None)"

lemma or_128: "n < 128 \<Longrightarrow> 128 OR n = 128 + (n::nat)"
  using or_disjoint_nat [of n 7 1] by simp

lemma unframe_frame:
  assumes "length key = 4" and "opcode < 16" and "length s < 2 ^ 63"
  shows "unframe (frame_wire key opcode s @ rest) = Some (opcode, s, rest)"
proof -
  have op: "byte (char_of (128 OR opcode)) - 128 = opcode" using assms(2) by (simp add: or_128)
  consider "length s < 126" | "126 \<le> length s" "length s \<le> 65535" | "65535 < length s" by linarith
  then show ?thesis
  proof cases
    case 1
    then show ?thesis using assms op by (simp add: unframe_def frame_wire_def or_128 masked_twice Let_def)
  next
    case 2
    then show ?thesis using assms op fold_length_bytes [of 2 "length s"]
      by (simp add: unframe_def frame_wire_def or_128 masked_twice Let_def)
  next
    case 3
    then show ?thesis using assms op fold_length_bytes [of 8 "length s"]
      by (simp add: unframe_def frame_wire_def or_128 masked_twice Let_def)
  qed
qed

section \<open>The frames of a server\<close>

datatype server_frame = Ping string | Pong string | Part bool string

definition server_length :: "nat \<Rightarrow> string" where
  "server_length n =
     (if n < 126 then [char_of n] else if n < 65536 then char_of (126::nat) # length_bytes 2 n else char_of (127::nat) # length_bytes 8 n)"

definition server_frame_wire :: "bool \<Rightarrow> nat \<Rightarrow> string \<Rightarrow> string" where
  "server_frame_wire final opcode s = char_of ((if final then 128 else 0) + opcode) # server_length (length s) @ s"

text \<open>The first part of a message has the opcode 1, the further ones the opcode 0.\<close>

fun server_wire :: "bool \<Rightarrow> server_frame list \<Rightarrow> string" where
  "server_wire started [] = []"
| "server_wire started (Ping s # fs) = server_frame_wire True 9 s @ server_wire started fs"
| "server_wire started (Pong s # fs) = server_frame_wire True 10 s @ server_wire started fs"
| "server_wire started (Part final s # fs) = server_frame_wire final (if started then 0 else 1) s @ server_wire True fs"

fun one_message :: "server_frame list \<Rightarrow> bool" where
  "one_message [] = False"
| "one_message (Part final s # fs) = (if final then fs = [] else one_message fs)"
| "one_message (_ # fs) = one_message fs"

definition message_of :: "server_frame list \<Rightarrow> string" where
  "message_of fs = concat (map (\<lambda>f. case f of Part _ s \<Rightarrow> s | _ \<Rightarrow> []) fs)"

definition pings_of :: "server_frame list \<Rightarrow> string list" where
  "pings_of fs = concat (map (\<lambda>f. case f of Ping s \<Rightarrow> [s] | _ \<Rightarrow> []) fs)"

definition control_ok :: "nat \<Rightarrow> server_frame \<Rightarrow> bool" where
  "control_ok limit f = (case f of Ping s \<Rightarrow> length s \<le> min 125 limit | Pong s \<Rightarrow> length s \<le> min 125 limit | _ \<Rightarrow> True)"

lemma and_low_bits: "(n::nat) AND 127 = n mod 128" "n AND 15 = n mod 16"
  using take_bit_eq_mask [of 7 n] take_bit_eq_mask [of 4 n] by (simp_all add: mask_eq_exp_minus_1 take_bit_eq_mod)

lemma no_high_bit: "(n::nat) < 128 \<Longrightarrow> n AND 128 = 0"
  using and_exp_eq_0_iff_not_bit [of n 7] by (auto simp: bit_iff_odd)

lemma first_byte:
  assumes "opcode < 16"
  shows "((if final then 128 else 0) + opcode) AND 112 = (0::nat)" "((if final then 128 else 0) + opcode) AND 128 \<noteq> (0::nat) \<longleftrightarrow> final"
    "((if final then 128 else 0) + opcode) AND 15 = (opcode::nat)"
proof -
  have "list_all (\<lambda>n. n AND 112 = 0 \<and> n AND 128 = 0 \<and> n AND 15 = n \<and> (128 + n) AND 112 = 0 \<and> (128 + n) AND 128 \<noteq> (0::nat) \<and>
    (128 + n) AND 15 = n) [0, 1, 2, 3, 4, 5, 6, 7, 8, 9, 10, 11, 12, 13, 14, 15]" by simp
  moreover have "[0, 1, 2, 3, 4, 5, 6, 7, 8, 9, 10, 11, 12, 13, 14, 15] = [0..<16]" by code_simp
  ultimately have "list_all (\<lambda>n. n AND 112 = 0 \<and> n AND 128 = 0 \<and> n AND 15 = n \<and> (128 + n) AND 112 = 0 \<and> (128 + n) AND 128 \<noteq> (0::nat) \<and>
    (128 + n) AND 15 = n) [0..<16]" by (simp only:)
  then show "((if final then 128 else 0) + opcode) AND 112 = (0::nat)" "((if final then 128 else 0) + opcode) AND 128 \<noteq> (0::nat) \<longleftrightarrow> final"
    "((if final then 128 else 0) + opcode) AND 15 = (opcode::nat)" using assms by (auto simp: list_all_iff)
qed

text \<open>The header of a server's frame: the second byte and the length bytes behind it.\<close>

lemma read_size_server:
  assumes "n < 2 ^ 63"
  shows "\<exists>b r. server_length n = char_of b # r \<and> b < 128 \<and> (\<forall>ws rest. ws_input ws = r @ rest \<longrightarrow> read_size b ws = (Inr n, ws\<lparr>ws_input := rest\<rparr>))"
proof -
  consider "n < 126" | "126 \<le> n" "n < 65536" | "65536 \<le> n" by linarith
  then show ?thesis
  proof cases
    case 1
    then show ?thesis
      by (intro exI [of _ n] exI [of _ "[]"]) (auto simp: server_length_def read_size_def and_low_bits Let_def)
  next
    case 2
    have "read_size 126 ws = (Inr n, ws\<lparr>ws_input := rest\<rparr>)" if "ws_input ws = length_bytes 2 n @ rest" for ws rest
      using that 2 fold_length_bytes [of 2 n] by (simp add: read_size_def and_low_bits ws_read_def Let_def)
    with 2 show ?thesis by (intro exI [of _ 126] exI [of _ "length_bytes 2 n"]) (simp add: server_length_def)
  next
    case 3
    have "drop_bit 63 n = 0" using assms by (simp add: drop_bit_eq_div)
    then have "read_size 127 ws = (Inr n, ws\<lparr>ws_input := rest\<rparr>)" if "ws_input ws = length_bytes 8 n @ rest" for ws rest
      using that 3 assms fold_length_bytes [of 8 n] by (simp add: read_size_def and_low_bits ws_read_def Let_def)
    with 3 show ?thesis by (intro exI [of _ 127] exI [of _ "length_bytes 8 n"]) (simp add: server_length_def)
  qed
qed

lemma read_header_server:
  assumes "opcode < 16" and "length s < 2 ^ 63" and "ws_input ws = server_frame_wire final opcode s @ rest"
  shows "read_header ws = (Inr (opcode, final, length s), ws\<lparr>ws_input := s @ rest\<rparr>)"
proof -
  obtain b r where b: "server_length (length s) = char_of b # r" "b < 128"
    "\<And>ws rest. ws_input ws = r @ rest \<Longrightarrow> read_size b ws = (Inr (length s), ws\<lparr>ws_input := rest\<rparr>)"
    using read_size_server [OF assms(2)] by blast
  have "((if final then 128 else 0) + opcode) mod 256 = (if final then 128 else 0) + opcode" using assms(1) by simp
  with b first_byte [OF assms(1), of final] no_high_bit [OF b(2)] assms(3) show ?thesis
    by (simp add: read_header_def ws_read_def server_frame_wire_def Let_def del: One_nat_def)
qed

text \<open>One round of the loop on a ping, on a pong and on a part of the message.\<close>

lemma receive_ping:
  assumes "ws_input ws = server_frame_wire True 9 s @ rest" and "length s \<le> 125" and "length s \<le> ws_limit ws"
    and "ws_outcomes ws = Sent key # os"
  shows "receive_loop (Suc m) started msg ws = receive_loop m started msg
    (ws\<lparr>ws_input := rest, ws_outcomes := os, ws_output := ws_output ws @ [frame_wire key 10 s]\<rparr>)"
proof -
  have "read_header ws = (Inr (9, True, length s), ws\<lparr>ws_input := s @ rest\<rparr>)" using assms(1,2) by (intro read_header_server) auto
  with assms(2-4) show ?thesis by (simp add: ws_read_def ws_frame_def)
qed

lemma receive_pong:
  assumes "ws_input ws = server_frame_wire True 10 s @ rest" and "length s \<le> 125" and "length s \<le> ws_limit ws"
  shows "receive_loop (Suc m) started msg ws = receive_loop m started msg (ws\<lparr>ws_input := rest\<rparr>)"
proof -
  have "read_header ws = (Inr (10, True, length s), ws\<lparr>ws_input := s @ rest\<rparr>)" using assms(1,2) by (intro read_header_server) auto
  with assms(2,3) show ?thesis by (simp add: ws_read_def)
qed

lemma receive_part:
  assumes "ws_input ws = server_frame_wire final (if started then 0 else 1) s @ rest" and "length msg + length s \<le> ws_limit ws"
    and "ws_limit ws < 2 ^ 63"
  shows "receive_loop (Suc m) started msg ws =
    (if \<not> final then receive_loop m True (msg @ s) (ws\<lparr>ws_input := rest\<rparr>)
     else if validate_utf8 (msg @ s) = Inr () then (Inr (msg @ s), ws\<lparr>ws_input := rest\<rparr>) else (Inl ws_fail, ws\<lparr>ws_input := rest\<rparr>))"
proof -
  have "read_header ws = (Inr (if started then 0 else 1, final, length s), ws\<lparr>ws_input := s @ rest\<rparr>)"
    using assms by (intro read_header_server) auto
  moreover have "\<not> ws_limit ws - length msg < length s" "\<not> ws_limit ws < length s" using assms(2) by auto
  ultimately show ?thesis by (cases "validate_utf8 (msg @ s)") (simp_all add: ws_read_def)
qed

text \<open>What one receive does with the frames of a server, from any point of a message.\<close>

lemma receive_frames:
  assumes "one_message fs" and "list_all (control_ok (ws_limit ws)) fs" and "length fs \<le> k"
    and "length msg + length (message_of fs) \<le> ws_limit ws" and "ws_limit ws < 2 ^ 63"
    and "validate_utf8 (msg @ message_of fs) = Inr ()"
    and "ws_input ws = server_wire started fs @ rest" and "ws_outcomes ws = map Sent keys @ later" and "length keys = length (pings_of fs)"
  shows "receive_loop k started msg ws = (Inr (msg @ message_of fs), ws\<lparr>ws_input := rest, ws_outcomes := later,
    ws_output := ws_output ws @ map2 (\<lambda>key s. frame_wire key 10 s) keys (pings_of fs)\<rparr>)"
  using assms
proof (induction fs arbitrary: k started msg ws keys)
  case (Cons f fs)
  obtain m where k: "k = Suc m" "length fs \<le> m" using Cons.prems(3) by (cases k) auto
  show ?case
  proof (cases f)
    case (Ping s)
    obtain key keys' where keys: "keys = key # keys'" using Cons.prems(9) Ping by (cases keys) (auto simp: pings_of_def)
    let ?ws = "ws\<lparr>ws_input := server_wire started fs @ rest, ws_outcomes := map Sent keys' @ later, ws_output := ws_output ws @ [frame_wire key 10 s]\<rparr>"
    have "receive_loop k started msg ws = receive_loop m started msg ?ws"
      unfolding k(1) using Cons.prems(2,7,8) Ping keys by (intro receive_ping) (auto simp: control_ok_def)
    also have "\<dots> = (Inr (msg @ message_of fs), ?ws\<lparr>ws_input := rest, ws_outcomes := later,
      ws_output := ws_output ?ws @ map2 (\<lambda>key s. frame_wire key 10 s) keys' (pings_of fs)\<rparr>)"
      using Cons.prems Ping keys k(2) by (intro Cons.IH) (auto simp: message_of_def pings_of_def)
    finally show ?thesis using Ping keys by (simp add: message_of_def pings_of_def)
  next
    case (Pong s)
    have "receive_loop k started msg ws = receive_loop m started msg (ws\<lparr>ws_input := server_wire started fs @ rest\<rparr>)"
      unfolding k(1) using Cons.prems(2,7) Pong by (intro receive_pong) (auto simp: control_ok_def)
    also have "\<dots> = (Inr (msg @ message_of fs), ws\<lparr>ws_input := rest, ws_outcomes := later,
      ws_output := ws_output ws @ map2 (\<lambda>key s. frame_wire key 10 s) keys (pings_of fs)\<rparr>)"
      using Cons.prems Pong k(2) by (subst Cons.IH [of _ _ _ _ keys]) (auto simp: message_of_def pings_of_def)
    finally show ?thesis using Pong by (simp add: message_of_def pings_of_def)
  next
    case (Part final s)
    let ?ws = "ws\<lparr>ws_input := server_wire True fs @ rest\<rparr>"
    note step = receive_part [of ws final started s "server_wire True fs @ rest" msg m]
    show ?thesis
    proof (cases final)
      case True
      with Cons.prems(1,8,9) Part have "fs = []" "keys = []" "ws_outcomes ws = later" by (auto simp: pings_of_def)
      with True Part k(1) Cons.prems(4-7) step show ?thesis by (cases ws) (simp add: message_of_def pings_of_def)
    next
      case False
      then have "receive_loop k started msg ws = receive_loop m True (msg @ s) ?ws"
        using step k(1) Cons.prems(4,5,7) Part by (simp add: message_of_def)
      also have "\<dots> = (Inr ((msg @ s) @ message_of fs), ws\<lparr>ws_input := rest, ws_outcomes := later,
        ws_output := ws_output ws @ map2 (\<lambda>key s. frame_wire key 10 s) keys (pings_of fs)\<rparr>)"
        using Cons.prems Part False k(2) by (subst Cons.IH [of _ _ _ _ keys]) (auto simp: message_of_def pings_of_def)
      finally show ?thesis using Part by (simp add: message_of_def pings_of_def)
    qed
  qed
qed simp

text \<open>
  C39: WebSocket messages.  Let a server send the frames of one message, in any number of parts and with pings and pongs
  between them: at most 4096 frames, control payloads of at most 125 bytes, everything within the limit of the socket, and
  the whole message well-formed UTF-8.  Then \<open>receive\<close> returns the message, leaves the bytes after it unread, and
  answers every ping, in order, with one frame that a server decodes to a pong with the payload of the
  ping.  Whatever arrives, a message that is returned is within the limit and is well-formed UTF-8.
\<close>

theorem websocket_receive:
  assumes "one_message fs" and "length fs \<le> 4096" and "list_all (control_ok (ws_limit ws)) fs"
    and "length (message_of fs) \<le> ws_limit ws" and "ws_limit ws < 2 ^ 63" and "validate_utf8 (message_of fs) = Inr ()"
    and "ws_input ws = server_wire False fs @ rest" and "ws_outcomes ws = map Sent keys @ later"
    and "length keys = length (pings_of fs)" and "list_all (\<lambda>key. length key = 4) keys"
  shows "\<exists>ws' pongs. ws_receive ws = (Inr (message_of fs), ws') \<and> ws_input ws' = rest \<and> ws_output ws' = ws_output ws @ pongs \<and>
      map unframe pongs = map (\<lambda>s. Some (10, s, [])) (pings_of fs) \<and>
    (\<forall>any s after. ws_receive any = (Inr s, after) \<longrightarrow> length s \<le> ws_limit any \<and> validate_utf8 s = Inr ())"
proof -
  have "ws_receive ws = (Inr (message_of fs), ws\<lparr>ws_input := rest, ws_outcomes := later,
    ws_output := ws_output ws @ map2 (\<lambda>key s. frame_wire key 10 s) keys (pings_of fs)\<rparr>)"
    unfolding ws_receive_def using receive_frames [of fs ws 4096 "[]" False rest keys later] assms by simp
  moreover have "length s < 2 ^ 63" if "s \<in> set (pings_of fs)" for s
    using that assms(3) by (fastforce simp: pings_of_def list_all_iff control_ok_def split: server_frame.splits)
  then have "map unframe (map2 (\<lambda>key s. frame_wire key 10 s) keys (pings_of fs)) = map (\<lambda>s. Some (10, s, [])) (pings_of fs)"
    using assms(9,10) unframe_frame [of _ 10 _ "[]"]
    by (intro nth_equalityI) (simp_all add: list_all_length)
  moreover have "length s \<le> ws_limit any \<and> validate_utf8 s = Inr ()" if "ws_receive any = (Inr s, after)" for any s after
    using receive_loop_bounded [OF that [unfolded ws_receive_def]] by simp
  ultimately show ?thesis by auto
qed

theorem websocket_receive_witness:
  "\<exists>ws' pongs. ws_receive \<lparr>ws_input = server_wire False [Part False ''a'', Ping ''p'', Part True ''b''] @ ''x'', ws_failure = ws_fail,
       ws_outcomes = [Sent ''mask''], ws_output = [], ws_limit = 100\<rparr> = (Inr ''ab'', ws') \<and>
     ws_input ws' = ''x'' \<and> ws_output ws' = pongs \<and> map unframe pongs = [Some (10, ''p'', [])]"
proof -
  let ?fs = "[Part False ''a'', Ping ''p'', Part True ''b'']"
  let ?ws = "\<lparr>ws_input = server_wire False ?fs @ ''x'', ws_failure = ws_fail, ws_outcomes = [Sent ''mask''], ws_output = [], ws_limit = 100\<rparr>"
  have "validate_utf8 ''ab'' = Inr ()" by (simp add: validate_utf8.simps utf8_scalar_def byte_def)
  then show ?thesis
    using websocket_receive [of ?fs ?ws "''x''" "[''mask'']" "[]"] by (force simp: message_of_def pings_of_def control_ok_def)
qed

end
