(* ===== verification/Cdp.thy ===== *)
theory Cdp
  imports Web_Socket Rpc_Protocol
begin

text \<open>
  The client of the Chrome DevTools protocol in \<^verbatim>\<open>cdp.cpp\<close>: one command at a time over a transport of messages, with the
  notifications that arrive meanwhile kept in a bounded queue.  The transport is an argument, a state with the two
  operations \<open>send_msg\<close> and \<open>receive_msg\<close>; \<open>message_transport\<close> is what a transport promises, and the WebSocket keeps that promise.
\<close>

locale message_transport =
  fixes snd_message :: "string \<Rightarrow> 'm \<Rightarrow> unit result \<times> 'm"
    and rcv_message :: "'m \<Rightarrow> string result \<times> 'm"
  assumes received_well_formed: "rcv_message m = (Inr s, m') \<Longrightarrow> validate_utf8 s = Inr ()"

interpretation ws: message_transport ws_send ws_receive
  by unfold_locales (auto simp: ws_receive_def dest: receive_loop_bounded)

record 'm cdp_client =
  cdp_transport :: "'m option"
  cdp_next_id :: nat
  cdp_events :: "string list"
  cdp_event_bytes :: nat
  cdp_active :: bool

definition new_cdp_client :: "'m option \<Rightarrow> 'm cdp_client result" where
  "new_cdp_client t =
     (if t = None then Inl (Error InvalidArgument ''CDP requires transport'')
      else Inr \<lparr>cdp_transport = t, cdp_next_id = 0, cdp_events = [], cdp_event_bytes = 0, cdp_active = False\<rparr>)"

text \<open>The codec of \<^verbatim>\<open>protocol_json.hpp\<close>: failures of the JSON module become errors of the toolkit.\<close>

definition protocol_parse :: "string \<Rightarrow> json result" where
  "protocol_parse s = (case parse_json s of Inl _ \<Rightarrow> Inl (Error ParseError ''invalid protocol JSON'') | Inr v \<Rightarrow> Inr v)"

definition protocol_encode :: "json \<Rightarrow> string result" where
  "protocol_encode v = (case encode_json v of Inl _ \<Rightarrow> Inl (Error ResourceLimit ''protocol JSON limit'') | Inr s \<Rightarrow> Inr s)"

definition protocol_string :: "json \<Rightarrow> string \<Rightarrow> string result" where
  "protocol_string v key =
     (case find_member key v of
        Some (JString s) \<Rightarrow> Inr s
      | _ \<Rightarrow> Inl (Error ParseError ''missing protocol string''))"

definition protocol_text :: "string \<Rightarrow> json result" where
  "protocol_text s = (case string_value s of Inl _ \<Rightarrow> Inl (Error InvalidArgument ''invalid protocol string'') | Inr v \<Rightarrow> Inr v)"

definition is_object :: "json \<Rightarrow> bool" where
  "is_object v = (case v of JObject _ \<Rightarrow> True | _ \<Rightarrow> False)"

section \<open>A command\<close>

definition cdp_command_ok :: "string \<Rightarrow> string \<Rightarrow> string \<Rightarrow> bool" where
  "cdp_command_ok meth params session_id \<longleftrightarrow>
     meth \<noteq> [] \<and> length meth \<le> 256 \<and> find_char (CHR ''.'') meth \<noteq> None \<and>
     list_all (\<lambda>c. is_alnum c \<or> c = CHR ''.'' \<or> c = CHR ''_'') meth \<and>
     length params \<le> 1024 * 1024 \<and> length session_id \<le> 256"

text \<open>The request; the identifier is a double, printed by the JSON module (which does not fail on an integer).\<close>

definition cdp_request :: "nat \<Rightarrow> string \<Rightarrow> json \<Rightarrow> string \<Rightarrow> json result" where
  "cdp_request n meth arguments session_id =
     (case number_value (F64 False (of_nat n)) of
        Inl _ \<Rightarrow> Inl (Error Internal [])
      | Inr idv \<Rightarrow>
          rbind (protocol_text meth) (\<lambda>m.
            if session_id = [] then Inr (JObject [(''id'', idv), (''method'', m), (''params'', arguments)])
            else rbind (protocol_text session_id) (\<lambda>sid.
              Inr (JObject [(''id'', idv), (''method'', m), (''params'', arguments), (''sessionId'', sid)]))))"

definition session_matches :: "string \<Rightarrow> json \<Rightarrow> bool" where
  "session_matches session_id reply \<longleftrightarrow>
     (if session_id = [] then find_member ''sessionId'' reply = None
      else find_member ''sessionId'' reply = Some (JString session_id))"

definition cdp_reply :: "nat \<Rightarrow> string \<Rightarrow> json \<Rightarrow> json \<Rightarrow> string result" where
  "cdp_reply n session_id reply idv =
     (if \<not> ((case idv of JNumber x s \<Rightarrow> s = decimal n | _ \<Rightarrow> False) \<and> session_matches session_id reply)
      then Inl (Error ParseError ''CDP response correlation failed'')
      else if find_member ''error'' reply \<noteq> None then Inl (Error Unsupported ''CDP command rejected by peer'')
      else case find_member ''result'' reply of
          Some (JObject ms) \<Rightarrow> protocol_encode (JObject ms)
        | _ \<Rightarrow> Inl (Error ParseError ''invalid CDP result''))"

text \<open>One message: \<open>None\<close> for a notification that is queued, else the outcome of the command.\<close>

definition cdp_message :: "nat \<Rightarrow> string \<Rightarrow> string \<Rightarrow> string list \<Rightarrow> nat \<Rightarrow> string result option" where
  "cdp_message n session_id wire events bytes =
     (if 1024 * 1024 < length wire then Some (Inl (Error ResourceLimit ''CDP message limit''))
      else case protocol_parse wire of
          Inl e \<Rightarrow> Some (Inl e)
        | Inr reply \<Rightarrow>
            if \<not> is_object reply then Some (Inl (Error ParseError ''invalid CDP envelope''))
            else case find_member ''id'' reply of
                Some idv \<Rightarrow> Some (cdp_reply n session_id reply idv)
              | None \<Rightarrow>
                  (case protocol_string reply ''method'' of
                     Inl e \<Rightarrow> Some (Inl e)
                   | Inr _ \<Rightarrow>
                       if 1024 \<le> length events \<or> 4 * 1024 * 1024 - bytes < length wire
                       then Some (Inl (Error ResourceLimit ''CDP event queue limit'')) else None))"

text \<open>The loop: \<open>k\<close> messages may still be received.  It gives the outcome, the transport and the queue.\<close>

fun cdp_loop :: "('m \<Rightarrow> string result \<times> 'm) \<Rightarrow> nat \<Rightarrow> string \<Rightarrow> nat \<Rightarrow> 'm \<Rightarrow> string list \<Rightarrow> nat \<Rightarrow>
    string result \<times> 'm \<times> string list \<times> nat" where
  "cdp_loop receive_msg n session_id 0 m events bytes = (Inl (Error ResourceLimit ''CDP response budget exceeded''), m, events, bytes)"
| "cdp_loop receive_msg n session_id (Suc k) m events bytes =
     (case receive_msg m of
        (Inl e, m1) \<Rightarrow> (Inl e, m1, events, bytes)
      | (Inr wire, m1) \<Rightarrow>
          (case cdp_message n session_id wire events bytes of
             Some r \<Rightarrow> (r, m1, events, bytes)
           | None \<Rightarrow> cdp_loop receive_msg n session_id k m1 (events @ [wire]) (bytes + length wire)))"

text \<open>The guarded part of \<open>call\<close>: sending and waiting for the reply.\<close>

definition cdp_exchange :: "(string \<Rightarrow> 'm \<Rightarrow> unit result \<times> 'm) \<Rightarrow> ('m \<Rightarrow> string result \<times> 'm) \<Rightarrow> json \<Rightarrow> string \<Rightarrow> 'm \<Rightarrow> 'm cdp_client \<Rightarrow>
    string result \<times> 'm cdp_client" where
  "cdp_exchange send_msg receive_msg request session_id m c =
     (let failed = (\<lambda>e c'. (Inl (Error (code e) ''CDP operation failed''), c'\<lparr>cdp_transport := None\<rparr>)) in
      case protocol_encode request of
        Inl e \<Rightarrow> failed e c
      | Inr s \<Rightarrow>
          (case send_msg s m of
             (Inl e, m1) \<Rightarrow> failed e c
           | (Inr _, m1) \<Rightarrow>
               (case cdp_loop receive_msg (cdp_next_id c) session_id 1024 m1 (cdp_events c) (cdp_event_bytes c) of
                  (r, m2, events, bytes) \<Rightarrow>
                    let c1 = c\<lparr>cdp_transport := Some m2, cdp_events := events, cdp_event_bytes := bytes\<rparr>
                    in (case r of Inl e \<Rightarrow> failed e c1 | Inr s \<Rightarrow> (Inr s, c1)))))"

definition cdp_call :: "(string \<Rightarrow> 'm \<Rightarrow> unit result \<times> 'm) \<Rightarrow> ('m \<Rightarrow> string result \<times> 'm) \<Rightarrow> string \<Rightarrow> string \<Rightarrow> string \<Rightarrow> 'm cdp_client \<Rightarrow>
    string result \<times> 'm cdp_client" where
  "cdp_call send_msg receive_msg meth params session_id c =
     (if cdp_active c then (Inl (Error InvalidArgument ''CDP command reentry rejected''), c)
      else case cdp_transport c of
          None \<Rightarrow> (Inl (Error InvalidArgument ''CDP connection closed''), c)
        | Some m \<Rightarrow>
            if \<not> cdp_command_ok meth params session_id then (Inl (Error InvalidArgument ''invalid CDP command''), c)
            else (case protocol_parse params of
                Inl e \<Rightarrow> (Inl e, c)
              | Inr arguments \<Rightarrow>
                  if \<not> is_object arguments then (Inl (Error InvalidArgument ''CDP params must be an object''), c)
                  else
                    (let c1 = c\<lparr>cdp_next_id := cdp_next_id c + 1\<rparr> in
                     if max_safe_integer < cdp_next_id c1 then (Inl (Error ResourceLimit ''CDP identifier limit''), c1)
                     else (case cdp_request (cdp_next_id c1) meth arguments session_id of
                         Inl e \<Rightarrow> (Inl e, c1)
                       | Inr request \<Rightarrow> cdp_exchange send_msg receive_msg request session_id m c1))))"

definition take_events :: "'m cdp_client \<Rightarrow> string list \<times> 'm cdp_client" where
  "take_events c = (cdp_events c, c\<lparr>cdp_events := [], cdp_event_bytes := 0\<rparr>)"

section \<open>The queue and the connection\<close>

definition queue_ok :: "string list \<Rightarrow> nat \<Rightarrow> bool" where
  "queue_ok events bytes \<longleftrightarrow> bytes = sum_list (map length events) \<and> bytes \<le> 4 * 1024 * 1024 \<and> length events \<le> 1024"

text \<open>A notification: a well-formed message, a JSON object with a method and without an identifier.\<close>

definition notification :: "string \<Rightarrow> bool" where
  "notification w \<longleftrightarrow> validate_utf8 w = Inr () \<and>
     (\<exists>v meth. parse_json w = Inr v \<and> is_object v \<and> find_member ''id'' v = None \<and> find_member ''method'' v = Some (JString meth))"

definition cdp_ok :: "'m cdp_client \<Rightarrow> bool" where
  "cdp_ok c \<longleftrightarrow> queue_ok (cdp_events c) (cdp_event_bytes c) \<and> list_all notification (cdp_events c) \<and> \<not> cdp_active c"

text \<open>The answer to the command with the identifier \<open>n\<close>.\<close>

definition answers :: "nat \<Rightarrow> string \<Rightarrow> string \<Rightarrow> string \<Rightarrow> bool" where
  "answers n session_id w s \<longleftrightarrow> (\<exists>v x ms. parse_json w = Inr v \<and> find_member ''id'' v = Some (JNumber x (decimal n)) \<and>
     session_matches session_id v \<and> find_member ''error'' v = None \<and> find_member ''result'' v = Some (JObject ms) \<and>
     encode_json (JObject ms) = Inr s)"

lemma protocol_parse_Inr: "protocol_parse s = Inr v \<longleftrightarrow> parse_json s = Inr v"
  by (auto simp: protocol_parse_def split: sum.splits)

lemma protocol_encode_Inr: "protocol_encode v = Inr s \<longleftrightarrow> encode_json v = Inr s"
  by (auto simp: protocol_encode_def split: sum.splits)

lemma protocol_string_Inr: "protocol_string v key = Inr s \<longleftrightarrow> find_member key v = Some (JString s)"
  by (auto simp: protocol_string_def split: option.splits json.splits)

lemma cdp_reply_answers:
  assumes "cdp_reply n session_id v idv = Inr s" and "parse_json w = Inr v" and "find_member ''id'' v = Some idv"
  shows "answers n session_id w s"
proof -
  obtain x where x: "idv = JNumber x (decimal n)" "session_matches session_id v"
    using assms(1) by (auto simp: cdp_reply_def split: if_splits json.splits)
  then obtain ms where "find_member ''error'' v = None" "find_member ''result'' v = Some (JObject ms)" "encode_json (JObject ms) = Inr s"
    using assms(1) by (auto simp: cdp_reply_def protocol_encode_Inr split: if_splits option.splits json.splits)
  with x assms(2,3) show ?thesis by (auto simp: answers_def)
qed

lemma cdp_message_reply:
  assumes "cdp_message n session_id w events bytes = Some (Inr s)"
  shows "answers n session_id w s"
  using assms cdp_reply_answers
  by (auto simp: cdp_message_def protocol_parse_Inr split: if_splits sum.splits option.splits)

lemma cdp_message_queued:
  assumes "cdp_message n session_id w events bytes = None" and "validate_utf8 w = Inr ()"
  shows "notification w \<and> length events < 1024 \<and> length w \<le> 4 * 1024 * 1024 - bytes"
  using assms
  by (auto simp: cdp_message_def notification_def protocol_parse_Inr protocol_string_Inr split: if_splits sum.splits option.splits)

text \<open>The messages of the errors that a caller sees.\<close>

definition cdp_errors :: "string list" where
  "cdp_errors = [''CDP command reentry rejected'', ''CDP connection closed'', ''invalid CDP command'', ''invalid protocol JSON'',
     ''CDP params must be an object'', ''CDP identifier limit'', ''invalid protocol string'', ''CDP operation failed'']"

lemma cdp_request_error:
  assumes "n \<le> max_safe_integer" and "cdp_request n meth arguments session_id = Inl e"
  shows "message e = ''invalid protocol string''"
proof -
  have "n \<le> 2 ^ 53" using assms(1) by (simp add: max_safe_integer_def)
  from to_chars_nat [OF this] obtain t where "to_chars (F64 False (of_nat n)) = Some t" by blast
  then have "number_value (F64 False (of_nat n)) = Inr (JNumber (F64 False (of_nat n)) t)" by (simp add: number_value_def)
  with assms(2) show ?thesis by (auto simp: cdp_request_def protocol_text_def rbind_def split: sum.splits if_splits)
qed

text \<open>The clients that arise from a fresh one by commands and by taking events.\<close>

inductive cdp_reachable :: "(string \<Rightarrow> 'm \<Rightarrow> unit result \<times> 'm) \<Rightarrow> ('m \<Rightarrow> string result \<times> 'm) \<Rightarrow> 'm cdp_client \<Rightarrow> bool"
  for send_msg receive_msg where
  fresh: "new_cdp_client t = Inr c \<Longrightarrow> cdp_reachable send_msg receive_msg c"
| called: "cdp_reachable send_msg receive_msg c \<Longrightarrow> cdp_call send_msg receive_msg meth params session_id c = (r, c') \<Longrightarrow>
    cdp_reachable send_msg receive_msg c'"
| taken: "cdp_reachable send_msg receive_msg c \<Longrightarrow> take_events c = (es, c') \<Longrightarrow> cdp_reachable send_msg receive_msg c'"

context message_transport
begin

lemma loop_result:
  assumes "cdp_loop rcv_message n session_id k m events bytes = (r, m', events', bytes')" and "queue_ok events bytes" and "list_all notification events"
  shows "queue_ok events' bytes' \<and> list_all notification events' \<and> prefix events events' \<and>
    (\<forall>s. r = Inr s \<longrightarrow> (\<exists>m1 m2 w. rcv_message m1 = (Inr w, m2) \<and> answers n session_id w s))"
  using assms
proof (induction k arbitrary: m events bytes)
  case (Suc k)
  obtain r1 m1 where r1: "rcv_message m = (r1, m1)" by fastforce
  show ?case
  proof (cases r1)
    case (Inl e)
    with Suc.prems r1 show ?thesis by auto
  next
    case (Inr w)
    show ?thesis
    proof (cases "cdp_message n session_id w events bytes")
      case None
      have w: "notification w \<and> length events < 1024 \<and> length w \<le> 4 * 1024 * 1024 - bytes"
        using cdp_message_queued [OF None] received_well_formed r1 Inr by simp
      then have "queue_ok (events @ [w]) (bytes + length w)" using Suc.prems(2) by (auto simp: queue_ok_def)
      moreover have "cdp_loop rcv_message n session_id k m1 (events @ [w]) (bytes + length w) = (r, m', events', bytes')"
        using Suc.prems(1) r1 Inr None by simp
      ultimately show ?thesis using Suc.IH [of m1 "events @ [w]"] Suc.prems(3) w by (auto dest: append_prefixD)
    next
      case (Some o1)
      with Suc.prems r1 Inr cdp_message_reply [of n session_id w events bytes] show ?thesis by auto
    qed
  qed
qed auto

lemma exchange_result:
  assumes "cdp_exchange snd_message rcv_message request session_id m c = (r, c')" and "cdp_ok c"
  shows "cdp_ok c' \<and> prefix (cdp_events c) (cdp_events c') \<and> cdp_next_id c' = cdp_next_id c \<and>
    (case r of Inl e \<Rightarrow> message e = ''CDP operation failed'' \<and> cdp_transport c' = None
     | Inr s \<Rightarrow> cdp_transport c' \<noteq> None \<and> (\<exists>m1 m2 w. rcv_message m1 = (Inr w, m2) \<and> answers (cdp_next_id c) session_id w s))"
proof -
  let ?loop = "\<lambda>m1. cdp_loop rcv_message (cdp_next_id c) session_id 1024 m1 (cdp_events c) (cdp_event_bytes c)"
  consider (early) e where "r = Inl (Error (code e) ''CDP operation failed'')" "c' = c\<lparr>cdp_transport := None\<rparr>"
    | (failed) m1 e m2 events bytes where "?loop m1 = (Inl e, m2, events, bytes)" "r = Inl (Error (code e) ''CDP operation failed'')"
        "c' = c\<lparr>cdp_events := events, cdp_event_bytes := bytes, cdp_transport := None\<rparr>"
    | (answered) m1 s m2 events bytes where "?loop m1 = (Inr s, m2, events, bytes)" "r = Inr s"
        "c' = c\<lparr>cdp_transport := Some m2, cdp_events := events, cdp_event_bytes := bytes\<rparr>"
    using assms(1) by (auto simp: cdp_exchange_def Let_def split: sum.splits prod.splits)
  then show ?thesis
  proof cases
    case early
    with assms(2) show ?thesis by (auto simp: cdp_ok_def)
  next
    case failed
    with loop_result [OF failed(1)] assms(2) show ?thesis by (auto simp: cdp_ok_def)
  next
    case answered
    with loop_result [OF answered(1)] assms(2) show ?thesis by (auto simp: cdp_ok_def)
  qed
qed

lemma call_result:
  assumes "cdp_call snd_message rcv_message meth params session_id c = (r, c')" and "cdp_ok c"
  shows "cdp_ok c' \<and> prefix (cdp_events c) (cdp_events c') \<and>
    (case r of Inl e \<Rightarrow> message e \<in> set cdp_errors \<and> (cdp_next_id c' = cdp_next_id c \<or> cdp_next_id c' = cdp_next_id c + 1) \<and>
         (cdp_transport c' = None \<or> cdp_transport c' = cdp_transport c \<and> cdp_events c' = cdp_events c)
     | Inr s \<Rightarrow> cdp_next_id c' = cdp_next_id c + 1 \<and> cdp_next_id c' \<le> max_safe_integer \<and> cdp_transport c' \<noteq> None \<and>
         (\<exists>m1 m2 w. rcv_message m1 = (Inr w, m2) \<and> answers (cdp_next_id c') session_id w s))"
proof -
  let ?c1 = "c\<lparr>cdp_next_id := cdp_next_id c + 1\<rparr>"
  consider (refused) e where "r = Inl e" "message e \<in> set cdp_errors" "c' = c \<or> c' = ?c1"
    | (sent) request m where "cdp_next_id ?c1 \<le> max_safe_integer" "cdp_exchange snd_message rcv_message request session_id m ?c1 = (r, c')"
  proof (cases "cdp_next_id ?c1 \<le> max_safe_integer")
    case True
    then show ?thesis using refused sent assms(1) cdp_request_error [of "cdp_next_id ?c1" meth _ session_id]
      by (auto simp: cdp_call_def cdp_errors_def Let_def protocol_parse_def split: if_splits option.splits sum.splits)
  next
    case False
    then show ?thesis using refused assms(1)
      by (auto simp: cdp_call_def cdp_errors_def Let_def protocol_parse_def split: if_splits option.splits sum.splits)
  qed
  then show ?thesis
  proof cases
    case refused
    with assms(2) show ?thesis by (auto simp: cdp_ok_def)
  next
    case sent
    have "cdp_ok ?c1" using assms(2) by (simp add: cdp_ok_def)
    from exchange_result [OF sent(2) this] sent(1) show ?thesis by (cases r) (auto simp: cdp_errors_def)
  qed
qed

lemma reachable_ok: "cdp_reachable snd_message rcv_message c \<Longrightarrow> cdp_ok c"
proof (induction rule: cdp_reachable.induct)
  case (fresh t c)
  then show ?case by (auto simp: new_cdp_client_def cdp_ok_def queue_ok_def split: if_splits)
next
  case (called c meth params session_id r c')
  then show ?case using call_result by blast
next
  case (taken c es c')
  then show ?case by (auto simp: take_events_def cdp_ok_def queue_ok_def)
qed

end



text \<open>
  The identifier in a request is printed as a double, in the shorter of the two notations: from the 100000th command
  on it may have an exponent.  The reply is compared with the decimal digits instead, so that a peer that
  echoes the identifier as it was sent is refused.
\<close>

lemma decimal_100000: "decimal 100000 = ''100000''"
proof -
  have "digit_char 0 = CHR ''0''" "digit_char 1 = CHR ''1''" by code_simp+
  then show ?thesis by (simp add: decimal.simps)
qed

lemma cdp_identifier_spelling:
  "number_value (F64 False 100000) = Inr (JNumber (F64 False 100000) ''1e+05'')"
proof -
  have r: "round64 100000 = Some 100000" "round64 200000 = Some 200000" using round64_nat [of 100000] round64_nat [of 200000] by simp_all
  note d = decimal_100000
  have e: "exponent10 100000 = 5" using exponent10_nat [of 100000] d by simp
  have "closest 100000 5 = Some 1" using r by (simp add: closest_def Let_def)
  then have "shortest 100000 5 [1..<18] = Some (1, 5)" by (subst upt_rec) (simp add: Let_def)
  moreover have "strip_zeros 1 5 = (1, 5)" by (simp add: strip_zeros.simps)
  moreover have "sci_form 1 5 = ''1e+05''" by code_simp
  moreover have "fixed_form 100000 1 5 = ''100000''" using d by (simp add: fixed_form_def Let_def)
  ultimately show ?thesis by (simp add: number_value_def to_chars_def print_magnitude_def e)
qed

lemma cdp_refuses_own_spelling:
  "cdp_reply 100000 [] reply (JNumber (F64 False 100000) ''1e+05'') = Inl (Error ParseError ''CDP response correlation failed'')"
  by (simp add: cdp_reply_def decimal_100000)

end
