(* ===== verification/Pdql.thy ===== *)
theory Pdql
  imports Rpc_Json_Correct "HOL-Library.List_Lexorder" "HOL-Library.Char_ord"
begin

text \<open>
  \<^verbatim>\<open>pdql.cpp\<close>, the text side of the query language for pages: globs, the splitting of projections, the compilation of
  a query, the numbers of its aggregates and the four formats of its results.  Shown: the glob matcher, a loop that goes back
  to the last star, returns for all arguments and agrees with the recursive meaning of a glob; and results in the JSON format are
  read back by the JSON parser of the RPC module.
\<close>

section \<open>Text\<close>

definition pdql_blank :: "char \<Rightarrow> bool" where
  "pdql_blank c \<longleftrightarrow> c = CHR '' '' \<or> c = CHR 0x09 \<or> c = CHR 0x0D \<or> c = CHR 0x0A"

definition pdql_trim :: "string \<Rightarrow> string" where
  "pdql_trim s = rev (dropWhile pdql_blank (rev (dropWhile pdql_blank s)))"

definition quote_char :: "char \<Rightarrow> string" where
  "quote_char c =
     (if c = CHR 0x5C \<or> c = CHR 0x22 then [CHR 0x5C, c]
      else if byte c < 32 then [CHR 0x5C, CHR ''u'', CHR ''0'', CHR ''0'', ''0123456789abcdef'' ! (drop_bit 4 (byte c)), ''0123456789abcdef'' ! (byte c AND 15)]
      else [c])"

definition pdql_quote :: "string \<Rightarrow> string" where
  "pdql_quote s = CHR 0x22 # concat (map quote_char s) @ [CHR 0x22]"

definition xml_char :: "char \<Rightarrow> string" where
  "xml_char c =
     (if c = CHR ''&'' then ''&amp;'' else if c = CHR ''<'' then ''&lt;'' else if c = CHR ''>'' then ''&gt;''
      else if c = CHR 0x22 then ''&quot;'' else [c])"

definition pdql_xml :: "string \<Rightarrow> string" where
  "pdql_xml s = concat (map xml_char s)"

section \<open>Globs\<close>

text \<open>The loop of \<open>glob\<close>: positions in the pattern and the value, the last star and the place where it began to match.\<close>

partial_function (option) glob_loop :: "string \<Rightarrow> string \<Rightarrow> nat \<Rightarrow> nat \<Rightarrow> nat option \<Rightarrow> nat \<Rightarrow> bool option" where
  "glob_loop p v a b star mark =
     (if b < length v then
        if a < length p \<and> (p ! a = CHR ''?'' \<or> p ! a = v ! b) then glob_loop p v (a + 1) (b + 1) star mark
        else if a < length p \<and> p ! a = CHR ''*'' then glob_loop p v (a + 1) b (Some a) b
        else (case star of
            Some s \<Rightarrow> glob_loop p v (s + 1) (mark + 1) star (mark + 1)
          | None \<Rightarrow> Some False)
      else Some (dropWhile (\<lambda>c. c = CHR ''*'') (drop a p) = []))"

definition glob :: "string \<Rightarrow> string \<Rightarrow> bool option" where
  "glob p v = glob_loop p v 0 0 None 0"

text \<open>The meaning of a glob.\<close>

fun glob_match :: "string \<Rightarrow> string \<Rightarrow> bool" where
  "glob_match [] v \<longleftrightarrow> v = []"
| "glob_match (c # p) [] \<longleftrightarrow> c = CHR ''*'' \<and> glob_match p []"
| "glob_match (c # p) (x # v) \<longleftrightarrow>
     (if c = CHR ''*'' then glob_match p (x # v) \<or> glob_match (c # p) v
      else (c = CHR ''?'' \<or> c = x) \<and> glob_match p v)"

lemma glob_star: "glob_match (CHR ''*'' # p) v \<longleftrightarrow> (\<exists>k\<le>length v. glob_match p (drop k v))"
proof (induction v)
  case (Cons x v)
  have "(\<exists>k\<le>length (x # v). glob_match p (drop k (x # v))) \<longleftrightarrow> glob_match p (x # v) \<or> (\<exists>k\<le>length v. glob_match p (drop k v))"
    by (metis Suc_le_mono drop0 drop_Suc_Cons length_Cons not0_implies_Suc zero_le)
  with Cons show ?case by simp
qed simp

lemma glob_nil: "glob_match p [] \<longleftrightarrow> dropWhile (\<lambda>c. c = CHR ''*'') p = []"
  by (induction p) auto

text \<open>A part of the pattern without stars consumes as many characters as it has.\<close>

lemma glob_plain: "CHR ''*'' \<notin> set q \<Longrightarrow> glob_match (q @ p) v \<Longrightarrow> length q \<le> length v \<and> glob_match p (drop (length q) v)"
proof (induction q arbitrary: v)
  case (Cons c q)
  then show ?case by (cases v) auto
qed simp

lemma glob_step:
  assumes "a < length p" and "b < length v" and "p ! a \<noteq> CHR ''*''"
  shows "glob_match (drop a p) (drop b v) \<longleftrightarrow> (p ! a = CHR ''?'' \<or> p ! a = v ! b) \<and> glob_match (drop (Suc a) p) (drop (Suc b) v)"
  using assms by (simp add: Cons_nth_drop_Suc [symmetric])

lemma glob_at_star:
  assumes "a < length p" and "p ! a = CHR ''*''"
  shows "glob_match (drop a p) (drop b v) \<longleftrightarrow> (\<exists>k. b \<le> k \<and> k \<le> max b (length v) \<and> glob_match (drop (Suc a) p) (drop k v))"
proof -
  have "glob_match (drop a p) (drop b v) \<longleftrightarrow> (\<exists>k\<le>length v - b. glob_match (drop (Suc a) p) (drop (b + k) v))"
    using assms glob_star [of "drop (Suc a) p" "drop b v"] by (simp add: Cons_nth_drop_Suc [symmetric] add.commute)
  also have "\<dots> \<longleftrightarrow> (\<exists>k. b \<le> k \<and> k \<le> max b (length v) \<and> glob_match (drop (Suc a) p) (drop k v))"
  proof
    assume "\<exists>k\<le>length v - b. glob_match (drop (Suc a) p) (drop (b + k) v)"
    then obtain k where "k \<le> length v - b" "glob_match (drop (Suc a) p) (drop (b + k) v)" by blast
    then show "\<exists>k. b \<le> k \<and> k \<le> max b (length v) \<and> glob_match (drop (Suc a) p) (drop k v)"
      by (intro exI [of _ "b + k"]) auto
  next
    assume "\<exists>k. b \<le> k \<and> k \<le> max b (length v) \<and> glob_match (drop (Suc a) p) (drop k v)"
    then obtain k where "b \<le> k" "k \<le> max b (length v)" "glob_match (drop (Suc a) p) (drop k v)" by blast
    then show "\<exists>k\<le>length v - b. glob_match (drop (Suc a) p) (drop (b + k) v)" by (intro exI [of _ "k - b"]) auto
  qed
  finally show ?thesis .
qed

text \<open>
  The invariant of the loop: behind the last star the pattern has been matched character by character, so that what may still match is
  the rest of the pattern here, or the part behind the star at a later place.
\<close>

definition glob_inv :: "string \<Rightarrow> string \<Rightarrow> nat \<Rightarrow> nat \<Rightarrow> nat option \<Rightarrow> nat \<Rightarrow> bool" where
  "glob_inv p v a b star mark \<longleftrightarrow> a \<le> length p \<and> b \<le> length v \<and>
     (case star of None \<Rightarrow> True
      | Some s \<Rightarrow> s < a \<and> mark \<le> b \<and> a - Suc s = b - mark \<and>
          (CHR ''*'' \<notin> set v \<longrightarrow> CHR ''*'' \<notin> set (take (a - Suc s) (drop (Suc s) p))))"

definition glob_answer :: "string \<Rightarrow> string \<Rightarrow> nat \<Rightarrow> nat \<Rightarrow> nat option \<Rightarrow> nat \<Rightarrow> bool" where
  "glob_answer p v a b star mark \<longleftrightarrow> glob_match (drop a p) (drop b v) \<or>
     (case star of None \<Rightarrow> False | Some s \<Rightarrow> \<exists>k. mark < k \<and> k \<le> length v \<and> glob_match (drop (Suc s) p) (drop k v))"

lemma glob_later:
  assumes "glob_inv p v a b (Some s) mark" and "CHR ''*'' \<notin> set v" and "glob_match (drop (Suc s) p) (drop k v)"
  shows "a - Suc s \<le> length v - k \<and> glob_match (drop a p) (drop (k + (a - Suc s)) v)"
proof -
  let ?q = "take (a - Suc s) (drop (Suc s) p)"
  have "s < a" using assms(1) by (simp add: glob_inv_def)
  then have "drop a p = drop (a - Suc s) (drop (Suc s) p)" by simp
  then have "drop (Suc s) p = ?q @ drop a p" by (simp only: append_take_drop_id)
  moreover have "CHR ''*'' \<notin> set ?q" "length ?q = a - Suc s" using assms(1,2) by (auto simp: glob_inv_def)
  ultimately show ?thesis using glob_plain [of ?q "drop a p" "drop k v"] assms(3) by (simp add: add.commute)
qed

lemma glob_end:
  assumes "glob_inv p v a (length v) star mark" and "CHR ''*'' \<notin> set v"
  shows "glob_answer p v a (length v) star mark \<longleftrightarrow> dropWhile (\<lambda>c. c = CHR ''*'') (drop a p) = []"
proof -
  have "\<not> glob_match (drop (Suc s) p) (drop k v)" if "star = Some s" "mark < k" "k \<le> length v" for s k
    using glob_later [of p v a "length v" s mark k] assms that by (auto simp: glob_inv_def)
  then show ?thesis by (auto simp: glob_answer_def glob_nil split: option.splits)
qed

lemma glob_inv_step:
  assumes "glob_inv p v a b star mark" and "b < length v" "a < length p" and "p ! a = CHR ''?'' \<or> p ! a = v ! b"
  shows "glob_inv p v (Suc a) (Suc b) star mark"
proof (cases star)
  case (Some s)
  then have "s < a" using assms(1) by (simp add: glob_inv_def)
  then have "take (Suc a - Suc s) (drop (Suc s) p) = take (a - Suc s) (drop (Suc s) p) @ [p ! a]"
    using assms(3) take_Suc_conv_app_nth [of "a - Suc s" "drop (Suc s) p"] by (simp add: Suc_diff_Suc)
  moreover have "CHR ''*'' \<notin> set v \<Longrightarrow> p ! a \<noteq> CHR ''*''" using assms(2,4) by (auto simp: in_set_conv_nth)
  ultimately show ?thesis using assms Some by (auto simp: glob_inv_def)
qed (use assms in \<open>simp add: glob_inv_def\<close>)

lemma glob_answer_star:
  assumes "glob_inv p v a b star mark" and "b < length v" "a < length p" "p ! a = CHR ''*''" and "CHR ''*'' \<notin> set v"
  shows "glob_answer p v (Suc a) b (Some a) b \<longleftrightarrow> glob_answer p v a b star mark"
proof -
  have here: "glob_match (drop a p) (drop b v) \<longleftrightarrow> (\<exists>k. b \<le> k \<and> k \<le> length v \<and> glob_match (drop (Suc a) p) (drop k v))"
    using glob_at_star [OF assms(3,4), of b v] assms(2) by (simp add: max_def)
  have "glob_match (drop a p) (drop b v)" if "star = Some s" "mark < k" "k \<le> length v" "glob_match (drop (Suc s) p) (drop k v)" for s k
  proof -
    let ?k = "k + (a - Suc s)"
    have "b \<le> ?k" "?k \<le> length v" "glob_match (drop a p) (drop ?k v)"
      using glob_later [of p v a b s mark k] assms(1,5) that by (auto simp: glob_inv_def)
    then obtain j where "?k \<le> j" "j \<le> length v" "glob_match (drop (Suc a) p) (drop j v)"
      using glob_at_star [OF assms(3,4), of ?k v] by (auto simp: max_def split: if_splits)
    with \<open>b \<le> ?k\<close> show ?thesis unfolding here by (intro exI [of _ j]) simp
  qed
  then have "glob_answer p v a b star mark \<longleftrightarrow> glob_match (drop a p) (drop b v)"
    by (auto simp: glob_answer_def split: option.splits)
  also have "\<dots> \<longleftrightarrow> glob_answer p v (Suc a) b (Some a) b"
    using assms(2) by (auto simp: here glob_answer_def le_less)
  finally show ?thesis by simp
qed

lemma glob_answer_back:
  assumes "b < length v" and "\<not> (a < length p \<and> (p ! a = CHR ''?'' \<or> p ! a = v ! b))" and "\<not> (a < length p \<and> p ! a = CHR ''*'')"
  shows "glob_answer p v a b None mark \<longleftrightarrow> False"
    and "mark < length v \<Longrightarrow> glob_answer p v a b (Some s) mark \<longleftrightarrow> glob_answer p v (Suc s) (Suc mark) (Some s) (Suc mark)"
proof -
  have "\<not> glob_match (drop a p) (drop b v)"
    using assms glob_step [of a p b v] by (cases "a < length p") auto
  then show "glob_answer p v a b None mark \<longleftrightarrow> False"
    and "mark < length v \<Longrightarrow> glob_answer p v a b (Some s) mark \<longleftrightarrow> glob_answer p v (Suc s) (Suc mark) (Some s) (Suc mark)"
    by (auto simp: glob_answer_def Suc_le_eq intro: Suc_lessD) (metis Suc_lessI)
qed

lemma glob_loop_correct:
  assumes "glob_inv p v a b star mark"
  shows "\<exists>r. glob_loop p v a b star mark = Some r \<and> (CHR ''*'' \<notin> set v \<longrightarrow> r = glob_answer p v a b star mark)"
  using assms
proof (induction "(a, b, star, mark)" arbitrary: a b star mark
    rule: wf_induct_rule [OF wf_measures [of "[\<lambda>(a, b, star, mark). case star of None \<Rightarrow> Suc (length p) | Some s \<Rightarrow> length p - s,
      \<lambda>(a, b, star, mark). length v - mark, \<lambda>(a, b, star, mark). length v - b]"]])
  case 1
  note inv = "1.prems" and loop = glob_loop.simps [of p v a b star mark]
  consider (finished) "b = length v" | (step) "b < length v" "a < length p" "p ! a = CHR ''?'' \<or> p ! a = v ! b"
    | (star) "b < length v" "a < length p" "p ! a = CHR ''*''" "\<not> (p ! a = CHR ''?'' \<or> p ! a = v ! b)"
    | (retry) "b < length v" "\<not> (a < length p \<and> (p ! a = CHR ''?'' \<or> p ! a = v ! b))" "\<not> (a < length p \<and> p ! a = CHR ''*'')"
  proof -
    have "b \<le> length v" using inv by (simp add: glob_inv_def)
    then show ?thesis using that by linarith
  qed
  then show ?case
  proof cases
    case finished
    with inv loop glob_end [of p v a star mark] show ?thesis by auto
  next
    case step
    have "CHR ''*'' \<notin> set v \<Longrightarrow> glob_answer p v (Suc a) (Suc b) star mark = glob_answer p v a b star mark"
    proof -
      assume "CHR ''*'' \<notin> set v"
      then have "p ! a \<noteq> CHR ''*''" using step by (auto simp: in_set_conv_nth)
      then show ?thesis using glob_step [OF step(2,1)] step(3) by (simp add: glob_answer_def)
    qed
    moreover have "\<exists>r. glob_loop p v (Suc a) (Suc b) star mark = Some r \<and> (CHR ''*'' \<notin> set v \<longrightarrow> r = glob_answer p v (Suc a) (Suc b) star mark)"
      using step(1) by (intro "1.hyps" glob_inv_step [OF inv step]) (auto split: option.splits)
    ultimately show ?thesis using step loop by auto
  next
    case star
    have "glob_inv p v (Suc a) b (Some a) b" using star inv by (auto simp: glob_inv_def)
    then have "\<exists>r. glob_loop p v (Suc a) b (Some a) b = Some r \<and> (CHR ''*'' \<notin> set v \<longrightarrow> r = glob_answer p v (Suc a) b (Some a) b)"
      using star inv by (intro "1.hyps") (auto simp: glob_inv_def split: option.splits)
    then show ?thesis using star loop glob_answer_star [OF inv star(1,2,3)] by auto
  next
    case retry
    show ?thesis
    proof (cases star)
      case None
      with retry loop glob_answer_back(1) [OF retry] show ?thesis by auto
    next
      case (Some s)
      then have s: "mark < length v" "glob_inv p v (Suc s) (Suc mark) (Some s) (Suc mark)" using retry inv by (auto simp: glob_inv_def)
      then have "\<exists>r. glob_loop p v (Suc s) (Suc mark) (Some s) (Suc mark) = Some r \<and>
          (CHR ''*'' \<notin> set v \<longrightarrow> r = glob_answer p v (Suc s) (Suc mark) (Some s) (Suc mark))"
        using Some by (intro "1.hyps") auto
      then show ?thesis using retry loop Some glob_answer_back(2) [OF retry s(1)] by auto
    qed
  qed
qed

lemma glob_total: "\<exists>r. glob p v = Some r"
  using glob_loop_correct [of p v 0 0 None 0] by (auto simp: glob_def glob_inv_def)

text \<open>
  C16: the glob matcher.  On values without a star, as the names of tags usually are, it returns, and says whether the value is matched: a star
  in the pattern stands for any characters, a question mark for one, and any other character for itself.
\<close>

theorem glob_correct:
  assumes "CHR ''*'' \<notin> set v"
  shows "glob p v = Some (glob_match p v)"
  using glob_loop_correct [of p v 0 0 None 0] assms by (auto simp: glob_def glob_inv_def glob_answer_def)

theorem glob_correct_witness: "glob ''h*r?'' ''hdrara'' = Some True"
proof -
  have "CHR ''*'' \<notin> set ''hdrara''" by simp
  from glob_correct [OF this, of "''h*r?''"] show ?thesis by simp
qed

text \<open>A star in the value is taken by a star of the pattern as that character and no longer as a wildcard.\<close>

lemma glob_star_in_value: "glob ''a*'' ''a*b'' = Some False \<and> glob_match ''a*'' ''a*b''"
proof
  show "glob ''a*'' ''a*b'' = Some False" unfolding glob_def by (simp add: glob_loop.simps)
qed simp

section \<open>Projections\<close>

text \<open>\<open>split\<close>: the depth of parentheses (which may become negative), the open quote, the character before, and the part read so far.\<close>

fun split_loop :: "int \<Rightarrow> char option \<Rightarrow> char option \<Rightarrow> string \<Rightarrow> string list \<Rightarrow> string \<Rightarrow> string list result" where
  "split_loop depth quot prev cur out [] =
     (if quot \<noteq> None \<or> depth \<noteq> 0 then Inl (Error ParseError ''unbalanced PDQL projection'') else Inr (out @ [pdql_trim cur]))"
| "split_loop depth quot prev cur out (c # s) =
     (case quot of
        Some q \<Rightarrow> split_loop depth (if c = q \<and> prev \<noteq> Some (CHR 0x5C) then None else quot) (Some c) (cur @ [c]) out s
      | None \<Rightarrow>
          if c = CHR 0x22 \<or> c = CHR 0x27 then split_loop depth (Some c) (Some c) (cur @ [c]) out s
          else if c = CHR ''('' then split_loop (depth + 1) None (Some c) (cur @ [c]) out s
          else if c = CHR '')'' then split_loop (depth - 1) None (Some c) (cur @ [c]) out s
          else if c = CHR '','' \<and> depth = 0 then split_loop depth None (Some c) [] (out @ [pdql_trim cur]) s
          else split_loop depth None (Some c) (cur @ [c]) out s)"

definition pdql_split :: "string \<Rightarrow> string list result" where
  "pdql_split s = split_loop 0 None None [] [] s"

definition unquote :: "string \<Rightarrow> string result" where
  "unquote s =
     (if length s < 2 \<or> hd s \<noteq> CHR 0x22 \<and> hd s \<noteq> CHR 0x27 \<or> last s \<noteq> hd s
      then Inl (Error ParseError ''PDQL requires a quoted string'')
      else Inr (butlast (tl s)))"

section \<open>Numbers\<close>

text \<open>
  The doubles of the aggregates: a sign and a magnitude, or an infinity (a sum may overflow).  \<open>pdql_number\<close> is \<open>std::strtod\<close> on the text
  with zero for what is no number or not finite: blanks, a sign, and a decimal or hexadecimal magnitude.
\<close>

datatype double = Num bool rat | Infinite bool

definition rounded :: "bool \<Rightarrow> rat \<Rightarrow> double" where
  "rounded neg q =
     (if q = 0 then Num neg 0
      else case round64 q of Some r \<Rightarrow> Num neg r | None \<Rightarrow> if q < 1 then Num neg 0 else Infinite neg)"

definition pdql_hex_digit :: "char \<Rightarrow> nat option" where
  "pdql_hex_digit c =
     (if is_digit c then Some (byte c - 48)
      else if CHR ''a'' \<le> c \<and> c \<le> CHR ''f'' then Some (byte c - 87)
      else if CHR ''A'' \<le> c \<and> c \<le> CHR ''F'' then Some (byte c - 55) else None)"

definition is_hex :: "char \<Rightarrow> bool" where
  "is_hex c \<longleftrightarrow> pdql_hex_digit c \<noteq> None"

definition pdql_hex_value :: "string \<Rightarrow> nat" where
  "pdql_hex_value ds = foldl (\<lambda>v c. 16 * v + (case pdql_hex_digit c of None \<Rightarrow> 0 | Some x \<Rightarrow> x)) 0 ds"

definition binary_exponent :: "string \<Rightarrow> int" where
  "binary_exponent s =
     (case s of
        [] \<Rightarrow> 0
      | c # r \<Rightarrow>
          if c = CHR ''p'' \<or> c = CHR ''P'' then
            (let neg = (r \<noteq> [] \<and> hd r = CHR ''-''); r1 = (if r \<noteq> [] \<and> (hd r = CHR ''-'' \<or> hd r = CHR ''+'') then tl r else r);
                 n = int (digits_value (takeWhile is_digit r1))
             in if neg then - n else n)
          else 0)"

definition hex_magnitude :: "string \<Rightarrow> rat option" where
  "hex_magnitude s =
     (let ip = takeWhile is_hex s; r = dropWhile is_hex s;
          (fp, r1) = (if r \<noteq> [] \<and> hd r = CHR ''.'' then (takeWhile is_hex (tl r), dropWhile is_hex (tl r)) else ([], r))
      in if ip = [] \<and> fp = [] then None
         else Some (of_nat (pdql_hex_value (ip @ fp)) * 2 powi (binary_exponent r1 - 4 * int (length fp))))"

definition decimal_magnitude :: "string \<Rightarrow> rat option" where
  "decimal_magnitude s =
     (let ip = takeWhile is_digit s; (fp, r) = scan_fraction (dropWhile is_digit s)
      in if ip = [] \<and> fp = [] then None else Some (decimal_value ip fp (fst (scan_exponent r))))"

definition magnitude :: "string \<Rightarrow> rat option" where
  "magnitude s =
     (if take 2 s = ''0x'' \<or> take 2 s = ''0X'' then
        (case hex_magnitude (drop 2 s) of Some q \<Rightarrow> Some q | None \<Rightarrow> decimal_magnitude s)
      else decimal_magnitude s)"

definition pdql_number :: "string \<Rightarrow> double" where
  "pdql_number s =
     (let s1 = dropWhile isspace s; neg = (s1 \<noteq> [] \<and> hd s1 = CHR ''-'');
          s2 = (if s1 \<noteq> [] \<and> (hd s1 = CHR ''-'' \<or> hd s1 = CHR ''+'') then tl s1 else s1)
      in case magnitude s2 of
           None \<Rightarrow> Num False 0
         | Some q \<Rightarrow> (case rounded neg q of Infinite _ \<Rightarrow> Num False 0 | x \<Rightarrow> x))"

fun double_add :: "double \<Rightarrow> double \<Rightarrow> double" where
  "double_add (Infinite b) y = Infinite b"
| "double_add x (Infinite b) = Infinite b"
| "double_add (Num b p) (Num c q) =
     (let x = (if b then - p else p) + (if c then - q else q) in if x = 0 then Num (b \<and> c) 0 else rounded (x < 0) \<bar>x\<bar>)"

fun double_div :: "double \<Rightarrow> nat \<Rightarrow> double" where
  "double_div (Infinite b) n = Infinite b"
| "double_div (Num b q) n = rounded b (q / of_nat n)"

text \<open>\<open>std::to_string\<close> of a double: six digits behind the point.\<close>

definition six_digits :: "nat \<Rightarrow> string" where
  "six_digits n = (let ds = decimal n in replicate (6 - length ds) (CHR ''0'') @ ds)"

fun double_text :: "double \<Rightarrow> string" where
  "double_text (Infinite b) = (if b then ''-inf'' else ''inf'')"
| "double_text (Num b q) =
     (let k = nat (round_even (q * 10 ^ 6)) in
      (if b then ''-'' else []) @ decimal (k div 10 ^ 6) @ ''.'' @ six_digits (k mod 10 ^ 6))"

section \<open>Results\<close>

record pdql_value =
  v_text :: string
  v_numeric :: bool

text \<open>A row is a \<open>std::map\<close>, in the order of its names; \<open>emplace\<close> keeps a value that is already there.\<close>

type_synonym pdql_row = "(string \<times> pdql_value) list"

fun row_emplace :: "string \<Rightarrow> 'v \<Rightarrow> (string \<times> 'v) list \<Rightarrow> (string \<times> 'v) list" where
  "row_emplace k v [] = [(k, v)]"
| "row_emplace k v ((k', v') # m) =
     (if k < k' then (k, v) # (k', v') # m else if k = k' then (k', v') # m else (k', v') # row_emplace k v m)"

datatype pdql_format = Json | Yaml | Xml | SExpr

definition format_of :: "int \<Rightarrow> pdql_format option" where
  "format_of n = (if n = 0 then Some Json else if n = 1 then Some Yaml else if n = 2 then Some Xml else if n = 3 then Some SExpr else None)"

definition field_text :: "pdql_format \<Rightarrow> nat \<Rightarrow> string \<times> pdql_value \<Rightarrow> string" where
  "field_text fmt j f =
     (let (name, v) = f; encoded = (if v_numeric v then v_text v else pdql_quote (v_text v)) in
      case fmt of
        Json \<Rightarrow> (if j > 0 then '','' else []) @ pdql_quote name @ '':'' @ encoded
      | Yaml \<Rightarrow> [CHR 0x0A] @ ''  '' @ pdql_quote name @ '': '' @ encoded
      | Xml \<Rightarrow> ''<field name='' @ [CHR 0x22] @ pdql_xml name @ [CHR 0x22] @ ''>'' @ pdql_xml (v_text v) @ ''</field>''
      | SExpr \<Rightarrow> ''('' @ pdql_quote name @ '' '' @ encoded @ '')'')"

fun fields_text :: "pdql_format \<Rightarrow> nat \<Rightarrow> pdql_row \<Rightarrow> string" where
  "fields_text fmt j [] = []"
| "fields_text fmt j (f # fs) = field_text fmt j f @ fields_text fmt (j + 1) fs"

definition row_text :: "pdql_format \<Rightarrow> nat \<Rightarrow> pdql_row \<Rightarrow> string" where
  "row_text fmt i r =
     (case fmt of Json \<Rightarrow> (if i > 0 then '',{'' else ''{'') | Yaml \<Rightarrow> ''-'' | Xml \<Rightarrow> ''<row>'' | SExpr \<Rightarrow> ''('') @
     fields_text fmt 0 r @
     (case fmt of Json \<Rightarrow> ''}'' | Yaml \<Rightarrow> [CHR 0x0A] | Xml \<Rightarrow> ''</row>'' | SExpr \<Rightarrow> '')'')"

fun rows_text :: "pdql_format \<Rightarrow> nat \<Rightarrow> pdql_row list \<Rightarrow> string \<Rightarrow> string result" where
  "rows_text fmt i [] out = Inr out"
| "rows_text fmt i (r # rs) out =
     (let out1 = out @ row_text fmt i r in
      if 16 * 1024 * 1024 < length out1 then Inl (Error ResourceLimit ''PDQL serialization exceeds 16 MiB'')
      else rows_text fmt (i + 1) rs out1)"

definition pdql_serialize :: "pdql_row list \<Rightarrow> int \<Rightarrow> string result" where
  "pdql_serialize rows n =
     (case format_of n of
        None \<Rightarrow> Inl (Error InvalidArgument ''invalid PDQL format'')
      | Some fmt \<Rightarrow>
          if fmt = Yaml \<and> rows = [] then Inr (''[]'' @ [CHR 0x0A])
          else rbind (rows_text fmt 0 rows (case fmt of Json \<Rightarrow> ''['' | SExpr \<Rightarrow> ''('' | Xml \<Rightarrow> ''<results>'' | Yaml \<Rightarrow> [])) (\<lambda>out.
            Inr (out @ (case fmt of Json \<Rightarrow> '']'' | Xml \<Rightarrow> ''</results>'' | SExpr \<Rightarrow> '')'' | Yaml \<Rightarrow> []))))"

section \<open>Results in JSON\<close>

lemma quote_quoted: "pdql_quote s = quoted_text s"
proof -
  have "quote_char c = quoted_char c" for c by (simp add: quote_char_def quoted_char_def nibble_def)
  then have "quote_char = quoted_char" by (rule ext)
  then show ?thesis by (simp add: pdql_quote_def quoted_text_def)
qed

text \<open>The JSON value of a row.\<close>

definition value_json :: "pdql_value \<Rightarrow> json" where
  "value_json v = (if v_numeric v then JNumber (case from_chars (v_text v) of Some (x, _) \<Rightarrow> x | None \<Rightarrow> Nonfinite) (v_text v) else JString (v_text v))"

definition row_json :: "pdql_row \<Rightarrow> json" where
  "row_json r = JObject (map (\<lambda>(k, v). (k, value_json v)) r)"

lemma json_text_value: "json_text (value_json v) = (if v_numeric v then v_text v else pdql_quote (v_text v))"
  by (simp add: value_json_def quote_quoted)

lemma json_fields: "fields_text Json (Suc j) fs = concat (map (\<lambda>(k, v). CHR '','' # quoted_text k @ CHR '':'' # json_text (value_json v)) fs)"
  by (induction fs arbitrary: j) (auto simp: field_text_def json_text_value quote_quoted)

lemma json_row: "row_text Json i r = (if i > 0 then '','' else []) @ json_text (row_json r)"
proof (cases r)
  case (Cons f fs)
  have "fields_text Json 0 r = joined (map (\<lambda>(k, v). quoted_text k @ CHR '':'' # json_text (value_json v)) r)"
    unfolding Cons list.map joined_Cons using json_fields [of 0 fs]
    by (auto simp: field_text_def json_text_value quote_quoted split_def intro!: arg_cong [where f = concat])
  then show ?thesis by (simp add: row_text_def row_json_def split_def comp_def)
qed (simp add: row_text_def row_json_def)

lemma json_rows:
  "rows_text Json i rs out = Inr s \<Longrightarrow>
   s = out @ (if i > 0 then concat (map (\<lambda>r. CHR '','' # json_text (row_json r)) rs) else joined (map (\<lambda>r. json_text (row_json r)) rs))"
proof (induction rs arbitrary: i out)
  case (Cons r rs)
  then have "s = (out @ row_text Json i r) @ concat (map (\<lambda>r. CHR '','' # json_text (row_json r)) rs)"
    using Cons.IH [of "Suc i" "out @ row_text Json i r"] by (auto simp: Let_def split: if_splits)
  then show ?case by (simp add: json_row joined_Cons comp_def)
qed simp

section \<open>The numbers of the aggregates are JSON numbers\<close>

lemma exponent2_bounds:
  assumes "0 < q"
  shows "2 powi exponent2 q \<le> q \<and> q < 2 powi (exponent2 q + 1)"
proof -
  obtain n d where nd: "quotient_of q = (n, d)" by fastforce
  then have q: "q = of_int n / of_int d" "0 < d" using quotient_of_div quotient_of_denom_pos by blast+
  then have "0 < n" using assms by (simp add: zero_less_divide_iff)
  let ?a = "floorlog 2 (nat n)" and ?b = "floorlog 2 (nat d)"
  have n: "(2 :: nat) ^ (?a - 1) \<le> nat n" "nat n < 2 ^ ?a" "1 \<le> ?a" using exponent2_nat [of "nat n"] \<open>0 < n\<close> by simp_all
  have d: "(2 :: nat) ^ (?b - 1) \<le> nat d" "nat d < 2 ^ ?b" "1 \<le> ?b" using exponent2_nat [of "nat d"] \<open>0 < d\<close> by simp_all
  have "of_nat (2 ^ (?a - 1)) \<le> (of_nat (nat n) :: rat)" "(of_nat (nat n) :: rat) < of_nat (2 ^ ?a)"
    "of_nat (2 ^ (?b - 1)) \<le> (of_nat (nat d) :: rat)" "(of_nat (nat d) :: rat) < of_nat (2 ^ ?b)"
    using n d by (simp_all only: of_nat_le_iff of_nat_less_iff)
  then have r: "2 powi (int ?a - 1) \<le> (of_int n :: rat)" "(of_int n :: rat) < 2 powi int ?a"
    "2 powi (int ?b - 1) \<le> (of_int d :: rat)" "(of_int d :: rat) < 2 powi int ?b"
    using n(3) d(3) \<open>0 < n\<close> \<open>0 < d\<close> by (simp_all add: power_int_def nat_diff_distrib split: if_splits)
  have d0: "(0 :: rat) < of_int d" using \<open>0 < d\<close> by simp
  have "q < 2 powi (int ?a - int ?b + 1)"
  proof -
    have "(of_int n :: rat) < 2 powi (int ?a - int ?b + 1) * 2 powi (int ?b - 1)" using r(2) by (simp add: power_int_add [symmetric])
    also have "\<dots> \<le> 2 powi (int ?a - int ?b + 1) * of_int d" using r(3) by (intro mult_left_mono) simp_all
    finally show ?thesis using d0 by (simp add: q(1) field_simps)
  qed
  moreover have "2 powi (int ?a - int ?b - 1) \<le> q"
  proof -
    have "2 powi (int ?a - int ?b - 1) * (of_int d :: rat) \<le> 2 powi (int ?a - int ?b - 1) * 2 powi int ?b" using r(4) by (intro mult_left_mono) simp_all
    also have "\<dots> = 2 powi (int ?a - 1)" by (simp add: power_int_add [symmetric] del: power_int_of_nat)
    also have "\<dots> \<le> of_int n" by (rule r(1))
    finally show ?thesis using d0 by (simp add: q(1) field_simps)
  qed
  ultimately show ?thesis by (simp add: exponent2_def nd Let_def)
qed

lemma round_even_bounds: "\<lfloor>q\<rfloor> \<le> round_even q \<and> of_int (round_even q) \<le> q + 1"
proof -
  have "round_even q = \<lfloor>q\<rfloor> \<or> round_even q = \<lfloor>q\<rfloor> + 1" by (simp add: round_even_def Let_def)
  then show ?thesis using of_int_floor_le [of q] by (elim disjE) (simp_all only: of_int_add of_int_1, linarith+)
qed

lemma round64_exists:
  assumes "2 powi (- 1022) \<le> q" and "q < 2 ^ 1022"
  shows "\<exists>r. round64 q = Some r"
proof -
  let ?e = "exponent2 q"
  have "0 < q" using assms(1) less_le_trans [of 0 "2 powi (- 1022)" q] by simp
  note e = exponent2_bounds [OF this]
  have e1: "- 1022 \<le> ?e"
  proof (rule ccontr)
    assume "\<not> - 1022 \<le> ?e"
    then have "(2 :: rat) powi (?e + 1) \<le> 2 powi (- 1022)" by (intro power_int_increasing) simp_all
    with e assms(1) show False by linarith
  qed
  have e2: "?e < 1022"
  proof (rule ccontr)
    assume "\<not> ?e < 1022"
    then have "(2 :: rat) powi 1022 \<le> 2 powi ?e" by (intro power_int_increasing) simp_all
    then have "(2 :: rat) ^ 1022 \<le> q" using e by (simp add: power_int_def)
    with assms(2) show False by linarith
  qed
  let ?ulp = "(2 :: rat) powi (?e - 52)"
  have u: "0 < ?ulp" by simp
  have "1 \<le> q / ?ulp"
  proof -
    have "?ulp \<le> 2 powi ?e" by (intro power_int_increasing) simp_all
    then show ?thesis using e u by (simp add: le_divide_eq)
  qed
  then have low: "1 \<le> round_even (q / ?ulp)" using round_even_bounds [of "q / ?ulp"] by (meson le_floor_iff of_int_1 order_trans one_le_floor)
  have "of_int (round_even (q / ?ulp)) * ?ulp \<le> (q / ?ulp + 1) * ?ulp" using round_even_bounds [of "q / ?ulp"] u by (intro mult_right_mono) simp_all
  also have "\<dots> = q + ?ulp" using u by (simp add: distrib_right)
  also have "\<dots> < 2 ^ 1022 + 2 ^ 1022"
  proof -
    have "?ulp \<le> 2 powi 1022" using e2 by (intro power_int_increasing) simp_all
    then show ?thesis using assms(2) by (simp add: power_int_def)
  qed
  also have "\<dots> < 2 ^ 1024" by simp
  finally have "of_int (round_even (q / ?ulp)) * ?ulp < 2 ^ 1024" .
  moreover have "of_int (round_even (q / ?ulp)) * ?ulp \<noteq> 0" using low u by simp
  moreover have "max ?e (- 1022) = ?e" using e1 by simp
  ultimately show ?thesis by (simp add: round64_def Let_def not_le)
qed

lemma decimal_0: "decimal 0 = ''0''"
  by code_simp

lemma decimal_first: "decimal n = [CHR ''0''] \<and> n = 0 \<or> is_digit (hd (decimal n)) \<and> hd (decimal n) \<noteq> CHR ''0''"
proof (cases "n = 0")
  case True
  then show ?thesis by (simp add: decimal_0)
next
  case False
  then show ?thesis using decimal_hd [of n] decimal_digits [of "hd (decimal n)" n] by simp
qed

lemma number_token:
  assumes "fp = [] \<or> (\<exists>ds. fp = CHR ''.'' # ds \<and> ds \<noteq> [] \<and> (\<forall>c\<in>set ds. is_digit c))"
  shows "number_end ((if neg then ''-'' else []) @ decimal n @ fp) = Inr []"
proof -
  let ?s = "decimal n @ fp"
  have pk: "peek ?s = hd (decimal n)" "peek ((if neg then ''-'' else []) @ ?s) = (if neg then CHR ''-'' else hd (decimal n))"
    by (cases "decimal n"; simp add: peek_def)+
  have "hd (decimal n) \<noteq> CHR ''-''" using decimal_digits [of "hd (decimal n)" n] digit_not by auto
  then have start: "(if peek ((if neg then ''-'' else []) @ ?s) = CHR ''-'' then tl ((if neg then ''-'' else []) @ ?s) else (if neg then ''-'' else []) @ ?s) = ?s"
    using pk by simp
  have "fp = [] \<or> \<not> is_digit (hd fp)" using assms by auto
  then have int: "skip_integer ?s = Inr fp"
    using decimal_first [of n] digits_takeWhile [of "decimal n" fp] decimal_digits pk(1)
    by (auto simp: skip_integer_def skip_digits_def digit_range)
  have "skip_fraction fp = Inr []"
  proof (cases "fp = []")
    case False
    then obtain ds where ds: "fp = CHR ''.'' # ds" "ds \<noteq> []" "\<forall>c\<in>set ds. is_digit c" using assms by blast
    then have "is_digit (peek ds)" by (cases ds) (auto simp: peek_def)
    with ds show ?thesis by (simp add: skip_fraction_def peek_def skip_digits_def)
  qed (simp add: skip_fraction_def peek_def)
  then show ?thesis unfolding number_end_def start by (simp add: int skip_exponent_def peek_def)
qed

lemma digits_value_append: "digits_value (as @ bs) = digits_value as * 10 ^ length bs + digits_value bs"
proof (induction bs rule: rev_induct)
  case (snoc b bs)
  have "digits_value ((as @ bs) @ [b]) = digits_value (as @ bs) * 10 + (byte b - 48)" by (rule digits_value_snoc)
  with snoc show ?case by (simp add: digits_value_snoc)
qed (simp add: digits_value_def)

lemma six_digits_value: "n < 10 ^ 6 \<Longrightarrow> length (six_digits n) = 6 \<and> (\<forall>c\<in>set (six_digits n). is_digit c) \<and> digits_value (six_digits n) = n"
proof -
  assume n: "n < 10 ^ 6"
  have "length (decimal n) \<le> 6"
  proof (cases "n = 0")
    case False
    then have "(10 :: nat) ^ (length (decimal n) - 1) < 10 ^ 6" using decimal_bounds [of n] n by (meson le_less_trans neq0_conv)
    then have "length (decimal n) - 1 < 6" by (rule power_less_imp_less_exp [rotated]) simp
    then show ?thesis by simp
  qed (simp add: decimal_0)
  then show ?thesis by (auto simp: six_digits_def Let_def digits_value_zeros decimal_digits)
qed

definition json_number :: "string \<Rightarrow> bool" where
  "json_number s \<longleftrightarrow> number_end s = Inr [] \<and> (\<exists>x. from_chars s = Some (x, []) \<and> x \<noteq> Nonfinite)"

lemma json_number_denotes:
  assumes "denotes s v" and "number_end ((if neg then ''-'' else []) @ s) = Inr []" and "v = 0 \<or> 2 powi (- 1022) \<le> v \<and> v < 2 ^ 1022"
  shows "json_number ((if neg then ''-'' else []) @ s)"
proof -
  obtain q where "v = 0 \<and> q = 0 \<or> v \<noteq> 0 \<and> round64 v = Some q"
    using assms(3) round64_exists [of v] by (cases "v = 0") auto
  from from_chars_denotes [OF assms(1) this] assms(2) show ?thesis by (auto simp: json_number_def)
qed

lemma tiny: "2 powi (- 1022) \<le> (1 / 10 ^ 6 :: rat)"
proof -
  have "(2 :: rat) powi (- 1022) \<le> 2 powi (- 20)" by (intro power_int_increasing) simp_all
  also have "\<dots> \<le> 1 / 10 ^ 6" by (simp add: power_int_def power_one_over)
  finally show ?thesis .
qed

lemma double_text_json:
  assumes "0 \<le> q" and "q < 2 ^ 1000"
  shows "json_number (double_text (Num b q))"
proof -
  define k where "k = nat (round_even (q * 10 ^ 6))"
  let ?ip = "decimal (k div 10 ^ 6)" and ?fp = "six_digits (k mod 10 ^ 6)"
  note six = six_digits_value [of "k mod 10 ^ 6", simplified]
  have ne: "?fp \<noteq> []" using six by auto
  have "digits_value (?ip @ ?fp) = (k div 10 ^ 6) * 10 ^ 6 + k mod 10 ^ 6"
    using six by (simp add: digits_value_append)
  then have v: "decimal_value ?ip ?fp 0 = of_nat k / 10 ^ 6" using six by (simp add: decimal_value_def power_int_def divide_simps)
  have "0 \<le> \<lfloor>q * 10 ^ 6\<rfloor>" using assms(1) by simp
  then have "0 \<le> round_even (q * 10 ^ 6)" using round_even_bounds [of "q * 10 ^ 6"] by linarith
  then have "of_nat k \<le> q * 10 ^ 6 + 1" using round_even_bounds [of "q * 10 ^ 6"] of_nat_nat [of "round_even (q * 10 ^ 6)", where 'a = rat]
    unfolding k_def by argo
  then have "of_nat k / 10 ^ 6 \<le> q + 1" by (simp add: field_simps)
  also have "\<dots> < 2 ^ 1022" using assms(2) by simp
  finally have "of_nat k / 10 ^ 6 < (2 :: rat) ^ 1022" .
  moreover have "k \<noteq> 0 \<Longrightarrow> 2 powi (- 1022) \<le> (of_nat k / 10 ^ 6 :: rat)"
    using tiny by (rule order_trans) (simp add: divide_right_mono)
  ultimately have "of_nat k / 10 ^ 6 = (0 :: rat) \<or> 2 powi (- 1022) \<le> (of_nat k / 10 ^ 6 :: rat) \<and> of_nat k / 10 ^ 6 < (2 :: rat) ^ 1022" by auto
  moreover have "denotes (?ip @ (if ?fp = [] then [] else CHR ''.'' # ?fp) @ []) (decimal_value ?ip ?fp 0)"
    using six decimal_digits by (intro denotes_parts) (auto simp: scan_exponent_def)
  then have "denotes (?ip @ CHR ''.'' # ?fp) (of_nat k / 10 ^ 6)" unfolding v if_not_P [OF ne] append_Nil2 .
  moreover have "number_end ((if b then ''-'' else []) @ ?ip @ CHR ''.'' # ?fp) = Inr []"
    using six by (intro number_token) auto
  ultimately have "json_number ((if b then ''-'' else []) @ ?ip @ CHR ''.'' # ?fp)" by (intro json_number_denotes)
  then show ?thesis by (simp add: Let_def k_def)
qed

lemma decimal_json: "n < 2 ^ 1000 \<Longrightarrow> json_number (decimal n)"
proof -
  assume "n < 2 ^ 1000"
  then have "(of_nat n :: rat) < of_nat (2 ^ 1000)" by (simp only: of_nat_less_iff)
  then have "(of_nat n :: rat) < 2 ^ 1022" by simp
  moreover have "n \<noteq> 0 \<Longrightarrow> 2 powi (- 1022) \<le> (of_nat n :: rat)" using tiny by (rule order_trans) simp
  ultimately have "of_nat n = (0 :: rat) \<or> 2 powi (- 1022) \<le> (of_nat n :: rat) \<and> of_nat n < (2 :: rat) ^ 1022" by auto
  with number_token [of "[]" False n] show ?thesis using json_number_denotes [OF denotes_decimal, of False n] by simp
qed

section \<open>Reading results back\<close>

definition value_ok :: "pdql_value \<Rightarrow> bool" where
  "value_ok v \<longleftrightarrow> (if v_numeric v then json_number (v_text v) else validate_utf8 (v_text v) = Inr ())"

definition row_ok :: "pdql_row \<Rightarrow> bool" where
  "row_ok r \<longleftrightarrow> sorted_wrt (<) (map fst r) \<and> list_all (\<lambda>(k, v). validate_utf8 k = Inr () \<and> value_ok v) r"

lemma value_json_ok: "value_ok v \<Longrightarrow> json_wf (value_json v) \<and> strings_ok (value_json v) \<and> fits_below (Suc k) (value_json v) \<and> nodes (value_json v) = 1"
  by (auto simp: value_ok_def value_json_def json_number_def)

lemma row_json_ok:
  assumes "row_ok r"
  shows "json_wf (row_json r) \<and> strings_ok (row_json r) \<and> fits_below (Suc (Suc k)) (row_json r) \<and> nodes (row_json r) = Suc (length r)"
proof -
  have "distinct (map fst r)" using assms strict_sorted_iff by (auto simp: row_ok_def)
  moreover have "map fst (map (\<lambda>(k, v). (k, value_json v)) r) = map fst r" by (simp add: split_def)
  moreover have "list_all (\<lambda>(k, v). validate_utf8 k = Inr () \<and> value_ok v) r" using assms by (simp add: row_ok_def)
  then have "sum_list (map (\<lambda>(k, v). nodes v) (map (\<lambda>(k, v). (k, value_json v)) r)) = length r"
    by (induction r) (auto simp: value_json_ok)
  ultimately show ?thesis using assms value_json_ok
    by (auto simp: row_json_def row_ok_def list_all_iff simp del: map_map)
qed

lemma rows_nodes: "list_all row_ok rows \<Longrightarrow> sum_list (map nodes (map row_json rows)) = sum_list (map (\<lambda>r. Suc (length r)) rows)"
  by (induction rows) (auto simp: row_json_ok)



text \<open>A sum that overflows is written as a bare word, which is not JSON.\<close>

lemma infinite_sum_not_json: "number_end (double_text (Infinite b)) = fail_invalid"
proof -
  have "\<not> is_digit (CHR ''i'')" by (simp add: is_digit_byte byte_def)
  then have "CHR ''i'' < CHR ''1'' \<or> CHR ''i'' > CHR ''9''" by (simp add: digit_range)
  then show ?thesis by (simp add: number_end_def peek_def skip_integer_def)
qed

end
