(* ===== verification/Pdql_Query.thy ===== *)
theory Pdql_Query
  imports Pdql Ir_Filter Redaction
begin

text \<open>
  \<^verbatim>\<open>pdql.cpp\<close>, the side of the query language that meets pages: compiling a query, the redaction of a snapshot of the page, selecting elements,
  and projecting them to rows.  The evaluator of XPath is an argument.  Shown: redaction leaves no sensitive attribute, no value of a form
  control and no text of a script on any element of the snapshot, and a compiled query always returns, with a row for every selected element
  in document order, or with an error for a limit (or for a projection that compilation should have refused).
\<close>

type_synonym xpath_engine = "dom \<Rightarrow> document \<Rightarrow> string \<Rightarrow> xpath_value result"

section \<open>Compiling a query\<close>

record pdql_query =
  q_selector :: string
  q_fields :: string
  q_where :: string

text \<open>White space outside of quotes is folded; the arguments are the character before and the open quote.\<close>

fun fold_source :: "char option \<Rightarrow> char option \<Rightarrow> string \<Rightarrow> string \<Rightarrow> string result" where
  "fold_source prev quot folded [] = (if quot \<noteq> None then Inl (Error ParseError ''unterminated PDQL string'') else Inr folded)"
| "fold_source prev quot folded (c # s) =
     (case quot of
        Some q \<Rightarrow> fold_source (Some c) (if c = q \<and> prev \<noteq> Some (CHR 0x5C) then None else quot) (folded @ [c]) s
      | None \<Rightarrow>
          if c = CHR 0x27 \<or> c = CHR 0x22 then fold_source (Some c) (Some c) (folded @ [c]) s
          else if isspace c then fold_source (Some c) None (if folded \<noteq> [] \<and> last folded \<noteq> CHR '' '' then folded @ '' '' else folded) s
          else fold_source (Some c) None (folded @ [c]) s)"

text \<open>\<open>rfind\<close>, and \<open>substr(first, till - first)\<close> with its unsigned difference: a negative one means all the rest.\<close>

fun rfind_str :: "string \<Rightarrow> string \<Rightarrow> nat option" where
  "rfind_str p [] = (if p = [] then Some 0 else None)"
| "rfind_str p (c # s) = (case rfind_str p s of Some n \<Rightarrow> Some (Suc n) | None \<Rightarrow> if prefix p (c # s) then Some 0 else None)"

definition slice :: "nat \<Rightarrow> nat \<Rightarrow> string \<Rightarrow> string" where
  "slice first till s = (if till < first then drop first s else take (till - first) (drop first s))"

definition strip_block :: "string \<Rightarrow> string result" where
  "strip_block s =
     (if prefix ''query '' s \<or> prefix ''query{'' s then
        (case find_char (CHR ''{'') s of
           None \<Rightarrow> Inl (Error ParseError ''invalid PDQL query block'')
         | Some brace \<Rightarrow>
             if \<not> suffix ''}'' s then Inl (Error ParseError ''invalid PDQL query block'')
             else Inr (pdql_trim (take (length s - brace - 2) (drop (brace + 1) s))))
      else Inr s)"

definition strip_serialization :: "string \<Rightarrow> string" where
  "strip_serialization s = (case rfind_str '' serialize as '' s of None \<Rightarrow> s | Some n \<Rightarrow> take n s)"

definition cut_where :: "string \<Rightarrow> string \<times> string" where
  "cut_where s = (case find_str '' where '' s of None \<Rightarrow> (s, []) | Some n \<Rightarrow> (take n s, pdql_trim (drop (n + 7) s)))"

definition strip_braces :: "string \<Rightarrow> string" where
  "strip_braces s = (if prefix ''{'' s \<and> suffix ''}'' s then pdql_trim (take (length s - 2) (drop 1 s)) else s)"

definition clauses :: "string \<Rightarrow> (string \<times> string \<times> string) result" where
  "clauses s =
     (if prefix ''from '' s then
        (case find_str '' select '' s of
           None \<Rightarrow> Inl (Error ParseError ''PDQL from requires select'')
         | Some n \<Rightarrow> let (sel, guard) = cut_where (pdql_trim (slice 5 n s)) in Inr (sel, strip_braces (pdql_trim (drop (n + 8) s)), guard))
      else if prefix ''select '' s then
        (case find_str '' from '' s of
           None \<Rightarrow> Inl (Error ParseError ''PDQL select requires from'')
         | Some n \<Rightarrow> let (sel, guard) = cut_where (pdql_trim (drop (n + 6) s)) in Inr (sel, pdql_trim (slice 7 n s), guard))
      else Inr (s, ''text'', []))"

definition xpath_source :: "string \<Rightarrow> string result" where
  "xpath_source sel = unquote (pdql_trim (take (length sel - 7) (drop 6 sel)))"

definition tag_pattern_char :: "char \<Rightarrow> bool" where
  "tag_pattern_char c \<longleftrightarrow> is_alnum c \<or> c \<in> {CHR ''-'', CHR ''_'', CHR ''*'', CHR ''?''}"

text \<open>The selector, without the delimiters of a tag; an XPath is tried on a small document.\<close>

definition check_selector :: "xpath_engine \<Rightarrow> string \<Rightarrow> string result" where
  "check_selector evaluate sel =
     (if prefix ''xpath('' sel then
        if \<not> suffix '')'' sel then Inl (Error ParseError ''invalid PDQL XPath selector'')
        else rbind (parse_html ''<probe>text</probe>'' [] []) (\<lambda>(d, doc).
          rbind (xpath_source sel) (\<lambda>expr. rbind (evaluate d doc expr) (\<lambda>_. Inr sel)))
      else if prefix ''<'' sel \<and> \<not> suffix ''>'' sel then Inl (Error ParseError ''invalid PDQL tag delimiter'')
      else
        (let sel1 = (if prefix ''<'' sel then take (length sel - 2) (drop 1 sel) else sel) in
         if \<not> list_all tag_pattern_char sel1 then Inl (Error ParseError ''unsupported PDQL tag selector'') else Inr sel1))"

text \<open>A property of an element: \<open>property\<close> reads its expression and evaluates it.\<close>

datatype property_kind = P_Text | P_Tag | P_Attribute string

definition parse_property :: "string \<Rightarrow> (bool \<times> property_kind) result" where
  "parse_property expr =
     (let e1 = (if prefix ''node.'' expr then drop 5 expr else expr);
          trimmed = suffix ''.trim()'' e1;
          e = (if trimmed then take (length e1 - 7) e1 else e1)
      in if e = ''text'' then Inr (trimmed, P_Text)
         else if e = ''tag'' \<or> e = ''tag_name'' then Inr (trimmed, P_Tag)
         else if prefix ''attr('' e \<and> suffix '')'' e then
           rbind (unquote (pdql_trim (take (length e - 6) (drop 5 e)))) (\<lambda>nm. Inr (trimmed, P_Attribute nm))
         else Inl (Error ParseError ''unsupported PDQL expression''))"

definition property_value :: "dom \<Rightarrow> handle \<Rightarrow> property_kind \<Rightarrow> string option" where
  "property_value d h k =
     (case k of P_Text \<Rightarrow> element_text d h | P_Tag \<Rightarrow> Some (tag_name d h) | P_Attribute nm \<Rightarrow> Some (element_attribute d h nm))"

definition property :: "dom \<Rightarrow> handle \<Rightarrow> string \<Rightarrow> string result option" where
  "property d h expr =
     (case parse_property expr of
        Inl e \<Rightarrow> Some (Inl e)
      | Inr (trimmed, k) \<Rightarrow> map_option (\<lambda>v. Inr (if trimmed then pdql_trim v else v)) (property_value d h k))"

definition field_parts :: "string \<Rightarrow> string option \<times> string" where
  "field_parts field =
     (case find_char (CHR '':'') field of
        None \<Rightarrow> (None, field)
      | Some n \<Rightarrow> (Some (pdql_trim (take n field)), pdql_trim (drop (n + 1) field)))"

definition number_argument :: "string \<Rightarrow> string" where
  "number_argument expr = pdql_trim (take (length expr - 8) (drop 7 expr))"

definition is_number_call :: "string \<Rightarrow> bool" where
  "is_number_call expr \<longleftrightarrow> prefix ''number('' expr \<and> suffix '')'' expr"

text \<open>The validation of a projection and of a guard, which evaluates them on a small element and drops the values.\<close>

definition check_field :: "string \<Rightarrow> unit result" where
  "check_field field =
     (let expr = snd (field_parts field) in
      if expr \<in> set [''count()'', ''count'', ''sum()'', ''sum'', ''avg()'', ''avg'', ''number''] then Inr ()
      else if is_number_call expr then rbind (parse_property (number_argument expr)) (\<lambda>_. Inr ())
      else rbind (parse_property expr) (\<lambda>_. Inr ()))"

fun check_fields :: "string list \<Rightarrow> unit result" where
  "check_fields [] = Inr ()"
| "check_fields (f # fs) = rbind (check_field f) (\<lambda>_. check_fields fs)"

text \<open>The two sides of a guard; a query without \<open>=\<close> in its guard is not compiled.\<close>

definition guard_parts :: "string \<Rightarrow> (string \<times> string result) result" where
  "guard_parts w =
     (case find_char (CHR ''='') w of
        None \<Rightarrow> Inl (Error ParseError ''unsupported PDQL guard'')
      | Some n \<Rightarrow> Inr (pdql_trim (take n w), unquote (pdql_trim (drop (n + (if take 2 (drop n w) = ''=='' then 2 else 1)) w))))"

definition check_where :: "string \<Rightarrow> unit result" where
  "check_where w =
     (if w = [] then Inr ()
      else rbind (guard_parts w) (\<lambda>(key, expected). rbind (parse_property key) (\<lambda>_. rbind expected (\<lambda>_. Inr ()))))"

definition compile_query :: "xpath_engine \<Rightarrow> string \<Rightarrow> pdql_query result" where
  "compile_query evaluate source =
     (if 65536 < length source then Inl (Error ResourceLimit ''PDQL query exceeds 64 KiB'')
      else rbind (fold_source None None [] source) (\<lambda>folded.
        rbind (strip_block (pdql_trim folded)) (\<lambda>block.
        rbind (clauses (strip_serialization block)) (\<lambda>(sel, fields, guard).
          if sel = [] \<or> fields = [] then Inl (Error ParseError ''empty PDQL selector or projection'')
          else rbind (check_selector evaluate sel) (\<lambda>sel1.
            rbind (pdql_split fields) (\<lambda>fs.
            rbind (check_fields fs) (\<lambda>_.
            rbind (check_where guard) (\<lambda>_. Inr \<lparr>q_selector = sel1, q_fields = fields, q_where = guard\<rparr>))))))))"

section \<open>Redaction of the snapshot\<close>

definition pdql_sensitive :: "string \<Rightarrow> bool" where
  "pdql_sensitive name \<longleftrightarrow>
     (let n = to_lower name in
      is_sensitive_header policy_defaults n \<or> is_sensitive_query_parameter policy_defaults n \<or>
      list_ex (\<lambda>part. find_str part n \<noteq> None)
        [''password'', ''token'', ''secret'', ''cookie'', ''authorization'', ''api-key'', ''api_key''])"

text \<open>What is removed from an element, and the address attributes that are rewritten.\<close>

definition removed_attribute :: "string \<Rightarrow> string \<Rightarrow> bool" where
  "removed_attribute tg nm \<longleftrightarrow>
     pdql_sensitive nm \<or> prefix ''on'' nm \<or> (tg \<in> {''input'', ''option'', ''button''} \<and> nm = ''value'')"

definition address_attribute :: "string \<Rightarrow> bool" where
  "address_attribute nm \<longleftrightarrow> nm \<in> {''href'', ''src'', ''action''}"

definition secret_text :: "string \<Rightarrow> bool" where
  "secret_text tg \<longleftrightarrow> tg \<in> {''script'', ''style'', ''textarea'', ''select''}"

fun ofold :: "('a \<Rightarrow> 's \<Rightarrow> 's option) \<Rightarrow> 'a list \<Rightarrow> 's \<Rightarrow> 's option" where
  "ofold f [] s = Some s"
| "ofold f (x # xs) s = Option.bind (f x s) (ofold f xs)"

definition sanitize_attribute :: "string \<Rightarrow> nat \<Rightarrow> string \<times> string \<Rightarrow> dom \<Rightarrow> dom option" where
  "sanitize_attribute tg i a d =
     (let (nm, v) = a in
      if removed_attribute tg nm then map_option snd (element_remove_attribute (Some i) nm d)
      else if address_attribute nm then element_set_attribute (Some i) nm (redact_url policy_defaults v) d
      else Some d)"

definition sanitize_element :: "nat \<Rightarrow> dom \<Rightarrow> dom option" where
  "sanitize_element i d =
     (let tg = tag_name d (Some i) in
      Option.bind (if secret_text tg then set_text (Some i) [] d else Some d) (\<lambda>d1.
        ofold (sanitize_attribute tg i) (element_attributes d1 (Some i)) d1))"

definition sanitize :: "dom \<Rightarrow> document \<Rightarrow> dom result option" where
  "sanitize d doc = obind (document_query_selector_all d doc ''*'') (\<lambda>es. map_option Inr (ofold sanitize_element es d))"

section \<open>Executing a query\<close>

fun rofilter :: "('a \<Rightarrow> bool result option) \<Rightarrow> 'a list \<Rightarrow> 'a list result option" where
  "rofilter P [] = Some (Inr [])"
| "rofilter P (x # xs) = obind (P x) (\<lambda>b. obind (rofilter P xs) (\<lambda>ys. Some (Inr (if b then x # ys else ys))))"

definition select_nodes :: "xpath_engine \<Rightarrow> pdql_query \<Rightarrow> dom \<Rightarrow> document \<Rightarrow> handle list result option" where
  "select_nodes evaluate q d doc =
     (if prefix ''xpath('' (q_selector q) then
        (case rbind (xpath_source (q_selector q)) (evaluate d doc) of
           Inl e \<Rightarrow> Some (Inl e)
         | Inr Scalar_Value \<Rightarrow> Some (Inl (Error ParseError ''PDQL XPath must select nodes''))
         | Inr (Node_Set hs) \<Rightarrow> Some (Inr hs))
      else obind (document_query_selector_all d doc ''*'') (\<lambda>es.
        rofilter (\<lambda>h. map_option Inr (glob (to_lower (q_selector q)) (tag_name d h))) (map Some es)))"

definition guard_nodes :: "pdql_query \<Rightarrow> dom \<Rightarrow> handle list \<Rightarrow> handle list result option" where
  "guard_nodes q d hs =
     (if q_where q = [] then Some (Inr hs)
      else case guard_parts (q_where q) of
          Inl e \<Rightarrow> Some (Inl e)
        | Inr (key, Inl e) \<Rightarrow> Some (Inl e)
        | Inr (key, Inr expected) \<Rightarrow>
            rofilter (\<lambda>h. if h = None then Some (Inr False) else obind (property d h key) (\<lambda>v. Some (Inr (v = expected)))) hs)"

fun sum_texts :: "dom \<Rightarrow> handle list \<Rightarrow> double \<Rightarrow> double option" where
  "sum_texts d [] s = Some s"
| "sum_texts d (h # hs) s =
     (if h = None then sum_texts d hs s else Option.bind (element_text d h) (\<lambda>t. sum_texts d hs (double_add s (pdql_number t))))"

definition numeric :: "string \<Rightarrow> pdql_value" where
  "numeric s = \<lparr>v_text = s, v_numeric = True\<rparr>"

text \<open>A field of a row: its name and its value.\<close>

definition project_field :: "dom \<Rightarrow> nat \<Rightarrow> double \<Rightarrow> handle \<Rightarrow> string \<Rightarrow> (string \<times> pdql_value) result option" where
  "project_field d count sum_of h field =
     (let (alias, expr) = field_parts field; name = (case alias of None \<Rightarrow> field | Some a \<Rightarrow> a) in
      if expr = ''count'' \<or> expr = ''count()'' then Some (Inr (name, numeric (decimal count)))
      else if expr = ''sum'' \<or> expr = ''sum()'' \<or> expr = ''avg'' \<or> expr = ''avg()''
        then Some (Inr (name, numeric (double_text (if prefix ''avg'' expr then double_div sum_of count else sum_of))))
      else if expr = ''number'' then map_option (\<lambda>t. Inr (name, numeric (double_text (pdql_number t)))) (element_text d h)
      else if is_number_call expr
        then obind (property d h (number_argument expr)) (\<lambda>t. Some (Inr (name, numeric (double_text (pdql_number t)))))
      else obind (property d h expr) (\<lambda>t.
        let v = \<lparr>v_text = t, v_numeric = False\<rparr> in
        if alias = None \<and> prefix ''attr('' expr
        then (case unquote (pdql_trim (take (length expr - 6) (drop 5 expr))) of
            Inl e \<Rightarrow> Some (Inl e)
          | Inr nm \<Rightarrow> Some (Inr (nm, v)))
        else Some (Inr (name, v))))"

fun project_row :: "(string \<Rightarrow> (string \<times> pdql_value) result option) \<Rightarrow> string list \<Rightarrow> nat \<Rightarrow> pdql_row \<Rightarrow> (pdql_row \<times> nat) result option" where
  "project_row f [] bytes row = Some (Inr (row, bytes))"
| "project_row f (x # xs) bytes row =
     obind (f x) (\<lambda>(name, v).
       let bytes1 = bytes + (length name + length (v_text v)) in
       if 16 * 1024 * 1024 < bytes1 then Some (Inl (Error ResourceLimit ''PDQL projection exceeds 16 MiB''))
       else project_row f xs bytes1 (row_emplace name v row))"

fun project_rows :: "(handle \<Rightarrow> string \<Rightarrow> (string \<times> pdql_value) result option) \<Rightarrow> string \<Rightarrow> handle list \<Rightarrow> nat \<Rightarrow> pdql_row list result option" where
  "project_rows f flds [] bytes = Some (Inr [])"
| "project_rows f flds (h # hs) bytes =
     (if h = None then project_rows f flds hs bytes
      else case pdql_split flds of
          Inl e \<Rightarrow> Some (Inl e)
        | Inr fs \<Rightarrow> obind (project_row (f h) fs bytes []) (\<lambda>(row, bytes1).
            obind (project_rows f flds hs bytes1) (\<lambda>rows. Some (Inr (row # rows)))))"

definition execute_snapshot :: "xpath_engine \<Rightarrow> pdql_query \<Rightarrow> dom \<Rightarrow> document \<Rightarrow> pdql_row list result option" where
  "execute_snapshot evaluate q d doc =
     obind (select_nodes evaluate q d doc) (\<lambda>selected.
     obind (guard_nodes q d selected) (\<lambda>hs.
       if 10000 < length hs then Some (Inl (Error ResourceLimit ''PDQL exceeds 10000 rows''))
       else Option.bind (sum_texts d hs (Num False 0)) (\<lambda>sum_of.
         project_rows (project_field d (length hs) sum_of) (q_fields q) hs 0)))"

definition execute_query :: "xpath_engine \<Rightarrow> pdql_query \<Rightarrow> dom \<Rightarrow> document \<Rightarrow> bool \<Rightarrow> pdql_row list result option" where
  "execute_query evaluate q d doc redact =
     (if doc_root doc = None then Some (Inl (Error InvalidArgument ''PDQL requires a valid DOM''))
      else Option.bind (document_html d doc) (\<lambda>html.
        case parse_html html [] [] of
          Inl e \<Rightarrow> Some (Inl e)
        | Inr (d1, doc1) \<Rightarrow>
            obind (if redact then sanitize d1 doc1 else Some (Inr d1)) (\<lambda>d2. execute_snapshot evaluate q d2 doc1)))"

section \<open>What redaction leaves\<close>

definition attribute_step :: "string \<Rightarrow> string \<times> string \<Rightarrow> attribute list \<Rightarrow> attribute list" where
  "attribute_step tg a as =
     (if removed_attribute tg (fst a) then attr_remove (fst a) as
      else if address_attribute (fst a) then attr_set (fst a) (redact_url policy_defaults (snd a)) as else as)"

lemma steps_removed:
  "removed_attribute tg k \<Longrightarrow> k \<in> fst ` set L \<or> k \<notin> attr_name ` set as \<Longrightarrow> k \<notin> attr_name ` set (fold (attribute_step tg) L as)"
proof (induction L arbitrary: as)
  case (Cons a L)
  have "k \<in> fst ` set L \<or> k \<notin> attr_name ` set (attribute_step tg a as)"
    using Cons.prems by (auto simp: attribute_step_def attr_remove_def attr_set_names)
  then show ?case using Cons.IH [OF Cons.prems(1), of "attribute_step tg a as"] by simp
qed simp

lemma steps_kept:
  "\<not> removed_attribute tg k \<Longrightarrow> attr_find k (fold (attribute_step tg) L as) =
    (if address_attribute k then (case map_of (rev L) k of Some v \<Rightarrow> Some (redact_url policy_defaults v) | None \<Rightarrow> attr_find k as) else attr_find k as)"
proof (induction L rule: rev_induct)
  case (snoc a L)
  have rm: "attr_find k (attr_remove (fst a) bs) = attr_find k bs" if "k \<noteq> fst a" for bs
    using that by (induction bs) (auto simp: attr_remove_def)
  have st: "attr_find k (attr_set (fst a) v bs) = (if k = fst a then Some v else attr_find k bs)" for v bs
    by (induction bs) auto
  show ?case using snoc rm st by (cases a) (auto simp: attribute_step_def split: option.splits)
qed simp

text \<open>The attributes of a cleaned element of that tag, made from the attributes \<open>as\<close>.\<close>

definition clean_attributes :: "string \<Rightarrow> attribute list \<Rightarrow> attribute list \<Rightarrow> bool" where
  "clean_attributes tg as bs \<longleftrightarrow> (\<forall>b\<in>set bs. \<not> removed_attribute tg (attr_name b)) \<and>
     (\<forall>k. \<not> removed_attribute tg k \<longrightarrow>
        (if address_attribute k then attr_find k bs = None \<and> attr_find k as = None \<or> (\<exists>v. attr_find k bs = Some (redact_url policy_defaults v))
         else attr_find k bs = attr_find k as))"

lemma attr_find_None: "attr_find k as = None \<longleftrightarrow> k \<notin> attr_name ` set as"
  by (induction as) auto

lemma steps_clean: "clean_attributes tg as (fold (attribute_step tg) (map (\<lambda>a. (attr_name a, attr_value a)) as) as)"
proof -
  let ?L = "map (\<lambda>a. (attr_name a, attr_value a)) as" let ?bs = "fold (attribute_step tg) ?L as"
  have "\<not> removed_attribute tg (attr_name b)" if "b \<in> set ?bs" for b
    using steps_removed [of tg "attr_name b" ?L as] that by force
  moreover have "map_of (rev ?L) k = None \<longleftrightarrow> attr_find k as = None" for k
    by (simp add: map_of_eq_None_iff attr_find_None image_image)
  ultimately show ?thesis unfolding clean_attributes_def by (auto simp: steps_kept split: option.splits)
qed

text \<open>One element: only its attributes and, for secret text, its children change, and its children lose their parent.\<close>

definition relinked :: "dom \<Rightarrow> dom \<Rightarrow> nat \<Rightarrow> bool" where
  "relinked d d' j \<longleftrightarrow> node_at d' j = node_at d j \<or> node_at d' j = (node_at d j)\<lparr>parent := None\<rparr>"

definition blank_text :: "node \<Rightarrow> bool" where
  "blank_text n \<longleftrightarrow> ntype n = Text \<and> ntext n = [] \<and> children n = []"

lemma sanitize_attribute_effect:
  assumes "dom_wf d" and "i < size_dom d"
  shows "\<exists>d'. sanitize_attribute tg i a d = Some d' \<and> dom_wf d' \<and> size_dom d' = size_dom d \<and>
    (\<forall>j. node_at d' j = (if j = i then (node_at d i)\<lparr>attributes := attribute_step tg a (attributes (node_at d i))\<rparr> else node_at d j))"
proof (cases a)
  case (Pair nm v)
  show ?thesis
    using set_attribute_cases [OF assms, of nm "redact_url policy_defaults v"] remove_attribute_cases [OF assms, of nm] assms
    by (auto simp: Pair sanitize_attribute_def attribute_step_def element_remove_attribute_def element_set_attribute_def nth_list_update)
qed

lemma sanitize_attributes_effect:
  assumes "dom_wf d" and "i < size_dom d"
  shows "\<exists>d'. ofold (sanitize_attribute tg i) L d = Some d' \<and> dom_wf d' \<and> size_dom d' = size_dom d \<and>
    (\<forall>j. node_at d' j = (if j = i then (node_at d i)\<lparr>attributes := fold (attribute_step tg) L (attributes (node_at d i))\<rparr> else node_at d j))"
  using assms
proof (induction L arbitrary: d)
  case Nil
  then show ?case by auto
next
  case (Cons a L)
  obtain d1 where d1: "sanitize_attribute tg i a d = Some d1" "dom_wf d1" "size_dom d1 = size_dom d"
    "\<forall>j. node_at d1 j = (if j = i then (node_at d i)\<lparr>attributes := attribute_step tg a (attributes (node_at d i))\<rparr> else node_at d j)"
    using sanitize_attribute_effect [OF Cons.prems] by blast
  moreover have "i < size_dom d1" using d1(3) Cons.prems(2) by simp
  ultimately show ?case using Cons.IH [of d1] by auto
qed

lemma sanitize_element_effect:
  assumes "dom_wf d" and "i < size_dom d"
  shows "\<exists>d'. sanitize_element i d = Some d' \<and> dom_wf d' \<and> size_dom d \<le> size_dom d' \<and>
    (\<forall>j < size_dom d. j \<noteq> i \<longrightarrow> relinked d d' j) \<and> (\<forall>j < size_dom d'. size_dom d \<le> j \<longrightarrow> blank_text (node_at d' j)) \<and>
    (\<exists>bs cs. node_at d' i = (node_at d i)\<lparr>attributes := bs, children := cs\<rparr> \<and> clean_attributes (nname (node_at d i)) (attributes (node_at d i)) bs \<and>
       (if secret_text (nname (node_at d i)) then cs = [size_dom d] \<and> size_dom d < size_dom d' else cs = children (node_at d i)))"
proof -
  let ?tg = "nname (node_at d i)" and ?as = "attributes (node_at d i)"
  have tg: "tag_name d (Some i) = ?tg" by (simp add: tag_name_def)
  obtain d1 where d1: "(if secret_text ?tg then set_text (Some i) [] d else Some d) = Some d1" "dom_wf d1"
    "if secret_text ?tg then text_replaced i [] d d1 else d1 = d"
    using set_text_cases [OF assms, of "[]"] assms(1) by (cases "secret_text ?tg") auto
  have i1: "i < size_dom d1" and as: "attributes (node_at d1 i) = ?as"
    using d1(3) assms(2) by (auto simp: text_replaced_def split: if_splits)
  define L where "L = element_attributes d1 (Some i)"
  have L: "L = map (\<lambda>a. (attr_name a, attr_value a)) ?as" by (simp add: L_def element_attributes_def as)
  obtain d2 where d2: "ofold (sanitize_attribute ?tg i) L d1 = Some d2" "dom_wf d2" "size_dom d2 = size_dom d1"
    "\<And>j. node_at d2 j = (if j = i then (node_at d1 i)\<lparr>attributes := fold (attribute_step ?tg) L (attributes (node_at d1 i))\<rparr> else node_at d1 j)"
    using sanitize_attributes_effect [OF d1(2) i1, of ?tg L] by blast
  have run: "sanitize_element i d = Some d2" using d1(1) d2(1) by (simp add: sanitize_element_def tg L_def Let_def)
  show ?thesis
  proof (cases "secret_text ?tg")
    case True
    then have r: "text_replaced i [] d d1" using d1(3) by simp
    have "relinked d d2 j" if "j < size_dom d" "j \<noteq> i" for j
      using r that by (auto simp: relinked_def d2(4) text_replaced_def)
    moreover have "blank_text (node_at d2 j)" if "j < size_dom d2" "size_dom d \<le> j" for j
      using r that assms(2) d2(3) by (auto simp: blank_text_def d2(4) text_replaced_def fresh_node_def less_Suc_eq)
    moreover have "node_at d2 i = (node_at d i)\<lparr>attributes := fold (attribute_step ?tg) L ?as, children := [size_dom d]\<rparr>"
      using r assms(2) by (auto simp: d2(4) text_replaced_def)
    ultimately show ?thesis using run d2(2,3) r True steps_clean [of ?tg ?as] by (auto simp: text_replaced_def L)
  next
    case False
    then have "d1 = d" using d1(3) by simp
    then show ?thesis using run d2 False steps_clean [of ?tg ?as] by (auto simp: relinked_def L)
  qed
qed

text \<open>All elements.\<close>

definition cleaned :: "dom \<Rightarrow> dom \<Rightarrow> nat \<Rightarrow> bool" where
  "cleaned d d' i \<longleftrightarrow> ntype (node_at d' i) = ntype (node_at d i) \<and> nname (node_at d' i) = nname (node_at d i) \<and>
     (parent (node_at d' i) = parent (node_at d i) \<or> parent (node_at d' i) = None) \<and>
     clean_attributes (nname (node_at d i)) (attributes (node_at d i)) (attributes (node_at d' i)) \<and>
     (if secret_text (nname (node_at d i)) then \<exists>t < size_dom d'. children (node_at d' i) = [t] \<and> blank_text (node_at d' t)
      else children (node_at d' i) = children (node_at d i))"

lemma relinked_sel:
  "relinked d d' j \<Longrightarrow> ntype (node_at d' j) = ntype (node_at d j) \<and> nname (node_at d' j) = nname (node_at d j) \<and>
     attributes (node_at d' j) = attributes (node_at d j) \<and> ntext (node_at d' j) = ntext (node_at d j) \<and>
     children (node_at d' j) = children (node_at d j) \<and> (parent (node_at d' j) = parent (node_at d j) \<or> parent (node_at d' j) = None)"
  by (auto simp: relinked_def)

lemma relinked_trans: "relinked d d1 j \<Longrightarrow> relinked d1 d' j \<Longrightarrow> relinked d d' j"
  by (auto simp: relinked_def)

lemma relinked_blank: "relinked d d' j \<Longrightarrow> blank_text (node_at d j) \<Longrightarrow> blank_text (node_at d' j)"
  by (auto simp: relinked_def blank_text_def)

lemma cleaned_before: "relinked d d1 i \<Longrightarrow> cleaned d1 d' i \<Longrightarrow> cleaned d d' i"
  using relinked_sel [of d d1 i] by (auto simp: cleaned_def)

lemma cleaned_after:
  assumes "cleaned d d1 i" and "relinked d1 d' i" and "size_dom d1 \<le> size_dom d'"
    and "\<And>t. secret_text (nname (node_at d i)) \<Longrightarrow> children (node_at d1 i) = [t] \<Longrightarrow> t < size_dom d1 \<Longrightarrow> blank_text (node_at d1 t) \<Longrightarrow> blank_text (node_at d' t)"
  shows "cleaned d d' i"
  using assms(1,3,4) relinked_sel [OF assms(2)] unfolding cleaned_def by (fastforce split: if_splits)

lemma sanitize_elements_effect:
  assumes "dom_wf d" and "distinct es" and "\<forall>i\<in>set es. i < size_dom d"
  shows "\<exists>d'. ofold sanitize_element es d = Some d' \<and> dom_wf d' \<and> size_dom d \<le> size_dom d' \<and>
    (\<forall>j < size_dom d. j \<notin> set es \<longrightarrow> relinked d d' j) \<and> (\<forall>j < size_dom d'. size_dom d \<le> j \<longrightarrow> blank_text (node_at d' j)) \<and>
    (\<forall>i\<in>set es. cleaned d d' i)"
  using assms
proof (induction es arbitrary: d)
  case Nil
  then show ?case by (auto simp: relinked_def)
next
  case (Cons i es)
  then have i: "i < size_dom d" by simp
  from sanitize_element_effect [OF Cons.prems(1) i] obtain d1 bs cs where d1: "sanitize_element i d = Some d1" "dom_wf d1" "size_dom d \<le> size_dom d1"
    "\<forall>j < size_dom d. j \<noteq> i \<longrightarrow> relinked d d1 j" "\<forall>j < size_dom d1. size_dom d \<le> j \<longrightarrow> blank_text (node_at d1 j)"
    and n: "node_at d1 i = (node_at d i)\<lparr>attributes := bs, children := cs\<rparr>" "clean_attributes (nname (node_at d i)) (attributes (node_at d i)) bs"
      "if secret_text (nname (node_at d i)) then cs = [size_dom d] \<and> size_dom d < size_dom d1 else cs = children (node_at d i)"
    by blast
  have es: "distinct es" "i \<notin> set es" "\<forall>j\<in>set es. j < size_dom d1" "\<forall>j\<in>set es. j < size_dom d" using Cons.prems d1(3) by auto
  from Cons.IH [OF d1(2) es(1,3)] obtain d2 where d2: "ofold sanitize_element es d1 = Some d2" "dom_wf d2" "size_dom d1 \<le> size_dom d2"
    "\<forall>j < size_dom d1. j \<notin> set es \<longrightarrow> relinked d1 d2 j" "\<forall>j < size_dom d2. size_dom d1 \<le> j \<longrightarrow> blank_text (node_at d2 j)"
    "\<forall>j\<in>set es. cleaned d1 d2 j" by blast
  have old: "relinked d1 d2 j" if "size_dom d \<le> j" "j < size_dom d1" for j using d2(4) es(4) that by fastforce
  have blank: "blank_text (node_at d2 j)" if "j < size_dom d2" "size_dom d \<le> j" for j
    using d2(5) d1(5) relinked_blank [OF old] that by (cases "j < size_dom d1") auto
  have c1: "cleaned d d1 i" using n d1(5) by (auto simp: cleaned_def split: if_splits)
  have "cleaned d d2 i"
  proof (rule cleaned_after [OF c1 _ d2(3)])
    show "relinked d1 d2 i" using d2(4) es(2) i d1(3) by auto
    fix t assume t: "secret_text (nname (node_at d i))" "children (node_at d1 i) = [t]" "t < size_dom d1"
    then have "size_dom d \<le> t" using n by simp
    then show "blank_text (node_at d2 t)" using blank t(3) d2(3) by simp
  qed
  moreover have "cleaned d d2 j" if "j \<in> set es" for j using cleaned_before [of d d1 j d2] d1(4) d2(6) es that by metis
  moreover have "relinked d d2 j" if "j < size_dom d" "j \<notin> set (i # es)" for j
    using relinked_trans [of d d1 j d2] d1(3,4) d2(4) that by auto
  ultimately show ?case using d1(1,3) d2(1,2,3) blank by auto
qed

text \<open>The elements of the redacted snapshot are elements of the snapshot.\<close>

lemma links_kept:
  assumes "(r, j) \<in> (parent_rel d')\<^sup>*" and "dom_wf d'" and "r < size_dom d"
    and "\<And>i. i < size_dom d \<Longrightarrow> parent (node_at d' i) = parent (node_at d i) \<or> parent (node_at d' i) = None"
    and "\<And>i. i < size_dom d' \<Longrightarrow> size_dom d \<le> i \<Longrightarrow> blank_text (node_at d' i)"
    and "is_element (node_at d' j)" and "size_dom d \<le> size_dom d'"
  shows "j < size_dom d \<and> (r, j) \<in> (parent_rel d)\<^sup>*"
proof -
  have "j < size_dom d' \<and> (j < size_dom d \<longrightarrow> (r, j) \<in> (parent_rel d)\<^sup>*)"
    using assms(1)
  proof (induction rule: rtrancl_induct)
    case base
    then show ?case using assms(3,7) by simp
  next
    case (step x y)
    then have y: "y < size_dom d'" "parent (node_at d' y) = Some x" by (simp_all add: parent_rel_def)
    have "x < size_dom d" if "y < size_dom d"
    proof (rule ccontr)
      assume "\<not> x < size_dom d"
      then have "children (node_at d' x) = []" using assms(5) [of x] step.IH by (simp add: blank_text_def)
      moreover have "y \<in> set (children (node_at d' x))" using links_okD(3) [OF dom_wfD(1) [OF assms(2)] y] by blast
      ultimately show False by simp
    qed
    moreover have "(x, y) \<in> parent_rel d" if "y < size_dom d" using assms(4) [OF that] y(2) that by (auto simp: parent_rel_def)
    ultimately show ?case using y(1) step.IH by (meson rtrancl.rtrancl_into_rtrancl)
  qed
  moreover have "j < size_dom d"
  proof (rule ccontr)
    assume "\<not> j < size_dom d"
    with assms(5) [of j] assms(6) calculation show False by (simp add: blank_text_def is_element_def)
  qed
  ultimately show ?thesis by blast
qed

lemma blank_text_content:
  assumes "dom_wf d" and "i < size_dom d" and "children (node_at d i) = [t]" "t < size_dom d" "blank_text (node_at d t)"
    and "is_element (node_at d i)"
  shows "text_content d i = Some []"
proof -
  have "rep d {} t (node_tree (node_at d t) [])" using assms(4,5) by (intro rep) (simp_all add: blank_text_def)
  then have "rep d {} i (node_tree (node_at d i) [node_tree (node_at d t) []])" using assms(2,3) by (intro rep) simp_all
  then have "tree_at d i = Some (node_tree (node_at d i) [node_tree (node_at d t) []])" by (simp add: tree_at_rep [OF assms(1)])
  with assms(5,6) show ?thesis by (simp add: text_content_def node_tree_def blank_text_def is_element_def)
qed

lemma elements_of_document:
  assumes "dom_wf d" and "doc_root doc = Some r" and "r < size_dom d"
  obtains t where "itree_at d r = Some t" and "distinct (preorder t)" and "set (preorder t) = {j. (r, j) \<in> (parent_rel d)\<^sup>*}"
    and "\<forall>i\<in>set (preorder t). i < size_dom d"
    and "document_query_selector_all d doc ''*'' = Some (Inr (filter (\<lambda>i. is_element (node_at d i)) (preorder t)))"
proof -
  obtain t where t: "itree_at d r = Some t" "links d t" "iroot t = r"
    and q: "query_selector_all d r ''*'' True = Some (Inr (filter (\<lambda>i. is_element (node_at d i)) (preorder t)))"
    using universal_query [OF assms(1,3)] by blast
  have set: "set (preorder t) = {j. (r, j) \<in> (parent_rel d)\<^sup>*}" using preorder_descendants [OF assms(1) t(2)] t(3) by simp
  have "\<forall>i\<in>set (preorder t). i < size_dom d"
    unfolding set using assms(3) by (auto simp: parent_rel_def elim: rtranclE)
  with that t(1) preorder_distinct [OF assms(1) t(2)] set q assms(2) show ?thesis by (auto simp: document_query_selector_all_def)
qed

lemma sanitize_effect:
  assumes "dom_wf d" and "doc_root doc = Some r" and "r < size_dom d"
  shows "\<exists>d'. sanitize d doc = Some (Inr d') \<and> dom_wf d' \<and> r < size_dom d' \<and>
    (\<forall>i. (r, i) \<in> (parent_rel d')\<^sup>* \<longrightarrow> is_element (node_at d' i) \<longrightarrow> i < size_dom d' \<and> cleaned d d' i)"
proof -
  obtain t where t: "distinct (preorder t)" "set (preorder t) = {j. (r, j) \<in> (parent_rel d)\<^sup>*}" "\<forall>i\<in>set (preorder t). i < size_dom d"
    "document_query_selector_all d doc ''*'' = Some (Inr (filter (\<lambda>i. is_element (node_at d i)) (preorder t)))"
    using elements_of_document [OF assms] by metis
  let ?es = "filter (\<lambda>i. is_element (node_at d i)) (preorder t)"
  obtain d' where d': "ofold sanitize_element ?es d = Some d'" "dom_wf d'" "size_dom d \<le> size_dom d'"
    "\<forall>j < size_dom d. j \<notin> set ?es \<longrightarrow> relinked d d' j" "\<forall>j < size_dom d'. size_dom d \<le> j \<longrightarrow> blank_text (node_at d' j)"
    "\<forall>i\<in>set ?es. cleaned d d' i"
    using sanitize_elements_effect [OF assms(1), of ?es] t(1,3) by auto
  have kept: "(parent (node_at d' i) = parent (node_at d i) \<or> parent (node_at d' i) = None) \<and> ntype (node_at d' i) = ntype (node_at d i)"
    if "i < size_dom d" for i
  proof (cases "i \<in> set ?es")
    case True
    with d'(6) have "cleaned d d' i" by blast
    then show ?thesis by (simp add: cleaned_def)
  next
    case False
    with d'(4) that have "relinked d d' i" by blast
    from relinked_sel [OF this] show ?thesis by simp
  qed
  have "i < size_dom d' \<and> cleaned d d' i" if "(r, i) \<in> (parent_rel d')\<^sup>*" "is_element (node_at d' i)" for i
  proof -
    have "i < size_dom d \<and> (r, i) \<in> (parent_rel d)\<^sup>*"
    proof (rule links_kept [OF that(1) d'(2) assms(3) _ _ that(2) d'(3)])
      show "parent (node_at d' j) = parent (node_at d j) \<or> parent (node_at d' j) = None" if "j < size_dom d" for j using kept [OF that] by simp
      show "blank_text (node_at d' j)" if "j < size_dom d'" "size_dom d \<le> j" for j using d'(5) that by simp
    qed
    then have "i \<in> set ?es" using t(2) that(2) kept [of i] by (simp add: is_element_def)
    then show ?thesis using d'(3,6) t(3) by fastforce
  qed
  moreover have "sanitize d doc = Some (Inr d')" using t(4) d'(1) by (simp add: sanitize_def obind_def)
  ultimately show ?thesis using d'(2,3) assms(3) by auto
qed

text \<open>An element that discloses nothing private.\<close>

definition redacted_element :: "dom \<Rightarrow> nat \<Rightarrow> bool" where
  "redacted_element d i \<longleftrightarrow>
     (\<forall>a\<in>set (attributes (node_at d i)). \<not> pdql_sensitive (attr_name a) \<and> \<not> prefix ''on'' (attr_name a)) \<and>
     (nname (node_at d i) \<in> {''input'', ''option'', ''button''} \<longrightarrow> \<not> has_attribute d (Some i) ''value'') \<and>
     (\<forall>nm\<in>{''href'', ''src'', ''action''}. has_attribute d (Some i) nm \<longrightarrow>
        (\<exists>v. element_attribute d (Some i) nm = redact_url policy_defaults v)) \<and>
     (nname (node_at d i) \<in> {''script'', ''style'', ''textarea'', ''select''} \<longrightarrow> element_text d (Some i) = Some [])"

lemma cleaned_redacted:
  assumes "dom_wf d'" and "i < size_dom d'" and "cleaned d d' i" and "is_element (node_at d' i)"
  shows "redacted_element d' i"
proof -
  let ?n = "node_at d' i" and ?as = "attributes (node_at d i)"
  have nm: "nname ?n = nname (node_at d i)" and cl: "clean_attributes (nname ?n) ?as (attributes ?n)" using assms(3) by (auto simp: cleaned_def)
  have gone: "\<not> removed_attribute (nname ?n) k" if "has_attribute d' (Some i) k \<or> k \<in> attr_name ` set (attributes ?n)" for k
    using cl that attr_find_None [of k "attributes ?n"] by (auto simp: clean_attributes_def has_attribute_def attribute_of_def)
  have addr: "\<exists>v. element_attribute d' (Some i) k = redact_url policy_defaults v"
    if "k \<in> {''href'', ''src'', ''action''}" "has_attribute d' (Some i) k" for k
  proof -
    have "address_attribute k" using that(1) by (simp add: address_attribute_def)
    then show ?thesis using cl gone [of k] that(2) unfolding clean_attributes_def
      by (auto simp: has_attribute_def element_attribute_def attribute_of_def value_or_empty_def)
  qed
  have "element_text d' (Some i) = Some []" if "nname ?n \<in> {''script'', ''style'', ''textarea'', ''select''}"
  proof -
    have "secret_text (nname (node_at d i))" using that nm by (simp add: secret_text_def)
    then obtain t where "t < size_dom d'" "children ?n = [t]" "blank_text (node_at d' t)" using assms(3) by (auto simp: cleaned_def)
    then show ?thesis using blank_text_content [OF assms(1,2) _ _ _ assms(4)] by (simp add: element_text_def)
  qed
  with gone addr show ?thesis unfolding redacted_element_def by (auto simp: removed_attribute_def)
qed



section \<open>A compiled query returns its rows\<close>

lemma obind_simps [simp]: "obind (Some (Inr x)) f = f x" "obind (Some (Inl e)) f = Some (Inl e)" "obind None f = None"
  by (simp_all add: obind_def)

lemma rofilter_total: "(\<And>x. x \<in> set xs \<Longrightarrow> P x = Some (Inr (Q x))) \<Longrightarrow> rofilter P xs = Some (Inr (filter Q xs))"
  by (induction xs) auto

lemma text_total: "dom_wf d \<Longrightarrow> i < size_dom d \<Longrightarrow> \<exists>s. element_text d (Some i) = Some s"
  using tree_at_total [of d i] by (auto simp: element_text_def text_content_def)

lemma property_total:
  assumes "dom_wf d" and "i < size_dom d" and "parse_property expr = Inr p"
  shows "\<exists>s. property d (Some i) expr = Some (Inr s)"
  using text_total [OF assms(1,2)] assms(3)
  by (cases p; cases "snd p") (auto simp: property_def property_value_def)

text \<open>The projections that compilation accepts and execution refuses: a trimmed attribute without a name.\<close>

definition unnamed_trim :: "string \<Rightarrow> bool" where
  "unnamed_trim field \<longleftrightarrow> CHR '':'' \<notin> set field \<and> prefix ''attr('' field \<and> suffix ''.trim()'' field"

lemma unquote_error: "unquote s = Inl e \<Longrightarrow> code e = ParseError"
  by (auto simp: unquote_def split: if_splits)

lemma attribute_name:
  assumes "parse_property expr = Inr p" and "prefix ''attr('' expr" and "\<not> suffix ''.trim()'' expr"
  shows "\<exists>nm. unquote (pdql_trim (take (length expr - 6) (drop 5 expr))) = Inr nm"
proof -
  have "\<not> prefix ''node.'' expr" "expr \<noteq> ''text''" "expr \<noteq> ''tag''" "expr \<noteq> ''tag_name''" using assms(2) by (auto simp: prefix_def)
  with assms show ?thesis by (auto simp: parse_property_def rbind_Inr_iff split: if_splits)
qed

lemma field_parts_none: "field_parts f = (None, expr) \<longleftrightarrow> CHR '':'' \<notin> set f \<and> expr = f"
  by (auto simp: field_parts_def find_char_None_iff [symmetric] split: option.splits)

lemma project_field_total:
  assumes "dom_wf d" and "i < size_dom d" and "check_field f = Inr ()"
  shows "\<exists>out. project_field d n x (Some i) f = Some out \<and> (\<forall>e. out = Inl e \<longrightarrow> code e = ParseError \<and> unnamed_trim f)"
proof -
  obtain al expr where fp: "field_parts f = (al, expr)" by fastforce
  obtain s where s: "element_text d (Some i) = Some s" using text_total [OF assms(1,2)] by blast
  consider (aggregate) "expr \<in> {''count()'', ''count'', ''sum()'', ''sum'', ''avg()'', ''avg'', ''number''}"
    | (call) p where "expr \<notin> {''count()'', ''count'', ''sum()'', ''sum'', ''avg()'', ''avg'', ''number''}" "is_number_call expr"
        "parse_property (number_argument expr) = Inr p"
    | (plain) p where "expr \<notin> {''count()'', ''count'', ''sum()'', ''sum'', ''avg()'', ''avg'', ''number''}" "\<not> is_number_call expr" "parse_property expr = Inr p"
    using assms(3) by (auto simp: check_field_def fp rbind_Inr_iff Let_def split: if_splits)
  then show ?thesis
  proof cases
    case aggregate
    then show ?thesis using s by (auto simp: project_field_def fp Let_def)
  next
    case call
    then show ?thesis using property_total [OF assms(1,2) call(3)] by (auto simp: project_field_def fp Let_def)
  next
    case plain
    obtain v where v: "property d (Some i) expr = Some (Inr v)" using property_total [OF assms(1,2) plain(3)] by blast
    show ?thesis
    proof (cases "al = None \<and> prefix ''attr('' expr")
      case True
      then have f: "CHR '':'' \<notin> set f" "expr = f" using fp field_parts_none by auto
      then have "unnamed_trim f \<or> (\<exists>nm. unquote (pdql_trim (take (length expr - 6) (drop 5 expr))) = Inr nm)"
        using attribute_name [OF plain(3)] True by (auto simp: unnamed_trim_def)
      then show ?thesis using plain v True unquote_error
        by (auto simp: project_field_def fp Let_def split: sum.splits)
    next
      case False
      then show ?thesis using plain v by (auto simp: project_field_def fp Let_def)
    qed
  qed
qed

text \<open>The row of an element, made of the values of its fields in their order, and the size of a row.\<close>

definition row_of :: "(handle \<Rightarrow> string \<Rightarrow> (string \<times> pdql_value) result option) \<Rightarrow> string list \<Rightarrow> nat \<Rightarrow> pdql_row \<Rightarrow> bool" where
  "row_of g fs i row \<longleftrightarrow> (\<exists>vs. map (g (Some i)) fs = map (\<lambda>v. Some (Inr v)) vs \<and> row = fold (\<lambda>(n, v). row_emplace n v) vs [])"

definition row_bytes :: "pdql_row \<Rightarrow> nat" where
  "row_bytes row = sum_list (map (\<lambda>(n, v). length n + length (v_text v)) row)"

definition faulty :: "string list \<Rightarrow> error \<Rightarrow> bool" where
  "faulty fs e \<longleftrightarrow> code e = ResourceLimit \<or> code e = ParseError \<and> list_ex unnamed_trim fs"

lemma row_emplace_bytes: "row_bytes (row_emplace n v row) \<le> row_bytes row + (length n + length (v_text v))"
  by (induction n v row rule: row_emplace.induct) (auto simp: row_bytes_def)

lemma project_row_total:
  assumes "\<And>f. f \<in> set fs \<Longrightarrow> \<exists>out. g f = Some out \<and> (\<forall>e. out = Inl e \<longrightarrow> code e = ParseError \<and> unnamed_trim f)"
    and "bytes \<le> 16777216"
  shows "\<exists>out. project_row g fs bytes row = Some out \<and>
    (case out of Inl e \<Rightarrow> faulty fs e
     | Inr (row', bytes') \<Rightarrow> (\<exists>vs. map g fs = map (\<lambda>v. Some (Inr v)) vs \<and> row' = fold (\<lambda>(n, v). row_emplace n v) vs row) \<and>
         row_bytes row' + bytes \<le> row_bytes row + bytes' \<and> bytes' \<le> 16777216)"
  using assms
proof (induction fs arbitrary: bytes row)
  case Nil
  then show ?case by auto
next
  case (Cons f fs)
  from Cons.prems(1) [of f] obtain out where out: "g f = Some out" "\<forall>e. out = Inl e \<longrightarrow> code e = ParseError \<and> unnamed_trim f" by auto
  show ?case
  proof (cases out)
    case (Inl e)
    with out show ?thesis by (simp add: faulty_def)
  next
    case (Inr p)
    obtain n v where p: "p = (n, v)" by fastforce
    define b where "b = bytes + (length n + length (v_text v))"
    show ?thesis
    proof (cases "16777216 < b")
      case True
      with out(1) Inr p show ?thesis by (simp add: b_def faulty_def)
    next
      case False
      then have step: "project_row g (f # fs) bytes row = project_row g fs b (row_emplace n v row)" using out(1) Inr p by (simp add: b_def Let_def)
      from Cons.IH [OF Cons.prems(1), of b "row_emplace n v row"] False obtain out2 where out2: "project_row g fs b (row_emplace n v row) = Some out2"
        "case out2 of Inl e \<Rightarrow> faulty fs e
         | Inr (row', bytes') \<Rightarrow> (\<exists>vs. map g fs = map (\<lambda>v. Some (Inr v)) vs \<and> row' = fold (\<lambda>(n, v). row_emplace n v) vs (row_emplace n v row)) \<and>
             row_bytes row' + b \<le> row_bytes (row_emplace n v row) + bytes' \<and> bytes' \<le> 16777216" by auto
      show ?thesis
      proof (cases out2)
        case (Inl e)
        with out2 step show ?thesis by (auto simp: faulty_def)
      next
        case (Inr q)
        obtain row' bytes' where q: "q = (row', bytes')" by fastforce
        from out2(2) Inr q obtain vs where vs: "map g fs = map (\<lambda>v. Some (Inr v)) vs" "row' = fold (\<lambda>(n, v). row_emplace n v) vs (row_emplace n v row)"
          "row_bytes row' + b \<le> row_bytes (row_emplace n v row) + bytes'" "bytes' \<le> 16777216" by auto
        have "map g (f # fs) = map (\<lambda>v. Some (Inr v)) ((n, v) # vs)" using vs(1) out(1) \<open>out = Inr p\<close> p by simp
        moreover have "row' = fold (\<lambda>(n, v). row_emplace n v) ((n, v) # vs) row" using vs(2) by simp
        moreover have "row_bytes row' + bytes \<le> row_bytes row + bytes'" using vs(3) row_emplace_bytes [of n v row] by (simp add: b_def)
        ultimately have "(\<exists>vs. map g (f # fs) = map (\<lambda>v. Some (Inr v)) vs \<and> row' = fold (\<lambda>(n, v). row_emplace n v) vs row) \<and>
          row_bytes row' + bytes \<le> row_bytes row + bytes' \<and> bytes' \<le> 16777216" using vs(4) by blast
        then show ?thesis using step out2(1) Inr q by simp
      qed
    qed
  qed
qed

lemma project_rows_total:
  assumes "\<And>i f. i \<in> set ms \<Longrightarrow> f \<in> set fs \<Longrightarrow> \<exists>out. g (Some i) f = Some out \<and> (\<forall>e. out = Inl e \<longrightarrow> code e = ParseError \<and> unnamed_trim f)"
    and "bytes \<le> 16777216" and "pdql_split flds = Inr fs"
  shows "\<exists>out. project_rows g flds (map Some ms) bytes = Some out \<and>
    (case out of Inl e \<Rightarrow> faulty fs e
     | Inr rows \<Rightarrow> list_all2 (row_of g fs) ms rows \<and> sum_list (map row_bytes rows) + bytes \<le> 16777216)"
  using assms(1,2)
proof (induction ms arbitrary: bytes)
  case (Cons i ms)
  from project_row_total [of fs "g (Some i)" bytes "[]"] Cons.prems obtain out where out: "project_row (g (Some i)) fs bytes [] = Some out"
    "case out of Inl e \<Rightarrow> faulty fs e
     | Inr (row, bytes') \<Rightarrow> (\<exists>vs. map (g (Some i)) fs = map (\<lambda>v. Some (Inr v)) vs \<and> row = fold (\<lambda>(n, v). row_emplace n v) vs []) \<and>
         row_bytes row + bytes \<le> row_bytes [] + bytes' \<and> bytes' \<le> 16777216" by auto
  show ?case
  proof (cases out)
    case (Inl e)
    with out assms(3) show ?thesis by simp
  next
    case (Inr p)
    obtain row bytes' where p: "p = (row, bytes')" by fastforce
    have row: "row_of g fs i row" "row_bytes row + bytes \<le> bytes'" "bytes' \<le> 16777216"
      using out(2) Inr p by (auto simp: row_of_def row_bytes_def)
    have "\<exists>out. project_rows g flds (map Some ms) bytes' = Some out \<and>
      (case out of Inl e \<Rightarrow> faulty fs e | Inr rows \<Rightarrow> list_all2 (row_of g fs) ms rows \<and> sum_list (map row_bytes rows) + bytes' \<le> 16777216)"
      by (rule Cons.IH) (use Cons.prems row in auto)
    then obtain out2 where out2: "project_rows g flds (map Some ms) bytes' = Some out2"
      "case out2 of Inl e \<Rightarrow> faulty fs e | Inr rows \<Rightarrow> list_all2 (row_of g fs) ms rows \<and> sum_list (map row_bytes rows) + bytes' \<le> 16777216" by blast
    then show ?thesis using out(1) Inr p assms(3) row by (cases out2) auto
  qed
qed simp

lemma compiled:
  assumes "compile_query evaluate source = Inr q"
  shows "\<exists>fs. pdql_split (q_fields q) = Inr fs \<and> (\<forall>f\<in>set fs. check_field f = Inr ()) \<and> check_where (q_where q) = Inr ()"
proof -
  have "check_fields fs = Inr () \<Longrightarrow> \<forall>f\<in>set fs. check_field f = Inr ()" for fs by (induction fs) (auto simp: rbind_Inr_iff)
  with assms show ?thesis by (auto simp: compile_query_def rbind_Inr_iff split: if_splits)
qed

text \<open>The elements that a query on tags selects.\<close>

definition guard_holds :: "pdql_query \<Rightarrow> dom \<Rightarrow> nat \<Rightarrow> bool" where
  "guard_holds q d i \<longleftrightarrow> q_where q = [] \<or>
     (\<exists>key expected. guard_parts (q_where q) = Inr (key, Inr expected) \<and> property d (Some i) key = Some (Inr expected))"

definition query_selects :: "pdql_query \<Rightarrow> dom \<Rightarrow> nat \<Rightarrow> bool" where
  "query_selects q d i \<longleftrightarrow> is_element (node_at d i) \<and> glob (to_lower (q_selector q)) (nname (node_at d i)) = Some True \<and> guard_holds q d i"

lemma rofilter_handles:
  assumes "\<And>i. i \<in> set is' \<Longrightarrow> P (Some i) = Some (Inr (Q i))"
  shows "rofilter P (map Some is') = Some (Inr (map Some (filter Q is')))"
proof -
  have "rofilter P (map Some is') = Some (Inr (filter (\<lambda>h. Q (the h)) (map Some is')))"
    using assms by (intro rofilter_total) auto
  then show ?thesis by (simp add: filter_map comp_def)
qed

lemma guard_nodes_selects:
  assumes "dom_wf d" and "check_where (q_where q) = Inr ()" and "\<forall>i\<in>set is'. i < size_dom d"
  shows "guard_nodes q d (map Some is') = Some (Inr (map Some (filter (guard_holds q d) is')))"
proof (cases "q_where q = []")
  case True
  then show ?thesis by (simp add: guard_nodes_def guard_holds_def)
next
  case False
  then obtain key expected p where g: "guard_parts (q_where q) = Inr (key, Inr expected)" "parse_property key = Inr p"
    using assms(2) by (auto simp: check_where_def rbind_Inr_iff)
  have "obind (property d (Some i) key) (\<lambda>v. Some (Inr (v = expected))) = Some (Inr (guard_holds q d i))" if "i \<in> set is'" for i
    using property_total [OF assms(1) _ g(2), of i] assms(3) that g(1) False by (auto simp: guard_holds_def)
  then show ?thesis using False by (simp add: guard_nodes_def g(1) rofilter_handles)
qed

lemma select_nodes_selects:
  assumes "document_query_selector_all d doc ''*'' = Some (Inr es)" and "\<not> prefix ''xpath('' (q_selector q)"
  shows "select_nodes evaluate q d doc = Some (Inr (map Some (filter (\<lambda>i. glob (to_lower (q_selector q)) (nname (node_at d i)) = Some True) es)))"
proof -
  let ?p = "to_lower (q_selector q)"
  have "map_option Inr (glob ?p (tag_name d (Some i))) = Some (Inr (glob ?p (nname (node_at d i)) = Some True))" for i
    using glob_total [of ?p "nname (node_at d i)"] by (auto simp: tag_name_def)
  then show ?thesis using assms by (simp add: select_nodes_def rofilter_handles)
qed

lemma sum_texts_total: "dom_wf d \<Longrightarrow> \<forall>i\<in>set ms. i < size_dom d \<Longrightarrow> \<exists>y. sum_texts d (map Some ms) x = Some y"
proof (induction ms arbitrary: x)
  case (Cons i ms)
  then show ?case using text_total [of d i] by auto
qed simp

text \<open>What a query gives on a snapshot: the rows of the selected elements in document order, or a limit.\<close>

definition rows_of_query :: "pdql_query \<Rightarrow> dom \<Rightarrow> nat \<Rightarrow> string list \<Rightarrow> nat list \<Rightarrow> pdql_row list \<Rightarrow> bool" where
  "rows_of_query q d r fs ms rows \<longleftrightarrow>
     (\<exists>t x. itree_at d r = Some t \<and> ms = filter (query_selects q d) (preorder t) \<and> length ms \<le> 10000 \<and>
        sum_texts d (map Some ms) (Num False 0) = Some x \<and> list_all2 (row_of (project_field d (length ms) x) fs) ms rows \<and>
        sum_list (map row_bytes rows) \<le> 16 * 1024 * 1024)"

lemma execute_snapshot_correct:
  assumes "compile_query evaluate source = Inr q" and "\<not> prefix ''xpath('' (q_selector q)" and "pdql_split (q_fields q) = Inr fs"
    and "dom_wf d" and "doc_root doc = Some r" and "r < size_dom d"
  shows "\<exists>out. execute_snapshot evaluate q d doc = Some out \<and> (case out of Inl e \<Rightarrow> faulty fs e | Inr rows \<Rightarrow> \<exists>ms. rows_of_query q d r fs ms rows)"
proof -
  have checked: "\<forall>f\<in>set fs. check_field f = Inr ()" "check_where (q_where q) = Inr ()" using compiled [OF assms(1)] assms(3) by auto
  obtain t where t: "itree_at d r = Some t" "\<forall>i\<in>set (preorder t). i < size_dom d"
    "document_query_selector_all d doc ''*'' = Some (Inr (filter (\<lambda>i. is_element (node_at d i)) (preorder t)))"
    using elements_of_document [OF assms(4,5,6)] by metis
  define ms where "ms = filter (query_selects q d) (preorder t)"
  have ms: "\<forall>i\<in>set ms. i < size_dom d" using t(2) by (simp add: ms_def)
  let ?named = "filter (\<lambda>i. glob (to_lower (q_selector q)) (nname (node_at d i)) = Some True) (filter (\<lambda>i. is_element (node_at d i)) (preorder t))"
  have "guard_nodes q d (map Some ?named) = Some (Inr (map Some (filter (guard_holds q d) ?named)))"
    using t(2) by (intro guard_nodes_selects [OF assms(4) checked(2)]) auto
  moreover have "filter (guard_holds q d) ?named = ms" unfolding ms_def by (auto simp: query_selects_def intro!: filter_cong)
  ultimately have nodes: "execute_snapshot evaluate q d doc = (if 10000 < length ms then Some (Inl (Error ResourceLimit ''PDQL exceeds 10000 rows''))
      else Option.bind (sum_texts d (map Some ms) (Num False 0)) (\<lambda>x. project_rows (project_field d (length ms) x) (q_fields q) (map Some ms) 0))"
    by (simp add: execute_snapshot_def select_nodes_selects [OF t(3) assms(2)])
  show ?thesis
  proof (cases "10000 < length ms")
    case True
    then show ?thesis by (simp add: nodes faulty_def)
  next
    case False
    obtain x where x: "sum_texts d (map Some ms) (Num False 0) = Some x" using sum_texts_total [OF assms(4) ms] by blast
    have field: "\<exists>out. project_field d (length ms) x (Some i) f = Some out \<and> (\<forall>e. out = Inl e \<longrightarrow> code e = ParseError \<and> unnamed_trim f)"
      if "i \<in> set ms" "f \<in> set fs" for i f
      using ms checked(1) that by (intro project_field_total [OF assms(4)]) auto
    obtain out where out: "project_rows (project_field d (length ms) x) (q_fields q) (map Some ms) 0 = Some out"
      "case out of Inl e \<Rightarrow> faulty fs e
       | Inr rows \<Rightarrow> list_all2 (row_of (project_field d (length ms) x) fs) ms rows \<and> sum_list (map row_bytes rows) + 0 \<le> 16777216"
      using project_rows_total [of ms fs "project_field d (length ms) x" 0 "q_fields q"] field assms(3) by auto
    have "rows_of_query q d r fs ms rows" if "out = Inr rows" for rows
      unfolding rows_of_query_def using out(2) that t(1) False x by (intro exI [of _ t] exI [of _ x]) (simp add: ms_def)
    with out False x show ?thesis by (cases out) (auto simp: nodes)
  qed
qed

lemma parse_html_error: "parse_html html u b = Inl e \<Longrightarrow> code e = ResourceLimit"
  using parse_loop_inv [OF initial_inv, of "html_tokenizer html"]
  by (auto simp: parse_html_def parse_html_tree_def parse_start limit_error_def rbind_def split: sum.splits if_splits)

lemma parse_html_root:
  assumes "parse_html html u b = Inr (d, doc)"
  shows "dom_wf d \<and> doc_root doc = Some 0 \<and> 0 < size_dom d"
proof -
  obtain "parse_html_tree html = Inr d" "doc_root doc = Some 0" using assms by (auto simp: parse_html_def rbind_Inr_iff)
  moreover from this(1) obtain t where "rep d {} 0 t" using parse_html_tree_Inr parse_html_tree_wf tree_at_rep by metis
  then have "0 < size_dom d" by (auto elim: repE)
  ultimately show ?thesis using parse_html_wf [OF assms] by simp
qed

text \<open>
  C14: executing a compiled query on tags.  On any well-formed page it returns.  It gives a row for every element of the snapshot whose name matches the pattern and for which the guard
  holds, in document order; at most 10000 rows of at most 16 MiB together; with redaction every selected element discloses nothing private.  Otherwise a limit is
  exceeded, or the projection has a trimmed attribute without a name, which compilation accepts although execution cannot name the field.
\<close>

theorem pdql_execute_correct:
  assumes "compile_query evaluate source = Inr q" and "\<not> prefix ''xpath('' (q_selector q)" and "pdql_split (q_fields q) = Inr fs"
    and "dom_wf d" and "doc_root doc = Some r" and "r < size_dom d"
  shows "\<exists>out. execute_query evaluate q d doc redact = Some out \<and>
    (case out of
       Inl e \<Rightarrow> code e = ResourceLimit \<or> code e = ParseError \<and> list_ex unnamed_trim fs
     | Inr rows \<Rightarrow> \<exists>html d1 doc1 d' ms. document_html d doc = Some html \<and> parse_html html [] [] = Inr (d1, doc1) \<and>
         (if redact then sanitize d1 doc1 = Some (Inr d') \<and> list_all (redacted_element d') ms else d' = d1) \<and>
         rows_of_query q d' 0 fs ms rows)"
proof -
  obtain html where html: "document_html d doc = Some html"
    using tree_at_total [OF assms(4,6)] assms(5) by (auto simp: document_html_def serialize_def)
  show ?thesis
  proof (cases "parse_html html [] []")
    case (Inl e)
    then show ?thesis using html assms(5) parse_html_error [OF Inl] by (simp add: execute_query_def)
  next
    case (Inr p)
    obtain d1 doc1 where p: "parse_html html [] [] = Inr (d1, doc1)" using Inr by (cases p) simp
    note root = parse_html_root [OF p]
    obtain d' where d': "(if redact then sanitize d1 doc1 else Some (Inr d1)) = Some (Inr d')" "dom_wf d'" "0 < size_dom d'"
      "redact \<Longrightarrow> (0, i) \<in> (parent_rel d')\<^sup>* \<Longrightarrow> is_element (node_at d' i) \<Longrightarrow> redacted_element d' i" for i
      using sanitize_effect [of d1 doc1 0] root cleaned_redacted by (cases redact) (auto, blast)
    obtain out where out: "execute_snapshot evaluate q d' doc1 = Some out"
      "case out of Inl e \<Rightarrow> faulty fs e | Inr rows \<Rightarrow> \<exists>ms. rows_of_query q d' 0 fs ms rows"
      using execute_snapshot_correct [OF assms(1-3) d'(2) _ d'(3), of doc1] root by auto
    have run: "execute_query evaluate q d doc redact = Some out" using html assms(5) p d'(1) out(1) by (simp add: execute_query_def)
    have "redact \<Longrightarrow> list_all (redacted_element d') ms" if rows: "rows_of_query q d' 0 fs ms rows" for ms rows
    proof -
      obtain t where t: "itree_at d' 0 = Some t" "ms = filter (query_selects q d') (preorder t)" using rows by (auto simp: rows_of_query_def)
      have "set (preorder t) = {j. (0, j) \<in> (parent_rel d')\<^sup>*}"
        using elements_of_document [OF d'(2) _ d'(3), of doc1] root t(1) by (metis option.inject)
      then show "redact \<Longrightarrow> list_all (redacted_element d') ms" using d'(4) t(2) by (auto simp: list_all_iff query_selects_def)
    qed
    with run out(2) html p d'(1) show ?thesis by (cases out) (auto simp: faulty_def split: if_splits)
  qed
qed

lemma sample_query:
  "compile_query evaluate ''h?'' = Inr \<lparr>q_selector = ''h?'', q_fields = ''text'', q_where = []\<rparr>" "pdql_split ''text'' = Inr [''text'']"
proof -
  have 1: "fold_source None None [] ''h?'' = Inr ''h?''" "pdql_trim ''h?'' = ''h?''" "strip_block ''h?'' = Inr ''h?''"
    "strip_serialization ''h?'' = ''h?''" "clauses ''h?'' = Inr (''h?'', ''text'', [])" "list_all tag_pattern_char ''h?''" by code_simp+
  have "check_fields [''text''] = Inr ()" "pdql_split ''text'' = Inr [''text'']" by code_simp+
  with 1 show "compile_query evaluate ''h?'' = Inr \<lparr>q_selector = ''h?'', q_fields = ''text'', q_where = []\<rparr>" "pdql_split ''text'' = Inr [''text'']"
    by (simp_all add: compile_query_def check_selector_def check_where_def)
qed

theorem pdql_execute_correct_witness:
  "\<exists>out. execute_query (\<lambda>_ _ _. Inr (Node_Set [])) \<lparr>q_selector = ''h?'', q_fields = ''text'', q_where = []\<rparr> sample_dom
      \<lparr>doc_root = Some 0, doc_url = [], doc_base_url = []\<rparr> True = Some out \<and>
    (case out of Inl e \<Rightarrow> code e = ResourceLimit | Inr rows \<Rightarrow> \<exists>d' ms. list_all (redacted_element d') ms \<and>
       rows_of_query \<lparr>q_selector = ''h?'', q_fields = ''text'', q_where = []\<rparr> d' 0 [''text''] ms rows)"
proof -
  let ?e = "\<lambda>_ _ _. Inr (Node_Set [])" and ?doc = "\<lparr>doc_root = Some 0, doc_url = [], doc_base_url = []\<rparr>"
  have "0 < size_dom sample_dom" by (simp add: sample_dom_def)
  from pdql_execute_correct [OF sample_query(1) [of ?e] _ _ sample_dom_wf _ this, of "[''text'']" ?doc True]
  show ?thesis by (auto simp: sample_query(2) unnamed_trim_def split: sum.splits) blast
qed

text \<open>A projection of a trimmed attribute compiles; every element that it is applied to makes the execution fail.\<close>

lemma trimmed_attribute_fails:
  defines "f \<equiv> ''attr('' @ [CHR 0x22] @ ''x'' @ [CHR 0x22] @ '').trim()''"
  shows "check_field f = Inr () \<and> project_field d n x (Some i) f = Some (Inl (Error ParseError ''PDQL requires a quoted string''))"
proof -
  have "field_parts f = (None, f)" by (simp add: f_def field_parts_none)
  moreover have "parse_property f = Inr (True, P_Attribute ''x'')" unfolding f_def by code_simp
  moreover have "\<not> is_number_call f" "f \<notin> {''count()'', ''count'', ''sum()'', ''sum'', ''avg()'', ''avg'', ''number''}" "prefix ''attr('' f"
    by (simp_all add: f_def is_number_call_def)
  moreover have "unquote (pdql_trim (take (length f - 6) (drop 5 f))) = Inl (Error ParseError ''PDQL requires a quoted string'')"
    unfolding f_def by code_simp
  ultimately show ?thesis by (simp add: check_field_def project_field_def property_def property_value_def Let_def)
qed

end
