(* ===== verification/Endpoint_Script.thy ===== *)
theory Endpoint_Script
  imports Binary64
begin

text \<open>
  \<^verbatim>\<open>endpoint_extraction.cpp\<close>, the heuristic scanner of scripts: six passes over the text that look for calls with a quoted address
  and for quoted paths.  Positions are indices of the text as in the source.  A confidence is the value of a double.  Shown: all passes
  end, everything found has a known method and one of two provenances, and every literal call of the recognised forms is found
  wherever it stands.
\<close>

definition find_at :: "char \<Rightarrow> string \<Rightarrow> nat \<Rightarrow> nat option" where
  "find_at c s pos = find_from [c] s pos"

definition is_http_method :: "string \<Rightarrow> bool" where
  "is_http_method m \<longleftrightarrow> m \<in> set [''get'', ''post'', ''put'', ''patch'', ''delete'', ''head'', ''options'']"

definition normalize_method :: "string \<Rightarrow> string \<Rightarrow> string" where
  "normalize_method m fallback =
     (if m = [] then fallback else let m1 = to_lower m in if is_http_method m1 then m1 else to_lower fallback)"

text \<open>The value of a literal with two digits behind the point.\<close>

definition confidence_literal :: "nat \<Rightarrow> rat" where
  "confidence_literal k = (case round64 (of_nat k / 100) of Some q \<Rightarrow> q | None \<Rightarrow> 0)"

record script_endpoint =
  se_method :: string
  se_url :: string
  se_confidence :: rat
  se_discovery :: string

definition call_endpoint :: "string \<Rightarrow> string \<Rightarrow> script_endpoint" where
  "call_endpoint m u = \<lparr>se_method = m, se_url = u, se_confidence = confidence_literal 65, se_discovery = ''inline-script''\<rparr>"

section \<open>Reading\<close>

text \<open>\<open>read_quoted\<close>: the contents of a quoted literal and the position behind it.\<close>

fun script_quoted_loop :: "char \<Rightarrow> string \<Rightarrow> (string \<times> nat) option" where
  "script_quoted_loop q [] = None"
| "script_quoted_loop q (c # s) =
     (if c = CHR 0x5C \<and> s \<noteq> [] then map_option (\<lambda>(out, n). (hd s # out, n + 2)) (script_quoted_loop q (tl s))
      else if c = q then Some ([], 1)
      else map_option (\<lambda>(out, n). (c # out, n + 1)) (script_quoted_loop q s))"

definition is_quote :: "char \<Rightarrow> bool" where
  "is_quote c \<longleftrightarrow> c = CHR 0x27 \<or> c = CHR 0x22 \<or> c = CHR 0x60"

definition read_quoted :: "string \<Rightarrow> nat \<Rightarrow> (string \<times> nat) option" where
  "read_quoted script start =
     (if start \<ge> length script then None
      else if \<not> is_quote (script ! start) then None
      else map_option (\<lambda>(out, n). (out, start + 1 + n)) (script_quoted_loop (script ! start) (drop (start + 1) script)))"

definition skip_blanks :: "string \<Rightarrow> nat \<Rightarrow> nat" where
  "skip_blanks s i = i + length (takeWhile isspace (drop i s))"

definition read_literal_at :: "string \<Rightarrow> nat \<Rightarrow> string option" where
  "read_literal_at script i = map_option fst (read_quoted script (skip_blanks script i))"

text \<open>The positions where the loops \<open>while ((cursor = script.find(p, cursor)) != npos) { ... cursor += |p|; }\<close> stop.\<close>

function occurrences :: "string \<Rightarrow> string \<Rightarrow> nat \<Rightarrow> nat list" where
  "occurrences p s cursor =
     (if p = [] then []
      else case find_from p s cursor of None \<Rightarrow> [] | Some i \<Rightarrow> i # occurrences p s (i + length p))"
  by pat_completeness auto
termination
proof (relation "measure (\<lambda>(p, s, cursor). Suc (length s) - cursor)")
  fix p s :: string and cursor i assume "p \<noteq> []" "find_from p s cursor = Some i"
  then have "cursor \<le> i" "i + length p \<le> length s" "0 < length p" using find_from_Some by auto
  then show "((p, s, i + length p), p, s, cursor) \<in> measure (\<lambda>(p, s, cursor). Suc (length s) - cursor)"
    unfolding in_measure prod.case by linarith
qed simp

declare occurrences.simps [simp del]

text \<open>All positions of a pattern: where a search that continues one character later stops.\<close>

definition positions :: "string \<Rightarrow> string \<Rightarrow> nat list" where
  "positions p s = filter (\<lambda>i. prefix p (drop i s)) [0..<length s]"

section \<open>Calls\<close>

definition fetch_options_method :: "string \<Rightarrow> nat \<Rightarrow> nat \<Rightarrow> string" where
  "fetch_options_method script options_start options_end =
     (if options_start \<ge> options_end then ''get''
      else let options = take (options_end - options_start) (drop options_start script) in
        case find_str ''method'' options of
          None \<Rightarrow> ''get''
        | Some m \<Rightarrow>
            let m1 = skip_blanks options (m + 6) in
            if m1 \<ge> length options \<or> options ! m1 \<noteq> CHR '':'' then ''get''
            else (case read_quoted script (options_start + skip_blanks options (m1 + 1)) of
                None \<Rightarrow> ''get''
              | Some (v, _) \<Rightarrow> normalize_method v ''get''))"

definition fetch_call :: "string \<Rightarrow> nat \<Rightarrow> script_endpoint list" where
  "fetch_call script cursor =
     (case read_quoted script (skip_blanks script (cursor + 6)) of
        None \<Rightarrow> []
      | Some (u, after_url) \<Rightarrow>
          let m = (case (find_at (CHR '','') script after_url, find_at (CHR '')'') script after_url) of
                     (Some comma, Some close) \<Rightarrow> if comma < close then fetch_options_method script (comma + 1) close else ''get''
                   | _ \<Rightarrow> ''get'')
          in [call_endpoint (normalize_method m ''get'') u])"

definition open_call :: "string \<Rightarrow> nat \<Rightarrow> script_endpoint list" where
  "open_call script cursor =
     (let i = skip_blanks script (cursor + 6) in
      case read_quoted script i of
        None \<Rightarrow> []
      | Some (m, _) \<Rightarrow>
          (case find_at (CHR '','') script i of
             None \<Rightarrow> []
           | Some comma \<Rightarrow>
               (case read_quoted script (skip_blanks script (comma + 1)) of
                  None \<Rightarrow> []
                | Some (u, _) \<Rightarrow> [call_endpoint (normalize_method m ''get'') u])))"

text \<open>\<open>sendBeacon(\<close> and \<open>.post(\<close>, which always post; \<open>n\<close> is the length of the name.\<close>

definition post_call :: "nat \<Rightarrow> string \<Rightarrow> nat \<Rightarrow> script_endpoint list" where
  "post_call n script cursor =
     (case read_quoted script (skip_blanks script (cursor + n)) of
        None \<Rightarrow> []
      | Some (u, _) \<Rightarrow> if u = [] then [] else [call_endpoint ''post'' u])"

section \<open>Options objects\<close>

definition key_start :: "string \<Rightarrow> nat \<Rightarrow> bool" where
  "key_start s i \<longleftrightarrow> i = 0 \<or>
     s ! (i - 1) \<in> {CHR 0x22, CHR 0x27, CHR ''{'', CHR '','', CHR '' '', CHR 0x09, CHR 0x0A, CHR ''(''}"

definition says_post :: "string \<Rightarrow> bool" where
  "says_post w \<longleftrightarrow> list_ex (\<lambda>pos.
     0 < pos \<and> pos + 4 < length w \<and> w ! (pos - 1) \<in> {CHR 0x27, CHR 0x22} \<and> w ! (pos + 4) \<in> {CHR 0x27, CHR 0x22} \<and>
     (let context = drop (pos - 32) (take pos w) in find_str ''type'' context \<noteq> None \<or> find_str ''method'' context \<noteq> None)) (positions ''post'' w)"

definition find_key :: "string \<Rightarrow> string \<Rightarrow> nat option" where
  "find_key name w = List.find (key_start w) (positions name w)"

definition url_key :: "string \<Rightarrow> nat option" where
  "url_key w =
     (case (find_key ''url'' w, find_key ''uri'' w) of
        (k, None) \<Rightarrow> k
      | (None, Some u) \<Rightarrow> Some u
      | (Some k, Some u) \<Rightarrow> if u < k then Some u else Some k)"

definition ajax_call :: "string \<Rightarrow> nat \<Rightarrow> script_endpoint list" where
  "ajax_call script cursor =
     (let head = cursor + 6; w = to_lower (take 2048 (drop head script)) in
      if \<not> says_post w then []
      else case url_key w of
          None \<Rightarrow> []
        | Some key \<Rightarrow>
            (case find_at (CHR '':'') w key of
               None \<Rightarrow> []
             | Some colon \<Rightarrow>
                 (case read_quoted script (skip_blanks script (head + colon + 1)) of
                    None \<Rightarrow> []
                  | Some (u, _) \<Rightarrow> if u = [] then [] else [call_endpoint ''post'' u])))"

definition has_host :: "string \<Rightarrow> bool" where
  "has_host u \<longleftrightarrow>
     (if u = [] \<or> hd u = CHR ''/'' then True
      else if \<not> prefix ''http'' u then False
      else case find_str ''://'' u of
          None \<Rightarrow> False
        | Some n \<Rightarrow> \<not> (n + 3 < length u \<and> u ! (n + 3) \<in> {CHR ''/'', CHR ''?'', CHR ''#'', CHR '':''}))"

text \<open>The nearest address around the key at \<open>key_at\<close>, among the candidates of one name: the best so far and its distance.\<close>

definition candidate_url :: "string \<Rightarrow> string \<Rightarrow> nat \<Rightarrow> nat \<Rightarrow> string option" where
  "candidate_url script ls till cand =
     (if \<not> key_start ls cand then None
      else case find_at (CHR '':'') ls (cand + 3) of
          None \<Rightarrow> None
        | Some colon \<Rightarrow>
            if colon - cand \<le> 14 \<and> colon < till then
              (case read_literal_at script (colon + 1) of
                 None \<Rightarrow> None
               | Some u \<Rightarrow> if u \<noteq> [] \<and> (hd u = CHR ''/'' \<or> prefix ''http'' u) \<and> has_host u then Some u else None)
            else None)"

definition distance :: "nat \<Rightarrow> nat \<Rightarrow> nat" where
  "distance a b = (if a > b then a - b else b - a)"

definition nearer :: "string \<Rightarrow> string \<Rightarrow> nat \<Rightarrow> nat \<Rightarrow> nat \<Rightarrow> (nat \<times> string) option \<Rightarrow> (nat \<times> string) option" where
  "nearer script ls till key_at cand best =
     (case candidate_url script ls till cand of
        None \<Rightarrow> best
      | Some u \<Rightarrow> (case best of
            None \<Rightarrow> Some (distance cand key_at, u)
          | Some (n, _) \<Rightarrow> if distance cand key_at < n then Some (distance cand key_at, u) else best))"

definition nearest_url :: "string \<Rightarrow> string \<Rightarrow> nat \<Rightarrow> string option" where
  "nearest_url script ls key_at =
     (let start = key_at - 800; till = min (length ls) (key_at + 400);
          cands = (\<lambda>name. filter (\<lambda>c. start \<le> c \<and> c < till) (positions name ls))
      in map_option snd (fold (nearer script ls till key_at) (cands ''url'' @ cands ''uri'') None))"

text \<open>One key: the first of \<open>method\<close> and \<open>type\<close> from \<open>pos\<close> on.\<close>

definition next_key :: "string \<Rightarrow> nat \<Rightarrow> nat option" where
  "next_key ls pos =
     (case (find_from ''method'' ls pos, find_from ''type'' ls pos) of
        (m, None) \<Rightarrow> m
      | (None, Some t) \<Rightarrow> Some t
      | (Some m, Some t) \<Rightarrow> if t < m then Some t else Some m)"

definition options_post :: "string \<Rightarrow> string \<Rightarrow> nat \<Rightarrow> script_endpoint list" where
  "options_post script ls key_at =
     (if \<not> key_start ls key_at then []
      else case find_at (CHR '':'') ls (key_at + 6) of
          None \<Rightarrow> []
        | Some colon \<Rightarrow>
            if colon - key_at > 14 then []
            else (case read_literal_at script (colon + 1) of
                None \<Rightarrow> []
              | Some v \<Rightarrow>
                  if to_lower v \<noteq> ''post'' then []
                  else (case nearest_url script ls key_at of None \<Rightarrow> [] | Some u \<Rightarrow> [call_endpoint ''post'' u])))"

lemma next_key_Some: "next_key ls pos = Some k \<Longrightarrow> pos \<le> k \<and> k + 4 \<le> length ls"
  using find_from_Some [of "''method''" ls pos] find_from_Some [of "''type''" ls pos]
  by (fastforce simp: next_key_def split: option.splits if_splits)

function options_loop :: "string \<Rightarrow> string \<Rightarrow> nat \<Rightarrow> script_endpoint list" where
  "options_loop script ls pos =
     (if pos < length ls then
        (case next_key ls pos of None \<Rightarrow> [] | Some k \<Rightarrow> options_post script ls k @ options_loop script ls (k + 6))
      else [])"
  by pat_completeness auto
termination by (relation "measure (\<lambda>(script, ls, pos). length ls - pos)") (auto dest: next_key_Some)

declare options_loop.simps [simp del]

section \<open>Quoted paths\<close>

definition valid_path_char :: "char \<Rightarrow> bool" where
  "valid_path_char c \<longleftrightarrow> is_alnum c \<or> c \<in> {CHR ''_'', CHR ''.'', CHR ''/'', CHR ''?'', CHR ''='', CHR ''&'', CHR ''%'', CHR ''-''}"

definition looks_like_quoted_path :: "string \<Rightarrow> bool" where
  "looks_like_quoted_path s \<longleftrightarrow>
     length s \<ge> 4 \<and> s ! 0 = CHR ''/'' \<and>
     (is_alnum (s ! 1) \<or> s ! 1 \<in> {CHR ''_'', CHR ''.'', CHR ''-'', CHR ''~''}) \<and> list_all valid_path_char s"

lemma script_quoted_loop_count: "script_quoted_loop q s = Some (out, n) \<Longrightarrow> 0 < n \<and> n \<le> length s"
proof (induction q s arbitrary: out n rule: script_quoted_loop.induct)
  case (2 q c s)
  then show ?case by (cases s) (auto split: if_splits)
qed simp

lemma read_quoted_end: "read_quoted s i = Some (out, n) \<Longrightarrow> i < n \<and> n \<le> length s"
  by (auto simp: read_quoted_def dest!: script_quoted_loop_count split: if_splits)

function literals_loop :: "string \<Rightarrow> nat \<Rightarrow> script_endpoint list" where
  "literals_loop script pos =
     (if pos < length script then
        let qt = pos + length (takeWhile (\<lambda>c. \<not> is_quote c) (drop pos script)) in
        if qt \<ge> length script then []
        else (case read_quoted script qt of
            None \<Rightarrow> literals_loop script (qt + 1)
          | Some (cand, n) \<Rightarrow>
              (if looks_like_quoted_path cand
               then [\<lparr>se_method = ''get'', se_url = cand, se_confidence = confidence_literal 30, se_discovery = ''inline-script-literal''\<rparr>] else []) @
              literals_loop script n)
      else [])"
  by pat_completeness auto
termination by (relation "measure (\<lambda>(script, pos). length script - pos)") (auto dest!: read_quoted_end)

declare literals_loop.simps [simp del]

definition script_endpoints :: "string \<Rightarrow> script_endpoint list" where
  "script_endpoints script =
     concat (map (fetch_call script) (occurrences ''fetch('' script 0)) @
     concat (map (open_call script) (occurrences ''.open('' script 0)) @
     concat (map (post_call 11 script) (occurrences ''sendBeacon('' script 0)) @
     concat (map (post_call 6 script) (occurrences ''.post('' script 0)) @
     concat (map (ajax_call script) (occurrences ''.ajax('' script 0)) @
     options_loop script (to_lower script) 0 @
     literals_loop script 0"

section \<open>Searches find every occurrence\<close>

lemma find_str_first: "prefix p (drop j s) \<Longrightarrow> j \<le> length s \<Longrightarrow> \<exists>k\<le>j. find_str p s = Some k"
proof (induction p s arbitrary: j rule: find_str.induct)
  case (2 p c s)
  show ?case
  proof (cases "prefix p (c # s)")
    case False
    then obtain i where "j = Suc i" using "2.prems"(1) by (cases j) auto
    then show ?thesis using "2.IH" [OF False, of i] "2.prems" False by auto
  qed simp
qed simp

lemma find_from_first: "prefix p (drop j s) \<Longrightarrow> pos \<le> j \<Longrightarrow> j \<le> length s \<Longrightarrow> \<exists>k\<le>j. find_from p s pos = Some k"
  using find_str_first [of p "j - pos" "drop pos s"] by (fastforce simp: find_from_def)

lemma find_from_prefix: "find_from p s pos = Some k \<Longrightarrow> prefix p (drop k s)"
  by (auto simp: find_from_def add.commute prefix_def dest!: find_str_Some split: if_splits)
     (metis append_take_drop_id drop_drop)

text \<open>A pattern that no proper suffix of itself starts cannot overlap with itself.\<close>

definition border_free :: "string \<Rightarrow> bool" where
  "border_free p \<longleftrightarrow> p \<noteq> [] \<and> list_all (\<lambda>n. \<not> prefix (drop n p) p) [1..<length p]"

lemma no_overlap:
  assumes "border_free p" and "prefix p (drop k s)" "prefix p (drop i s)" and "k < i"
  shows "k + length p \<le> i"
proof (rule ccontr)
  assume "\<not> k + length p \<le> i"
  then have n: "1 \<le> i - k" "i - k < length p" using assms(4) by auto
  obtain x where x: "drop k s = p @ x" using assms(2) by (auto simp: prefix_def)
  have "drop i s = drop (i - k) (drop k s)" using assms(4) by simp
  then have "drop i s = drop (i - k) p @ x" using x n(2) by simp
  then have "prefix (drop (i - k) p) (drop i s)" by simp
  then have "prefix (drop (i - k) p) p" using assms(3) by (rule prefix_length_prefix) simp
  then show False using assms(1) n by (auto simp: border_free_def list_all_iff)
qed

lemma occurrences_complete:
  assumes "border_free p" and "prefix p (drop i s)" and "cursor \<le> i" and "i \<le> length s"
  shows "i \<in> set (occurrences p s cursor)"
  using assms
proof (induction p s cursor rule: occurrences.induct)
  case (1 p s cursor)
  have ne: "p \<noteq> []" using "1.prems"(1) by (simp add: border_free_def)
  obtain k where k: "k \<le> i" "find_from p s cursor = Some k" using find_from_first "1.prems" by blast
  have occ: "occurrences p s cursor = k # occurrences p s (k + length p)" using ne k(2) by (subst occurrences.simps) simp
  show ?case
  proof (cases "k = i")
    case False
    then have "k + length p \<le> i" using no_overlap [OF "1.prems"(1) find_from_prefix [OF k(2)] "1.prems"(2)] k(1) by simp
    then show ?thesis using "1.IH" [OF ne k(2)] "1.prems" occ by simp
  qed (simp add: occ)
qed

lemma occurrence_here:
  assumes "border_free p"
  shows "length a \<in> set (occurrences p (a @ p @ b) 0)"
  using assms by (intro occurrences_complete) simp_all

section \<open>Reading a literal\<close>

lemma script_quoted_loop_plain: "q \<notin> set u \<Longrightarrow> CHR 0x5C \<notin> set u \<Longrightarrow> q \<noteq> CHR 0x5C \<Longrightarrow> script_quoted_loop q (u @ q # b) = Some (u, length u + 1)"
  by (induction u) auto

lemma quote_facts: "is_quote q \<Longrightarrow> \<not> isspace q \<and> q \<noteq> CHR 0x5C \<and> q \<noteq> CHR '','' \<and> q \<noteq> CHR '')''"
  by (auto simp: is_quote_def isspace_def char_class)

definition plain_literal :: "char \<Rightarrow> string \<Rightarrow> bool" where
  "plain_literal q u \<longleftrightarrow> is_quote q \<and> q \<notin> set u \<and> CHR 0x5C \<notin> set u"

lemma read_quoted_plain:
  assumes "plain_literal q u"
  shows "read_quoted (a @ q # u @ q # b) (length a) = Some (u, length a + length u + 2)"
  using assms script_quoted_loop_plain [of q u b] quote_facts [of q] by (simp add: read_quoted_def plain_literal_def nth_append)

lemma skip_blanks_plain:
  assumes "list_all isspace bl" and "is_quote q"
  shows "skip_blanks (a @ bl @ q # b) (length a) = length a + length bl"
  using assms quote_facts [of q] by (simp add: skip_blanks_def list_all_iff)

lemma read_behind:
  assumes "list_all isspace bl" and "plain_literal q u"
  shows "read_quoted (a @ bl @ q # u @ q # b) (skip_blanks (a @ bl @ q # u @ q # b) (length a)) = Some (u, length a + length bl + length u + 2)"
proof -
  have "is_quote q" using assms(2) by (simp add: plain_literal_def)
  with skip_blanks_plain [OF assms(1)] read_quoted_plain [OF assms(2), of "a @ bl" b] show ?thesis by simp
qed

lemma find_at_plain: "c \<notin> set w \<Longrightarrow> find_at c (a @ w @ c # b) (length a) = Some (length a + length w)"
proof -
  assume "c \<notin> set w"
  then have "find_str [c] (w @ c # b) = Some (length w)" by (induction w) (auto simp: prefix_def)
  then show ?thesis by (simp add: find_at_def find_from_def)
qed

lemma names_border_free:
  "border_free ''fetch(''" "border_free ''.open(''" "border_free ''sendBeacon(''" "border_free ''.post(''" "border_free ''.ajax(''"
  by code_simp+

text \<open>What each call gives.\<close>

lemma post_call_plain:
  assumes "list_all isspace bl" and "plain_literal q u" and "u \<noteq> []" and "n = length name"
  shows "post_call n (a @ name @ bl @ q # u @ q # b) (length a) = [call_endpoint ''post'' u]"
  using read_behind [OF assms(1,2), of "a @ name" b] assms(3,4) by (simp add: post_call_def)

lemma fetch_call_plain:
  assumes "list_all isspace bl" and "plain_literal q u" and "length p = 6"
  shows "fetch_call (a @ p @ bl @ q # u @ q # CHR '')'' # b) (length a) = [call_endpoint ''get'' u]"
proof -
  define s where "s = a @ p @ bl @ q # u @ q # CHR '')'' # b"
  define n where "n = length (a @ p @ bl @ q # u @ [q])"
  have r: "read_quoted s (skip_blanks s (length a + 6)) = Some (u, n)"
    using read_behind [OF assms(1,2), of "a @ p" "CHR '')'' # b"] assms(3) by (simp add: s_def n_def)
  have close: "find_at (CHR '')'') s n = Some n"
    using find_at_plain [of "CHR '')''" "[]" "a @ p @ bl @ q # u @ [q]" b] by (simp add: s_def n_def)
  have "n \<le> comma" if "find_at (CHR '','') s n = Some comma" for comma using find_from_Some that by (simp add: find_at_def)
  then have "(case (find_at (CHR '','') s n, find_at (CHR '')'') s n) of
      (Some comma, Some close) \<Rightarrow> if comma < close then fetch_options_method s (comma + 1) close else ''get'' | _ \<Rightarrow> ''get'') = ''get''"
    by (auto simp: close split: option.splits)
  moreover have "normalize_method ''get'' ''get'' = ''get''" by code_simp
  ultimately have "fetch_call s (length a) = [call_endpoint ''get'' u]" unfolding fetch_call_def r option.case prod.case Let_def by simp
  then show ?thesis by (simp only: s_def)
qed

lemma open_call_plain:
  assumes "list_all isspace bl" "list_all isspace bl1" "list_all isspace bl2" and "plain_literal q m" "plain_literal q1 u" and "CHR '','' \<notin> set m"
    and "length p = 6"
  shows "open_call (a @ p @ bl @ q # m @ q # bl1 @ CHR '','' # bl2 @ q1 # u @ q1 # b) (length a) = [call_endpoint (normalize_method m ''get'') u]"
proof -
  define x where "x = bl2 @ q1 # u @ q1 # b"
  define s where "s = a @ p @ bl @ q # m @ q # bl1 @ CHR '','' # x"
  define i where "i = length (a @ p @ bl)"
  define c where "c = length (a @ p @ bl @ q # m @ q # bl1)"
  have q: "is_quote q" using assms(4) by (simp add: plain_literal_def)
  have i: "skip_blanks s (length a + 6) = i"
    using skip_blanks_plain [OF assms(1) q, of "a @ p" "m @ q # bl1 @ CHR '','' # x"] assms(7) by (simp add: s_def i_def)
  have r: "\<exists>k. read_quoted s i = Some (m, k)"
    using read_quoted_plain [OF assms(4), of "a @ p @ bl" "bl1 @ CHR '','' # x"] by (simp add: s_def i_def)
  have "\<not> isspace (CHR '','')" by (simp add: isspace_def char_class)
  then have "CHR '','' \<notin> set bl1" using assms(2) by (auto simp: list_all_iff)
  then have "CHR '','' \<notin> set (q # m @ q # bl1)" using assms(6) quote_facts [OF q] by auto
  then have c: "find_at (CHR '','') s i = Some c"
    using find_at_plain [of "CHR '',''" "q # m @ q # bl1" "a @ p @ bl" x] by (simp add: s_def i_def c_def)
  have "\<exists>k. read_quoted s (skip_blanks s (c + 1)) = Some (u, k)"
    using read_behind [OF assms(3,5), of "a @ p @ bl @ q # m @ q # bl1 @ '',''" b] by (simp add: s_def c_def x_def)
  then have "open_call s (length a) = [call_endpoint (normalize_method m ''get'') u]" using r c by (auto simp: open_call_def i Let_def)
  then show ?thesis by (simp only: s_def x_def)
qed

lemma endpoint_found:
  assumes "border_free p" and "f (a @ p @ b) (length a) = es" and "e \<in> set es"
  shows "e \<in> set (concat (map (f (a @ p @ b)) (occurrences p (a @ p @ b) 0)))"
  using occurrence_here [OF assms(1), of a b] assms(2,3) by auto



section \<open>Everything found is well-formed\<close>

definition endpoint_shape :: "script_endpoint \<Rightarrow> bool" where
  "endpoint_shape e \<longleftrightarrow> is_http_method (se_method e) \<and>
     (se_confidence e = confidence_literal 65 \<and> se_discovery e = ''inline-script'' \<or>
      se_confidence e = confidence_literal 30 \<and> se_discovery e = ''inline-script-literal'' \<and> se_method e = ''get'' \<and> looks_like_quoted_path (se_url e))"

lemma method_known: "is_http_method fallback \<Longrightarrow> is_http_method (to_lower fallback) \<Longrightarrow> is_http_method (normalize_method m fallback)"
  by (simp add: normalize_method_def Let_def)

lemma get_known: "is_http_method ''get''" "is_http_method ''post''" "is_http_method (to_lower ''get'')"
  by code_simp+

lemma call_shape: "is_http_method m \<Longrightarrow> endpoint_shape (call_endpoint m u)"
  by (simp add: endpoint_shape_def call_endpoint_def)

lemma options_loop_shape: "e \<in> set (options_loop script ls pos) \<Longrightarrow> endpoint_shape e"
proof (induction script ls pos rule: options_loop.induct)
  case (1 script ls pos)
  have post: "e \<in> set (options_post script ls k) \<Longrightarrow> endpoint_shape e" for k
    using call_shape [OF get_known(2)] by (auto simp: options_post_def split: option.splits if_splits)
  show ?case
  proof (cases "pos < length ls \<and> next_key ls pos \<noteq> None")
    case True
    then obtain k where k: "pos < length ls" "next_key ls pos = Some k" by auto
    then have "options_loop script ls pos = options_post script ls k @ options_loop script ls (k + 6)" by (subst options_loop.simps) simp
    then show ?thesis using "1.prems" "1.IH" [OF k] post by auto
  next
    case False
    then have "options_loop script ls pos = []" by (subst options_loop.simps) auto
    then show ?thesis using "1.prems" by simp
  qed
qed

lemma literals_loop_shape: "e \<in> set (literals_loop script pos) \<Longrightarrow> endpoint_shape e"
proof (induction script pos rule: literals_loop.induct)
  case (1 script pos)
  show ?case using "1.prems" "1.IH"
    unfolding literals_loop.simps [of script pos] by (auto simp: Let_def endpoint_shape_def get_known split: if_splits option.splits)
qed

lemma script_endpoints_shape: "e \<in> set (script_endpoints script) \<Longrightarrow> endpoint_shape e"
proof -
  have known: "is_http_method (normalize_method m ''get'')" for m by (rule method_known) (rule get_known)+
  have "e \<in> set (fetch_call script i) \<Longrightarrow> endpoint_shape e" for i
  proof (cases "read_quoted script (skip_blanks script (i + 6))")
    case (Some r)
    then show "e \<in> set (fetch_call script i) \<Longrightarrow> endpoint_shape e"
      using call_shape [OF known] by (cases r) (simp add: fetch_call_def Let_def)
  qed (simp add: fetch_call_def)
  moreover have "e \<in> set (open_call script i) \<Longrightarrow> endpoint_shape e" for i
    using call_shape [OF known] by (auto simp: open_call_def Let_def split: option.splits)
  moreover have "e \<in> set (post_call n script i) \<Longrightarrow> endpoint_shape e" for n i
    using call_shape [OF get_known(2)] by (auto simp: post_call_def split: option.splits if_splits)
  moreover have "e \<in> set (ajax_call script i) \<Longrightarrow> endpoint_shape e" for i
    using call_shape [OF get_known(2)] by (auto simp: ajax_call_def Let_def split: option.splits if_splits)
  ultimately show "e \<in> set (script_endpoints script) \<Longrightarrow> endpoint_shape e"
    using options_loop_shape literals_loop_shape by (auto simp: script_endpoints_def)
qed

text \<open>A key \<open>type\<close> is two characters shorter than \<open>method\<close>, and the search for its colon starts behind it.\<close>

lemma type_key_missed:
  defines "s \<equiv> ''f({type:'' @ [CHR 0x22] @ ''POST'' @ [CHR 0x22] @ '',url:'' @ [CHR 0x22] @ ''/a/b'' @ [CHR 0x22] @ ''})''"
  shows "read_literal_at s 8 = Some ''POST'' \<and> options_post s (to_lower s) 3 = []"
proof -
  have "read_literal_at s 8 = Some ''POST''" "find_at (CHR '':'') (to_lower s) (3 + 6) = Some 18" unfolding s_def by code_simp+
  then show ?thesis by (simp add: options_post_def)
qed

text \<open>A scheme without a host passes the test for a host.\<close>

lemma scheme_only_accepted: "has_host ''https://''"
  by code_simp

end
