(* ===== verification/Endpoint_Extract.thy ===== *)
theory Endpoint_Extract
  imports Endpoint_Script Dom_Document Redaction "HOL-Library.List_Lexorder" "HOL-Library.Char_ord"
begin

text \<open>
  \<^verbatim>\<open>endpoint_extraction.cpp\<close>, the extractor: candidates from observed requests, links, resources, forms and scripts are merged by method and path, filtered
  by confidence, sorted and rendered as an OpenAPI document.  Shown: merging keeps for every operation the best provenance and all parameters, and the
  result is strictly sorted, above the threshold and has only known methods.
\<close>

record endpoint_options =
  follow_links :: bool
  inspect_scripts :: bool
  observe_network :: bool
  infer_schemas :: bool
  include_provenance :: bool
  redact_secrets :: bool
  minimum_confidence :: rat
  openapi_version :: string
  scrape_all_paths :: bool

record endpoint =
  en_url :: string
  en_path :: string
  en_method :: string
  en_source :: string
  en_discovery :: string
  en_confidence :: rat
  en_parameters :: "string list"
  en_request_type :: string
  en_response_type :: string
  en_notes :: "string list"

text \<open>An extractor: its options, what it observed, and whether a dispatcher is set.\<close>

record extractor =
  ex_options :: endpoint_options
  ex_observed :: "endpoint list"
  ex_scripts :: "endpoint list"
  ex_dispatcher :: bool

record discovered_event =
  de_url :: string
  de_name :: string
  de_method :: string
  de_path :: string
  de_discovery :: string
  de_confidence :: string

record extraction =
  xr_yaml :: string
  xr_endpoints :: "endpoint list"
  xr_warnings :: "string list"
  xr_events :: "discovered_event list"

section \<open>Helpers\<close>

definition looks_like_api_path :: "string \<Rightarrow> bool" where
  "looks_like_api_path p \<longleftrightarrow> list_ex (\<lambda>marker. find_str marker p \<noteq> None)
     [''/api'', ''/v1'', ''/v2'', ''/v3'', ''/graphql'', ''/rest'', ''/rpc'', ''/json'', ''.json'', ''/data'', ''/ajax'', ''/gateway'',
      ''/service'', ''/backend'', ''/bff'', ''/dml'', ''/internal'', ''/private'', ''/hotel/hoteladmin'', ''/partner-settings'',
      ''/telemetry'', ''challenge'', ''/beacon'', ''/collect'']"

definition append_unique :: "string \<Rightarrow> string list \<Rightarrow> string list" where
  "append_unique v vs = (if v = [] then vs else if v \<in> set vs then vs else vs @ [v])"

definition append_unique_all :: "string list \<Rightarrow> string list \<Rightarrow> string list" where
  "append_unique_all vs incoming = fold append_unique incoming vs"

function query_loop :: "string list \<Rightarrow> string \<Rightarrow> string list" where
  "query_loop ps q =
     (case find_char (CHR ''&'') q of
        None \<Rightarrow> append_unique (pair_key q) ps
      | Some amp \<Rightarrow> query_loop (append_unique (pair_key (take amp q)) ps) (drop (amp + 1) q))"
  by pat_completeness auto
termination by (relation "measure (\<lambda>(ps, q). length q)") (auto dest: find_char_Some(1))

declare query_loop.simps [simp del]

definition query_parameters :: "string \<Rightarrow> string list" where
  "query_parameters q = query_loop [] q"

definition method_from_form :: "dom \<Rightarrow> nat \<Rightarrow> string" where
  "method_from_form d form =
     (let m = element_attribute d (Some form) ''method'' in
      if m = [] then ''get'' else if to_lower m = ''post'' then ''post'' else ''get'')"

definition form_parameters :: "dom \<Rightarrow> nat \<Rightarrow> string list result option" where
  "form_parameters d form =
     obind (element_query_selector_all d (Some form) ''input[name], select[name], textarea[name]'') (\<lambda>controls.
       Some (Inr (fold append_unique (map (\<lambda>c. element_attribute d (Some c) ''name'') controls) [])))"

text \<open>A double with two digits behind the point.\<close>

definition format_confidence :: "rat \<Rightarrow> string" where
  "format_confidence q = (let k = nat (round_even (q * 100)) in decimal (k div 100) @ ''.'' @ two_digits (k mod 100))"

definition status_text :: "int \<Rightarrow> string" where
  "status_text n = (if n < 0 then ''-'' else []) @ decimal (nat \<bar>n\<bar>)"

definition path_or_root :: "url \<Rightarrow> string" where
  "path_or_root u = (if path u = [] then ''/'' else path u)"

definition new_endpoint :: endpoint where
  "new_endpoint = \<lparr>en_url = [], en_path = [], en_method = ''get'', en_source = [], en_discovery = [], en_confidence = 0,
     en_parameters = [], en_request_type = [], en_response_type = [], en_notes = []\<rparr>"

section \<open>Observations\<close>

text \<open>The path and the parameters of an address, the root for one that cannot be parsed.\<close>

definition with_address :: "endpoint \<Rightarrow> endpoint" where
  "with_address e =
     (case parse_url (en_url e) of
        Inl _ \<Rightarrow> e\<lparr>en_path := ''/''\<rparr>
      | Inr u \<Rightarrow> e\<lparr>en_path := path_or_root u, en_parameters := query_parameters (query u)\<rparr>)"

definition observe :: "string \<Rightarrow> string \<Rightarrow> int \<Rightarrow> string \<Rightarrow> extractor \<Rightarrow> extractor" where
  "observe m u status content_type x =
     x\<lparr>ex_observed := ex_observed x @
        [with_address (new_endpoint\<lparr>en_url := u, en_method := normalize_method m ''get'', en_discovery := ''observed-network'',
           en_confidence := confidence_literal 95, en_source := u, en_response_type := content_type,
           en_notes := [''observed response status '' @ status_text status]\<rparr>)]\<rparr>"

text \<open>The source is moved out of the argument by the first endpoint: the others find the empty string that is left behind.\<close>

fun script_observations :: "string \<Rightarrow> script_endpoint list \<Rightarrow> endpoint list" where
  "script_observations source [] = []"
| "script_observations source (ep # eps) =
     (if se_url ep = [] then script_observations source eps
      else with_address (new_endpoint\<lparr>en_url := se_url ep, en_method := normalize_method (se_method ep) ''get'',
          en_discovery := se_discovery ep, en_confidence := se_confidence ep, en_source := source,
          en_notes := [''inferred from a fetch/XMLHttpRequest call in an external script'']\<rparr>) #
        script_observations [] eps)"

definition observe_script :: "string \<Rightarrow> string \<Rightarrow> extractor \<Rightarrow> extractor" where
  "observe_script source script x = x\<lparr>ex_scripts := ex_scripts x @ script_observations source (script_endpoints script)\<rparr>"

section \<open>Merging\<close>

type_synonym found = "endpoint list \<times> (string \<rightharpoonup> nat)"

definition endpoint_key :: "endpoint \<Rightarrow> string" where
  "endpoint_key e = en_method e @ '' '' @ en_path e"

definition merge_endpoint :: "endpoint \<Rightarrow> endpoint \<Rightarrow> endpoint" where
  "merge_endpoint existing e =
     (let e1 = existing\<lparr>en_parameters := append_unique_all (en_parameters existing) (en_parameters e),
                en_notes := append_unique_all (en_notes existing) (en_notes e)\<rparr>;
          e2 = (if en_request_type e1 = [] then e1\<lparr>en_request_type := en_request_type e\<rparr> else e1);
          e3 = (if en_response_type e2 = [] then e2\<lparr>en_response_type := en_response_type e\<rparr> else e2)
      in if en_confidence e > en_confidence e3
         then e3\<lparr>en_url := en_url e, en_source := en_source e, en_discovery := en_discovery e, en_confidence := en_confidence e\<rparr>
         else e3)"

definition add_endpoint :: "endpoint \<Rightarrow> found \<Rightarrow> found" where
  "add_endpoint e st =
     (let (found, seen) = st in
      case seen (endpoint_key e) of
        Some i \<Rightarrow> (found[i := merge_endpoint (found ! i) e], seen)
      | None \<Rightarrow> (found @ [e], seen(endpoint_key e \<mapsto> length found)))"

section \<open>Candidates\<close>

definition resolve_reference :: "string \<Rightarrow> string \<Rightarrow> string" where
  "resolve_reference base ref =
     (if ref = [] then ref
      else case (if base = [] then normalize_url ref else resolve_url base ref) of Inl _ \<Rightarrow> ref | Inr u \<Rightarrow> u)"

definition ignored_reference :: "string \<Rightarrow> bool" where
  "ignored_reference ref \<longleftrightarrow> ref = [] \<or> hd ref = CHR ''#''"

definition link_step :: "endpoint_options \<Rightarrow> string \<Rightarrow> dom \<Rightarrow> document \<Rightarrow> nat \<Rightarrow> found \<Rightarrow> found" where
  "link_step opts base d doc link st =
     (let href = element_attribute d (Some link) ''href''; u = resolve_reference base href in
      if ignored_reference href then st
      else case parse_url u of
          Inl _ \<Rightarrow> st
        | Inr parsed \<Rightarrow>
            let is_api = looks_like_api_path (path parsed) in
            if \<not> scrape_all_paths opts \<and> \<not> is_api then st
            else add_endpoint (new_endpoint\<lparr>en_url := u, en_path := path parsed, en_source := doc_url doc, en_discovery := ''html-link'',
                en_confidence := (if scrape_all_paths opts then (if is_api then confidence_literal 75 else confidence_literal 60) else confidence_literal 40),
                en_notes := [if scrape_all_paths opts then
                    (if is_api then ''inferred from an anchor href (api)'' else ''inferred from an anchor href (comprehensive)'')
                  else ''inferred from an anchor href''],
                en_parameters := query_parameters (query parsed)\<rparr>) st)"

text \<open>Resources and other elements with an address, which are skipped when the operation is known already.\<close>

definition address_step :: "string \<Rightarrow> string \<Rightarrow> rat \<Rightarrow> string \<Rightarrow> string \<Rightarrow> found \<Rightarrow> found" where
  "address_step doc_address discovery conf note u st =
     (case parse_url u of
        Inl _ \<Rightarrow> st
      | Inr parsed \<Rightarrow>
          if snd st (''get '' @ path parsed) \<noteq> None then st
          else add_endpoint (new_endpoint\<lparr>en_url := u, en_path := path_or_root parsed, en_source := doc_address, en_discovery := discovery,
            en_confidence := conf, en_parameters := query_parameters (query parsed), en_notes := [note]\<rparr>) st)"

definition resource_step :: "document \<Rightarrow> string \<Rightarrow> found \<Rightarrow> found" where
  "resource_step doc ref st =
     (if ignored_reference ref then st
      else address_step (doc_url doc) ''resource-url'' (confidence_literal 55) ''inferred from a resource url (img/script/link/iframe)'' ref st)"

definition href_step :: "string \<Rightarrow> dom \<Rightarrow> document \<Rightarrow> nat \<Rightarrow> found \<Rightarrow> found" where
  "href_step base d doc el st =
     (let href = element_attribute d (Some el) ''href'' in
      if ignored_reference href then st
      else if tag_name d (Some el) = ''a'' then st
      else address_step (doc_url doc) ''attribute-href'' (confidence_literal 50) ''inferred from an href attribute'' (resolve_reference base href) st)"

definition form_step :: "string \<Rightarrow> dom \<Rightarrow> document \<Rightarrow> nat \<Rightarrow> found \<Rightarrow> found result option" where
  "form_step base d doc form st =
     (let action = element_attribute d (Some form) ''action'';
          u = resolve_reference base (if action = [] then doc_url doc else action) in
      case parse_url u of
        Inl _ \<Rightarrow> Some (Inr st)
      | Inr parsed \<Rightarrow>
          let m = method_from_form d form in
          obind (form_parameters d form) (\<lambda>ps.
            Some (Inr (add_endpoint (new_endpoint\<lparr>en_url := u, en_path := path_or_root parsed, en_method := m, en_source := doc_url doc,
              en_discovery := ''html-form'', en_confidence := (if m = ''get'' then confidence_literal 55 else confidence_literal 75),
              en_parameters := append_unique_all ps (query_parameters (query parsed)),
              en_request_type := (if m = ''get'' then [] else ''application/x-www-form-urlencoded''),
              en_notes := [''inferred from a form action'']\<rparr>) st))))"

definition inline_step :: "string \<Rightarrow> document \<Rightarrow> script_endpoint \<Rightarrow> found \<Rightarrow> found" where
  "inline_step base doc ep st =
     (if se_url ep = [] then st
      else let u = resolve_reference base (se_url ep) in
        case parse_url u of
          Inl _ \<Rightarrow> st
        | Inr parsed \<Rightarrow>
            add_endpoint (new_endpoint\<lparr>en_url := u, en_path := path_or_root parsed, en_method := normalize_method (se_method ep) ''get'',
              en_source := doc_url doc, en_discovery := se_discovery ep, en_confidence := se_confidence ep,
              en_parameters := query_parameters (query parsed),
              en_notes := [if se_discovery ep = ''inline-script-literal'' then ''inferred from a quoted string literal in script''
                else ''inferred from a fetch/XMLHttpRequest call'']\<rparr>) st)"

definition script_step :: "string \<Rightarrow> dom \<Rightarrow> document \<Rightarrow> nat \<Rightarrow> found \<Rightarrow> found option" where
  "script_step base d doc script st =
     (if has_attribute d (Some script) ''src'' then Some st
      else map_option (\<lambda>s. fold (inline_step base doc) (script_endpoints s) st) (element_text d (Some script)))"

fun form_steps :: "string \<Rightarrow> dom \<Rightarrow> document \<Rightarrow> nat list \<Rightarrow> found \<Rightarrow> found result option" where
  "form_steps base d doc [] st = Some (Inr st)"
| "form_steps base d doc (form # fs) st = obind (form_step base d doc form st) (form_steps base d doc fs)"

fun script_steps :: "string \<Rightarrow> dom \<Rightarrow> document \<Rightarrow> nat list \<Rightarrow> found \<Rightarrow> found option" where
  "script_steps base d doc [] st = Some st"
| "script_steps base d doc (s # ss) st = Option.bind (script_step base d doc s st) (script_steps base d doc ss)"

definition link_steps :: "endpoint_options \<Rightarrow> string \<Rightarrow> dom \<Rightarrow> document \<Rightarrow> found \<Rightarrow> found result option" where
  "link_steps opts base d doc st =
     (if \<not> follow_links opts then Some (Inr st)
      else obind (document_links d doc) (\<lambda>ls.
        let st1 = fold (link_step opts base d doc) ls st in
        if \<not> scrape_all_paths opts then Some (Inr st1)
        else obind (resource_urls d doc) (\<lambda>refs.
          obind (document_query_selector_all d doc ''[href]'') (\<lambda>es.
            Some (Inr (fold (href_step base d doc) es (fold (resource_step doc) refs st1)))))))"

text \<open>All candidates, merged: the observations, then what the document has.\<close>

definition observed_state :: "extractor \<Rightarrow> found" where
  "observed_state x =
     (let opts = ex_options x;
          st1 = (if observe_network opts then fold add_endpoint (ex_observed x) ([], Map.empty) else ([], Map.empty))
      in if inspect_scripts opts then fold add_endpoint (ex_scripts x) st1 else st1)"

definition collect_endpoints :: "extractor \<Rightarrow> dom \<Rightarrow> document \<Rightarrow> found result option" where
  "collect_endpoints x d doc =
     obind (base_url d doc) (\<lambda>base.
     obind (link_steps (ex_options x) base d doc (observed_state x)) (\<lambda>st3.
     obind (forms d doc) (\<lambda>fs.
     obind (form_steps base d doc fs st3) (\<lambda>st4.
       if \<not> inspect_scripts (ex_options x) then Some (Inr st4)
       else obind (scripts d doc) (\<lambda>ss. map_option Inr (script_steps base d doc ss st4))))))"

section \<open>The OpenAPI document\<close>

definition yaml_quote_char :: "char \<Rightarrow> string" where
  "yaml_quote_char c = (if c = CHR 0x27 then [CHR 0x27, CHR 0x27] else if c = CHR 0x0A then [CHR 0x5C, CHR ''n''] else [c])"

definition yaml_quote :: "string \<Rightarrow> string" where
  "yaml_quote s = CHR 0x27 # concat (map yaml_quote_char s) @ [CHR 0x27]"

text \<open>The loop that replaces the first \<open>__\<close> by \<open>_\<close> while there is one.\<close>

function squeeze :: "string \<Rightarrow> string" where
  "squeeze s = (case find_str ''__'' s of None \<Rightarrow> s | Some n \<Rightarrow> squeeze (take n s @ ''_'' @ drop (n + 2) s))"
  by pat_completeness auto
termination
proof (relation "measure length")
  fix s :: string and n assume "find_str ''__'' s = Some n"
  then have "n + 2 \<le> length s" using find_str_Some by fastforce
  then show "(take n s @ ''_'' @ drop (n + 2) s, s) \<in> measure length" by simp
qed simp

declare squeeze.simps [simp del]

definition operation_id :: "string \<Rightarrow> string \<Rightarrow> string" where
  "operation_id m p =
     (let s = squeeze (map (\<lambda>c. if is_alnum c then c else CHR ''_'') (to_lower m @ ''_'' @ p));
          s1 = (if s \<noteq> [] \<and> hd s = CHR ''_'' then tl s else s)
      in if s1 \<noteq> [] \<and> last s1 = CHR ''_'' then butlast s1 else s1)"

definition ln :: "string \<Rightarrow> string" where
  "ln s = s @ [CHR 0x0A]"

definition parameter_yaml :: "string \<Rightarrow> string" where
  "parameter_yaml p =
     ln (''        - name: '' @ yaml_quote p) @ ln ''          in: query'' @ ln ''          required: false'' @
     ln ''          schema:'' @ ln ''            type: string''"

definition shown_address :: "endpoint_options \<Rightarrow> string \<Rightarrow> string" where
  "shown_address opts u = (if redact_secrets opts then redact_url policy_defaults u else u)"

definition provenance_yaml :: "endpoint_options \<Rightarrow> endpoint \<Rightarrow> string" where
  "provenance_yaml opts e =
     ln ''      x-prowsetk-provenance:'' @
     ln (''        source: '' @ yaml_quote (shown_address opts (en_source e))) @
     ln (''        url: '' @ yaml_quote (shown_address opts (en_url e))) @
     ln (''        discovery-method: '' @ yaml_quote (en_discovery e)) @
     ln (''        confidence: '' @ format_confidence (en_confidence e)) @
     ln ''        inferred: true'' @
     (if en_notes e = [] then []
      else ln ''        notes:'' @ concat (map (\<lambda>n. ln (''          - '' @ yaml_quote n)) (en_notes e)))"

definition operation_yaml :: "endpoint_options \<Rightarrow> endpoint \<Rightarrow> string" where
  "operation_yaml opts e =
     ln (''    '' @ en_method e @ '':'') @
     ln (''      operationId: '' @ operation_id (en_method e) (en_path e)) @
     (if en_parameters e = [] then [] else ln ''      parameters:'' @ concat (map parameter_yaml (en_parameters e))) @
     (if en_request_type e = [] then []
      else ln ''      requestBody:'' @ ln ''        content:'' @ ln (''          '' @ yaml_quote (en_request_type e) @ '':'') @
        ln ''            schema:'' @ ln ''              type: object'' @ ln ''              x-inferred: true'') @
     ln ''      responses:'' @ ln (''        '' @ [CHR 0x27] @ ''200'' @ [CHR 0x27] @ '':'') @
     (if en_response_type e \<noteq> []
      then ln ''          description: Observed response'' @ ln ''          content:'' @ ln (''            '' @ yaml_quote (en_response_type e) @ '':'') @
        ln ''              schema:'' @ ln ''                type: object'' @ ln ''                x-inferred: true''
      else ln ''          description: Inferred response'') @
     (if infer_schemas opts then ln ''      x-inferred: true'' else []) @
     (if include_provenance opts then provenance_yaml opts e else [])"

text \<open>The map \<open>by_path\<close>: the paths in order, each with its endpoints in the given order.\<close>

definition by_path :: "endpoint list \<Rightarrow> (string \<times> endpoint list) list" where
  "by_path es = map (\<lambda>p. (p, filter (\<lambda>e. en_path e = p) es)) (sorted_list_of_set (set (map en_path es)))"

definition render_openapi_yaml :: "endpoint list \<Rightarrow> endpoint_options \<Rightarrow> string" where
  "render_openapi_yaml es opts =
     ln (''openapi: '' @ openapi_version opts) @ ln ''info:'' @
     ln (''  title: '' @ [CHR 0x27] @ ''Discovered API'' @ [CHR 0x27]) @ ln (''  version: '' @ [CHR 0x27] @ ''0.1.0'' @ [CHR 0x27]) @
     ln ''  description: >-'' @ ln ''    Generated by ProwseTk endpoint extraction. Endpoints are'' @
     ln ''    heuristic discoveries, not authoritative API documentation.'' @ ln ''    Inferred values are marked and carry provenance and'' @
     ln ''    confidence.'' @ ln ''x-prowsetk-generated: true'' @
     (if es = [] then ln ''paths: {}''
      else ln ''paths:'' @ concat (map (\<lambda>(p, entries). ln (''  '' @ yaml_quote p @ '':'') @ concat (map (operation_yaml opts) entries)) (by_path es)))"

section \<open>Extraction\<close>

definition low_confidence_warning :: "endpoint \<Rightarrow> string" where
  "low_confidence_warning e = ''skipped low-confidence endpoint '' @ en_path e @ '' ('' @ format_confidence (en_confidence e) @ '')''"

definition discovery_event :: "endpoint \<Rightarrow> discovered_event" where
  "discovery_event e = \<lparr>de_url = en_url e, de_name = en_method e @ '' '' @ en_path e, de_method = en_method e, de_path = en_path e,
     de_discovery = en_discovery e, de_confidence = format_confidence (en_confidence e)\<rparr>"

definition finish_extraction :: "extractor \<Rightarrow> endpoint list \<Rightarrow> extraction" where
  "finish_extraction x found =
     (let opts = ex_options x; low = (\<lambda>e. en_confidence e < minimum_confidence opts);
          kept = map (\<lambda>e. e\<lparr>en_parameters := sort (en_parameters e)\<rparr>) (filter (\<lambda>e. \<not> low e) found);
          es = sort_key (\<lambda>e. [en_path e, en_method e]) kept
      in \<lparr>xr_yaml = render_openapi_yaml es opts, xr_endpoints = es,
          xr_warnings = map low_confidence_warning (filter low found),
          xr_events = (if ex_dispatcher x then map discovery_event kept else [])\<rparr>)"

definition extract_endpoints :: "extractor \<Rightarrow> dom \<Rightarrow> document \<Rightarrow> extraction result option" where
  "extract_endpoints x d doc = obind (collect_endpoints x d doc) (\<lambda>(found, seen). Some (Inr (finish_extraction x found)))"

section \<open>Merging keeps the best of every operation\<close>

text \<open>The first candidate of the highest confidence gives the provenance of the merged endpoint.\<close>

definition provenance_of :: "endpoint list \<Rightarrow> endpoint \<Rightarrow> bool" where
  "provenance_of gs e \<longleftrightarrow> (\<exists>g as bs. gs = as @ g # bs \<and> (\<forall>a\<in>set as. en_confidence a < en_confidence g) \<and> en_confidence g = en_confidence e \<and>
     en_url g = en_url e \<and> en_source g = en_source e \<and> en_discovery g = en_discovery e)"

text \<open>What an endpoint merged from the candidates \<open>gs\<close> has of them.\<close>

definition merged_of :: "endpoint list \<Rightarrow> endpoint \<Rightarrow> bool" where
  "merged_of gs e \<longleftrightarrow> gs \<noteq> [] \<and> en_confidence e = Max (en_confidence ` set gs) \<and> provenance_of gs e \<and>
     set (en_parameters e) - {[]} = (\<Union>g\<in>set gs. set (en_parameters g)) - {[]} \<and>
     set (en_notes e) - {[]} = (\<Union>g\<in>set gs. set (en_notes g)) - {[]} \<and>
     en_method e = en_method (hd gs) \<and> en_path e = en_path (hd gs)"

lemma append_unique_set: "set (append_unique v vs) - {[]} = (insert v (set vs)) - {[]}"
  by (auto simp: append_unique_def)

lemma append_unique_all_set: "set (append_unique_all vs ws) - {[]} = (set vs \<union> set ws) - {[]}"
proof (induction ws arbitrary: vs)
  case (Cons w ws)
  from Cons [of "append_unique w vs"] append_unique_set [of w vs] show ?case by (auto simp: append_unique_all_def)
qed (simp add: append_unique_all_def)

lemma append_unique_distinct: "distinct vs \<Longrightarrow> distinct (append_unique v vs)"
  by (simp add: append_unique_def)

lemma append_unique_all_distinct: "distinct vs \<Longrightarrow> distinct (append_unique_all vs ws)"
  by (induction ws arbitrary: vs) (auto simp: append_unique_all_def append_unique_distinct)

lemma merge_sel [simp]:
  "en_method (merge_endpoint a e) = en_method a" "en_path (merge_endpoint a e) = en_path a"
  "en_parameters (merge_endpoint a e) = append_unique_all (en_parameters a) (en_parameters e)"
  "en_notes (merge_endpoint a e) = append_unique_all (en_notes a) (en_notes e)"
  "en_confidence (merge_endpoint a e) = max (en_confidence a) (en_confidence e)"
  by (simp_all add: merge_endpoint_def Let_def)

lemma merge_provenance:
  "en_url (merge_endpoint a e) = (if en_confidence a < en_confidence e then en_url e else en_url a)"
  "en_source (merge_endpoint a e) = (if en_confidence a < en_confidence e then en_source e else en_source a)"
  "en_discovery (merge_endpoint a e) = (if en_confidence a < en_confidence e then en_discovery e else en_discovery a)"
  by (simp_all add: merge_endpoint_def Let_def)

lemma provenance_here: "\<forall>a\<in>set as. en_confidence a < en_confidence e \<Longrightarrow> provenance_of (as @ [e]) e"
  unfolding provenance_of_def by (intro exI [of _ e] exI [of _ as] exI [of _ "[]"]) simp

lemma merged_single: "merged_of [e] e"
  using provenance_here [of "[]" e] by (simp add: merged_of_def)

lemma provenance_merge:
  assumes "provenance_of gs a" and "\<forall>g\<in>set gs. en_confidence g \<le> en_confidence a"
  shows "provenance_of (gs @ [e]) (merge_endpoint a e)"
proof (cases "en_confidence a < en_confidence e")
  case True
  then have "\<forall>g\<in>set gs. en_confidence g < en_confidence e" using assms(2) by force
  from provenance_here [OF this] True show ?thesis by (simp add: provenance_of_def merge_provenance)
next
  case False
  obtain g as bs where "gs = as @ g # bs" "\<forall>x\<in>set as. en_confidence x < en_confidence g" "en_confidence g = en_confidence a"
    "en_url g = en_url a" "en_source g = en_source a" "en_discovery g = en_discovery a"
    using assms(1) unfolding provenance_of_def by blast
  with False show ?thesis unfolding provenance_of_def
    by (intro exI [of _ g] exI [of _ as] exI [of _ "bs @ [e]"]) (simp add: merge_provenance)
qed

lemma merged_merge:
  assumes "merged_of gs a"
  shows "merged_of (gs @ [e]) (merge_endpoint a e)"
proof -
  have m: "gs \<noteq> []" "en_confidence a = Max (en_confidence ` set gs)" "provenance_of gs a"
      "set (en_parameters a) - {[]} = (\<Union>g\<in>set gs. set (en_parameters g)) - {[]}"
      "set (en_notes a) - {[]} = (\<Union>g\<in>set gs. set (en_notes g)) - {[]}" "en_method a = en_method (hd gs)" "en_path a = en_path (hd gs)"
    using assms by (simp_all add: merged_of_def)
  have mx: "max (en_confidence a) (en_confidence e) = Max (en_confidence ` set (gs @ [e]))"
    using m(1,2) by (simp add: max.commute)
  have prov: "provenance_of (gs @ [e]) (merge_endpoint a e)" using m(2) by (intro provenance_merge [OF m(3)]) simp
  have "set (en_parameters (merge_endpoint a e)) - {[]} = (\<Union>g\<in>set (gs @ [e]). set (en_parameters g)) - {[]}"
    "set (en_notes (merge_endpoint a e)) - {[]} = (\<Union>g\<in>set (gs @ [e]). set (en_notes g)) - {[]}"
    using m(4,5) by (simp_all only: merge_sel append_unique_all_set) auto
  with mx prov m(1,6,7) show ?thesis by (simp add: merged_of_def)
qed

text \<open>The state of the merge: the map knows the place of every key, and every endpoint is merged from its candidates.\<close>

definition found_ok :: "found \<Rightarrow> bool" where
  "found_ok st \<longleftrightarrow> (\<forall>k i. snd st k = Some i \<longleftrightarrow> i < length (fst st) \<and> endpoint_key (fst st ! i) = k)"

definition merged_from :: "endpoint list \<Rightarrow> found \<Rightarrow> bool" where
  "merged_from cs st \<longleftrightarrow> found_ok st \<and> endpoint_key ` set (fst st) = endpoint_key ` set cs \<and>
     (\<forall>e\<in>set (fst st). merged_of (filter (\<lambda>g. endpoint_key g = endpoint_key e) cs) e)"

lemma found_ok_distinct: "found_ok st \<Longrightarrow> distinct (map endpoint_key (fst st))"
  unfolding distinct_conv_nth found_ok_def by (metis length_map nth_map option.inject)

lemma add_new_merged:
  assumes "merged_from cs (found, seen)" and none: "seen (endpoint_key e) = None"
  shows "merged_from (cs @ [e]) (found @ [e], seen(endpoint_key e \<mapsto> length found))"
proof -
  have ok: "seen k = Some i \<longleftrightarrow> i < length found \<and> endpoint_key (found ! i) = k" for k i using assms by (simp add: merged_from_def found_ok_def)
  have keys: "endpoint_key ` set found = endpoint_key ` set cs"
    and mrg: "\<And>x. x \<in> set found \<Longrightarrow> merged_of (filter (\<lambda>g. endpoint_key g = endpoint_key x) cs) x" using assms by (auto simp: merged_from_def)
  have other: "endpoint_key (found ! i) \<noteq> endpoint_key e" if "i < length found" for i using ok [of "endpoint_key e" i] none that by simp
  then have new: "endpoint_key e \<notin> endpoint_key ` set cs" unfolding keys [symmetric] by (metis imageE in_set_conv_nth)
  have "endpoint_key g \<noteq> endpoint_key e" if "g \<in> set cs" for g using new that by (metis imageI)
  then have e: "filter (\<lambda>g. endpoint_key g = endpoint_key e) (cs @ [e]) = [e]" by (simp add: filter_empty_conv)
  have "found_ok (found @ [e], seen(endpoint_key e \<mapsto> length found))"
    using ok other by (auto simp: found_ok_def nth_append less_Suc_eq)
  moreover have "merged_of (filter (\<lambda>g. endpoint_key g = endpoint_key x) (cs @ [e])) x" if x: "x \<in> set (found @ [e])" for x
  proof (cases "x \<in> set found")
    case True
    then have "endpoint_key x \<noteq> endpoint_key e" using new keys by (metis imageI)
    then show ?thesis using mrg [OF True] by simp
  next
    case False
    then have "x = e" using x by simp
    then show ?thesis using e merged_single [of e] by simp
  qed
  ultimately show ?thesis using keys by (simp add: merged_from_def)
qed

lemma add_known_merged:
  assumes "merged_from cs (found, seen)" and some: "seen (endpoint_key e) = Some i"
  shows "merged_from (cs @ [e]) (found[i := merge_endpoint (found ! i) e], seen)"
proof -
  let ?m = "merge_endpoint (found ! i) e"
  have ok: "seen k = Some i \<longleftrightarrow> i < length found \<and> endpoint_key (found ! i) = k" for k i using assms by (simp add: merged_from_def found_ok_def)
  have keys: "endpoint_key ` set found = endpoint_key ` set cs"
    and mrg: "\<And>x. x \<in> set found \<Longrightarrow> merged_of (filter (\<lambda>g. endpoint_key g = endpoint_key x) cs) x" using assms by (auto simp: merged_from_def)
  have i: "i < length found" "endpoint_key (found ! i) = endpoint_key e" using ok some by auto
  have key: "endpoint_key ?m = endpoint_key e" using i(2) by (simp add: endpoint_key_def)
  have "found_ok (found[i := ?m], seen)" using ok i key by (auto simp: found_ok_def nth_list_update)
  moreover have "merged_of (filter (\<lambda>g. endpoint_key g = endpoint_key x) (cs @ [e])) x" if x: "x \<in> set (found[i := ?m])" for x
  proof -
    obtain j where j: "j < length found" "x = found[i := ?m] ! j" using x by (auto simp: in_set_conv_nth)
    show ?thesis
    proof (cases "j = i")
      case True
      then have "x = ?m" using j by simp
      then show ?thesis using merged_merge [OF mrg [of "found ! i"], of e] i key by simp
    next
      case False
      then have f: "x = found ! j" using j by simp
      have "endpoint_key x \<noteq> endpoint_key e" using ok [of "endpoint_key e" j] some False j(1) f by auto
      then show ?thesis using mrg [of x] f j(1) by simp
    qed
  qed
  moreover have "map endpoint_key (found[i := ?m]) = map endpoint_key found" using i key by (simp add: map_update list_update_same_conv)
  then have "endpoint_key ` set (found[i := ?m]) = endpoint_key ` set found" by (metis list.set_map)
  moreover have "endpoint_key e \<in> endpoint_key ` set found" using i by (metis imageI nth_mem)
  ultimately show ?thesis using keys by (auto simp: merged_from_def)
qed

lemma add_endpoint_merged:
  assumes "merged_from cs st"
  shows "merged_from (cs @ [e]) (add_endpoint e st)"
  using assms add_new_merged add_known_merged by (cases st) (auto simp: add_endpoint_def split: option.split)

lemma merged_start: "merged_from [] ([], Map.empty)"
  by (simp add: merged_from_def found_ok_def)

section \<open>All candidates go through the merge\<close>

definition candidate_ok :: "endpoint \<Rightarrow> bool" where
  "candidate_ok e \<longleftrightarrow> is_http_method (en_method e) \<and> distinct (en_parameters e) \<and> [] \<notin> set (en_parameters e)"

text \<open>A state that the candidates \<open>obs\<close>, and after them candidates with the source \<open>src\<close>, were merged to.\<close>

definition gathered :: "endpoint list \<Rightarrow> string \<Rightarrow> found \<Rightarrow> bool" where
  "gathered obs src st \<longleftrightarrow>
     (\<exists>ds. merged_from (obs @ ds) st \<and> list_all candidate_ok (obs @ ds) \<and> list_all (\<lambda>c. en_source c = src) ds) \<and>
     list_all candidate_ok (fst st)"

lemma append_unique_nonempty: "[] \<notin> set vs \<Longrightarrow> [] \<notin> set (append_unique v vs)"
  by (simp add: append_unique_def)

lemma append_unique_all_ok:
  "distinct vs \<and> [] \<notin> set vs \<Longrightarrow> distinct (append_unique_all vs ws) \<and> [] \<notin> set (append_unique_all vs ws)"
  by (induction ws arbitrary: vs) (auto simp: append_unique_all_def append_unique_distinct append_unique_nonempty)

lemma query_loop_ok: "distinct ps \<and> [] \<notin> set ps \<Longrightarrow> distinct (query_loop ps q) \<and> [] \<notin> set (query_loop ps q)"
proof (induction ps q rule: query_loop.induct)
  case (1 ps q)
  have step: "distinct (append_unique v ps) \<and> [] \<notin> set (append_unique v ps)" for v
    using "1.prems" by (simp add: append_unique_distinct append_unique_nonempty)
  show ?case
  proof (cases "find_char (CHR ''&'') q")
    case None
    then show ?thesis using step by (simp add: query_loop.simps [of ps q])
  next
    case (Some n)
    then show ?thesis using "1.IH" [OF Some step] by (simp add: query_loop.simps [of ps q])
  qed
qed

lemma query_parameters_ok: "distinct (query_parameters q) \<and> [] \<notin> set (query_parameters q)"
  using query_loop_ok [of "[]" q] by (simp add: query_parameters_def)

lemma add_candidates_ok:
  assumes "found_ok st" and "list_all candidate_ok (fst st)" and "candidate_ok e"
  shows "list_all candidate_ok (fst (add_endpoint e st))"
proof -
  obtain found seen where st: "st = (found, seen)" by fastforce
  have "candidate_ok (merge_endpoint a e)" if "candidate_ok a" for a
    using that append_unique_all_ok [of "en_parameters a" "en_parameters e"] by (simp add: candidate_ok_def)
  moreover have "i < length found" if "seen (endpoint_key e) = Some i" for i using assms(1) that by (simp add: found_ok_def st)
  ultimately show ?thesis using assms(2,3) unfolding st
    by (auto simp: add_endpoint_def list_all_iff split: option.splits dest!: subsetD [OF set_update_subset_insert])
qed

lemma add_gathered:
  assumes "gathered obs src st" and "candidate_ok e" and "en_source e = src"
  shows "gathered obs src (add_endpoint e st)"
proof -
  obtain ds where cs: "merged_from (obs @ ds) st" "list_all candidate_ok (obs @ ds)" "list_all candidate_ok (fst st)" and src: "list_all (\<lambda>c. en_source c = src) ds"
    using assms(1) unfolding gathered_def by blast
  have "merged_from (obs @ (ds @ [e])) (add_endpoint e st)" using add_endpoint_merged [OF cs(1)] by simp
  moreover have "list_all candidate_ok (obs @ (ds @ [e]))" "list_all (\<lambda>c. en_source c = src) (ds @ [e])" using cs(2) src assms(2,3) by simp_all
  moreover have "list_all candidate_ok (fst (add_endpoint e st))" using add_candidates_ok [OF _ cs(3) assms(2)] cs(1) by (simp add: merged_from_def)
  ultimately show ?thesis unfolding gathered_def by (intro conjI exI [of _ "ds @ [e]"])
qed

lemma fold_gathered: "(\<And>x st. x \<in> set xs \<Longrightarrow> gathered obs src st \<Longrightarrow> gathered obs src (f x st)) \<Longrightarrow> gathered obs src st \<Longrightarrow> gathered obs src (fold f xs st)"
  by (induction xs arbitrary: st) auto

lemma new_endpoint_sel [simp]:
  "en_method new_endpoint = ''get''" "en_parameters new_endpoint = []"
  by (simp_all add: new_endpoint_def)

lemma link_gathered: "gathered obs (doc_url doc) st \<Longrightarrow> gathered obs (doc_url doc) (link_step opts base d doc link st)"
  by (auto simp: link_step_def Let_def candidate_ok_def get_known query_parameters_ok intro!: add_gathered split: sum.splits)

lemma address_gathered: "gathered obs src st \<Longrightarrow> gathered obs src (address_step src b c n u st)"
  by (auto simp: address_step_def candidate_ok_def get_known query_parameters_ok intro!: add_gathered split: sum.splits)

lemma inline_gathered: "gathered obs (doc_url doc) st \<Longrightarrow> gathered obs (doc_url doc) (inline_step base doc ep st)"
  using method_known [OF get_known(1) get_known(3), of "se_method ep"]
  by (auto simp: inline_step_def Let_def candidate_ok_def query_parameters_ok intro!: add_gathered split: sum.splits)

lemma form_gathered:
  assumes "gathered obs (doc_url doc) st" and "form_step base d doc form st = Some (Inr st')"
  shows "gathered obs (doc_url doc) st'"
proof (cases "parse_url (resolve_reference base (if element_attribute d (Some form) ''action'' = [] then doc_url doc else element_attribute d (Some form) ''action''))")
  case (Inl e)
  with assms show ?thesis by (auto simp: form_step_def Let_def)
next
  case (Inr u)
  have "distinct (fold append_unique xs []) \<and> [] \<notin> set (fold append_unique xs [])" for xs
    using append_unique_all_ok [of "[]" xs] by (simp add: append_unique_all_def)
  then have ps: "distinct ps \<and> [] \<notin> set ps" if "form_parameters d form = Some (Inr ps)" for ps
    using that by (auto simp: form_parameters_def obind_def split: option.splits sum.splits)
  have m: "is_http_method (method_from_form d form)" by (simp add: method_from_form_def get_known Let_def)
  from assms(2) Inr obtain e ps where e: "form_parameters d form = Some (Inr ps)" "st' = add_endpoint e st" "en_source e = doc_url doc" "en_method e = method_from_form d form"
    "en_parameters e = append_unique_all ps (query_parameters (query u))"
    by (auto simp: form_step_def Let_def obind_def split: option.splits sum.splits)
  have "candidate_ok e" using m e(4,5) append_unique_all_ok [OF ps [OF e(1)]] by (simp add: candidate_ok_def)
  with assms(1) e(2,3) show ?thesis by (simp add: add_gathered)
qed

lemma form_steps_gathered: "gathered obs (doc_url doc) st \<Longrightarrow> form_steps base d doc fs st = Some (Inr st') \<Longrightarrow> gathered obs (doc_url doc) st'"
proof (induction fs arbitrary: st)
  case (Cons f fs)
  then obtain st1 where "form_step base d doc f st = Some (Inr st1)" "form_steps base d doc fs st1 = Some (Inr st')"
    by (auto simp: obind_def split: option.splits sum.splits)
  with Cons form_gathered show ?case by blast
qed simp

lemma script_steps_gathered: "gathered obs (doc_url doc) st \<Longrightarrow> script_steps base d doc ss st = Some st' \<Longrightarrow> gathered obs (doc_url doc) st'"
proof (induction ss arbitrary: st)
  case (Cons s ss)
  from Cons.prems(2) obtain st1 where st1: "script_step base d doc s st = Some st1" "script_steps base d doc ss st1 = Some st'"
    by (auto simp: Option.bind_eq_Some_conv)
  have "gathered obs (doc_url doc) st1" using st1(1) Cons.prems(1)
    by (auto simp: script_step_def intro!: fold_gathered inline_gathered split: if_splits)
  with Cons.IH st1(2) show ?case by blast
qed simp

lemma link_steps_gathered: "gathered obs (doc_url doc) st \<Longrightarrow> link_steps opts base d doc st = Some (Inr st') \<Longrightarrow> gathered obs (doc_url doc) st'"
  by (auto simp: link_steps_def href_step_def resource_step_def Let_def obind_def intro!: fold_gathered link_gathered address_gathered
      split: if_splits option.splits sum.splits)

lemma fold_add_merged:
  assumes "merged_from cs st" "list_all candidate_ok (fst st)" "list_all candidate_ok es"
  shows "merged_from (cs @ es) (fold add_endpoint es st) \<and> list_all candidate_ok (fst (fold add_endpoint es st))"
  using assms
proof (induction es arbitrary: cs st)
  case (Cons e es)
  have "merged_from (cs @ [e]) (add_endpoint e st)" using add_endpoint_merged Cons.prems(1) by blast
  moreover have "list_all candidate_ok (fst (add_endpoint e st))" using add_candidates_ok Cons.prems by (simp add: merged_from_def)
  ultimately show ?case using Cons.IH [of "cs @ [e]" "add_endpoint e st"] Cons.prems(3) by simp
qed simp

text \<open>The observations that the options let in.\<close>

definition observations :: "extractor \<Rightarrow> endpoint list" where
  "observations x =
     (if observe_network (ex_options x) then ex_observed x else []) @ (if inspect_scripts (ex_options x) then ex_scripts x else [])"

lemma observed_state_fold: "observed_state x = fold add_endpoint (observations x) ([], Map.empty)"
  by (simp add: observed_state_def observations_def Let_def)

lemma observed_gathered:
  assumes "list_all candidate_ok (ex_observed x)" "list_all candidate_ok (ex_scripts x)"
  shows "gathered (observations x) src (observed_state x)"
proof -
  have ok: "list_all candidate_ok (observations x)" using assms by (simp add: observations_def)
  have "merged_from (observations x) (observed_state x) \<and> list_all candidate_ok (fst (observed_state x))"
    using fold_add_merged [OF merged_start _ ok] by (simp add: observed_state_fold)
  with ok show ?thesis unfolding gathered_def by (intro conjI exI [of _ "[]"]) simp_all
qed

lemma collect_gathered:
  assumes "list_all candidate_ok (ex_observed x)" "list_all candidate_ok (ex_scripts x)" and "collect_endpoints x d doc = Some (Inr st)"
  shows "gathered (observations x) (doc_url doc) st"
proof -
  have g: "gathered (observations x) (doc_url doc) (observed_state x)"
    using assms(1,2) by (rule observed_gathered)
  obtain base st3 fs st4 where st3: "link_steps (ex_options x) base d doc (observed_state x) = Some (Inr st3)"
    and st4: "form_steps base d doc fs st3 = Some (Inr st4)"
    and rest: "(if \<not> inspect_scripts (ex_options x) then Some (Inr st4)
      else obind (scripts d doc) (\<lambda>ss. map_option Inr (script_steps base d doc ss st4))) = Some (Inr st)"
    using assms(3) unfolding collect_endpoints_def obind_Some_Inr by blast
  have g4: "gathered (observations x) (doc_url doc) st4" using form_steps_gathered [OF link_steps_gathered [OF g st3] st4] .
  show ?thesis
  proof (cases "inspect_scripts (ex_options x)")
    case True
    with rest obtain ss where "script_steps base d doc ss st4 = Some st" by (auto simp: obind_Some_Inr)
    with g4 script_steps_gathered show ?thesis by blast
  qed (use rest g4 in simp)
qed

text \<open>The extractors that arise from a new one by observations.\<close>

definition new_extractor :: "endpoint_options \<Rightarrow> extractor" where
  "new_extractor opts = \<lparr>ex_options = opts, ex_observed = [], ex_scripts = [], ex_dispatcher = False\<rparr>"

definition set_event_dispatcher :: "bool \<Rightarrow> extractor \<Rightarrow> extractor" where
  "set_event_dispatcher b x = x\<lparr>ex_dispatcher := b\<rparr>"

inductive extractor_reachable :: "extractor \<Rightarrow> bool" where
  new_extractor: "extractor_reachable (new_extractor opts)"
| observed: "extractor_reachable x \<Longrightarrow> extractor_reachable (observe m u status content_type x)"
| observed_script: "extractor_reachable x \<Longrightarrow> extractor_reachable (observe_script source script x)"
| dispatching: "extractor_reachable x \<Longrightarrow> extractor_reachable (set_event_dispatcher b x)"

lemma with_address_ok: "is_http_method (en_method e) \<Longrightarrow> en_parameters e = [] \<Longrightarrow> candidate_ok (with_address e)"
  by (auto simp: with_address_def candidate_ok_def query_parameters_ok split: sum.splits)

lemma normalized_known: "is_http_method (normalize_method m ''get'')"
  by (rule method_known [OF get_known(1) get_known(3)])

lemma script_observations_ok: "list_all candidate_ok (script_observations source eps)"
  by (induction source eps rule: script_observations.induct) (auto intro!: with_address_ok normalized_known)

lemma reachable_candidates: "extractor_reachable x \<Longrightarrow> list_all candidate_ok (ex_observed x) \<and> list_all candidate_ok (ex_scripts x)"
proof (induction rule: extractor_reachable.induct)
  case (observed x m u status content_type)
  then show ?case by (auto simp: observe_def intro!: with_address_ok normalized_known)
qed (auto simp: new_extractor_def observe_script_def set_event_dispatcher_def script_observations_ok)

section \<open>Every extraction returns\<close>

definition document_ok :: "dom \<Rightarrow> document \<Rightarrow> bool" where
  "document_ok d doc \<longleftrightarrow> dom_wf d \<and> (case doc_root doc of None \<Rightarrow> True | Some r \<Rightarrow> r < size_dom d)"

lemma obind_returns:
  assumes "\<exists>a. r = Some a" and "\<And>y. r = Some (Inr y) \<Longrightarrow> \<exists>b. f y = Some b"
  shows "\<exists>b. obind r f = Some b"
  using assms by (auto simp: obind_def split: sum.split)

lemma those_returns: "(\<And>x. x \<in> set xs \<Longrightarrow> \<exists>y. f x = Some y) \<Longrightarrow> \<exists>ys. those (map f xs) = Some ys"
proof (induction xs)
  case (Cons x xs)
  from Cons.prems [of x] obtain y where "f x = Some y" by auto
  moreover from Cons obtain ys where "those (map f xs) = Some ys" by auto
  ultimately show ?case by simp
qed simp

lemma query_all_returns:
  assumes "dom_wf d" and "r < size_dom d"
  shows "\<exists>a. query_selector_all d r sel inc = Some a \<and> (\<forall>ns. a = Inr ns \<longrightarrow> list_all (\<lambda>n. n < size_dom d) ns)"
proof (cases "parse sel")
  case (Inr sels)
  obtain ns where ns: "in_document_order d r ns" and res: "collect d r sels False inc = Some (Inl budget_error) \<or>
      collect d r sels False inc = Some (Inr (hits d r sels inc ns))"
    using collect_hits [OF assms parse_complex_ok [OF Inr], of False inc] by auto
  have "n < size_dom d" if "n \<in> set ns" for n
    using that ns assms(2) by (auto simp: in_document_order_def parent_rel_def elim: rtranclE)
  then have "list_all (\<lambda>n. n < size_dom d) (hits d r sels inc ns)" by (auto simp: list_all_iff hits_def)
  with res Inr show ?thesis by (auto simp: query_selector_all_def)
qed (simp add: query_selector_all_def)

lemma document_all_returns:
  assumes "document_ok d doc"
  shows "\<exists>a. document_query_selector_all d doc sel = Some a \<and> (\<forall>ns. a = Inr ns \<longrightarrow> list_all (\<lambda>n. n < size_dom d) ns)"
  using assms query_all_returns [of d _ sel True] by (auto simp: document_ok_def document_query_selector_all_def split: option.splits)

lemma document_all_some: "document_ok d doc \<Longrightarrow> \<exists>a. document_query_selector_all d doc sel = Some a"
  using document_all_returns by blast

lemma document_all_bound:
  "document_ok d doc \<Longrightarrow> document_query_selector_all d doc sel = Some (Inr ns) \<Longrightarrow> list_all (\<lambda>n. n < size_dom d) ns"
  using document_all_returns [of d doc sel] by auto

lemma base_returns:
  assumes "document_ok d doc"
  shows "\<exists>a. base_url d doc = Some a"
proof -
  have "\<exists>a. document_query_selector d doc ''base[href]'' = Some a"
  proof (cases "doc_root doc")
    case (Some r)
    with assms have "dom_wf d" "r < size_dom d" by (simp_all add: document_ok_def)
    then have "\<exists>a. collect d r sels True True = Some a" for sels using collect_preorder by blast
    with Some show ?thesis by (auto simp: document_query_selector_def query_selector_def split: sum.split)
  qed (simp add: document_query_selector_def)
  then show ?thesis unfolding base_url_def by (auto intro!: obind_returns simp: Let_def)
qed

lemma resources_return:
  assumes "document_ok d doc"
  shows "\<exists>a. resource_urls d doc = Some a"
proof -
  have "\<exists>u. resource_url d doc ref = Some u" for ref
    using base_returns [OF assms] by (auto simp: resource_url_def split: sum.split)
  then have "\<exists>us. those (map (resource_url d doc) refs) = Some us" for refs by (intro those_returns)
  then show ?thesis unfolding resource_urls_def by (intro obind_returns document_all_some [OF assms]) simp
qed

lemma link_steps_return: "document_ok d doc \<Longrightarrow> \<exists>a. link_steps opts base d doc st = Some a"
  by (auto simp: link_steps_def document_links_def Let_def intro!: obind_returns document_all_some resources_return)

lemma form_steps_return:
  assumes "dom_wf d"
  shows "list_all (\<lambda>n. n < size_dom d) fs \<Longrightarrow> \<exists>a. form_steps base d doc fs st = Some a"
proof (induction fs arbitrary: st)
  case (Cons f fs)
  have "\<exists>a. form_parameters d f = Some a"
    using query_all_returns [OF assms, of f "''input[name], select[name], textarea[name]''" False] Cons.prems
    unfolding form_parameters_def element_query_selector_all_def by (intro obind_returns) auto
  then have "\<exists>a. form_step base d doc f st = Some a"
    by (auto simp: form_step_def Let_def intro!: obind_returns split: sum.split)
  with Cons show ?case by (auto intro!: obind_returns)
qed simp

lemma script_steps_return:
  assumes "dom_wf d"
  shows "list_all (\<lambda>n. n < size_dom d) ss \<Longrightarrow> \<exists>a. script_steps base d doc ss st = Some a"
proof (induction ss arbitrary: st)
  case (Cons s ss)
  have "\<exists>a. script_step base d doc s st = Some a"
    using tree_at_total [OF assms, of s] Cons.prems by (auto simp: script_step_def element_text_def text_content_def)
  with Cons show ?case by auto
qed simp

lemma extract_returns:
  assumes "document_ok d doc"
  shows "\<exists>res. extract_endpoints x d doc = Some res"
proof -
  have wf: "dom_wf d" using assms by (simp add: document_ok_def)
  have scan: "\<exists>a. obind (document_query_selector_all d doc ''script'') (\<lambda>ss. map_option Inr (script_steps base d doc ss st)) = Some a" for base and st :: found
    using script_steps_return [OF wf document_all_bound [OF assms]] by (intro obind_returns document_all_some [OF assms]) (metis option.map(2))
  have "\<exists>a. collect_endpoints x d doc = Some a"
    unfolding collect_endpoints_def forms_def scripts_def
    by (intro obind_returns base_returns link_steps_return form_steps_return [OF wf] assms document_all_some document_all_bound [OF assms])
      (simp_all add: scan)
  then show ?thesis unfolding extract_endpoints_def by (intro obind_returns) auto
qed

section \<open>The result of an extraction\<close>

lemma merged_of_params: "merged_of gs e \<Longrightarrow> merged_of gs (e\<lparr>en_parameters := sort (en_parameters e)\<rparr>)"
proof -
  have "provenance_of gs (e\<lparr>en_parameters := sort (en_parameters e)\<rparr>) = provenance_of gs e" by (simp add: provenance_of_def)
  then show "merged_of gs e \<Longrightarrow> merged_of gs (e\<lparr>en_parameters := sort (en_parameters e)\<rparr>)" by (simp add: merged_of_def)
qed

lemma distinct_operations: "distinct (map endpoint_key es) \<Longrightarrow> distinct (map (\<lambda>e. [en_path e, en_method e]) es)"
  by (induction es) (auto simp: endpoint_key_def image_iff)

lemma strictly_sorted_key: "distinct (map f es) \<Longrightarrow> sorted_wrt (\<lambda>a b. f a < f b) (sort_key f es)"
proof -
  assume "distinct (map f es)"
  then have "distinct (map f (sort_key f es))" by (simp add: distinct_map)
  then have "sorted_wrt (<) (map f (sort_key f es))" using strict_sorted_iff by fastforce
  then show ?thesis by (simp add: sorted_wrt_map)
qed

lemma key_inject:
  assumes "endpoint_key a = endpoint_key b" and "is_http_method (en_method a)" "is_http_method (en_method b)"
  shows "en_method a = en_method b \<and> en_path a = en_path b"
  using assms by (auto simp: endpoint_key_def is_http_method_def)

text \<open>
  What the result of an extraction has to be: strictly ordered operations, merged from the observations that the options let in and, after them, candidates
  with the document as their source.  Every merged operation is in the result, or warned about.
\<close>

definition extraction_ok :: "extractor \<Rightarrow> document \<Rightarrow> extraction \<Rightarrow> bool" where
  "extraction_ok x doc r \<longleftrightarrow>
    sorted_wrt (\<lambda>a b. [en_path a, en_method a] < [en_path b, en_method b]) (xr_endpoints r) \<and>
    (\<exists>ds cs merged. cs = observations x @ ds \<and> list_all (\<lambda>c. en_source c = doc_url doc) ds \<and>
      (\<forall>c\<in>set cs. \<exists>e\<in>set merged. en_method e = en_method c \<and> en_path e = en_path c) \<and>
      (\<forall>e\<in>set merged. merged_of (filter (\<lambda>c. endpoint_key c = endpoint_key e) cs) e \<and>
        (if en_confidence e < minimum_confidence (ex_options x) then low_confidence_warning e \<in> set (xr_warnings r)
         else e\<lparr>en_parameters := sort (en_parameters e)\<rparr> \<in> set (xr_endpoints r))) \<and>
      (\<forall>e\<in>set (xr_endpoints r). is_http_method (en_method e) \<and> minimum_confidence (ex_options x) \<le> en_confidence e \<and>
        sorted_wrt (<) (en_parameters e) \<and> [] \<notin> set (en_parameters e) \<and>
        merged_of (filter (\<lambda>c. endpoint_key c = endpoint_key e) cs) e))"

lemma extraction_sound:
  assumes "extractor_reachable x" and "extract_endpoints x d doc = Some (Inr r)"
  shows "extraction_ok x doc r"
proof -
  from assms(2) obtain found seen where col: "collect_endpoints x d doc = Some (Inr (found, seen))" and r: "r = finish_extraction x found"
    by (auto simp: extract_endpoints_def obind_def split: option.splits sum.splits)
  have "gathered (observations x) (doc_url doc) (found, seen)" using collect_gathered [OF _ _ col] reachable_candidates [OF assms(1)] by blast
  then obtain ds where ds: "merged_from (observations x @ ds) (found, seen)" "list_all candidate_ok (observations x @ ds)"
    and src: "list_all (\<lambda>c. en_source c = doc_url doc) ds" and ok: "list_all candidate_ok found" unfolding gathered_def by auto
  define cs where "cs = observations x @ ds"
  note cs = ds [folded cs_def]
  let ?low = "\<lambda>e. en_confidence e < minimum_confidence (ex_options x)" and ?tidy = "\<lambda>e. e\<lparr>en_parameters := sort (en_parameters e)\<rparr>"
  define kept where "kept = map ?tidy (filter (\<lambda>e. \<not> ?low e) found)"
  have es: "xr_endpoints r = sort_key (\<lambda>e. [en_path e, en_method e]) kept" "xr_warnings r = map low_confidence_warning (filter ?low found)"
    by (simp_all add: r finish_extraction_def Let_def kept_def)
  have "distinct (map endpoint_key found)" using found_ok_distinct [of "(found, seen)"] cs(1) by (simp add: merged_from_def)
  moreover have "map endpoint_key kept = map endpoint_key (filter (\<lambda>e. \<not> ?low e) found)" by (simp add: kept_def endpoint_key_def comp_def)
  ultimately have "distinct (map endpoint_key kept)" by (simp only: distinct_map_filter)
  then have sorted: "sorted_wrt (\<lambda>a b. [en_path a, en_method a] < [en_path b, en_method b]) (xr_endpoints r)"
    unfolding es(1) by (intro strictly_sorted_key distinct_operations)
  have all: "merged_of (filter (\<lambda>c. endpoint_key c = endpoint_key e) cs) e \<and>
      (if ?low e then low_confidence_warning e \<in> set (xr_warnings r) else ?tidy e \<in> set (xr_endpoints r))" if "e \<in> set found" for e
    using cs(1) that by (simp add: merged_from_def es kept_def)
  have every: "\<exists>e\<in>set found. en_method e = en_method c \<and> en_path e = en_path c" if c: "c \<in> set cs" for c
  proof -
    have "endpoint_key c \<in> endpoint_key ` set found" using cs(1) c by (simp add: merged_from_def)
    then obtain e where e: "e \<in> set found" "endpoint_key e = endpoint_key c" by auto
    then have "is_http_method (en_method e)" "is_http_method (en_method c)" using ok cs(2) c by (auto simp: list_all_iff candidate_ok_def)
    then show ?thesis using e key_inject by blast
  qed
  have result: "is_http_method (en_method e) \<and> minimum_confidence (ex_options x) \<le> en_confidence e \<and> sorted_wrt (<) (en_parameters e) \<and>
      [] \<notin> set (en_parameters e) \<and> merged_of (filter (\<lambda>c. endpoint_key c = endpoint_key e) cs) e" if e: "e \<in> set (xr_endpoints r)" for e
  proof -
    obtain a where a: "a \<in> set found" "\<not> ?low a" "e = ?tidy a" using e by (auto simp: es kept_def)
    have "candidate_ok a" using ok a(1) by (simp add: list_all_iff)
    then have "sorted_wrt (<) (sort (en_parameters a))" using strict_sorted_iff [of "sort (en_parameters a)"] by (simp add: candidate_ok_def)
    moreover have "endpoint_key e = endpoint_key a" using a(3) by (simp add: endpoint_key_def)
    ultimately show ?thesis using a \<open>candidate_ok a\<close> all [OF a(1)] merged_of_params by (simp add: candidate_ok_def)
  qed
  have "\<forall>c\<in>set cs. \<exists>e\<in>set found. en_method e = en_method c \<and> en_path e = en_path c"
    "\<forall>e\<in>set found. merged_of (filter (\<lambda>c. endpoint_key c = endpoint_key e) cs) e \<and>
      (if ?low e then low_confidence_warning e \<in> set (xr_warnings r) else ?tidy e \<in> set (xr_endpoints r))"
    "\<forall>e\<in>set (xr_endpoints r). is_http_method (en_method e) \<and> minimum_confidence (ex_options x) \<le> en_confidence e \<and> sorted_wrt (<) (en_parameters e) \<and>
      [] \<notin> set (en_parameters e) \<and> merged_of (filter (\<lambda>c. endpoint_key c = endpoint_key e) cs) e"
    using every all result by blast+
  note parts = this
  show ?thesis unfolding extraction_ok_def
    by (rule conjI [OF sorted], rule exI [of _ ds], rule exI [of _ cs], rule exI [of _ found], intro conjI) (rule cs_def src parts)+
qed


lemma rootless_extraction:
  "doc_root doc = None \<Longrightarrow> extract_endpoints x d doc = Some (Inr (finish_extraction x (fst (observed_state x))))"
  by (cases "observed_state x")
    (simp add: extract_endpoints_def collect_endpoints_def base_url_def link_steps_def document_links_def resource_urls_def forms_def scripts_def
      document_query_selector_def document_query_selector_all_def element_attribute_def obind_def Let_def)

definition sample_options :: endpoint_options where
  "sample_options = \<lparr>follow_links = True, inspect_scripts = True, observe_network = True, infer_schemas = True, include_provenance = True,
     redact_secrets = True, minimum_confidence = 0, openapi_version = ''3.1.0'', scrape_all_paths = False\<rparr>"


section \<open>The rendered document\<close>

text \<open>Reading a single-quoted scalar: a doubled quote is a quote, the scalar ends at a single one, and nothing else is special.\<close>

fun yaml_body :: "string \<Rightarrow> (string \<times> string) option" where
  "yaml_body [] = None"
| "yaml_body (c # s) =
     (if c \<noteq> CHR 0x27 then map_option (\<lambda>(v, rest). (c # v, rest)) (yaml_body s)
      else case s of
          [] \<Rightarrow> Some ([], [])
        | b # t \<Rightarrow> if b = CHR 0x27 then map_option (\<lambda>(v, rest). (CHR 0x27 # v, rest)) (yaml_body t) else Some ([], s))"

lemma yaml_body_quoted:
  assumes "\<And>t. rest \<noteq> CHR 0x27 # t"
  shows "CHR 0x0A \<notin> set s \<Longrightarrow> yaml_body (concat (map yaml_quote_char s) @ CHR 0x27 # rest) = Some (s, rest)"
proof (induction s)
  case Nil
  then show ?case using assms by (cases rest) auto
qed (auto simp: yaml_quote_char_def)

text \<open>A name without newlines is read back from its scalar, wherever the scalar ends; a newline is read back as a backslash and an \<open>n\<close>, which single quotes do not interpret.\<close>

lemma yaml_quote_roundtrip:
  assumes "CHR 0x0A \<notin> set s"
  shows "hd (yaml_quote s) = CHR 0x27 \<and> yaml_body (tl (yaml_quote s @ [CHR 0x0A])) = Some (s, [CHR 0x0A])"
  using yaml_body_quoted [OF _ assms, of "[CHR 0x0A]"] by (simp add: yaml_quote_def)

lemma yaml_newline_lost: "yaml_quote [CHR ''a'', CHR 0x0A] = yaml_quote [CHR ''a'', CHR 0x5C, CHR ''n'']"
  by (simp add: yaml_quote_def yaml_quote_char_def)

text \<open>Different operations can get the same \<open>operationId\<close>.\<close>

lemma operation_id_collision: "operation_id ''get'' ''/a/b'' = operation_id ''get'' ''/a-b''"
  by (simp add: operation_id_def Let_def char_class is_alnum_def lower_char_def)

text \<open>Of several calls in an external script only the first keeps the script as its source.\<close>

lemma with_address_source [simp]: "en_source (with_address e) = en_source e"
  by (simp add: with_address_def split: sum.split)

lemma script_source_lost:
  assumes "se_url a \<noteq> []" and "se_url b \<noteq> []"
  shows "map en_source (script_observations src [a, b]) = [src, []]"
  using assms by simp

end
