(* ===== verification/Spec2Isabelle.thy ===== *)
theory Spec2Isabelle
  imports Html_Roundtrip Dom_Document Redaction Capability Ir_Vtd Ir_Iml Ir_Events Ir_Registry Gfx_Live Rpc_Module Storage Cookie_Import Event_Dispatch Ir_Filter Anti_Bot Http_Proxy Cdp Pdql_Query Endpoint_Extract
begin

text \<open>
  A verification development of ProwseTk, an embeddable browsing toolkit in C++.  File names are those of the
  repository: \<^verbatim>\<open>src/flatworm\<close> is its HTML engine, \<^verbatim>\<open>src/core\<close> the toolkit around it, and
  \<^verbatim>\<open>flatworm-modules/rpc\<close> a JSON-RPC module.

  \<^bold>\<open>The program.\<close>  A page is text.  The tokenizer and the tree builder make a DOM of it, a store of nodes
  linked by parent and children; the serializer writes the DOM back; selectors query it; the \<open>Document\<close> and
  \<open>Element\<close> classes are handles on the nodes through which hosts and scripts read and change it.  From a document
  the IR layer derives a flat sequence of events with the paths of the elements, which is filtered by XPath
  expressions, written in a text form (IML) and in a binary one (VTD), and drawn as a preview in a second binary
  format (GFX); emitters of such forms are kept in a registry.  Requests go through proxies over sockets, which also
  carry WebSockets; cookies and key/value storage are kept per session; secrets are redacted from
  URLs and headers; capabilities say what a plugin may do; an event dispatcher tells handlers what happens; responses are
  inspected for anti-bot challenges.

  \<^bold>\<open>Shared theories.\<close>  \<open>Prelude\<close> has the error values (\<open>error\<close> and the result type), characters, searching in
  strings and the collections of simplification rules; \<open>Interfaces\<close> the locales that several components share (scanners,
  sinks, bounded counters, sets and registries), each interpreted in the theory of the component that provides it;
  \<open>Decimal\<close>, \<open>Utf8\<close>, \<open>Binary64\<close> and \<open>Wire\<close> have printed numbers, UTF-8, doubles and little-endian integers.

  \<^bold>\<open>The HTML engine.\<close>  \<open>Html_Syntax\<close> models \<^verbatim>\<open>html_syntax.cpp\<close> and \<^verbatim>\<open>html_entities.cpp\<close>, \<open>Html_Tokenizer\<close> and
  \<open>Html_Parser\<close> the files of the same names, \<open>Html_Serializer\<close> the serializer.  \<open>Dom_Store\<close> is the node store of
  \<^verbatim>\<open>dom_node.cpp\<close>: an address is the position of a node in creation order, and \<open>dom_wf\<close> says that parent and child
  links agree and are acyclic.  \<open>Dom_Tree\<close> reads the tree below a node, \<open>Dom_Order\<close> its document order.
  \<open>Dom_Element\<close> and \<open>Dom_Document\<close> are the two classes of \<^verbatim>\<open>dom.cpp\<close>.  Shown: every token makes progress and has its
  shape; the parser builds exactly the tree of an abstract builder, within its limits; escaping and decoding are inverse, and
  parsing what the serializer wrote gives the same tree (\<open>Html_Roundtrip\<close>); every sequence of calls keeps the store
  well-formed; the effect of each operation.

  \<^bold>\<open>Selectors.\<close>  \<open>Selector_Model\<close>, \<open>Selector_Parser\<close>, \<open>Selector_Matcher\<close> and \<open>Css_Selector\<close>: parsing with its
  limits, matching with its budget against the meaning of a selector on the tree, and queries in document order.

  \<^bold>\<open>IR and drawing.\<close>  \<open>Ir_Layout\<close>, \<open>Ir_Model\<close>, \<open>Event_Stream\<close>, \<open>Ir_Vtd\<close>, \<open>Ir_Iml\<close>, \<open>Ir_Events\<close>, \<open>Ir_Filter\<close>,
  \<open>Ir_Registry\<close>, \<open>Gfx_Encoding\<close>, \<open>Gfx_Ir\<close> and \<open>Gfx_Live\<close> model the files \<^verbatim>\<open>ir_*.cpp\<close>, \<^verbatim>\<open>event_stream.cpp\<close> and
  \<^verbatim>\<open>gfx_*.cpp\<close>.  Shown: paths identify elements, the event sequence is the traversal of the tree, encodings decode to what
  was encoded and are canonical, filters select whole subtrees, and a preview is produced within its bounds.

  \<^bold>\<open>Requests and sessions.\<close>  \<open>Url\<close>, \<open>Redaction\<close>, \<open>Capability\<close>, \<open>Cookie_Jar\<close>, \<open>Cookie_Json\<close>, \<open>Cookie_Import\<close>,
  \<open>Storage\<close>, \<open>Event_Dispatch\<close> and \<open>Anti_Bot\<close> model the files of \<^verbatim>\<open>src/core\<close> with these names.  \<open>Http_Message\<close>, \<open>Http_Socket\<close>,
  \<open>Http_Proxy\<close> and \<open>Web_Socket\<close> model \<^verbatim>\<open>network_client.cpp\<close>: what the operating system returns from a read or a write
  is an input there.  Shown: resolution of dot segments against a reference definition, URLs and proxies that print and
  parse back, no secret left in a redacted URL, which cookies a request carries, isolation of sessions, responses read
  back however they are split into reads, and WebSocket messages assembled from their frames.  \<open>Cdp\<close> is the DevTools
  client of \<^verbatim>\<open>cdp.cpp\<close> over such a socket: its event queue stays bounded, and a result belongs to the command it answers.

  \<^bold>\<open>JSON-RPC.\<close>  \<open>Rpc_Json\<close>, \<open>Rpc_Parser\<close>, \<open>Rpc_Roundtrip\<close> and \<open>Rpc_Json_Correct\<close> model values, encoder and parser and show that they are
  inverse; \<open>Rpc_Protocol\<close>, \<open>Rpc_Ids\<close> and \<open>Rpc_Correlate\<close> model requests, responses and their correlation;
  \<open>Rpc_Module\<close> has the callbacks of the module and its automatic identifiers.

  \<^bold>\<open>Queries on pages.\<close>  \<open>Pdql\<close> and \<open>Pdql_Query\<close> model \<^verbatim>\<open>src/pdql/pdql.cpp\<close>, which joins the parts above: it takes a snapshot of a document,
  redacts it, selects elements by a glob or by XPath and projects them to rows.  Shown: the glob matcher agrees with the
  meaning of globs, redaction leaves nothing private on any element, a compiled query returns the rows of exactly the matching
  elements within its limits, and rows in JSON are read back by the parser of \<open>Rpc_Parser\<close>.

  \<^bold>\<open>Endpoints.\<close>  \<open>Endpoint_Script\<close> and \<open>Endpoint_Extract\<close> model \<^verbatim>\<open>src/endpoint/endpoint_extraction.cpp\<close>: the scanner of scripts and the
  extractor, which merges observed requests with the links, resources, forms and scripts of a document and renders an OpenAPI
  text.  Shown: literal calls are found wherever they stand; an extraction returns, its operations are strictly ordered, and each
  has the best provenance and all parameters of the candidates it is merged from.

  \<^bold>\<open>Loops and bounds.\<close>  A loop is structural recursion or has a measure.  Walks over the links of a store, which need not
  end in a malformed one, are partial functions with \<open>None\<close> for a walk that does not return, or take as fuel the number of
  nodes; both are shown to return on every well-formed store.  The JSON parser has the depth limit of the source as
  its fuel and the length of the input for its loops; the parser of cookie files has twice the length plus two, and both
  are shown to be enough.  Reading a chunked body is a partial function, since in the source it may
  really loop (\<open>chunk_size_overflow_hangs\<close>).  Integers whose width matters are words or are
  taken modulo a power of two; positions and counters that cannot reach their bound are natural numbers.

  \<^bold>\<open>Not modelled.\<close>  The bindings to Lua, QuickJS, WebAssembly and plugins, the connections themselves (system calls, TLS, SOCKS5,
  the WebSocket handshake), persistent storage over third-party databases, the adapters to third-party HTML and XPath
  parsers, graphics back ends, project configuration (fields copied out of a third-party parser), the browser that composes page loads
  with scripts, the tools and the command line.  They are calls into code outside the repository, or input and output around
  what is modelled.  Mutexes are not modelled: each method that takes one is a single step.
\<close>

end
